(* ===== verification/Kernel_Prelude.thy ===== *)
theory Kernel_Prelude
  imports Main "HOL-Library.Word"
begin

text \<open>
  Shared vocabulary of the development: the C integer types of \<open>types.h\<close> as machine words, the
  ways a kernel routine can fail to return, the sequencing of fallible steps, and the generic
  facts on words and lists that the component theories share.
\<close>

unbundle bit_operations_syntax

section \<open>C integer types\<close>

type_synonym u8 = "8 word"
type_synonym u16 = "16 word"
type_synonym u32 = "32 word"
type_synonym u64 = "64 word"

section \<open>Outcomes of a kernel routine\<close>

text \<open>
  A routine that returns yields \<open>Inr\<close> of its result and its new state. \<open>panic(msg)\<close> prints and
  then loops forever, a dereference of a null pointer traps, a loop whose guard can never become
  false does not come back, and an access outside an array has no defined result: the four are
  the values below.
\<close>

datatype kerror =
    Panic string
  | NullDeref string
  | Hang string
  | OutOfBounds string

type_synonym 'a outcome = "kerror + 'a"

definition bindE :: "'a outcome \<Rightarrow> ('a \<Rightarrow> 'b outcome) \<Rightarrow> 'b outcome" where
  "bindE m f = (case m of Inl e \<Rightarrow> Inl e | Inr x \<Rightarrow> f x)"

lemma bindE_simps [simp]:
  "bindE (Inl e) f = Inl e"
  "bindE (Inr x) f = f x"
  by (simp_all add: bindE_def)

lemma bindE_Inr_iff: "bindE m f = Inr y \<longleftrightarrow> (\<exists>x. m = Inr x \<and> f x = Inr y)"
  by (cases m) auto

lemma bindE_Inl_iff: "bindE m f = Inl e \<longleftrightarrow> m = Inl e \<or> (\<exists>x. m = Inr x \<and> f x = Inl e)"
  by (cases m) auto

lemma bindE_cong [fundef_cong]:
  "m = m' \<Longrightarrow> (\<And>x. m' = Inr x \<Longrightarrow> f x = f' x) \<Longrightarrow> bindE m f = bindE m' f'"
  by (cases m') auto

lemma bindE_assoc: "bindE (bindE m f) g = bindE m (\<lambda>x. bindE (f x) g)"
  by (cases m) auto

text \<open>A \<open>for\<close> loop over the elements of a list whose body may fail.\<close>

primrec forE :: "('i \<Rightarrow> 's \<Rightarrow> 's outcome) \<Rightarrow> 'i list \<Rightarrow> 's \<Rightarrow> 's outcome" where
  "forE f [] s = Inr s"
| "forE f (i # is) s = bindE (f i s) (forE f is)"

lemma forE_append: "forE f (is @ js) s = bindE (forE f is s) (forE f js)"
  by (induction "is" arbitrary: s) (auto simp: bindE_def split: sum.splits)

text \<open>An invariant indexed by the part of the list already visited, kept by each turn of the loop.\<close>

lemma forE_induct:
  assumes "P [] s"
    and "\<And>pre i post s. xs = pre @ i # post \<Longrightarrow> P pre s \<Longrightarrow> \<exists>s'. f i s = Inr s' \<and> P (pre @ [i]) s'"
  shows "\<exists>s'. forE f xs s = Inr s' \<and> P xs s'"
proof -
  have "\<exists>s'. forE f post s = Inr s' \<and> P (pre @ post) s'" if "xs = pre @ post" "P pre s" for pre post s
    using that
  proof (induction post arbitrary: pre s)
    case Nil
    then show ?case by simp
  next
    case (Cons i post)
    from assms(2) [OF Cons.prems] obtain s' where "f i s = Inr s'" "P (pre @ [i]) s'" by blast
    with Cons.IH [of "pre @ [i]" s'] Cons.prems(1) show ?case by auto
  qed
  from this [of "[]" xs s] assms(1) show ?thesis by simp
qed

section \<open>Word arithmetic through natural numbers\<close>

text \<open>
  Address arithmetic is done on \<^typ>\<open>64 word\<close> as the code does it; the proofs move to \<open>unat\<close>,
  where linear arithmetic applies. The facts that do so are collected in \<open>addr_simps\<close>.
\<close>

named_theorems addr_simps \<open>from 64-bit address arithmetic to natural numbers\<close>

lemma and_not_mask_shift: "w AND NOT (mask n) = push_bit n (drop_bit n w)"
  for w :: "'a::len word"
  by (rule bit_word_eqI) (auto simp: bit_simps)

lemma unat_push_drop: "unat (push_bit n (drop_bit n w)) = 2 ^ n * (unat w div 2 ^ n)"
  for w :: "'a::len word"
proof -
  have "2 ^ n * (unat w div 2 ^ n) \<le> unat w" by simp
  also have "unat w < 2 ^ LENGTH('a)" by simp
  finally have less: "2 ^ n * (unat w div 2 ^ n) < 2 ^ LENGTH('a)" .
  have "unat (push_bit n (drop_bit n w)) = take_bit LENGTH('a) (push_bit n (drop_bit n (unat w)))"
    by (simp only: unsigned_push_bit_eq unat_drop_bit_eq)
  also have "\<dots> = take_bit LENGTH('a) (2 ^ n * (unat w div 2 ^ n))"
    by (simp add: push_bit_eq_mult drop_bit_eq_div mult.commute)
  also have "\<dots> = 2 ^ n * (unat w div 2 ^ n)"
    using less by (simp add: take_bit_nat_eq_self)
  finally show ?thesis .
qed

lemma unat_and_mask: "unat (w AND mask n) = unat w mod 2 ^ n"
  for w :: "'a::len word"
proof -
  have "unat (w AND mask n) = take_bit n (unat w)"
    by (simp only: take_bit_eq_mask [symmetric] unsigned_take_bit_eq)
  then show ?thesis by (simp add: take_bit_eq_mod)
qed

lemma unat_drop_bit: "unat (drop_bit n w) = unat w div 2 ^ n"
  for w :: "'a::len word"
  unfolding unat_drop_bit_eq by (simp add: drop_bit_eq_div)

lemma unat_lt_2p64 [simp]: "unat (x :: u64) < 18446744073709551616"
  using unsigned_less [of x] by simp

lemma unat_sub_range [addr_simps]:
  fixes x b :: u64
  shows "unat b + k \<le> 2 ^ 64 \<Longrightarrow> unat (x - b) < k \<longleftrightarrow> unat b \<le> unat x \<and> unat x < unat b + k"
  using unsigned_less [of x] by (auto simp: unat_sub_if_size word_size)

lemma unat_add_nowrap:
  fixes a b :: u64
  shows "unat a + unat b < 2 ^ 64 \<Longrightarrow> unat (a + b) = unat a + unat b"
  by (simp add: unat_word_ariths)

lemma unat_add_of_nat [addr_simps]:
  fixes a :: u64
  shows "unat a + k < 2 ^ 64 \<Longrightarrow> unat (a + of_nat k) = unat a + k"
  by (simp add: unat_word_ariths unat_of_nat)

lemma unat_plus_one:
  fixes a b :: u64
  shows "unat a < unat b \<Longrightarrow> unat (a + 1) = unat a + 1"
proof -
  assume "unat a < unat b"
  moreover have "unat b < 2 ^ 64" by simp
  ultimately have "unat a + unat (1 :: u64) < 2 ^ 64" unfolding unat_1 by linarith
  then show ?thesis by (simp add: unat_add_nowrap)
qed

lemma unat_sub_le:
  fixes a b :: u64
  shows "unat b \<le> unat a \<Longrightarrow> unat (a - b) = unat a - unat b"
  by (simp add: unat_sub word_le_nat_alt)

lemma word_eq_unatI: "unat x = unat y \<Longrightarrow> x = y"
  for x y :: "'a::len word"
  by (simp add: word_unat_eq_iff)

lemma unat_eqD: "unat x = n \<Longrightarrow> x = of_nat n"
  for x :: "'a::len word"
  by auto

section \<open>Index lists\<close>

lemma upt_split_map: "map f [0..<n + k] = map f [0..<n] @ map (\<lambda>i. f (n + i)) [0..<k]"
  by (rule nth_equalityI) (auto simp: nth_append)

section \<open>Non-negative C integers\<close>

text \<open>An \<open>int\<close> that is not negative reads the same signed and unsigned.\<close>

lemma uint_less_iff: "uint x < int n \<longleftrightarrow> unat x < n"
  by (simp only: uint_nat of_nat_less_iff)

lemma sint_small: "unat x < 2 ^ 31 \<Longrightarrow> sint x = uint x" for x :: u32
proof -
  assume "unat x < 2 ^ 31"
  then have "uint x < 2 ^ 31" using uint_less_iff [of x "2 ^ 31"] by simp
  moreover have "- (2 ^ 31) \<le> uint x" by (rule order_trans [of _ 0]) simp_all
  ultimately have "signed_take_bit 31 (uint x) = uint x"
    by (intro signed_take_bit_int_eq_self)
  then show ?thesis by (simp add: sint_uint)
qed

lemma nonneg_iff: "\<not> x <s 0 \<longleftrightarrow> unat x < 2 ^ 31" for x :: u32
proof
  assume "\<not> x <s 0"
  then have "0 \<le> sint x" by (simp add: word_sless_alt)
  moreover have "uint x = sint x mod 2 ^ 32"
  proof -
    have "uint x = uint (word_of_int (sint x) :: u32)" by simp
    then show ?thesis by (simp only: uint_word_of_int) simp
  qed
  ultimately have "uint x < 2 ^ 31" using sint_lt [of x] by simp
  then show "unat x < 2 ^ 31" using uint_less_iff [of x "2 ^ 31"] by simp
next
  assume "unat x < 2 ^ 31"
  then show "\<not> x <s 0" by (simp add: word_sless_alt sint_small)
qed

lemma sless_small: "unat x < 2 ^ 31 \<Longrightarrow> unat y < 2 ^ 31 \<Longrightarrow> x <s y \<longleftrightarrow> unat x < unat y" for x y :: u32
  by (simp only: word_sless_alt sint_small uint_nat of_nat_less_iff)

lemma scast_small: "unat x < 2 ^ 31 \<Longrightarrow> (scast x :: u64) = of_nat (unat x)" for x :: u32
  by (simp only: scast_eq sint_small uint_nat of_int_of_nat_eq)

lemma ucast_unat: "(ucast x :: u64) = of_nat (unat x)" for x :: u32
  by transfer simp

lemma unat_ucast64: "unat (ucast x :: u64) = unat x" for x :: u32
proof -
  have "unat x < 2 ^ 32" using unsigned_less [of x] by simp
  then have "unat x < 2 ^ 64" by simp
  then show ?thesis by (simp only: ucast_unat unat_of_nat) simp
qed

end
