(* ===== verification/Memlayout.thy ===== *)
theory Memlayout
  imports Kernel_Prelude
begin

text \<open>
  The constants and macros of \<open>memlayout.h\<close>, \<open>param.h\<close> and the page-table part of \<open>riscv.h\<close>, with
  the arithmetic the memory-management code relies on: rounding to pages, the Sv39 split of a
  virtual address, and the packing of a physical page number with flag bits in a PTE.
\<close>

section \<open>Sizes and limits\<close>

definition NPROC :: nat where [simp]: "NPROC = 4"
definition NOFILE :: nat where [simp]: "NOFILE = 16"
definition NFILE :: nat where [simp]: "NFILE = 100"
definition MAXARG :: nat where [simp]: "MAXARG = 32"
definition NBUF :: nat where [simp]: "NBUF = 10 * 3"
definition MAXPATH :: nat where [simp]: "MAXPATH = 128"

section \<open>Address map\<close>

definition PGSIZE :: u64 where [simp]: "PGSIZE = 4096"
definition PGSHIFT :: nat where [simp]: "PGSHIFT = 12"

definition UART0 :: u64 where "UART0 = 0x10000000"
definition UART0_IRQ :: u32 where "UART0_IRQ = 10"
definition PLIC :: u64 where "PLIC = 0x0c000000"
definition KERNBASE :: u64 where "KERNBASE = 0x80000000"
definition PHYSTOP :: u64 where "PHYSTOP = KERNBASE + 128 * 1024 * 1024"

definition MAXVA :: u64 where "MAXVA = push_bit (9 + 9 + 9 + 12 - 1) 1"
definition TRAMPOLINE :: u64 where "TRAMPOLINE = MAXVA - PGSIZE"
definition TRAPFRAME :: u64 where "TRAPFRAME = TRAMPOLINE - PGSIZE"
definition KSTACK :: "nat \<Rightarrow> u64" where "KSTACK p = TRAMPOLINE - (of_nat p + 1) * 2 * PGSIZE"

definition PGROUNDUP :: "u64 \<Rightarrow> u64" where
  "PGROUNDUP sz = (sz + PGSIZE - 1) AND NOT (PGSIZE - 1)"

definition PGROUNDDOWN :: "u64 \<Rightarrow> u64" where
  "PGROUNDDOWN a = a AND NOT (PGSIZE - 1)"

section \<open>Page-table entries\<close>

definition PTE_V :: u64 where "PTE_V = push_bit 0 1"
definition PTE_R :: u64 where "PTE_R = push_bit 1 1"
definition PTE_W :: u64 where "PTE_W = push_bit 2 1"
definition PTE_X :: u64 where "PTE_X = push_bit 3 1"
definition PTE_U :: u64 where "PTE_U = push_bit 4 1"

definition PXSHIFT :: "nat \<Rightarrow> nat" where "PXSHIFT level = PGSHIFT + 9 * level"
definition PX :: "nat \<Rightarrow> u64 \<Rightarrow> u64" where "PX level va = drop_bit (PXSHIFT level) va AND 0x1FF"

definition PA2PTE :: "u64 \<Rightarrow> u64" where "PA2PTE pa = push_bit 10 (drop_bit 12 pa)"
definition PTE2PA :: "u64 \<Rightarrow> u64" where "PTE2PA pte = push_bit 12 (drop_bit 10 pte)"
definition PTE_FLAGS :: "u64 \<Rightarrow> u64" where "PTE_FLAGS pte = pte AND 0x3FF"

definition MAKE_SATP :: "u64 \<Rightarrow> u64" where
  "MAKE_SATP pagetable = push_bit 60 8 OR drop_bit 12 pagetable"

section \<open>Numeric values\<close>

lemma unat_layout [simp]:
  "unat UART0 = 0x10000000" "unat PLIC = 0x0c000000" "unat KERNBASE = 0x80000000"
  "unat PHYSTOP = 0x88000000" "unat MAXVA = 0x4000000000"
  "unat TRAMPOLINE = 0x3FFFFFF000" "unat TRAPFRAME = 0x3FFFFFE000"
  by (simp_all add: UART0_def PLIC_def KERNBASE_def PHYSTOP_def MAXVA_def TRAMPOLINE_def TRAPFRAME_def)

lemmas layout_defs = UART0_def PLIC_def KERNBASE_def PHYSTOP_def MAXVA_def TRAMPOLINE_def TRAPFRAME_def

section \<open>Pages\<close>

definition pageno :: "u64 \<Rightarrow> nat" where "pageno a = unat a div 4096"
definition page_aligned :: "u64 \<Rightarrow> bool" where "page_aligned a \<longleftrightarrow> unat a mod 4096 = 0"

lemma PGROUNDDOWN_shift: "PGROUNDDOWN a = push_bit 12 (drop_bit 12 a)"
proof -
  have "PGROUNDDOWN a = a AND NOT (mask 12)" by (simp add: PGROUNDDOWN_def mask_eq_exp_minus_1)
  then show ?thesis by (simp only: and_not_mask_shift)
qed

lemma unat_PGROUNDDOWN [addr_simps]: "unat (PGROUNDDOWN a) = 4096 * (unat a div 4096)"
  by (simp only: PGROUNDDOWN_shift unat_push_drop) simp

lemma unat_PGROUNDUP:
  assumes "unat a + 4095 < 2 ^ 64"
  shows "unat (PGROUNDUP a) = 4096 * ((unat a + 4095) div 4096)"
proof -
  have "PGROUNDUP a = PGROUNDDOWN (a + 4095)" by (simp add: PGROUNDUP_def PGROUNDDOWN_def add.commute)
  moreover have "unat (a + 4095) = unat a + 4095"
    using unat_add_nowrap [of a 4095] assms by simp
  ultimately show ?thesis by (simp add: unat_PGROUNDDOWN)
qed

lemma roundup_le_iff: "(a + 4095) div 4096 \<le> q \<longleftrightarrow> a \<le> 4096 * q" for a q :: nat
  using div_less_iff_less_mult [of 4096 "a + 4095" "Suc q"] by (auto simp: less_Suc_eq_le)

lemma page_aligned_PGROUNDDOWN [simp]: "page_aligned (PGROUNDDOWN a)"
  by (simp add: page_aligned_def unat_PGROUNDDOWN)

lemma pageno_PGROUNDDOWN [simp]: "pageno (PGROUNDDOWN a) = pageno a"
  by (simp add: pageno_def unat_PGROUNDDOWN)

lemma page_aligned_unat: "page_aligned a \<Longrightarrow> unat a = 4096 * pageno a"
  by (auto simp: page_aligned_def pageno_def)

lemma page_aligned_eqI: "page_aligned a \<Longrightarrow> page_aligned b \<Longrightarrow> pageno a = pageno b \<Longrightarrow> a = b"
  by (rule word_eq_unatI) (simp add: page_aligned_unat)

lemma PGROUNDDOWN_aligned: "page_aligned a \<Longrightarrow> PGROUNDDOWN a = a"
  by (rule page_aligned_eqI) simp_all

lemma pageno_bound: "pageno a < 2 ^ 52"
  using unat_lt_2p64 [of a] by (simp add: pageno_def less_mult_imp_div_less)

lemma unat_page_offset:
  "page_aligned p \<Longrightarrow> k < 4096 \<Longrightarrow> unat (p + of_nat k) = unat p + k"
  using pageno_bound [of p] by (subst unat_add_of_nat) (auto simp: page_aligned_unat)

lemma pageno_page_offset: "page_aligned p \<Longrightarrow> k < 4096 \<Longrightarrow> pageno (p + of_nat k) = pageno p"
  by (simp add: pageno_def unat_page_offset page_aligned_def mod_0_imp_dvd div_plus_div_distrib_dvd_left)

section \<open>The Sv39 indices\<close>

lemma unat_PX: "unat (PX l va) = unat va div 2 ^ (12 + 9 * l) mod 512"
proof -
  have "PX l va = drop_bit (PXSHIFT l) va AND mask 9" by (simp add: PX_def mask_eq_exp_minus_1)
  then show ?thesis by (simp only: unat_and_mask unat_drop_bit PXSHIFT_def PGSHIFT_def) simp
qed

lemma unat_PX_less: "unat (PX l va) < 512"
  by (simp add: unat_PX)

lemma PX_determines_page:
  assumes "unat va < 2 ^ 39" "unat vb < 2 ^ 39"
    and "PX 2 va = PX 2 vb" "PX 1 va = PX 1 vb" "PX 0 va = PX 0 vb"
  shows "pageno va = pageno vb"
proof -
  have split: "pageno v = 512 * (512 * unat (PX 2 v) + unat (PX 1 v)) + unat (PX 0 v)"
    if "unat v < 2 ^ 39" for v
  proof -
    define n where "n = unat v div 4096"
    have div: "unat v div 2 ^ (12 + 9 * 1) = n div 512" "unat v div 2 ^ (12 + 9 * 2) = n div 512 div 512"
      "unat v div 2 ^ (12 + 9 * 0) = n"
      by (simp_all add: n_def div_mult2_eq [symmetric])
    have "n < 512 * 512 * 512" using that by (simp add: n_def less_mult_imp_div_less)
    then have "n div 512 div 512 < 512" by (simp add: div_mult2_eq [symmetric] less_mult_imp_div_less)
    then have "n = 512 * (512 * (n div 512 div 512 mod 512) + n div 512 mod 512) + n mod 512"
      by (simp add: mod_less)
    then show ?thesis by (simp only: pageno_def unat_PX div n_def [symmetric])
  qed
  show ?thesis using assms by (simp add: split)
qed

section \<open>Packing a page-table entry\<close>

lemma PTE_bits:
  "pte AND PTE_V = 0 \<longleftrightarrow> \<not> bit pte 0" "pte AND PTE_R = 0 \<longleftrightarrow> \<not> bit pte 1"
  "pte AND PTE_W = 0 \<longleftrightarrow> \<not> bit pte 2" "pte AND PTE_X = 0 \<longleftrightarrow> \<not> bit pte 3"
  "pte AND PTE_U = 0 \<longleftrightarrow> \<not> bit pte 4"
  by (simp_all only: PTE_V_def PTE_R_def PTE_W_def PTE_X_def PTE_U_def push_bit_of_1
      and_exp_eq_0_iff_not_bit)

lemma PTE2PA_pack:
  assumes "unat flags < 2 ^ 10"
  shows "PTE2PA (PA2PTE pa OR flags) = PGROUNDDOWN pa"
proof -
  have "drop_bit 10 flags = 0" using assms by (intro word_eq_unatI) (simp add: unat_drop_bit)
  then have "drop_bit 10 (PA2PTE pa OR flags) = drop_bit 10 (PA2PTE pa)" by simp
  also have "\<dots> = drop_bit 12 pa"
    by (rule bit_word_eqI) (auto simp: PA2PTE_def bit_simps dest: bit_imp_le_length)
  finally show ?thesis by (simp add: PTE2PA_def PGROUNDDOWN_shift)
qed

lemma page_aligned_PTE2PA: "page_aligned (PTE2PA pte)"
proof -
  have "PTE2PA pte = PGROUNDDOWN (PTE2PA pte)"
    unfolding PGROUNDDOWN_shift by (rule bit_word_eqI) (auto simp: PTE2PA_def bit_simps)
  then show ?thesis by (metis page_aligned_PGROUNDDOWN)
qed

end
