(* ===== verification/Kmem.thy ===== *)
theory Kmem
  imports Memlayout
begin

text \<open>
  Byte-addressed memory, the little-endian loads and stores the C compiler emits for multi-byte
  objects, and the routines of \<open>kernel/utils/string.c\<close>. Memory is the identity-mapped view the
  kernel has of RAM once \<open>kvmininit\<close> has run.
\<close>

section \<open>Loads and stores\<close>

type_synonym memory = "u64 \<Rightarrow> u8"

primrec load_le :: "nat \<Rightarrow> memory \<Rightarrow> u64 \<Rightarrow> 'a::len word" where
  "load_le 0 m a = 0"
| "load_le (Suc k) m a = ucast (m a) OR push_bit 8 (load_le k m (a + 1))"

definition store_le :: "nat \<Rightarrow> u64 \<Rightarrow> 'a::len word \<Rightarrow> memory \<Rightarrow> memory" where
  "store_le k a v m = (\<lambda>x. if unat (x - a) < k then ucast (drop_bit (8 * unat (x - a)) v) else m x)"

abbreviation load32 :: "memory \<Rightarrow> u64 \<Rightarrow> u32" where "load32 m a \<equiv> load_le 4 m a"
abbreviation load64 :: "memory \<Rightarrow> u64 \<Rightarrow> u64" where "load64 m a \<equiv> load_le 8 m a"
abbreviation store32 :: "u64 \<Rightarrow> u32 \<Rightarrow> memory \<Rightarrow> memory" where "store32 a v m \<equiv> store_le 4 a v m"
abbreviation store64 :: "u64 \<Rightarrow> u64 \<Rightarrow> memory \<Rightarrow> memory" where "store64 a v m \<equiv> store_le 8 a v m"

lemma bit_load_le:
  "bit (load_le k m a :: 'a::len word) n \<longleftrightarrow>
     n < LENGTH('a) \<and> n < 8 * k \<and> bit (m (a + of_nat (n div 8))) (n mod 8)"
proof (induction k arbitrary: a n)
  case 0
  then show ?case by simp
next
  case (Suc k)
  show ?case
  proof (cases "n < 8")
    case True
    then show ?thesis by (auto simp: bit_simps)
  next
    case False
    then obtain j where j: "n = j + 8" by (metis add.commute le_Suc_ex not_less)
    then have "\<not> bit (m a) n" by (auto dest: bit_imp_le_length)
    moreover have "n div 8 = Suc (j div 8)" by (simp add: j)
    then have "a + of_nat (n div 8) = a + 1 + of_nat (j div 8)" by (simp add: add.assoc)
    ultimately show ?thesis
      using Suc.IH [of "a + 1" j] by (auto simp: j bit_simps add.assoc dest: bit_imp_le_length)
  qed
qed

lemma load_store_same:
  assumes "k \<le> 2 ^ 61" and "LENGTH('a::len) \<le> 8 * k"
  shows "load_le k (store_le k a v m) a = (v :: 'a word)"
proof (rule bit_word_eqI)
  fix n assume n: "n < LENGTH('a)"
  then have "n div 8 < k" and "n div 8 < 2 ^ 64" using assms by auto
  then have "unat (of_nat (n div 8) :: u64) = n div 8" by (simp add: unat_of_nat)
  with n \<open>n div 8 < k\<close> assms show "bit (load_le k (store_le k a v m) a :: 'a word) n = bit v n"
    by (auto simp: bit_load_le store_le_def bit_simps algebra_simps)
qed

lemma load_le_cong:
  "(\<And>i. i < k \<Longrightarrow> m (a + of_nat i) = m' (a + of_nat i)) \<Longrightarrow>
    (load_le k m a :: 'a::len word) = load_le k m' a"
proof (induction k arbitrary: a)
  case 0
  then show ?case by simp
next
  case (Suc k)
  have "(load_le k m (a + 1) :: 'a word) = load_le k m' (a + 1)"
  proof (rule Suc.IH)
    fix i assume "i < k"
    then show "m (a + 1 + of_nat i) = m' (a + 1 + of_nat i)"
      using Suc.prems [of "Suc i"] by (simp add: add.assoc)
  qed
  with Suc.prems [of 0] show ?case by simp
qed

section \<open>Pages as units of memory\<close>

text \<open>Two memories agree on a set of page numbers.\<close>

definition agree_on :: "nat set \<Rightarrow> memory \<Rightarrow> memory \<Rightarrow> bool" where
  "agree_on P m m' \<longleftrightarrow> (\<forall>x. pageno x \<in> P \<longrightarrow> m' x = m x)"

lemma agree_on_refl [simp]: "agree_on P m m"
  by (simp add: agree_on_def)

lemma agree_on_trans: "agree_on P m m' \<Longrightarrow> agree_on P m' m'' \<Longrightarrow> agree_on P m m''"
  by (simp add: agree_on_def)

lemma agree_on_subset: "agree_on P m m' \<Longrightarrow> Q \<subseteq> P \<Longrightarrow> agree_on Q m m'"
  by (auto simp: agree_on_def)

lemma agree_onD: "agree_on P m m' \<Longrightarrow> pageno x \<in> P \<Longrightarrow> m' x = m x"
  by (simp add: agree_on_def)

lemma load_le_agree:
  assumes "agree_on P m m'" "page_aligned p" "pageno p \<in> P" "off + k \<le> 4096"
  shows "load_le k m' (p + of_nat off) = load_le k m (p + of_nat off)"
proof (rule load_le_cong)
  fix i assume "i < k"
  then have "pageno (p + of_nat (off + i)) = pageno p"
    using assms by (intro pageno_page_offset) auto
  then have "m' (p + of_nat (off + i)) = m (p + of_nat (off + i))"
    using assms by (intro agree_onD [of P]) simp_all
  then show "m' (p + of_nat off + of_nat i) = m (p + of_nat off + of_nat i)"
    by (simp add: add.assoc)
qed

lemma store_le_page:
  assumes "page_aligned p" "off + k \<le> 4096" "pageno x \<noteq> pageno p"
  shows "store_le k (p + of_nat off) v m x = m x"
proof -
  have "\<not> unat (x - (p + of_nat off)) < k"
  proof
    assume less: "unat (x - (p + of_nat off)) < k"
    define i where "i = unat (x - (p + of_nat off))"
    have "x = p + of_nat (off + i)" by (simp add: i_def)
    moreover have "off + i < 4096" using less assms by (simp add: i_def)
    ultimately show False using assms by (simp add: pageno_page_offset del: of_nat_add)
  qed
  then show ?thesis by (simp add: store_le_def)
qed

lemma agree_on_store:
  "page_aligned p \<Longrightarrow> off + k \<le> 4096 \<Longrightarrow> pageno p \<notin> P \<Longrightarrow> agree_on P m (store_le k (p + of_nat off) v m)"
  unfolding agree_on_def by (metis store_le_page)

section \<open>Slots of a page table\<close>

text \<open>\<open>&pagetable[i]\<close> for a table of 64-bit entries.\<close>

definition pte_addr :: "u64 \<Rightarrow> u64 \<Rightarrow> u64" where "pte_addr pt i = pt + 8 * i"

lemma pte_addr_off: "pte_addr pt i = pt + of_nat (8 * unat i)"
  by (simp add: pte_addr_def)

lemma unat_pte_addr: "page_aligned pt \<Longrightarrow> unat i < 512 \<Longrightarrow> unat (pte_addr pt i) = unat pt + 8 * unat i"
  unfolding pte_addr_off by (rule unat_page_offset) auto

lemma pageno_pte_addr [simp]: "page_aligned pt \<Longrightarrow> unat i < 512 \<Longrightarrow> pageno (pte_addr pt i) = pageno pt"
  unfolding pte_addr_off by (rule pageno_page_offset) auto

lemma pte_addr_inj:
  assumes "page_aligned p" "page_aligned q" "unat i < 512" "unat j < 512" "pte_addr p i = pte_addr q j"
  shows "p = q \<and> i = j"
proof -
  have "pageno p = pageno q" using assms by (metis pageno_pte_addr)
  with assms have "p = q" by (simp add: page_aligned_eqI)
  moreover have "unat (pte_addr p i) = unat (pte_addr q j)" using assms by simp
  ultimately have "unat i = unat j" using assms by (simp add: unat_pte_addr)
  with \<open>p = q\<close> show ?thesis by (simp add: word_eq_unatI)
qed

lemma pte_addr_nonzero: "page_aligned p \<Longrightarrow> p \<noteq> 0 \<Longrightarrow> unat i < 512 \<Longrightarrow> pte_addr p i \<noteq> 0"
  using unat_pte_addr [of p i] by (auto simp: unat_eq_zero)

lemma load64_store64_slot:
  assumes "page_aligned p" "page_aligned q" "unat i < 512" "unat j < 512"
  shows "load64 (store64 (pte_addr p i) v m) (pte_addr q j) =
    (if p = q \<and> i = j then v else load64 m (pte_addr q j))"
proof (cases "p = q \<and> i = j")
  case True
  then show ?thesis by (simp add: load_store_same)
next
  case False
  have "load64 (store64 (pte_addr p i) v m) (pte_addr q j) = load64 m (pte_addr q j)"
  proof (rule load_le_cong)
    fix k :: nat assume k: "k < 8"
    have "\<not> unat (pte_addr q j + of_nat k - pte_addr p i) < 8"
    proof
      assume less: "unat (pte_addr q j + of_nat k - pte_addr p i) < 8"
      define A where "A = 512 * pageno p + unat i"
      define B where "B = 512 * pageno q + unat j"
      have A: "unat (pte_addr p i) = 8 * A" and B: "unat (pte_addr q j) = 8 * B"
        using assms by (simp_all add: A_def B_def unat_pte_addr page_aligned_unat)
      have "pte_addr q j + of_nat k = q + of_nat (8 * unat j + k)" by (simp add: pte_addr_def)
      then have Bk: "unat (pte_addr q j + of_nat k) = 8 * B + k"
        using assms k unat_page_offset [of q "8 * unat j + k"]
        by (simp only: B_def page_aligned_unat) simp
      have "8 * A + 8 \<le> 2 ^ 64" using assms pageno_bound [of p] by (simp add: A_def)
      with less have "8 * A \<le> 8 * B + k \<and> 8 * B + k < 8 * A + 8"
        using unat_sub_range [of "pte_addr p i" 8] by (simp only: A Bk)
      with k have "A = B" by linarith
      then have "pte_addr p i = pte_addr q j" using A B by (intro word_eq_unatI) simp
      with assms False show False by (metis pte_addr_inj)
    qed
    then show "store64 (pte_addr p i) v m (pte_addr q j + of_nat k) = m (pte_addr q j + of_nat k)"
      by (simp add: store_le_def)
  qed
  with False show ?thesis by auto
qed

section \<open>string.c: memset\<close>

text \<open>
  \<open>for(char *p = sa; p < sa + size; p++) *p = val;\<close> as a loop on the pointer.
\<close>

function memset_loop :: "u64 \<Rightarrow> u64 \<Rightarrow> u8 \<Rightarrow> memory \<Rightarrow> memory" where
  "memset_loop p e val m = (if p < e then memset_loop (p + 1) e val (m(p := val)) else m)"
  by pat_completeness auto
termination
proof (relation "measure (\<lambda>(p, e, val, m). unat (e - p))")
  fix p e :: u64 and val :: u8 and m :: memory
  assume "p < e"
  then have less: "unat p < unat e" by (simp add: word_less_nat_alt)
  then have "unat (p + 1) = unat p + 1" by (rule unat_plus_one)
  with less show "((p + 1, e, val, m(p := val)), (p, e, val, m)) \<in> measure (\<lambda>(p, e, val, m). unat (e - p))"
    by (simp add: unat_sub_le)
qed simp

declare memset_loop.simps [simp del]

definition memset :: "u64 \<Rightarrow> u8 \<Rightarrow> u64 \<Rightarrow> memory \<Rightarrow> memory" where
  "memset sa val sz m = memset_loop sa (sa + sz) val m"

lemma memset_loop_eq: "memset_loop p e val m = (\<lambda>x. if p \<le> x \<and> x < e then val else m x)"
proof (induction p e val m rule: memset_loop.induct)
  case (1 p e val m)
  show ?case
  proof (cases "p < e")
    case True
    then have "unat p < unat e" by (simp add: word_less_nat_alt)
    then have "unat (p + 1) = unat p + 1" by (rule unat_plus_one)
    then have "p + 1 \<le> x \<longleftrightarrow> p < x" for x
      by (simp add: word_less_nat_alt word_le_nat_alt Suc_le_eq)
    moreover have "memset_loop p e val m = memset_loop (p + 1) e val (m(p := val))"
      using True by (subst memset_loop.simps) simp
    moreover note "1.IH" [OF True]
    ultimately have "memset_loop p e val m = (\<lambda>x. if p < x \<and> x < e then val else (m(p := val)) x)"
      by simp
    with True show ?thesis by (auto simp: fun_eq_iff)
  next
    case False
    then show ?thesis by (subst memset_loop.simps) (auto simp: fun_eq_iff)
  qed
qed

lemma memset_eq: "memset sa val sz m = (\<lambda>x. if sa \<le> x \<and> x < sa + sz then val else m x)"
  by (simp add: memset_def memset_loop_eq)

lemma memset_page:
  assumes "page_aligned p" "unat p + 4096 < 2 ^ 64"
  shows "memset p val PGSIZE m = (\<lambda>x. if pageno x = pageno p then val else m x)"
proof -
  have "unat (p + 4096) = unat p + 4096" using assms(2) by (simp add: unat_add_nowrap)
  then have "p \<le> x \<and> x < p + 4096 \<longleftrightarrow> pageno x = pageno p" for x
    using assms(1) by (auto simp: word_le_nat_alt word_less_nat_alt page_aligned_def pageno_def)
  then show ?thesis by (simp add: memset_eq)
qed

section \<open>string.c: memmove\<close>

text \<open>
  \<open>for(int i = 0; i < size; i++) dest[i] = src[i];\<close> The index is an \<open>int\<close> that is converted to
  \<open>uint64\<close> for the comparison and sign-extended for the address computation. The increment is taken
  as the wrapping addition the compiler emits; C leaves it undefined from \<open>2\<^sup>3\<^sup>1\<close> on, and the facts
  below stay below that size.
\<close>

function memmove_loop :: "u64 \<Rightarrow> u64 \<Rightarrow> u64 \<Rightarrow> u32 \<Rightarrow> memory \<Rightarrow> memory" where
  "memmove_loop dest src sz i m =
     (if scast i < sz
      then memmove_loop dest src sz (i + 1) (m(dest + scast i := m (src + scast i)))
      else m)"
  by pat_completeness auto
termination
proof (relation "measure (\<lambda>(dest, src, sz, i, m). unat (- 1 - i))")
  fix dest src sz :: u64 and i :: u32 and m :: memory
  assume less: "scast i < sz"
  have "i \<noteq> - 1"
  proof
    assume "i = - 1"
    then have "(scast i :: u64) = - 1" by simp
    with less show False by simp
  qed
  then have "- 1 - i \<noteq> 0" by auto
  then have "unat (- 1 - i - 1) < unat (- 1 - i)"
    by (metis diff_less unat_gt_0 unat_minus_one zero_less_one)
  moreover have "- 1 - (i + 1) = - 1 - i - 1" by (simp only: diff_diff_eq)
  ultimately show "((dest, src, sz, i + 1, m(dest + scast i := m (src + scast i))), (dest, src, sz, i, m))
      \<in> measure (\<lambda>(dest, src, sz, i, m). unat (- 1 - i))"
    by (simp only: in_measure prod.case)
qed simp

declare memmove_loop.simps [simp del]

definition memmove :: "u64 \<Rightarrow> u64 \<Rightarrow> u64 \<Rightarrow> memory \<Rightarrow> memory" where
  "memmove dest src sz m = memmove_loop dest src sz 0 m"

text \<open>
  The copy is right when the destination does not start strictly inside the source: the loop runs
  forwards only, so a later source byte must not have been overwritten before it is read.
\<close>

definition forward_safe :: "u64 \<Rightarrow> u64 \<Rightarrow> nat \<Rightarrow> bool" where
  "forward_safe dest src n \<longleftrightarrow> dest = src \<or> n \<le> unat (dest - src)"

lemma scast_index: "k < 2 ^ 31 \<Longrightarrow> (scast (of_nat k :: u32) :: u64) = of_nat k"
proof -
  assume "k < 2 ^ 31"
  then have "sint (of_nat k :: u32) = int k"
    by (simp add: signed_of_nat signed_take_bit_int_eq_self)
  then show ?thesis by (simp add: scast_eq)
qed

lemma memmove_loop_eq:
  assumes n: "n < 2 ^ 31" and safe: "forward_safe dest src n" and "k \<le> n"
  shows "memmove_loop dest src (of_nat n) (of_nat k) m =
    (\<lambda>x. if k \<le> unat (x - dest) \<and> unat (x - dest) < n then m (src + (x - dest)) else m x)"
  using assms(3)
proof (induction "n - k" arbitrary: k m)
  case 0
  with n have "k = n" and "(scast (of_nat k :: u32) :: u64) = of_nat n" by (simp_all add: scast_index)
  then show ?case by (subst memmove_loop.simps) (auto simp: fun_eq_iff)
next
  case (Suc d)
  define m' where "m' = m(dest + of_nat k := m (src + of_nat k))"
  from Suc n have k: "k < n" and kk: "(scast (of_nat k :: u32) :: u64) = of_nat k"
    by (simp_all add: scast_index)
  from k n have "(of_nat k :: u64) < of_nat n" by (simp add: word_less_nat_alt unat_of_nat)
  then have step: "memmove_loop dest src (of_nat n) (of_nat k) m =
      memmove_loop dest src (of_nat n) (of_nat (Suc k)) m'"
    by (subst memmove_loop.simps) (simp only: kk m'_def if_True of_nat_Suc add.commute)
  have ih: "memmove_loop dest src (of_nat n) (of_nat (Suc k)) m' =
    (\<lambda>x. if Suc k \<le> unat (x - dest) \<and> unat (x - dest) < n then m' (src + (x - dest)) else m' x)"
    using Suc k by (intro Suc.hyps) simp_all
  have at: "x = dest + of_nat k" if "unat (x - dest) = k" for x
  proof -
    from that have "x - dest = of_nat k" by auto
    then show ?thesis by (simp add: algebra_simps)
  qed
  have other: "m' x = m x" if "unat (x - dest) \<noteq> k" for x
    using that k n by (auto simp: m'_def unat_of_nat)
  have later: "m' (src + (x - dest)) = m (src + (x - dest))" if "k < unat (x - dest)" "unat (x - dest) < n" for x
  proof (cases "src + (x - dest) = dest + of_nat k \<and> dest \<noteq> src")
    case True
    then have eq: "dest + of_nat k = src + (x - dest)" by simp
    have "dest - src = dest + of_nat k - src - of_nat k" by simp
    also have "\<dots> = (x - dest) - of_nat k" by (simp only: eq) simp
    finally have d: "dest - src = (x - dest) - of_nat k" .
    have "unat (of_nat k :: u64) = k" using k n by (simp add: unat_of_nat)
    with that have "unat (dest - src) = unat (x - dest) - k"
      unfolding d using unat_sub_le [of "of_nat k" "x - dest"] by simp
    with that safe True show ?thesis by (simp add: forward_safe_def)
  next
    case False
    then show ?thesis by (auto simp: m'_def)
  qed
  show ?case
    unfolding step ih
  proof (rule ext, goal_cases)
    case (1 x)
    consider "unat (x - dest) < k \<or> n \<le> unat (x - dest)" | "unat (x - dest) = k"
      | "k < unat (x - dest)" "unat (x - dest) < n" by linarith
    then show ?case
    proof cases
      case 1
      with k have "m' x = m x" by (intro other) auto
      with 1 k show ?thesis by auto
    next
      case 2
      then have "m' x = m (src + (x - dest))" using at [OF 2] by (simp add: m'_def)
      with 2 k show ?thesis by simp
    next
      case 3
      with later [OF 3] show ?thesis by (simp add: Suc_le_eq)
    qed
  qed
qed

lemma memmove_eq:
  "n < 2 ^ 31 \<Longrightarrow> forward_safe dest src n \<Longrightarrow>
    memmove dest src (of_nat n) m = (\<lambda>x. if unat (x - dest) < n then m (src + (x - dest)) else m x)"
  using memmove_loop_eq [of n dest src 0 m] by (simp add: memmove_def)

section \<open>string.c: strlen and streq\<close>

text \<open>
  Both loops run until a terminator: on memory without one they do not return, which is the value
  \<^const>\<open>None\<close>. \<open>cstr m p s\<close> says that the bytes \<open>s\<close>, none of them zero, stand at \<open>p\<close>
  followed by a zero byte.
\<close>

partial_function (option) strlen_loop :: "memory \<Rightarrow> u64 \<Rightarrow> u32 \<Rightarrow> u32 option" where
  "strlen_loop m str len = (if m str \<noteq> 0 then strlen_loop m (str + 1) (len + 1) else Some len)"

definition strlen :: "memory \<Rightarrow> u64 \<Rightarrow> u32 option" where
  "strlen m str = strlen_loop m str 0"

partial_function (option) streq :: "memory \<Rightarrow> u64 \<Rightarrow> u64 \<Rightarrow> u32 option" where
  "streq m str1 str2 =
     (if m str1 \<noteq> 0 \<or> m str2 \<noteq> 0
      then if m str1 \<noteq> m str2 then Some 0 else streq m (str1 + 1) (str2 + 1)
      else Some 1)"

fun cstr :: "memory \<Rightarrow> u64 \<Rightarrow> u8 list \<Rightarrow> bool" where
  "cstr m p [] \<longleftrightarrow> m p = 0"
| "cstr m p (c # cs) \<longleftrightarrow> c \<noteq> 0 \<and> m p = c \<and> cstr m (p + 1) cs"

lemma strlen_loop_cstr: "cstr m p s \<Longrightarrow> strlen_loop m p len = Some (len + of_nat (length s))"
proof (induction s arbitrary: p len)
  case Nil
  then show ?case by (subst strlen_loop.simps) simp
next
  case (Cons c cs)
  then show ?case by (subst strlen_loop.simps) (simp add: algebra_simps)
qed

lemma strlen_cstr: "cstr m p s \<Longrightarrow> strlen m p = Some (of_nat (length s))"
  by (simp add: strlen_def strlen_loop_cstr)

lemma streq_cstr: "cstr m p s \<Longrightarrow> cstr m q t \<Longrightarrow> streq m p q = Some (if s = t then 1 else 0)"
proof (induction s arbitrary: p q t)
  case Nil
  then show ?case by (cases t) (subst streq.simps; auto)+
next
  case (Cons c cs)
  then show ?case
    by (cases t) (subst streq.simps; auto)+
qed

lemma cstr_append: "cstr m p (s @ t) \<longleftrightarrow> (\<forall>i < length s. s ! i \<noteq> 0 \<and> m (p + of_nat i) = s ! i) \<and> cstr m (p + of_nat (length s)) t"
proof (induction s arbitrary: p)
  case Nil
  then show ?case by simp
next
  case (Cons c cs)
  then show ?case by (auto simp: All_less_Suc2 add.assoc)
qed

lemma cstr_mapI:
  "(\<And>i. i < n \<Longrightarrow> f i \<noteq> 0 \<and> m (p + of_nat i) = f i) \<Longrightarrow> m (p + of_nat n) = 0 \<Longrightarrow> cstr m p (map f [0..<n])"
  using cstr_append [of m p "map f [0..<n]" "[]"] by simp

text \<open>Bytes of a buffer.\<close>

definition bytes_at :: "memory \<Rightarrow> u64 \<Rightarrow> nat \<Rightarrow> u8 list" where
  "bytes_at m a n = map (\<lambda>i. m (a + of_nat i)) [0..<n]"

lemma length_bytes_at [simp]: "length (bytes_at m a n) = n"
  by (simp add: bytes_at_def)

lemma nth_bytes_at [simp]: "i < n \<Longrightarrow> bytes_at m a n ! i = m (a + of_nat i)"
  by (simp add: bytes_at_def)

lemma bytes_at_0 [simp]: "bytes_at m a 0 = []"
  by (simp add: bytes_at_def)

lemma bytes_at_split: "bytes_at m a (j + k) = bytes_at m a j @ bytes_at m (a + of_nat j) k"
  by (rule nth_equalityI) (auto simp: nth_append)

lemma memmove_bytes_at:
  assumes "n < 2 ^ 31" "forward_safe dest src n"
  shows "bytes_at (memmove dest src (of_nat n) m) dest n = bytes_at m src n"
  by (rule nth_equalityI) (use assms in \<open>auto simp: memmove_eq unat_of_nat\<close>)

end
