(* ===== verification/Kalloc.thy ===== *)
theory Kalloc
  imports Kmem
begin

text \<open>
  The physical page allocator of \<open>kernel/mm/kalloc.c\<close>. The free list is threaded through the free
  pages themselves: the first eight bytes of a free page hold the address of the next one. The
  invariant \<open>free_inv ph xs\<close> reads the chain as the list \<open>xs\<close>; the locale \<open>page_allocator\<close>
  is what the memory-management code relies on, and it is interpreted on \<open>kalloc\<close> and \<open>kfree\<close>.
\<close>

section \<open>State and operations\<close>

text \<open>
  The RAM, the head of the free list (\<open>static struct free_node *free_mem_list\<close>), and the linker
  symbol \<open>end_address\<close>, which no operation changes.
\<close>

record phys =
  ram :: memory
  free_mem_list :: u64
  end_address :: u64

definition kfree :: "u64 \<Rightarrow> phys \<Rightarrow> phys outcome" where
  "kfree pa ph =
     (if pa mod PGSIZE \<noteq> 0 \<or> pa < end_address ph \<or> pa \<ge> PHYSTOP
      then Inl (Panic ''kfree: invalid address'')
      else
        let r = pa in
        let ph = ph\<lparr>ram := store64 r (free_mem_list ph) (ram ph)\<rparr> in
        Inr (ph\<lparr>free_mem_list := r\<rparr>))"

definition kalloc :: "phys \<Rightarrow> u64 \<times> phys" where
  "kalloc ph =
     (let r = free_mem_list ph in
      if r \<noteq> 0
      then
        let ph = ph\<lparr>free_mem_list := load64 (ram ph) r\<rparr> in
        (r, ph\<lparr>ram := memset r 0 PGSIZE (ram ph)\<rparr>)
      else (r, ph))"

function kinit_loop :: "u64 \<Rightarrow> phys \<Rightarrow> phys outcome" where
  "kinit_loop p ph =
     (if p + PGSIZE \<le> PHYSTOP
      then bindE (kfree p ph) (\<lambda>ph. kinit_loop (p + PGSIZE) ph)
      else Inr ph)"
  by pat_completeness auto
termination
proof (relation "measure (\<lambda>(p, ph). 0x88000000 - unat p)")
  fix p :: u64 and ph ph' :: phys
  assume "kfree p ph = Inr ph'"
  then have "p < PHYSTOP" by (auto simp: kfree_def split: if_splits)
  then have "unat p < 0x88000000" by (simp add: word_less_nat_alt)
  then have "unat (p + PGSIZE) = unat p + 4096" by (simp add: unat_add_nowrap)
  with \<open>unat p < 0x88000000\<close> show "((p + PGSIZE, ph'), (p, ph)) \<in> measure (\<lambda>(p, ph). 0x88000000 - unat p)"
    by simp
qed simp

declare kinit_loop.simps [simp del]

definition kinit :: "phys \<Rightarrow> phys outcome" where
  "kinit ph = kinit_loop (PGROUNDUP (end_address ph)) (ph\<lparr>free_mem_list := 0\<rparr>)"

section \<open>The free list as a list\<close>

fun chain :: "memory \<Rightarrow> u64 \<Rightarrow> u64 list \<Rightarrow> bool" where
  "chain m p [] \<longleftrightarrow> p = 0"
| "chain m p (x # xs) \<longleftrightarrow> p = x \<and> x \<noteq> 0 \<and> chain m (load64 m x) xs"

text \<open>The pages \<open>kfree\<close> accepts.\<close>

definition managed :: "phys \<Rightarrow> u64 \<Rightarrow> bool" where
  "managed ph p \<longleftrightarrow> page_aligned p \<and> end_address ph \<le> p \<and> p < PHYSTOP"

definition free_inv :: "phys \<Rightarrow> u64 list \<Rightarrow> bool" where
  "free_inv ph xs \<longleftrightarrow> chain (ram ph) (free_mem_list ph) xs \<and> distinct xs \<and>
     (\<forall>x \<in> set xs. managed ph x) \<and> 0 < end_address ph"

lemma chain_unique: "chain m p xs \<Longrightarrow> chain m p ys \<Longrightarrow> xs = ys"
proof (induction xs arbitrary: p ys)
  case Nil
  then show ?case by (cases ys) auto
next
  case (Cons x xs)
  then show ?case by (cases ys) auto
qed

lemma chain_agree:
  assumes "agree_on (pageno ` set xs) m m'" "\<forall>x \<in> set xs. page_aligned x"
  shows "chain m' p xs = chain m p xs"
  using assms
proof (induction xs arbitrary: p)
  case Nil
  then show ?case by simp
next
  case (Cons x xs)
  then have "load64 m' x = load64 m x"
    using load_le_agree [of _ m m' x 0 8] by auto
  moreover have "chain m' (load64 m x) xs = chain m (load64 m x) xs"
    using Cons by (auto intro: agree_on_subset)
  ultimately show ?case by auto
qed

lemma managed_nonzero: "managed ph p \<Longrightarrow> 0 < end_address ph \<Longrightarrow> p \<noteq> 0"
  by (auto simp: managed_def)

lemma managed_bounds: "managed ph p \<Longrightarrow> page_aligned p \<and> unat p + 4096 \<le> 0x88000000"
proof -
  assume "managed ph p"
  then have "page_aligned p" "unat p < 0x88000000" by (auto simp: managed_def word_less_nat_alt)
  then show ?thesis by (simp add: page_aligned_unat)
qed

lemma managed_mod: "managed ph p \<longleftrightarrow> p mod PGSIZE = 0 \<and> end_address ph \<le> p \<and> p < PHYSTOP"
proof -
  have "p mod PGSIZE = 0 \<longleftrightarrow> page_aligned p"
    by (simp add: page_aligned_def word_unat_eq_iff unat_mod)
  then show ?thesis by (simp add: managed_def)
qed

lemma pageno_inj_managed: "managed ph p \<Longrightarrow> managed ph q \<Longrightarrow> pageno p = pageno q \<Longrightarrow> p = q"
  by (auto simp: managed_def intro: page_aligned_eqI)

lemma kfree_panics_iff: "(\<exists>e. kfree pa ph = Inl e) \<longleftrightarrow> \<not> managed ph pa"
  by (auto simp: kfree_def managed_mod Let_def)

lemma kfree_managed:
  "managed ph p \<Longrightarrow>
    kfree p ph = Inr (ph\<lparr>ram := store64 p (free_mem_list ph) (ram ph), free_mem_list := p\<rparr>)"
  by (auto simp: kfree_def managed_mod Let_def)

lemma kfree_free_inv:
  assumes inv: "free_inv ph xs" and p: "managed ph p" "p \<notin> set xs"
  obtains ph' where "kfree p ph = Inr ph'" "free_inv ph' (p # xs)"
    "agree_on (- {pageno p}) (ram ph) (ram ph')" "end_address ph' = end_address ph"
proof
  let ?ph = "ph\<lparr>ram := store64 p (free_mem_list ph) (ram ph), free_mem_list := p\<rparr>"
  show "kfree p ph = Inr ?ph" using p by (simp add: kfree_managed)
  have al: "page_aligned p" using p by (simp add: managed_def)
  show agree: "agree_on (- {pageno p}) (ram ph) (ram ?ph)"
    using agree_on_store [OF al, of 0 8 "- {pageno p}" "ram ph"] by simp
  have "pageno ` set xs \<subseteq> - {pageno p}"
    using inv p by (auto simp: free_inv_def dest: pageno_inj_managed)
  then have "chain (ram ?ph) (free_mem_list ph) xs"
    using inv agree by (subst chain_agree [of xs "ram ph"])
      (auto simp: free_inv_def managed_def intro: agree_on_subset)
  then show "free_inv ?ph (p # xs)"
    using inv p managed_nonzero [of ph p] by (auto simp: free_inv_def load_store_same managed_def)
qed simp

lemma kalloc_empty: "free_inv ph [] \<Longrightarrow> kalloc ph = (0, ph)"
  by (simp add: free_inv_def kalloc_def)

lemma kalloc_free_inv:
  assumes inv: "free_inv ph (x # xs)"
  obtains ph' where "kalloc ph = (x, ph')" "free_inv ph' xs"
    "agree_on (- {pageno x}) (ram ph) (ram ph')" "\<forall>a. pageno a = pageno x \<longrightarrow> ram ph' a = 0"
    "end_address ph' = end_address ph"
proof
  let ?ph = "ph\<lparr>free_mem_list := load64 (ram ph) x, ram := memset x 0 PGSIZE (ram ph)\<rparr>"
  from inv have x: "free_mem_list ph = x" "x \<noteq> 0" "managed ph x" "x \<notin> set xs"
    by (auto simp: free_inv_def)
  then show "kalloc ph = (x, ?ph)" by (simp add: kalloc_def Let_def)
  have set: "ram ?ph = (\<lambda>a. if pageno a = pageno x then 0 else ram ph a)"
    using managed_bounds [OF x(3)] by (simp add: memset_page del: PGSIZE_def)
  then show agree: "agree_on (- {pageno x}) (ram ph) (ram ?ph)"
    and "\<forall>a. pageno a = pageno x \<longrightarrow> ram ?ph a = 0"
    by (simp_all add: agree_on_def)
  have "pageno ` set xs \<subseteq> - {pageno x}"
    using inv x by (auto simp: free_inv_def dest: pageno_inj_managed)
  then have "chain (ram ?ph) (load64 (ram ph) x) xs"
    using inv agree by (subst chain_agree [of xs "ram ph"])
      (auto simp: free_inv_def managed_def intro: agree_on_subset)
  then show "free_inv ?ph xs" using inv by (auto simp: free_inv_def managed_def)
qed simp

section \<open>The interface the memory-management code relies on\<close>

text \<open>
  An allocator of pages over a memory: \<open>pages s xs\<close> says that \<open>s\<close> is well formed with exactly
  the pages \<open>xs\<close> free, the next one to be handed out first.
\<close>

locale page_allocator =
  fixes alloc :: "'s \<Rightarrow> u64 \<times> 's"
    and free :: "u64 \<Rightarrow> 's \<Rightarrow> 's outcome"
    and contents :: "'s \<Rightarrow> memory"
    and owns :: "'s \<Rightarrow> u64 \<Rightarrow> bool"
    and pages :: "'s \<Rightarrow> u64 list \<Rightarrow> bool"
  assumes alloc_none: "pages s [] \<Longrightarrow> alloc s = (0, s)"
    and alloc_some: "pages s (x # xs) \<Longrightarrow> \<exists>s'. alloc s = (x, s') \<and> pages s' xs \<and> owns s' = owns s \<and>
      agree_on (- {pageno x}) (contents s) (contents s') \<and>
      (\<forall>a. pageno a = pageno x \<longrightarrow> contents s' a = 0)"
    and free_ok: "pages s xs \<Longrightarrow> owns s p \<Longrightarrow> p \<notin> set xs \<Longrightarrow>
      \<exists>s'. free p s = Inr s' \<and> pages s' (p # xs) \<and> owns s' = owns s \<and>
        agree_on (- {pageno p}) (contents s) (contents s')"
    and pages_owned: "pages s xs \<Longrightarrow> x \<in> set xs \<Longrightarrow> owns s x"
    and pages_distinct: "pages s xs \<Longrightarrow> distinct xs"
    and owned_nonzero: "pages s xs \<Longrightarrow> owns s p \<Longrightarrow> p \<noteq> 0"
    and owned_aligned: "owns s p \<Longrightarrow> page_aligned p"
begin

lemma alloc_cases:
  assumes "pages s xs" "alloc s = (r, s')"
  obtains (none) "xs = []" "r = 0" "s' = s"
  | (some) ys where "xs = r # ys" "r \<noteq> 0" "r \<notin> set ys" "owns s r" "pages s' ys" "owns s' = owns s"
      "agree_on (- {pageno r}) (contents s) (contents s')"
      "\<forall>a. pageno a = pageno r \<longrightarrow> contents s' a = 0"
proof (cases xs)
  case Nil
  with assms alloc_none [of s] that(1) show ?thesis by auto
next
  case (Cons x ys)
  have "owns s x" using Cons assms(1) pages_owned by auto
  moreover have "x \<notin> set ys" using pages_distinct [OF assms(1)] Cons by simp
  moreover have "x \<noteq> 0" using owned_nonzero assms(1) \<open>owns s x\<close> by blast
  ultimately show ?thesis
    using alloc_some [of s x ys] assms Cons that(2) [of ys] by auto
qed

lemma alloc_zero_iff: "pages s xs \<Longrightarrow> fst (alloc s) = 0 \<longleftrightarrow> xs = []"
  by (cases "alloc s") (auto elim: alloc_cases)

lemma alloc_twice_distinct:
  assumes "pages s xs" "alloc s = (p, s')" "alloc s' = (q, s'')" "q \<noteq> 0"
  shows "p \<noteq> q"
proof -
  from assms obtain ys where "pages s' ys" "p \<notin> set ys"
    by (auto elim: alloc_cases)
  with assms(3,4) show ?thesis by (auto elim: alloc_cases)
qed

lemma free_then_alloc:
  assumes "pages s xs" "owns s p" "p \<notin> set xs"
  obtains s' s'' where "free p s = Inr s'" "alloc s' = (p, s'')" "pages s'' xs"
    "agree_on (- {pageno p}) (contents s) (contents s'')"
proof -
  from free_ok [OF assms] obtain s' where s': "free p s = Inr s'" "pages s' (p # xs)"
    "agree_on (- {pageno p}) (contents s) (contents s')" by blast
  from alloc_some [OF s'(2)] obtain s'' where "alloc s' = (p, s'')" "pages s'' xs"
    "agree_on (- {pageno p}) (contents s') (contents s'')" by blast
  with s' show ?thesis by (blast intro: that agree_on_trans)
qed

lemma alloc_frame:
  assumes "pages s xs" "alloc s = (r, s')"
  shows "agree_on (- pageno ` set xs) (contents s) (contents s')"
  using assms by (cases rule: alloc_cases) (auto intro: agree_on_subset)

end

interpretation pa: page_allocator kalloc kfree ram managed free_inv
proof (unfold_locales, goal_cases)
  case (1 s)
  then show ?case by (rule kalloc_empty)
next
  case (2 s x xs)
  then show ?case by (rule kalloc_free_inv) (auto simp: managed_def fun_eq_iff)
next
  case (3 s xs p)
  then show ?case by (rule kfree_free_inv) (auto simp: managed_def fun_eq_iff)
qed (auto simp: free_inv_def managed_def)

section \<open>Initialisation\<close>

primrec pages_from :: "u64 \<Rightarrow> nat \<Rightarrow> u64 list" where
  "pages_from p 0 = []"
| "pages_from p (Suc n) = p # pages_from (p + PGSIZE) n"

lemma set_pages_from:
  assumes "page_aligned p" "unat p + 4096 * n < 2 ^ 64"
  shows "set (pages_from p n) = {q. page_aligned q \<and> unat p \<le> unat q \<and> unat q < unat p + 4096 * n}"
  using assms
proof (induction n arbitrary: p)
  case 0
  then show ?case by simp
next
  case (Suc n)
  have next_page: "unat (p + PGSIZE) = unat p + 4096" using Suc.prems by (simp add: unat_add_nowrap)
  then have al: "page_aligned (p + PGSIZE)" using Suc.prems by (simp add: page_aligned_def)
  have ih: "set (pages_from (p + PGSIZE) n) =
      {q. page_aligned q \<and> unat p + 4096 \<le> unat q \<and> unat q < unat p + 4096 * Suc n}"
    using Suc.IH [OF al] Suc.prems(2) unfolding next_page by (simp add: add.assoc)
  have "q = p" if "page_aligned q" "unat p \<le> unat q" "unat q < unat p + 4096" for q
  proof (rule page_aligned_eqI [OF that(1) Suc.prems(1)])
    have "4096 * pageno p \<le> 4096 * pageno q" "4096 * pageno q < 4096 * pageno p + 4096"
      using that(2,3) by (simp_all only: page_aligned_unat [OF that(1)] page_aligned_unat [OF Suc.prems(1)])
    then show "pageno q = pageno p" by linarith
  qed
  then have p: "page_aligned q \<Longrightarrow> unat p \<le> unat q \<Longrightarrow> \<not> unat p + 4096 \<le> unat q \<Longrightarrow> q = p" for q
    by simp
  have "{q. page_aligned q \<and> unat p \<le> unat q \<and> unat q < unat p + 4096 * Suc n} =
      insert p {q. page_aligned q \<and> unat p + 4096 \<le> unat q \<and> unat q < unat p + 4096 * Suc n}"
  proof (intro set_eqI iffI)
    fix q assume q: "q \<in> {q. page_aligned q \<and> unat p \<le> unat q \<and> unat q < unat p + 4096 * Suc n}"
    then show "q \<in> insert p {q. page_aligned q \<and> unat p + 4096 \<le> unat q \<and> unat q < unat p + 4096 * Suc n}"
      using p [of q] by blast
  next
    fix q assume "q \<in> insert p {q. page_aligned q \<and> unat p + 4096 \<le> unat q \<and> unat q < unat p + 4096 * Suc n}"
    then show "q \<in> {q. page_aligned q \<and> unat p \<le> unat q \<and> unat q < unat p + 4096 * Suc n}"
      using Suc.prems(1) by fastforce
  qed
  with ih show ?case by simp
qed

lemma kinit_loop_free_inv:
  assumes "free_inv ph xs" "page_aligned p" "end_address ph \<le> p" "unat p \<le> 0x88000000"
    and "\<forall>x \<in> set xs. unat x < unat p" and "n = (0x88000000 - unat p) div 4096"
  shows "\<exists>ph'. kinit_loop p ph = Inr ph' \<and> free_inv ph' (rev (pages_from p n) @ xs) \<and>
    end_address ph' = end_address ph"
  using assms
proof (induction n arbitrary: p ph xs)
  case 0
  then have "unat p = 0x88000000" by (simp add: page_aligned_unat)
  then have "p = PHYSTOP" by (intro word_eq_unatI) simp
  then have "kinit_loop p ph = Inr ph" by (subst kinit_loop.simps) (simp add: layout_defs)
  with 0 show ?case by simp
next
  case (Suc n)
  have le: "unat p + 4096 \<le> 0x88000000" using Suc.prems by (simp add: page_aligned_unat)
  then have next_page: "unat (p + PGSIZE) = unat p + 4096" by (simp add: unat_add_nowrap)
  have man: "managed ph p" using Suc.prems le by (simp add: managed_def word_less_nat_alt)
  from Suc.prems man obtain ph1 where ph1: "kfree p ph = Inr ph1" "free_inv ph1 (p # xs)"
    "end_address ph1 = end_address ph" by (auto elim: kfree_free_inv)
  have "\<exists>ph'. kinit_loop (p + PGSIZE) ph1 = Inr ph' \<and>
      free_inv ph' (rev (pages_from (p + PGSIZE) n) @ (p # xs)) \<and> end_address ph' = end_address ph1"
  proof (rule Suc.IH)
    show "free_inv ph1 (p # xs)" by (rule ph1)
    show "page_aligned (p + PGSIZE)" using Suc.prems next_page by (simp add: page_aligned_def)
    show "end_address ph1 \<le> p + PGSIZE" using Suc.prems next_page ph1
      by (simp add: word_le_nat_alt del: PGSIZE_def)
  qed (use Suc.prems next_page le in \<open>auto simp del: PGSIZE_def\<close>)
  moreover have "p + PGSIZE \<le> PHYSTOP" using le next_page by (simp add: word_le_nat_alt)
  ultimately show ?case using ph1 by (subst kinit_loop.simps) auto
qed

text \<open>
  After \<open>kinit\<close> the free list holds every page between the kernel image and \<open>PHYSTOP\<close>, once each,
  the highest first.
\<close>

definition kinit_pages :: "u64 \<Rightarrow> u64 list" where
  "kinit_pages e = rev (pages_from (PGROUNDUP e) ((0x88000000 - unat (PGROUNDUP e)) div 4096))"

lemma kinit_free_inv:
  assumes "0 < end_address ph" "end_address ph \<le> PHYSTOP"
  shows "\<exists>ph'. kinit ph = Inr ph' \<and> free_inv ph' (kinit_pages (end_address ph)) \<and>
    end_address ph' = end_address ph"
proof -
  let ?e = "end_address ph"
  have e: "unat ?e \<le> 0x88000000" using assms by (simp add: word_le_nat_alt)
  then have up: "unat (PGROUNDUP ?e) = 4096 * ((unat ?e + 4095) div 4096)" by (simp add: unat_PGROUNDUP)
  then have le: "unat (PGROUNDUP ?e) \<le> 0x88000000" "unat ?e \<le> unat (PGROUNDUP ?e)"
    using e roundup_le_iff [of "unat ?e" 557056] roundup_le_iff [of "unat ?e" "(unat ?e + 4095) div 4096"]
    by simp_all
  have "\<exists>ph'. kinit_loop (PGROUNDUP ?e) (ph\<lparr>free_mem_list := 0\<rparr>) = Inr ph' \<and>
      free_inv ph' (kinit_pages ?e @ []) \<and> end_address ph' = end_address (ph\<lparr>free_mem_list := 0\<rparr>)"
    unfolding kinit_pages_def
    by (rule kinit_loop_free_inv) (use assms le up in \<open>auto simp: free_inv_def page_aligned_def word_le_nat_alt\<close>)
  then show ?thesis by (simp add: kinit_def)
qed

lemma set_kinit_pages:
  assumes "end_address ph \<le> PHYSTOP"
  shows "set (kinit_pages (end_address ph)) = {p. managed ph p}"
proof -
  let ?e = "end_address ph"
  have e: "unat ?e \<le> 0x88000000" using assms by (simp add: word_le_nat_alt)
  then have up: "unat (PGROUNDUP ?e) = 4096 * ((unat ?e + 4095) div 4096)" by (simp add: unat_PGROUNDUP)
  define k where "k = (unat ?e + 4095) div 4096"
  have k: "k \<le> 557056" "k \<le> q \<longleftrightarrow> unat ?e \<le> 4096 * q" for q
    using e by (simp_all add: k_def roundup_le_iff)
  have n: "(0x88000000 - 4096 * k) div 4096 = 557056 - k"
  proof -
    have "(0x88000000 :: nat) - 4096 * k = 4096 * (557056 - k)" by (simp add: diff_mult_distrib2)
    then show ?thesis by simp
  qed
  have "page_aligned (PGROUNDUP ?e)" using up by (simp add: page_aligned_def)
  then have "set (kinit_pages ?e) = {q. page_aligned q \<and> 4096 * k \<le> unat q \<and> unat q < 4096 * k + 4096 * (557056 - k)}"
    using set_pages_from [of "PGROUNDUP ?e" "557056 - k"] k(1) up n
    by (simp add: kinit_pages_def k_def [symmetric])
  also have "\<dots> = {p. managed ph p}"
  proof -
    have "4096 * k + 4096 * (557056 - k) = 0x88000000" using k(1) by simp
    then show ?thesis
      using k(2) by (auto simp: managed_def word_le_nat_alt word_less_nat_alt page_aligned_unat)
  qed
  finally show ?thesis .
qed

end
