(* ===== verification/Vm.thy ===== *)
theory Vm
  imports Kalloc
begin

text \<open>
  The routines of \<open>kernel/mm/vm.c\<close> as the code has them: the three-level walk, the mapping loop,
  the construction of the kernel page table, the release of a table tree, and the copies between
  user and kernel memory. The facts about them are in \<open>Page_Table\<close>, \<open>Map_Pages\<close> and \<open>Copy_User\<close>.
\<close>

section \<open>walk and walkaddr\<close>

text \<open>
  \<open>for (int level = 2; level > 0; level--)\<close>: the first argument counts the remaining levels. The
  result is the address of the level-0 PTE, or 0.
\<close>

fun walk_loop :: "nat \<Rightarrow> u64 \<Rightarrow> u64 \<Rightarrow> bool \<Rightarrow> phys \<Rightarrow> u64 \<times> phys" where
  "walk_loop 0 pagetable va alloc ph = (pte_addr pagetable (PX 0 va), ph)"
| "walk_loop (Suc l) pagetable va alloc ph =
     (let level = Suc l; pte = pte_addr pagetable (PX level va) in
      if load64 (ram ph) pte AND PTE_V \<noteq> 0
      then walk_loop l (PTE2PA (load64 (ram ph) pte)) va alloc ph
      else if \<not> alloc then (0, ph)
      else
        let (pagetable, ph) = kalloc ph in
        if pagetable = 0 then (0, ph)
        else
          let ph = ph\<lparr>ram := memset pagetable 0 PGSIZE (ram ph)\<rparr>;
              ph = ph\<lparr>ram := store64 pte (PA2PTE pagetable OR PTE_V) (ram ph)\<rparr>
          in walk_loop l pagetable va alloc ph)"

definition walk :: "u64 \<Rightarrow> u64 \<Rightarrow> bool \<Rightarrow> phys \<Rightarrow> (u64 \<times> phys) outcome" where
  "walk pagetable va alloc ph =
     (if va \<ge> MAXVA then Inl (Panic ''walk: virtual address out of range'')
      else Inr (walk_loop 2 pagetable va alloc ph))"

definition walkaddr :: "u64 \<Rightarrow> u64 \<Rightarrow> phys \<Rightarrow> u64 outcome" where
  "walkaddr pagetable va ph =
     (if va \<ge> MAXVA then Inr 0
      else bindE (walk pagetable va False ph) (\<lambda>(pte, ph).
        if pte = 0 then Inr 0
        else if load64 (ram ph) pte AND PTE_V = 0 then Inr 0
        else if load64 (ram ph) pte AND PTE_U = 0 then Inr 0
        else
          let pa = PTE2PA (load64 (ram ph) pte) in
          Inr pa))"

lemma walk_Inr_MAXVA: "walk pt va al ph = Inr r \<Longrightarrow> unat va < 0x4000000000"
  by (auto simp: walk_def word_less_nat_alt word_le_nat_alt split: if_splits)

section \<open>mappages\<close>

function mappages_loop :: "u64 \<Rightarrow> u64 \<Rightarrow> u64 \<Rightarrow> u64 \<Rightarrow> u32 \<Rightarrow> phys \<Rightarrow> (u32 \<times> phys) outcome" where
  "mappages_loop pagetable a last_page pa perm ph =
     bindE (walk pagetable a True ph) (\<lambda>(pte, ph).
       if pte = 0 then Inr (- 1, ph)
       else if load64 (ram ph) pte AND PTE_V \<noteq> 0 then Inl (Panic ''mappages: remap'')
       else
         let ph = ph\<lparr>ram := store64 pte (PA2PTE pa OR scast perm OR PTE_V) (ram ph)\<rparr> in
         if a = last_page then Inr (0, ph)
         else mappages_loop pagetable (a + PGSIZE) last_page (pa + PGSIZE) perm ph)"
  by pat_completeness auto
termination
proof (relation "measure (\<lambda>(pagetable, a, last_page, pa, perm, ph). 0x4000001000 - unat a)", goal_cases)
  case (2 pagetable a last_page pa perm ph x pte ph' ph'')
  then have "unat a < 0x4000000000" by (auto dest: walk_Inr_MAXVA)
  then show ?case by (simp add: unat_add_nowrap)
qed simp

declare mappages_loop.simps [simp del]

definition mappages :: "u64 \<Rightarrow> u64 \<Rightarrow> u64 \<Rightarrow> u64 \<Rightarrow> u32 \<Rightarrow> phys \<Rightarrow> (u32 \<times> phys) outcome" where
  "mappages pagetable pa va sz perm ph =
     (if sz = 0 then Inl (Panic ''mappages: size is 0'')
      else
        let a = PGROUNDDOWN va;
            last_page = PGROUNDDOWN (va + sz - 1)
        in mappages_loop pagetable a last_page pa perm ph)"

section \<open>The kernel page table\<close>

text \<open>
  \<open>etext\<close> and \<open>trampoline\<close> are linker symbols. The result is the new value of the global
  \<open>kernel_pagetable\<close>. The return values of the five calls of \<open>mappages\<close> are dropped, as in the code.
\<close>

definition PTE_RW :: u32 where "PTE_RW = ucast (PTE_R OR PTE_W)"
definition PTE_RX :: u32 where "PTE_RX = ucast (PTE_R OR PTE_X)"

definition kvmininit :: "u64 \<Rightarrow> u64 \<Rightarrow> phys \<Rightarrow> (u64 \<times> phys) outcome" where
  "kvmininit etext trampoline ph =
     (let (kernel_pagetable, ph) = kalloc ph in
      if kernel_pagetable = 0 then Inl (Panic ''kvmininit: out of memory'')
      else
        let ph = ph\<lparr>ram := fold (\<lambda>i. store64 (pte_addr kernel_pagetable (of_nat i)) 0) [0..<512] (ram ph)\<rparr> in
        bindE (mappages kernel_pagetable UART0 UART0 PGSIZE PTE_RW ph) (\<lambda>(_, ph).
        bindE (mappages kernel_pagetable PLIC PLIC 0x400000 PTE_RW ph) (\<lambda>(_, ph).
        bindE (mappages kernel_pagetable KERNBASE KERNBASE (etext - KERNBASE) PTE_RX ph) (\<lambda>(_, ph).
        bindE (mappages kernel_pagetable etext etext (PHYSTOP - etext) PTE_RW ph) (\<lambda>(_, ph).
        bindE (mappages kernel_pagetable trampoline TRAMPOLINE PGSIZE PTE_RX ph) (\<lambda>(_, ph).
        Inr (kernel_pagetable, ph)))))))"

section \<open>freewalk\<close>

text \<open>
  The recursion follows the page table, so its depth is a fuel argument; \<open>Page_Table\<close> shows that a
  well-formed table needs three.
\<close>

primrec freewalk :: "nat \<Rightarrow> u64 \<Rightarrow> phys \<Rightarrow> phys outcome" where
  "freewalk 0 pagetable ph = Inl (Hang ''freewalk'')"
| "freewalk (Suc fuel) pagetable ph =
     bindE
       (forE (\<lambda>i ph.
          let pte = load64 (ram ph) (pte_addr pagetable (of_nat i)) in
          if pte AND PTE_V \<noteq> 0 \<and> pte AND (PTE_R OR PTE_W OR PTE_X) = 0 then
            let child = PTE2PA pte in
            bindE (freewalk fuel child ph) (\<lambda>ph.
            Inr (ph\<lparr>ram := store64 (pte_addr pagetable (of_nat i)) 0 (ram ph)\<rparr>))
          else if pte AND PTE_V \<noteq> 0 then Inl (Panic ''freewalk: leaf'')
          else Inr ph) [0..<512] ph)
       (kfree pagetable)"

section \<open>Copies between user and kernel memory\<close>

lemma page_remainder:
  fixes a :: u64
  shows "unat (PGSIZE - (a - PGROUNDDOWN a)) = 4096 - unat a mod 4096"
proof -
  have "unat (PGROUNDDOWN a) \<le> unat a" by (simp add: unat_PGROUNDDOWN)
  then have off: "unat (a - PGROUNDDOWN a) = unat a mod 4096"
    by (simp add: unat_sub_le unat_PGROUNDDOWN minus_mult_div_eq_mod)
  then have "unat (a - PGROUNDDOWN a) \<le> unat (PGSIZE :: u64)" by simp
  then show ?thesis by (simp add: unat_sub_le off)
qed

text \<open>The number of bytes a turn of the loops handles: up to the end of the page or of the request.\<close>

definition chunk :: "u64 \<Rightarrow> u64 \<Rightarrow> u64" where
  "chunk va len =
     (let n = PGSIZE - (va - PGROUNDDOWN va) in if n > len then len else n)"

lemma unat_chunk: "unat (chunk va len) = min (4096 - unat va mod 4096) (unat len)"
  by (auto simp: chunk_def Let_def page_remainder word_less_nat_alt simp del: PGSIZE_def)

lemma chunk_progress: "0 < len \<Longrightarrow> unat (len - chunk va len) < unat len"
  using mod_less_divisor [of 4096 "unat va"]
  by (simp add: unat_sub_le unat_chunk word_less_nat_alt del: mod_less_divisor)

function copyin :: "u64 \<Rightarrow> u64 \<Rightarrow> u64 \<Rightarrow> u64 \<Rightarrow> phys \<Rightarrow> (u32 \<times> phys) outcome" where
  "copyin pagetable dst srcva len ph =
     (if len > 0 then
        let va0 = PGROUNDDOWN srcva in
        bindE (walkaddr pagetable va0 ph) (\<lambda>pa0.
          if pa0 = 0 then Inr (- 1, ph)
          else
            let n = chunk srcva len;
                ph = ph\<lparr>ram := memmove dst (pa0 + (srcva - va0)) n (ram ph)\<rparr>
            in copyin pagetable (dst + n) (va0 + PGSIZE) (len - n) ph)
      else Inr (0, ph))"
  by pat_completeness auto
termination
  by (relation "measure (\<lambda>(pagetable, dst, srcva, len, ph). unat len)") (auto simp: chunk_progress)

declare copyin.simps [simp del]

function copyout :: "u64 \<Rightarrow> u64 \<Rightarrow> u64 \<Rightarrow> u64 \<Rightarrow> phys \<Rightarrow> (u32 \<times> phys) outcome" where
  "copyout pagetable dstva src len ph =
     (if len > 0 then
        let va0 = PGROUNDDOWN dstva in
        if va0 \<ge> MAXVA then Inr (- 1, ph)
        else
          bindE (walkaddr pagetable va0 ph) (\<lambda>pa0.
            if pa0 = 0 then Inr (- 1, ph)
            else
              bindE (walk pagetable va0 False ph) (\<lambda>(pte, ph').
                if pte = 0 then Inl (NullDeref ''copyout: *pte'')
                else if load64 (ram ph) pte AND PTE_W = 0 then Inr (- 1, ph)
                else
                  let n = chunk dstva len;
                      ph = ph\<lparr>ram := memmove (pa0 + (dstva - va0)) src n (ram ph)\<rparr>
                  in copyout pagetable (va0 + PGSIZE) (src + n) (len - n) ph))
      else Inr (0, ph))"
  by pat_completeness auto
termination
  by (relation "measure (\<lambda>(pagetable, dstva, src, len, ph). unat len)") (auto simp: chunk_progress)

declare copyout.simps [simp del]

text \<open>
  The inner loop of \<open>copyinstr\<close> over one page: it yields \<open>got_null\<close>, the advanced \<open>dst\<close>, the
  remaining \<open>max\<close> and the memory.
\<close>

primrec copyinstr_page :: "nat \<Rightarrow> u64 \<Rightarrow> u64 \<Rightarrow> u64 \<Rightarrow> memory \<Rightarrow> bool \<times> u64 \<times> u64 \<times> memory" where
  "copyinstr_page 0 dst p max_len m = (False, dst, max_len, m)"
| "copyinstr_page (Suc n) dst p max_len m =
     (if m p = 0 then (True, dst, max_len, m(dst := 0))
      else copyinstr_page n (dst + 1) (p + 1) (max_len - 1) (m(dst := m p)))"

lemma copyinstr_page_max:
  "copyinstr_page n dst p max_len m = (False, dst', max', m') \<Longrightarrow> max' = max_len - of_nat n"
  by (induction n arbitrary: dst p max_len m) (fastforce split: if_splits simp: algebra_simps)+

lemma copyinstr_page_progress:
  assumes "(False, dst', max', m') = copyinstr_page (unat (chunk srcva max_len)) dst p max_len m" "0 < max_len"
  shows "unat max' < unat max_len"
proof -
  have "max' = max_len - of_nat (unat (chunk srcva max_len))" by (rule copyinstr_page_max [OF assms(1) [symmetric]])
  with assms(2) show ?thesis by (simp add: chunk_progress)
qed

function copyinstr :: "u64 \<Rightarrow> u64 \<Rightarrow> u64 \<Rightarrow> u64 \<Rightarrow> phys \<Rightarrow> (u32 \<times> phys) outcome" where
  "copyinstr pagetable dst srcva max_len ph =
     (if max_len > 0 then
        let va0 = PGROUNDDOWN srcva in
        bindE (walkaddr pagetable va0 ph) (\<lambda>pa0.
          if pa0 = 0 then Inr (- 1, ph)
          else
            case copyinstr_page (unat (chunk srcva max_len)) dst (pa0 + (srcva - va0)) max_len (ram ph) of
              (got_null, dst, max_len, m) \<Rightarrow>
                if got_null then Inr (0, ph\<lparr>ram := m\<rparr>)
                else copyinstr pagetable dst (va0 + PGSIZE) max_len (ph\<lparr>ram := m\<rparr>))
      else Inr (- 1, ph))"
  by pat_completeness auto
termination
  by (relation "measure (\<lambda>(pagetable, dst, srcva, max_len, ph). unat max_len)")
    (auto intro: copyinstr_page_progress)

declare copyinstr.simps [simp del]

end
