(* ===== verification/Page_Table.thy ===== *)
theory Page_Table
  imports Vm
begin

text \<open>
  The shape of a three-level page table in RAM. A table is seen through three functions of the
  indices: \<open>sub_table\<close> follows one valid entry, \<open>table0\<close> two of them, and \<open>pte_of\<close> reads the
  level-0 entry (0 where there is no level-0 table). Well-formedness says that no table page is
  shared between two entries and that none is on the allocator's free list; it is what makes a
  store to one entry invisible through every other path.
\<close>

section \<open>Reading a page table\<close>

definition pt_entry :: "memory \<Rightarrow> u64 \<Rightarrow> u64 \<Rightarrow> u64" where
  "pt_entry m pt i = load64 m (pte_addr pt i)"

definition sub_table :: "memory \<Rightarrow> u64 \<Rightarrow> u64 \<Rightarrow> u64 option" where
  "sub_table m pt i = (if bit (pt_entry m pt i) 0 then Some (PTE2PA (pt_entry m pt i)) else None)"

definition table0 :: "memory \<Rightarrow> u64 \<Rightarrow> u64 \<Rightarrow> u64 \<Rightarrow> u64 option" where
  "table0 m root i j = Option.bind (sub_table m root i) (\<lambda>t. sub_table m t j)"

definition pte_of :: "memory \<Rightarrow> u64 \<Rightarrow> u64 \<Rightarrow> u64 \<Rightarrow> u64 \<Rightarrow> u64" where
  "pte_of m root i j k = (case table0 m root i j of None \<Rightarrow> 0 | Some t \<Rightarrow> pt_entry m t k)"

definition leaf :: "memory \<Rightarrow> u64 \<Rightarrow> u64 \<Rightarrow> u64" where
  "leaf m root va = pte_of m root (PX 2 va) (PX 1 va) (PX 0 va)"

abbreviation idx :: "u64 \<Rightarrow> bool" where "idx i \<equiv> unat i < 512"

lemma idx_PX [simp]: "idx (PX l va)"
  by (rule unat_PX_less)

definition tables1 :: "memory \<Rightarrow> u64 \<Rightarrow> u64 set" where
  "tables1 m root = {t. \<exists>i. idx i \<and> sub_table m root i = Some t}"

definition tables0 :: "memory \<Rightarrow> u64 \<Rightarrow> u64 set" where
  "tables0 m root = {t. \<exists>i j. idx i \<and> idx j \<and> table0 m root i j = Some t}"

definition tables :: "memory \<Rightarrow> u64 \<Rightarrow> u64 set" where
  "tables m root = insert root (tables1 m root \<union> tables0 m root)"

lemma page_aligned_sub_table: "sub_table m pt i = Some t \<Longrightarrow> page_aligned t"
  by (auto simp: sub_table_def page_aligned_PTE2PA split: if_splits)

lemma page_aligned_table0: "table0 m root i j = Some t \<Longrightarrow> page_aligned t"
  by (auto simp: table0_def bind_eq_Some_conv intro: page_aligned_sub_table)

section \<open>Frame facts\<close>

lemma pt_entry_agree:
  "agree_on P m m' \<Longrightarrow> page_aligned t \<Longrightarrow> pageno t \<in> P \<Longrightarrow> idx i \<Longrightarrow> pt_entry m' t i = pt_entry m t i"
  unfolding pt_entry_def pte_addr_off by (rule load_le_agree [of P]) auto

lemma sub_table_agree:
  "agree_on P m m' \<Longrightarrow> page_aligned t \<Longrightarrow> pageno t \<in> P \<Longrightarrow> idx i \<Longrightarrow> sub_table m' t i = sub_table m t i"
  by (simp add: sub_table_def pt_entry_agree)

lemma tables1I: "idx i \<Longrightarrow> sub_table m root i = Some t \<Longrightarrow> t \<in> tables1 m root"
  by (auto simp: tables1_def)

lemma tables0I: "idx i \<Longrightarrow> idx j \<Longrightarrow> table0 m root i j = Some t \<Longrightarrow> t \<in> tables0 m root"
  by (auto simp: tables0_def)

lemma tree_agree:
  assumes "agree_on (pageno ` tables m root) m m'" "page_aligned root" "idx i" "idx j" "idx k"
  shows "sub_table m' root i = sub_table m root i" "table0 m' root i j = table0 m root i j"
    "pte_of m' root i j k = pte_of m root i j k"
proof -
  show sub: "sub_table m' root i = sub_table m root i"
    using assms by (intro sub_table_agree) (auto simp: tables_def)
  show t0: "table0 m' root i j = table0 m root i j"
  proof (cases "sub_table m root i")
    case None
    with sub show ?thesis by (simp add: table0_def)
  next
    case (Some t)
    then have "sub_table m' t j = sub_table m t j"
      using assms by (intro sub_table_agree) (auto simp: tables_def intro: page_aligned_sub_table tables1I)
    with Some sub show ?thesis by (simp add: table0_def)
  qed
  show "pte_of m' root i j k = pte_of m root i j k"
  proof (cases "table0 m root i j")
    case None
    with t0 show ?thesis by (simp add: pte_of_def)
  next
    case (Some t)
    then have "pt_entry m' t k = pt_entry m t k"
      using assms by (intro pt_entry_agree) (auto simp: tables_def intro: page_aligned_table0 tables0I)
    with Some t0 show ?thesis by (simp add: pte_of_def)
  qed
qed

lemma tables_cong:
  assumes "\<And>i. idx i \<Longrightarrow> sub_table m' root i = sub_table m root i"
    and "\<And>i j. idx i \<Longrightarrow> idx j \<Longrightarrow> table0 m' root i j = table0 m root i j"
  shows "tables1 m' root = tables1 m root" "tables0 m' root = tables0 m root"
    "tables m' root = tables m root"
  using assms by (simp_all add: tables_def tables1_def tables0_def cong: conj_cong)

section \<open>Well-formed trees\<close>

definition pt_wf :: "memory \<Rightarrow> u64 \<Rightarrow> bool" where
  "pt_wf m root \<longleftrightarrow> page_aligned root \<and> 0 \<notin> tables m root \<and>
     root \<notin> tables1 m root \<union> tables0 m root \<and> tables1 m root \<inter> tables0 m root = {} \<and>
     (\<forall>i i' t. idx i \<longrightarrow> idx i' \<longrightarrow> sub_table m root i = Some t \<longrightarrow> sub_table m root i' = Some t \<longrightarrow> i = i') \<and>
     (\<forall>i j i' j' t. idx i \<longrightarrow> idx j \<longrightarrow> idx i' \<longrightarrow> idx j' \<longrightarrow>
        table0 m root i j = Some t \<longrightarrow> table0 m root i' j' = Some t \<longrightarrow> i = i' \<and> j = j')"

text \<open>A tree over the allocator's memory: its pages are managed and none of them is free.\<close>

definition pt_ok :: "phys \<Rightarrow> u64 \<Rightarrow> u64 list \<Rightarrow> bool" where
  "pt_ok ph root xs \<longleftrightarrow> free_inv ph xs \<and> pt_wf (ram ph) root \<and>
     (\<forall>t \<in> tables (ram ph) root. managed ph t \<and> t \<notin> set xs)"

lemma pt_wf_cong:
  assumes "\<And>i. idx i \<Longrightarrow> sub_table m' root i = sub_table m root i"
    and "\<And>i j. idx i \<Longrightarrow> idx j \<Longrightarrow> table0 m' root i j = table0 m root i j"
  shows "pt_wf m' root = pt_wf m root"
  using assms by (simp add: pt_wf_def tables_cong [OF assms] cong: imp_cong)

lemma pt_wf_agree:
  assumes "pt_wf m root" "agree_on (pageno ` tables m root) m m'"
  shows "pt_wf m' root" "tables m' root = tables m root"
proof -
  have al: "page_aligned root" using assms by (simp add: pt_wf_def)
  note cong = tree_agree(1,2) [OF assms(2) al, of _ _ 0]
  show "pt_wf m' root" using assms(1) pt_wf_cong [of m' root m] cong by auto
  show "tables m' root = tables m root" using cong by (intro tables_cong) auto
qed

lemma page_aligned_tables: "pt_wf m root \<Longrightarrow> t \<in> tables m root \<Longrightarrow> page_aligned t"
  by (auto simp: pt_wf_def tables_def tables1_def tables0_def
      intro: page_aligned_sub_table page_aligned_table0)

lemma pt_wf_table0_unique:
  "pt_wf m root \<Longrightarrow> idx i \<Longrightarrow> idx j \<Longrightarrow> idx i' \<Longrightarrow> idx j' \<Longrightarrow>
    table0 m root i j = Some t \<Longrightarrow> table0 m root i' j' = Some t \<Longrightarrow> i = i' \<and> j = j'"
  unfolding pt_wf_def by blast

lemma pt_wf_sub_unique:
  "pt_wf m root \<Longrightarrow> idx i \<Longrightarrow> idx i' \<Longrightarrow> sub_table m root i = Some t \<Longrightarrow> sub_table m root i' = Some t \<Longrightarrow> i = i'"
  unfolding pt_wf_def by blast

section \<open>Effect of a store to one entry\<close>

lemma pt_entry_store:
  "page_aligned t \<Longrightarrow> page_aligned t' \<Longrightarrow> idx i \<Longrightarrow> idx i' \<Longrightarrow>
    pt_entry (store64 (pte_addr t i) v m) t' i' = (if t = t' \<and> i = i' then v else pt_entry m t' i')"
  by (simp add: pt_entry_def load64_store64_slot)

lemma sub_table_store:
  "page_aligned t \<Longrightarrow> page_aligned t' \<Longrightarrow> idx i \<Longrightarrow> idx i' \<Longrightarrow>
    sub_table (store64 (pte_addr t i) v m) t' i' =
      (if t = t' \<and> i = i' then (if bit v 0 then Some (PTE2PA v) else None) else sub_table m t' i')"
  by (simp add: sub_table_def pt_entry_store)

lemma agree_on_pte_store:
  "page_aligned t \<Longrightarrow> idx i \<Longrightarrow> pageno t \<notin> P \<Longrightarrow> agree_on P m (store64 (pte_addr t i) v m)"
  unfolding pte_addr_off by (rule agree_on_store) auto

text \<open>A store to a level-0 entry changes that PTE and nothing else.\<close>

lemma leaf_store:
  fixes v :: u64
  assumes wf: "pt_wf m root" and t: "table0 m root i j = Some t" and ix: "idx i" "idx j" "idx k"
  defines "m' \<equiv> store64 (pte_addr t k) v m"
  shows "\<And>i'. idx i' \<Longrightarrow> sub_table m' root i' = sub_table m root i'"
    and "\<And>i' j'. idx i' \<Longrightarrow> idx j' \<Longrightarrow> table0 m' root i' j' = table0 m root i' j'"
    and "\<And>i' j' k'. idx i' \<Longrightarrow> idx j' \<Longrightarrow> idx k' \<Longrightarrow>
      pte_of m' root i' j' k' = (if i' = i \<and> j' = j \<and> k' = k then v else pte_of m root i' j' k')"
proof -
  have alt: "page_aligned t" "page_aligned root" using t wf by (auto simp: pt_wf_def intro: page_aligned_table0)
  have t0: "t \<in> tables0 m root" using t ix by (auto intro: tables0I)
  then have ne: "t \<noteq> root" "t \<notin> tables1 m root" using wf by (auto simp: pt_wf_def)
  show sub: "sub_table m' root i' = sub_table m root i'" if "idx i'" for i'
    using that ix ne alt by (simp add: m'_def sub_table_store)
  show tab: "table0 m' root i' j' = table0 m root i' j'" if "idx i'" "idx j'" for i' j'
  proof (cases "sub_table m root i'")
    case None
    with sub that show ?thesis by (simp add: table0_def)
  next
    case (Some u)
    then have "u \<noteq> t" "page_aligned u" using ne that by (auto intro: tables1I page_aligned_sub_table)
    then have "sub_table m' u j' = sub_table m u j'"
      using that ix alt by (simp add: m'_def sub_table_store)
    with Some sub that show ?thesis by (simp add: table0_def)
  qed
  show "pte_of m' root i' j' k' = (if i' = i \<and> j' = j \<and> k' = k then v else pte_of m root i' j' k')"
    if "idx i'" "idx j'" "idx k'" for i' j' k'
  proof (cases "table0 m root i' j'")
    case None
    with tab t that show ?thesis by (auto simp: pte_of_def)
  next
    case (Some u)
    then have al: "page_aligned u" by (rule page_aligned_table0)
    have "u = t \<longleftrightarrow> i' = i \<and> j' = j"
      using Some t that ix pt_wf_table0_unique [OF wf, of i' j' i j] by auto
    moreover have "pt_entry m' u k' = (if t = u \<and> k = k' then v else pt_entry m u k')"
      unfolding m'_def using alt al ix that by (intro pt_entry_store)
    ultimately show ?thesis using Some tab that by (auto simp: pte_of_def)
  qed
qed

section \<open>Effect of hanging a fresh table into the tree\<close>

lemma load_le_zero: "(\<And>i. i < k \<Longrightarrow> m (a + of_nat i) = 0) \<Longrightarrow> load_le k m a = 0"
proof (induction k arbitrary: a)
  case 0
  then show ?case by simp
next
  case (Suc k)
  have "load_le k m (a + 1) = (0 :: 'a word)"
  proof (rule Suc.IH)
    fix i assume "i < k"
    then show "m (a + 1 + of_nat i) = 0" using Suc.prems [of "Suc i"] by (simp add: add.assoc)
  qed
  with Suc.prems [of 0] show ?case by simp
qed

lemma pt_entry_zero_page:
  assumes "\<forall>a. pageno a = pageno c \<longrightarrow> m a = 0" "page_aligned c" "idx i"
  shows "pt_entry m c i = 0"
  unfolding pt_entry_def
proof (rule load_le_zero)
  fix k :: nat assume "k < 8"
  then have "pageno (c + of_nat (8 * unat i + k)) = pageno c"
    using assms by (intro pageno_page_offset) auto
  with assms(1) show "m (pte_addr c i + of_nat k) = 0" by (simp add: pte_addr_def add.assoc)
qed

lemma table_entry_facts:
  assumes "page_aligned c"
  shows "bit (PA2PTE c OR PTE_V) 0" "PTE2PA (PA2PTE c OR PTE_V) = c"
  using assms PTE2PA_pack [of PTE_V c] by (simp_all add: PTE_V_def bit_simps PGROUNDDOWN_aligned)

text \<open>
  \<open>fresh m c mz\<close>: \<open>mz\<close> is \<open>m\<close> with the page \<open>c\<close> zeroed, as \<open>kalloc\<close> leaves it.
\<close>

definition fresh :: "memory \<Rightarrow> u64 \<Rightarrow> memory \<Rightarrow> bool" where
  "fresh m c mz \<longleftrightarrow> page_aligned c \<and> c \<noteq> 0 \<and> agree_on (- {pageno c}) m mz \<and>
     (\<forall>a. pageno a = pageno c \<longrightarrow> mz a = 0)"

lemma fresh_tree:
  assumes "pt_wf m root" "fresh m c mz" "c \<notin> tables m root"
  shows "agree_on (pageno ` tables m root) m mz"
proof -
  have "pageno t \<noteq> pageno c" if "t \<in> tables m root" for t
    using that assms page_aligned_tables [OF assms(1) that] by (auto simp: fresh_def dest: page_aligned_eqI)
  then show ?thesis using assms(2) by (auto simp: fresh_def intro: agree_on_subset)
qed

lemma graft1:
  assumes wf: "pt_wf m root" and fr: "fresh m c mz" "c \<notin> tables m root"
    and ix: "idx i" and none: "sub_table m root i = None"
  defines "m' \<equiv> store64 (pte_addr root i) (PA2PTE c OR PTE_V) mz"
  shows "\<And>i'. idx i' \<Longrightarrow> sub_table m' root i' = (if i' = i then Some c else sub_table m root i')"
    and "\<And>i' j'. idx i' \<Longrightarrow> idx j' \<Longrightarrow> table0 m' root i' j' = table0 m root i' j'"
    and "\<And>i' j' k'. idx i' \<Longrightarrow> idx j' \<Longrightarrow> idx k' \<Longrightarrow> pte_of m' root i' j' k' = pte_of m root i' j' k'"
proof -
  have al: "page_aligned root" "page_aligned c" using wf fr by (auto simp: pt_wf_def fresh_def)
  have ne: "c \<noteq> root" using fr by (auto simp: tables_def)
  have ag: "agree_on (pageno ` tables m root) m mz" by (rule fresh_tree [OF wf fr])
  note mz = tree_agree [OF ag al(1)]
  have zero: "pt_entry m' c j = 0" if "idx j" for j
    using pt_entry_zero_page [of c mz j] fr(1) that ix al ne
    by (simp add: m'_def pt_entry_store fresh_def)
  show sub: "sub_table m' root i' = (if i' = i then Some c else sub_table m root i')" if "idx i'" for i'
    using that ix al mz(1) [of i' 0 0] table_entry_facts [OF al(2)] by (simp add: m'_def sub_table_store)
  have old: "sub_table m' u j = sub_table m u j" if "sub_table m root i' = Some u" "idx i'" "idx j" for u i' j
  proof -
    have u: "u \<in> tables1 m root" "page_aligned u" using that by (auto intro: tables1I page_aligned_sub_table)
    then have "u \<noteq> root" "u \<in> tables m root" using wf by (auto simp: pt_wf_def tables_def)
    then show ?thesis using u that ix al ag by (simp add: m'_def sub_table_store sub_table_agree)
  qed
  show tab: "table0 m' root i' j' = table0 m root i' j'" if "idx i'" "idx j'" for i' j'
  proof (cases "i' = i")
    case True
    then show ?thesis using sub that zero none by (simp add: table0_def sub_table_def)
  next
    case False
    then show ?thesis using sub that old by (cases "sub_table m root i'") (auto simp: table0_def)
  qed
  show "pte_of m' root i' j' k' = pte_of m root i' j' k'" if "idx i'" "idx j'" "idx k'" for i' j' k'
  proof (cases "table0 m root i' j'")
    case None
    then show ?thesis using tab that by (simp add: pte_of_def)
  next
    case (Some u)
    then have u: "u \<in> tables0 m root" "page_aligned u" using that by (auto intro: tables0I page_aligned_table0)
    then have "u \<noteq> root" "u \<in> tables m root" using wf by (auto simp: pt_wf_def tables_def)
    then have "pt_entry m' u k' = pt_entry m u k'"
      using u that ix al ag by (simp add: m'_def pt_entry_store pt_entry_agree)
    then show ?thesis using Some tab that by (simp add: pte_of_def)
  qed
qed

lemma graft1_wf:
  assumes wf: "pt_wf m root" and c: "c \<notin> tables m root" "c \<noteq> 0"
    and ix: "idx i" and none: "sub_table m root i = None"
    and sub: "\<And>i'. idx i' \<Longrightarrow> sub_table m' root i' = (if i' = i then Some c else sub_table m root i')"
    and tab: "\<And>i' j'. idx i' \<Longrightarrow> idx j' \<Longrightarrow> table0 m' root i' j' = table0 m root i' j'"
  shows "pt_wf m' root" "tables m' root = insert c (tables m root)"
proof -
  have t0: "tables0 m' root = tables0 m root" using tab by (simp add: tables0_def cong: conj_cong)
  have t1: "tables1 m' root = insert c (tables1 m root)"
  proof (intro set_eqI iffI)
    fix t assume "t \<in> tables1 m' root"
    then show "t \<in> insert c (tables1 m root)" using sub by (auto simp: tables1_def split: if_splits)
  next
    fix t assume "t \<in> insert c (tables1 m root)"
    then show "t \<in> tables1 m' root"
      using sub none ix by (cases "t = c") (force simp: tables1_def)+
  qed
  show "tables m' root = insert c (tables m root)" by (auto simp: tables_def t0 t1)
  have inj: "i1 = i2" if "idx i1" "idx i2" "sub_table m' root i1 = Some t" "sub_table m' root i2 = Some t" for i1 i2 t
    using that c(1) sub pt_wf_sub_unique [OF wf, of i1 i2 t]
    by (auto simp: tables_def tables1_def split: if_splits)
  have inj0: "i1 = i2 \<and> j1 = j2"
    if "idx i1" "idx j1" "idx i2" "idx j2" "table0 m' root i1 j1 = Some t" "table0 m' root i2 j2 = Some t"
    for i1 j1 i2 j2 t
    using that tab pt_wf_table0_unique [OF wf, of i1 j1 i2 j2 t] by simp
  have "c \<noteq> root" "c \<notin> tables0 m root" using c by (auto simp: tables_def)
  then show "pt_wf m' root"
    using wf c inj inj0 unfolding pt_wf_def t0 t1 tables_def by blast
qed

lemma graft0:
  assumes wf: "pt_wf m root" and fr: "fresh m c mz" "c \<notin> tables m root"
    and ix: "idx i" "idx j" and t: "sub_table m root i = Some t" and none: "sub_table m t j = None"
  defines "m' \<equiv> store64 (pte_addr t j) (PA2PTE c OR PTE_V) mz"
  shows "\<And>i'. idx i' \<Longrightarrow> sub_table m' root i' = sub_table m root i'"
    and "\<And>i' j'. idx i' \<Longrightarrow> idx j' \<Longrightarrow>
      table0 m' root i' j' = (if i' = i \<and> j' = j then Some c else table0 m root i' j')"
    and "\<And>i' j' k'. idx i' \<Longrightarrow> idx j' \<Longrightarrow> idx k' \<Longrightarrow> pte_of m' root i' j' k' = pte_of m root i' j' k'"
proof -
  have t1: "t \<in> tables1 m root" using t ix by (auto intro: tables1I)
  have al: "page_aligned root" "page_aligned c" "page_aligned t"
    using wf fr t by (auto simp: pt_wf_def fresh_def intro: page_aligned_sub_table)
  have ne: "t \<noteq> root" "t \<noteq> c" "t \<notin> tables0 m root" using wf fr t1 by (auto simp: pt_wf_def tables_def)
  have ag: "agree_on (pageno ` tables m root) m mz" by (rule fresh_tree [OF wf fr])
  have zero: "pt_entry m' c k = 0" if "idx k" for k
    using pt_entry_zero_page [of c mz k] fr(1) that ix al ne
    by (simp add: m'_def pt_entry_store fresh_def)
  show sub: "sub_table m' root i' = sub_table m root i'" if "idx i'" for i'
    using that ix al ne tree_agree(1) [OF ag al(1), of i' 0 0] by (simp add: m'_def sub_table_store)
  show tab: "table0 m' root i' j' = (if i' = i \<and> j' = j then Some c else table0 m root i' j')"
    if "idx i'" "idx j'" for i' j'
  proof (cases "sub_table m root i'")
    case None
    then show ?thesis using sub that t by (auto simp: table0_def)
  next
    case (Some u)
    then have u: "u \<in> tables1 m root" "page_aligned u" using that by (auto intro: tables1I page_aligned_sub_table)
    then have "sub_table mz u j' = sub_table m u j'"
      using that ag by (intro sub_table_agree) (auto simp: tables_def)
    moreover have "u = t \<longleftrightarrow> i' = i"
      using Some t that ix pt_wf_sub_unique [OF wf, of i' i t] by auto
    ultimately show ?thesis
      using Some sub that ix al u table_entry_facts [OF al(2)]
      by (auto simp: table0_def m'_def sub_table_store)
  qed
  show "pte_of m' root i' j' k' = pte_of m root i' j' k'" if "idx i'" "idx j'" "idx k'" for i' j' k'
  proof (cases "i' = i \<and> j' = j")
    case True
    then show ?thesis using tab that zero t none by (simp add: pte_of_def table0_def)
  next
    case False
    show ?thesis
    proof (cases "table0 m root i' j'")
      case None
      then show ?thesis using tab that False by (auto simp: pte_of_def)
    next
      case (Some u)
      then have u: "u \<in> tables0 m root" "page_aligned u" using that by (auto intro: tables0I page_aligned_table0)
      then have "u \<noteq> t" "u \<in> tables m root" using ne by (auto simp: tables_def)
      then have "pt_entry m' u k' = pt_entry m u k'"
        using u that ix al ag by (simp add: m'_def pt_entry_store pt_entry_agree)
      then show ?thesis using Some tab that False by (auto simp: pte_of_def)
    qed
  qed
qed

lemma graft0_wf:
  assumes wf: "pt_wf m root" and c: "c \<notin> tables m root" "c \<noteq> 0"
    and ix: "idx i" "idx j" and none: "table0 m root i j = None"
    and sub: "\<And>i'. idx i' \<Longrightarrow> sub_table m' root i' = sub_table m root i'"
    and tab: "\<And>i' j'. idx i' \<Longrightarrow> idx j' \<Longrightarrow>
      table0 m' root i' j' = (if i' = i \<and> j' = j then Some c else table0 m root i' j')"
  shows "pt_wf m' root" "tables m' root = insert c (tables m root)"
proof -
  have t1: "tables1 m' root = tables1 m root" using sub by (simp add: tables1_def cong: conj_cong)
  have t0: "tables0 m' root = insert c (tables0 m root)"
  proof (intro set_eqI iffI)
    fix t assume "t \<in> tables0 m' root"
    then obtain i' j' where ij: "idx i'" "idx j'" "table0 m' root i' j' = Some t" by (auto simp: tables0_def)
    then show "t \<in> insert c (tables0 m root)" using tab [OF ij(1,2)]
      by (auto split: if_splits intro: tables0I)
  next
    fix t assume t: "t \<in> insert c (tables0 m root)"
    show "t \<in> tables0 m' root"
    proof (cases "t = c")
      case True
      then show ?thesis using tab ix by (intro tables0I [of i j]) auto
    next
      case False
      with t obtain i' j' where ij: "idx i'" "idx j'" "table0 m root i' j' = Some t" by (auto simp: tables0_def)
      then have "table0 m' root i' j' = Some t" using tab none by auto
      with ij show ?thesis by (auto intro: tables0I)
    qed
  qed
  show "tables m' root = insert c (tables m root)" by (auto simp: tables_def t0 t1)
  have inj: "i1 = i2" if "idx i1" "idx i2" "sub_table m' root i1 = Some t" "sub_table m' root i2 = Some t" for i1 i2 t
    using that sub pt_wf_sub_unique [OF wf, of i1 i2 t] by simp
  have notc: "table0 m root i1 j1 \<noteq> Some c" if "idx i1" "idx j1" for i1 j1
    using that c by (auto simp: tables_def tables0_def)
  have inj0: "i1 = i2 \<and> j1 = j2"
    if "idx i1" "idx j1" "idx i2" "idx j2" "table0 m' root i1 j1 = Some t" "table0 m' root i2 j2 = Some t"
    for i1 j1 i2 j2 t
    using that tab [of i1 j1] tab [of i2 j2] notc [of i1 j1] notc [of i2 j2]
      pt_wf_table0_unique [OF wf, of i1 j1 i2 j2 t] by (auto split: if_splits)
  have "c \<noteq> root" "c \<notin> tables1 m root" using c by (auto simp: tables_def)
  then show "pt_wf m' root"
    using wf c inj inj0 unfolding pt_wf_def t0 t1 tables_def by blast
qed

text \<open>The slot of a virtual address in the tree.\<close>

lemma leaf_slot:
  assumes "pt_wf m root" "table0 m root (PX 2 va) (PX 1 va) = Some t"
  shows "t \<in> tables m root" "page_aligned t" "pte_addr t (PX 0 va) \<noteq> 0"
    "load64 m (pte_addr t (PX 0 va)) = leaf m root va"
proof -
  show t: "t \<in> tables m root" using tables0I [OF idx_PX idx_PX assms(2)] by (simp add: tables_def)
  then show al: "page_aligned t" by (rule page_aligned_tables [OF assms(1)])
  have "t \<noteq> 0" using assms(1) t by (auto simp: pt_wf_def)
  with al show "pte_addr t (PX 0 va) \<noteq> 0" by (simp add: pte_addr_nonzero)
  show "load64 m (pte_addr t (PX 0 va)) = leaf m root va"
    using assms(2) by (simp add: leaf_def pte_of_def pt_entry_def)
qed

end
