(* ===== verification/Map_Pages.thy ===== *)
theory Map_Pages
  imports Page_Table
begin

text \<open>
  What \<open>walk\<close>, \<open>walkaddr\<close> and \<open>mappages\<close> do to the address space a page table describes. A
  walk that allocates changes no translation; a successful \<open>mappages\<close> sets exactly the PTEs of its
  range; the pages they use come from the free list and nothing outside the tree is written.
\<close>

section \<open>walk without allocation\<close>

lemma walk_loop_Suc:
  "walk_loop (Suc l) pt va al ph =
     (if bit (pt_entry (ram ph) pt (PX (Suc l) va)) 0
      then walk_loop l (PTE2PA (pt_entry (ram ph) pt (PX (Suc l) va))) va al ph
      else if \<not> al then (0, ph)
      else
        let (c, ph) = kalloc ph in
        if c = 0 then (0, ph)
        else
          let ph = ph\<lparr>ram := store64 (pte_addr pt (PX (Suc l) va)) (PA2PTE c OR PTE_V) (memset c 0 PGSIZE (ram ph))\<rparr>
          in walk_loop l c va al ph)"
  unfolding walk_loop.simps Let_def PTE_bits pt_entry_def by (simp cong: if_cong)

declare walk_loop.simps(2) [simp del]

lemma walk_False:
  assumes "unat va < 0x4000000000"
  shows "walk root va False ph =
    Inr (case table0 (ram ph) root (PX 2 va) (PX 1 va) of None \<Rightarrow> 0 | Some t \<Rightarrow> pte_addr t (PX 0 va), ph)"
proof -
  have two: "walk_loop 2 root va False ph = walk_loop (Suc (Suc 0)) root va False ph"
    by (simp only: numeral_2_eq_2)
  have px: "PX (Suc (Suc 0)) va = PX 2 va" "PX (Suc 0) va = PX 1 va" by (simp_all add: numeral_2_eq_2)
  show ?thesis
    using assms unfolding walk_def two walk_loop_Suc px
    by (auto simp: table0_def sub_table_def word_le_nat_alt)
qed

lemma walk_present:
  assumes "unat va < 0x4000000000" "table0 (ram ph) root (PX 2 va) (PX 1 va) = Some t"
  shows "walk root va al ph = Inr (pte_addr t (PX 0 va), ph)"
proof -
  have two: "walk_loop 2 root va al ph = walk_loop (Suc (Suc 0)) root va al ph"
    by (simp only: numeral_2_eq_2)
  have px: "PX (Suc (Suc 0)) va = PX 2 va" "PX (Suc 0) va = PX 1 va" by (simp_all add: numeral_2_eq_2)
  show ?thesis
    using assms unfolding walk_def two walk_loop_Suc px
    by (auto simp: table0_def sub_table_def word_le_nat_alt bind_eq_Some_conv split: if_splits)
qed

lemma walk_out_of_range:
  "unat va \<ge> 0x4000000000 \<Longrightarrow> walk root va al ph = Inl (Panic ''walk: virtual address out of range'')"
  by (simp add: walk_def word_le_nat_alt)

text \<open>The translation of one page: a valid user PTE whose frame is not the null page.\<close>

definition user_ok :: "u64 \<Rightarrow> bool" where
  "user_ok pte \<longleftrightarrow> bit pte 0 \<and> bit pte 4"

lemma walkaddr_eq:
  assumes "pt_wf (ram ph) root"
  shows "walkaddr root va ph =
    Inr (if unat va < 0x4000000000 \<and> user_ok (leaf (ram ph) root va) then PTE2PA (leaf (ram ph) root va) else 0)"
proof (cases "unat va < 0x4000000000")
  case False
  then show ?thesis by (simp add: walkaddr_def word_le_nat_alt)
next
  case True
  show ?thesis
  proof (cases "table0 (ram ph) root (PX 2 va) (PX 1 va)")
    case None
    with True show ?thesis
      by (simp add: walkaddr_def walk_False word_le_nat_alt leaf_def pte_of_def user_ok_def)
  next
    case (Some t)
    with assms have "pte_addr t (PX 0 va) \<noteq> 0" by (rule leaf_slot)
    with True Some show ?thesis
      by (auto simp: walkaddr_def walk_False word_le_nat_alt leaf_def pte_of_def user_ok_def
          pt_entry_def PTE_bits)
  qed
qed

section \<open>Growth of the tree\<close>

text \<open>
  \<open>pt_grow root ph xs ph' ys\<close>: the step from \<open>ph\<close> to \<open>ph'\<close> took some pages off the front of the
  free list \<open>xs\<close>, hung them into the tree as empty tables, and changed no PTE.
\<close>

definition pt_grow :: "u64 \<Rightarrow> phys \<Rightarrow> u64 list \<Rightarrow> phys \<Rightarrow> u64 list \<Rightarrow> bool" where
  "pt_grow root ph xs ph' ys \<longleftrightarrow>
     pt_ok ph' root ys \<and> end_address ph' = end_address ph \<and>
     (\<exists>zs. xs = zs @ ys \<and> tables (ram ph') root = tables (ram ph) root \<union> set zs) \<and>
     (\<forall>i j k. idx i \<longrightarrow> idx j \<longrightarrow> idx k \<longrightarrow> pte_of (ram ph') root i j k = pte_of (ram ph) root i j k) \<and>
     agree_on (- pageno ` tables (ram ph') root) (ram ph) (ram ph')"

lemma pt_grow_refl: "pt_ok ph root xs \<Longrightarrow> pt_grow root ph xs ph xs"
  by (simp add: pt_grow_def)

lemma pt_grow_trans:
  assumes "pt_grow root ph xs ph1 ys" "pt_grow root ph1 ys ph2 zs"
  shows "pt_grow root ph xs ph2 zs"
proof -
  from assms obtain a b where ab: "xs = a @ ys" "ys = b @ zs"
    "tables (ram ph1) root = tables (ram ph) root \<union> set a"
    "tables (ram ph2) root = tables (ram ph1) root \<union> set b"
    by (auto simp: pt_grow_def)
  have "agree_on (- pageno ` tables (ram ph2) root) (ram ph) (ram ph1)"
    using assms(1) ab by (auto simp: pt_grow_def intro: agree_on_subset)
  then have "agree_on (- pageno ` tables (ram ph2) root) (ram ph) (ram ph2)"
    using assms(2) by (auto simp: pt_grow_def intro: agree_on_trans)
  moreover have "\<exists>c. xs = c @ zs \<and> tables (ram ph2) root = tables (ram ph) root \<union> set c"
    using ab by (intro exI [of _ "a @ b"]) auto
  ultimately show ?thesis using assms by (auto simp: pt_grow_def)
qed

lemma pt_grow_leaf: "pt_grow root ph xs ph' ys \<Longrightarrow> leaf (ram ph') root va = leaf (ram ph) root va"
  by (simp add: pt_grow_def leaf_def)

lemma free_inv_frame:
  assumes "free_inv ph xs" "agree_on (pageno ` set xs) (ram ph) m"
  shows "free_inv (ph\<lparr>ram := m\<rparr>) xs"
  using assms chain_agree [OF assms(2)] by (auto simp: free_inv_def managed_def)

lemma managed_ram [simp]: "managed (ph\<lparr>ram := m\<rparr>) = managed ph"
  by (simp add: managed_def fun_eq_iff)

lemma managed_end: "end_address ph' = end_address ph \<Longrightarrow> managed ph' = managed ph"
  by (simp add: managed_def fun_eq_iff)

text \<open>One page taken from the allocator and hung into slot \<open>i\<close> of the table \<open>t\<close>.\<close>

lemma hang_table:
  assumes ok: "pt_ok ph root (c # ys)" and k: "kalloc ph = (c, ph1)"
    and t: "t \<in> tables (ram ph) root" "idx i"
  defines "mz \<equiv> memset c 0 PGSIZE (ram ph1)"
  defines "ph' \<equiv> ph1\<lparr>ram := store64 (pte_addr t i) (PA2PTE c OR PTE_V) mz\<rparr>"
  shows "fresh (ram ph) c mz" "c \<notin> tables (ram ph) root" "c \<noteq> 0" "free_inv ph' ys" "managed ph c"
    "end_address ph' = end_address ph"
    "agree_on (- pageno ` insert c (tables (ram ph) root)) (ram ph) (ram ph')"
proof -
  have inv: "free_inv ph (c # ys)" using ok by (simp add: pt_ok_def)
  then obtain ph2 where k2: "kalloc ph = (c, ph2)" "free_inv ph2 ys" "end_address ph2 = end_address ph"
    and ag: "agree_on (- {pageno c}) (ram ph) (ram ph2)" by (rule kalloc_free_inv)
  with k have ph1: "ph2 = ph1" by simp
  have c: "managed ph c" "c \<noteq> 0" using inv managed_nonzero by (auto simp: free_inv_def)
  then show "managed ph c" "c \<noteq> 0" .
  have mz: "mz = (\<lambda>a. if pageno a = pageno c then 0 else ram ph1 a)"
    unfolding mz_def using managed_bounds [OF c(1)] by (intro memset_page) auto
  have ag1: "agree_on (- {pageno c}) (ram ph1) mz" using mz by (simp add: agree_on_def)
  then have agz: "agree_on (- {pageno c}) (ram ph) mz" using ag ph1 by (blast intro: agree_on_trans)
  then show "fresh (ram ph) c mz" using c mz by (simp add: fresh_def managed_def)
  show "c \<notin> tables (ram ph) root" using ok by (auto simp: pt_ok_def)
  have alt: "page_aligned t" "managed ph t" "t \<notin> set ys"
    using ok t by (auto simp: pt_ok_def managed_def)
  have agt: "agree_on (- {pageno t}) mz (ram ph')"
    unfolding ph'_def using agree_on_pte_store [OF alt(1) t(2)] by simp
  have dis: "pageno ` set ys \<inter> {pageno c, pageno t} = {}"
    using inv alt(2,3) by (auto simp: free_inv_def dest: pageno_inj_managed)
  have "agree_on (pageno ` set ys) (ram ph1) mz" "agree_on (pageno ` set ys) mz (ram ph')"
    using ag1 agt dis by (auto intro: agree_on_subset)
  then have "agree_on (pageno ` set ys) (ram ph1) (ram ph')" by (rule agree_on_trans)
  then show "free_inv ph' ys" unfolding ph'_def using k2 ph1 by (intro free_inv_frame) simp_all
  show "end_address ph' = end_address ph" using k2 ph1 by (simp add: ph'_def)
  show "agree_on (- pageno ` insert c (tables (ram ph) root)) (ram ph) (ram ph')"
  proof (rule agree_on_trans)
    show "agree_on (- pageno ` insert c (tables (ram ph) root)) (ram ph) mz"
      by (rule agree_on_subset [OF agz]) auto
    show "agree_on (- pageno ` insert c (tables (ram ph) root)) mz (ram ph')"
      by (rule agree_on_subset [OF agt]) (use t in auto)
  qed
qed

lemma hang_table1:
  assumes ok: "pt_ok ph root (c # ys)" and k: "kalloc ph = (c, ph1)"
    and ix: "idx i" and none: "sub_table (ram ph) root i = None"
  defines "ph' \<equiv> ph1\<lparr>ram := store64 (pte_addr root i) (PA2PTE c OR PTE_V) (memset c 0 PGSIZE (ram ph1))\<rparr>"
  shows "pt_grow root ph (c # ys) ph' ys" "sub_table (ram ph') root i = Some c"
proof -
  have wf: "pt_wf (ram ph) root" using ok by (simp add: pt_ok_def)
  have root: "root \<in> tables (ram ph) root" by (simp add: tables_def)
  note h = hang_table [OF ok k root ix, folded ph'_def]
  have ram': "ram ph' = store64 (pte_addr root i) (PA2PTE c OR PTE_V) (memset c 0 PGSIZE (ram ph1))"
    by (simp add: ph'_def)
  note g = graft1 [OF wf h(1,2) ix none, folded ram']
  note w = graft1_wf [OF wf h(2,3) ix none g(1,2)]
  have "\<forall>t \<in> tables (ram ph') root. managed ph' t \<and> t \<notin> set ys"
    using ok h(5,6) w(2) by (auto simp: pt_ok_def managed_def free_inv_def)
  then have "pt_ok ph' root ys" using h(4) w(1) by (simp add: pt_ok_def)
  then show "pt_grow root ph (c # ys) ph' ys"
    using h(6,7) w(2) g(3) unfolding pt_grow_def by (auto intro: exI [of _ "[c]"])
  show "sub_table (ram ph') root i = Some c" using g(1) ix by simp
qed

lemma hang_table0:
  assumes ok: "pt_ok ph root (c # ys)" and k: "kalloc ph = (c, ph1)"
    and ix: "idx i" "idx j" and t: "sub_table (ram ph) root i = Some t" and none: "sub_table (ram ph) t j = None"
  defines "ph' \<equiv> ph1\<lparr>ram := store64 (pte_addr t j) (PA2PTE c OR PTE_V) (memset c 0 PGSIZE (ram ph1))\<rparr>"
  shows "pt_grow root ph (c # ys) ph' ys" "table0 (ram ph') root i j = Some c"
proof -
  have wf: "pt_wf (ram ph) root" using ok by (simp add: pt_ok_def)
  have tt: "t \<in> tables (ram ph) root" using t ix by (auto simp: tables_def intro: tables1I)
  note h = hang_table [OF ok k tt ix(2), folded ph'_def]
  have ram': "ram ph' = store64 (pte_addr t j) (PA2PTE c OR PTE_V) (memset c 0 PGSIZE (ram ph1))"
    by (simp add: ph'_def)
  note g = graft0 [OF wf h(1,2) ix t none, folded ram']
  have none0: "table0 (ram ph) root i j = None" using t none by (simp add: table0_def)
  note w = graft0_wf [OF wf h(2,3) ix none0 g(1,2)]
  have "\<forall>t \<in> tables (ram ph') root. managed ph' t \<and> t \<notin> set ys"
    using ok h(5,6) w(2) by (auto simp: pt_ok_def managed_def free_inv_def)
  then have "pt_ok ph' root ys" using h(4) w(1) by (simp add: pt_ok_def)
  then show "pt_grow root ph (c # ys) ph' ys"
    using h(6,7) w(2) g(3) unfolding pt_grow_def by (auto intro: exI [of _ "[c]"])
  show "table0 (ram ph') root i j = Some c" using g(2) ix by simp
qed

section \<open>walk with allocation\<close>

lemma walk_level1:
  assumes ok: "pt_ok ph root xs" and ix: "idx i" and va: "i = PX 2 va"
    and t: "sub_table (ram ph) root i = Some t"
    and w: "walk_loop (Suc 0) t va True ph = (r, ph')"
  shows "\<exists>ys. pt_grow root ph xs ph' ys \<and> length xs \<le> Suc (length ys) \<and>
    (if r = 0 then xs = [] \<and> ph' = ph
     else \<exists>t0. table0 (ram ph') root (PX 2 va) (PX 1 va) = Some t0 \<and> r = pte_addr t0 (PX 0 va))"
proof (cases "bit (pt_entry (ram ph) t (PX (Suc 0) va)) 0")
  case True
  let ?t0 = "PTE2PA (pt_entry (ram ph) t (PX (Suc 0) va))"
  have tab: "table0 (ram ph) root (PX 2 va) (PX 1 va) = Some ?t0"
    using t True va by (simp add: table0_def sub_table_def)
  have "?t0 \<in> tables (ram ph) root" using tables0I [OF idx_PX idx_PX tab] by (simp add: tables_def)
  then have "?t0 \<noteq> 0" "page_aligned ?t0"
    using ok page_aligned_tables by (auto simp: pt_ok_def pt_wf_def)
  then have "pte_addr ?t0 (PX 0 va) \<noteq> 0" by (simp add: pte_addr_nonzero)
  moreover have "(r, ph') = (pte_addr ?t0 (PX 0 va), ph)" using w True by (auto simp: walk_loop_Suc)
  ultimately show ?thesis using ok tab by (auto intro: pt_grow_refl)
next
  case False
  obtain c ph1 where k: "kalloc ph = (c, ph1)" by force
  have inv: "free_inv ph xs" using ok by (simp add: pt_ok_def)
  show ?thesis
    using inv k
  proof (cases rule: pa.alloc_cases)
    case none
    with w False k ok show ?thesis by (auto simp: walk_loop_Suc intro: pt_grow_refl)
  next
    case (some ys)
    let ?ph = "ph1\<lparr>ram := store64 (pte_addr t (PX (Suc 0) va)) (PA2PTE c OR PTE_V) (memset c 0 PGSIZE (ram ph1))\<rparr>"
    have none: "sub_table (ram ph) t (PX (Suc 0) va) = None" using False by (simp add: sub_table_def)
    note h = hang_table0 [OF ok [unfolded some(1)] k ix idx_PX t none]
    have res: "(r, ph') = (pte_addr c (PX 0 va), ?ph)"
      using w False k some(2) by (simp add: walk_loop_Suc Let_def)
    have "page_aligned c" using some(4) by (simp add: managed_def)
    then have "r \<noteq> 0" using res some(2) by (simp add: pte_addr_nonzero)
    then show ?thesis using h res some(1) va by auto
  qed
qed

lemma walk_True:
  assumes ok: "pt_ok ph root xs" and va: "unat va < 0x4000000000"
  obtains r ph' ys where "walk root va True ph = Inr (r, ph')" "pt_grow root ph xs ph' ys"
    "r = 0 \<Longrightarrow> length xs < 2 \<and> ys = []"
    "r \<noteq> 0 \<Longrightarrow> \<exists>t. table0 (ram ph') root (PX 2 va) (PX 1 va) = Some t \<and> r = pte_addr t (PX 0 va)"
    "length xs \<le> length ys + 2"
proof -
  have two: "walk_loop 2 root va True ph = walk_loop (Suc (Suc 0)) root va True ph"
    by (simp only: numeral_2_eq_2)
  have px: "PX (Suc (Suc 0)) va = PX 2 va" by (simp add: numeral_2_eq_2)
  obtain r ph' where w: "walk_loop (Suc (Suc 0)) root va True ph = (r, ph')" by force
  have res: "walk root va True ph = Inr (r, ph')" using va by (simp add: walk_def two w word_le_nat_alt)
  show ?thesis
  proof (cases "sub_table (ram ph) root (PX 2 va)")
    case (Some t)
    then have "walk_loop (Suc 0) t va True ph = (r, ph')"
      using w by (subst (asm) walk_loop_Suc) (auto simp: px sub_table_def split: if_splits)
    from walk_level1 [OF ok idx_PX refl Some this] obtain ys where ys: "pt_grow root ph xs ph' ys" "length xs \<le> Suc (length ys)"
      "if r = 0 then xs = [] \<and> ph' = ph
       else \<exists>t0. table0 (ram ph') root (PX 2 va) (PX 1 va) = Some t0 \<and> r = pte_addr t0 (PX 0 va)" by blast
    then show ?thesis using that [OF res ys(1)] by (auto split: if_splits simp: pt_grow_def)
  next
    case None
    obtain c ph1 where k: "kalloc ph = (c, ph1)" by force
    have inv: "free_inv ph xs" using ok by (simp add: pt_ok_def)
    from None have bit: "\<not> bit (pt_entry (ram ph) root (PX 2 va)) 0" by (simp add: sub_table_def split: if_splits)
    show ?thesis
      using inv k
    proof (cases rule: pa.alloc_cases)
      case none
      then have "r = 0" "ph' = ph" using w bit k by (simp_all add: walk_loop_Suc px)
      with none ok show ?thesis using that [OF res, of xs] by (auto intro: pt_grow_refl)
    next
      case (some zs)
      let ?ph = "ph1\<lparr>ram := store64 (pte_addr root (PX 2 va)) (PA2PTE c OR PTE_V) (memset c 0 PGSIZE (ram ph1))\<rparr>"
      note h = hang_table1 [OF ok [unfolded some(1)] k idx_PX None]
      have w': "walk_loop (Suc 0) c va True ?ph = (r, ph')"
        using w bit k some(2) by (subst (asm) walk_loop_Suc) (simp add: px Let_def)
      have ok': "pt_ok ?ph root zs" using h(1) by (simp add: pt_grow_def)
      from walk_level1 [OF ok' idx_PX refl h(2) w'] obtain ys where ys: "pt_grow root ?ph zs ph' ys" "length zs \<le> Suc (length ys)"
        "if r = 0 then zs = [] \<and> ph' = ?ph
         else \<exists>t0. table0 (ram ph') root (PX 2 va) (PX 1 va) = Some t0 \<and> r = pte_addr t0 (PX 0 va)" by blast
      have "pt_grow root ph xs ph' ys" using pt_grow_trans [OF h(1) ys(1)] some(1) by simp
      then show ?thesis using that [OF res, of ys] ys some(1) by (auto split: if_splits simp: pt_grow_def)
    qed
  qed
qed

section \<open>Updates of the address space\<close>

text \<open>
  \<open>pt_upd root ph xs ph' ys L\<close>: the step used pages of \<open>xs\<close> for new tables only, set the PTE of
  each virtual page \<open>v\<close> with \<open>L v = Some pte\<close>, kept every other PTE, and wrote nothing outside
  the tree.
\<close>

definition pt_upd :: "u64 \<Rightarrow> phys \<Rightarrow> u64 list \<Rightarrow> phys \<Rightarrow> u64 list \<Rightarrow> (nat \<Rightarrow> u64 option) \<Rightarrow> bool" where
  "pt_upd root ph xs ph' ys L \<longleftrightarrow>
     pt_ok ph' root ys \<and> end_address ph' = end_address ph \<and>
     (\<exists>zs. xs = zs @ ys \<and> tables (ram ph') root = tables (ram ph) root \<union> set zs) \<and>
     (\<forall>va. unat va < 2 ^ 39 \<longrightarrow> leaf (ram ph') root va =
        (case L (pageno va) of Some pte \<Rightarrow> pte | None \<Rightarrow> leaf (ram ph) root va)) \<and>
     agree_on (- pageno ` tables (ram ph') root) (ram ph) (ram ph')"

lemma pt_upd_grow: "pt_grow root ph xs ph' ys \<Longrightarrow> pt_upd root ph xs ph' ys (\<lambda>_. None)"
  by (simp add: pt_upd_def pt_grow_leaf) (simp add: pt_grow_def)

lemma pt_upd_trans:
  assumes "pt_upd root ph xs ph1 ys L" "pt_upd root ph1 ys ph2 zs M"
  shows "pt_upd root ph xs ph2 zs (\<lambda>v. case M v of Some pte \<Rightarrow> Some pte | None \<Rightarrow> L v)"
proof -
  from assms obtain a b where ab: "xs = a @ ys" "ys = b @ zs"
    "tables (ram ph1) root = tables (ram ph) root \<union> set a"
    "tables (ram ph2) root = tables (ram ph1) root \<union> set b"
    by (auto simp: pt_upd_def)
  have "agree_on (- pageno ` tables (ram ph2) root) (ram ph) (ram ph1)"
    using assms(1) ab by (auto simp: pt_upd_def intro: agree_on_subset)
  then have "agree_on (- pageno ` tables (ram ph2) root) (ram ph) (ram ph2)"
    using assms(2) by (auto simp: pt_upd_def intro: agree_on_trans)
  moreover have "\<exists>c. xs = c @ zs \<and> tables (ram ph2) root = tables (ram ph) root \<union> set c"
    using ab by (intro exI [of _ "a @ b"]) auto
  ultimately show ?thesis
    using assms unfolding pt_upd_def by (auto split: option.split)
qed

lemma pt_upd_cong: "pt_upd root ph xs ph' ys L \<Longrightarrow> (\<And>v. L v = M v) \<Longrightarrow> pt_upd root ph xs ph' ys M"
  by (simp add: pt_upd_def)

lemma PX_same_page:
  assumes "pageno va = pageno vb"
  shows "PX l va = PX l vb"
proof (rule word_eq_unatI)
  have "unat v div 2 ^ (12 + 9 * l) = pageno v div 2 ^ (9 * l)" for v :: u64
    by (simp add: pageno_def power_add div_mult2_eq)
  then show "unat (PX l va) = unat (PX l vb)" using assms by (simp add: unat_PX)
qed

lemma PX_same_iff:
  "unat va < 2 ^ 39 \<Longrightarrow> unat vb < 2 ^ 39 \<Longrightarrow>
    PX 2 va = PX 2 vb \<and> PX 1 va = PX 1 vb \<and> PX 0 va = PX 0 vb \<longleftrightarrow> pageno va = pageno vb"
  using PX_determines_page PX_same_page by blast

lemma leaf_same_page: "pageno va = pageno vb \<Longrightarrow> leaf m root va = leaf m root vb"
  using PX_same_page [of va vb] by (simp add: leaf_def)

lemma pte_store_upd:
  assumes ok: "pt_ok ph root xs" and a: "unat a < 2 ^ 39"
    and t: "table0 (ram ph) root (PX 2 a) (PX 1 a) = Some t"
  shows "pt_upd root ph xs (ph\<lparr>ram := store64 (pte_addr t (PX 0 a)) v (ram ph)\<rparr>) xs [pageno a \<mapsto> v]"
proof -
  let ?ph = "ph\<lparr>ram := store64 (pte_addr t (PX 0 a)) v (ram ph)\<rparr>"
  have wf: "pt_wf (ram ph) root" and inv: "free_inv ph xs" using ok by (simp_all add: pt_ok_def)
  note ls = leaf_store [OF wf t idx_PX idx_PX idx_PX, where v = v]
  have tt: "t \<in> tables (ram ph) root" using tables0I [OF idx_PX idx_PX t] by (simp add: tables_def)
  then have al: "page_aligned t" and tm: "managed ph t" "t \<notin> set xs"
    using ok page_aligned_tables [OF wf] by (auto simp: pt_ok_def)
  have wf': "pt_wf (ram ?ph) root" using wf pt_wf_cong [of "ram ?ph" root "ram ph"] ls by simp
  have tabs: "tables (ram ?ph) root = tables (ram ph) root" using ls by (intro tables_cong) simp_all
  have ag: "agree_on (- {pageno t}) (ram ph) (ram ?ph)" using agree_on_pte_store [OF al idx_PX] by simp
  have "pageno ` set xs \<subseteq> - {pageno t}" using inv tm by (auto simp: free_inv_def dest: pageno_inj_managed)
  with ag have "agree_on (pageno ` set xs) (ram ph) (ram ?ph)" by (rule agree_on_subset)
  then have "free_inv ?ph xs" using free_inv_frame [OF inv] by simp
  then have "pt_ok ?ph root xs" using ok wf' tabs by (simp add: pt_ok_def)
  moreover have "leaf (ram ?ph) root b = (if pageno b = pageno a then v else leaf (ram ph) root b)"
    if "unat b < 2 ^ 39" for b
    using ls(3) [of "PX 2 b" "PX 1 b" "PX 0 b"] PX_same_iff [OF that a] by (simp add: leaf_def)
  moreover have "agree_on (- pageno ` tables (ram ?ph) root) (ram ph) (ram ?ph)"
    using ag tabs tt by (auto intro: agree_on_subset)
  ultimately show ?thesis using tabs by (simp add: pt_upd_def)
qed

section \<open>mappages\<close>

definition mk_pte :: "u64 \<Rightarrow> u32 \<Rightarrow> u64" where
  "mk_pte pa perm = PA2PTE pa OR scast perm OR PTE_V"

text \<open>The PTEs of \<open>d\<close> consecutive pages from virtual page \<open>v0\<close>, backed from \<open>pa\<close> on.\<close>

definition range_ptes :: "nat \<Rightarrow> nat \<Rightarrow> u64 \<Rightarrow> u32 \<Rightarrow> nat \<Rightarrow> u64 option" where
  "range_ptes v0 d pa perm v =
     (if v0 \<le> v \<and> v < v0 + d then Some (mk_pte (pa + of_nat (4096 * (v - v0))) perm) else None)"

lemma range_ptes_0: "range_ptes v0 0 pa perm = (\<lambda>_. None)"
  by (simp add: range_ptes_def fun_eq_iff)

lemma range_ptes_Suc:
  "range_ptes v0 (Suc d) pa perm v =
     (case range_ptes (Suc v0) d (pa + PGSIZE) perm v of Some pte \<Rightarrow> Some pte
      | None \<Rightarrow> [v0 \<mapsto> mk_pte pa perm] v)"
proof -
  have "v0 < v \<Longrightarrow> pa + of_nat (4096 * (v - v0)) = pa + PGSIZE + of_nat (4096 * (v - Suc v0))"
    by (simp add: algebra_simps)
  then show ?thesis by (auto simp: range_ptes_def)
qed

lemma mappages_step:
  assumes ok: "pt_ok ph root xs" and a: "unat a < 0x4000000000"
    and free: "\<not> bit (leaf (ram ph) root a) 0"
  obtains (full) ph' where "pt_upd root ph xs ph' [] (\<lambda>_. None)" "length xs < 2"
      "\<And>l. mappages_loop root a l pa perm ph = Inr (- 1, ph')"
  | (mapped) ph' ys where "pt_upd root ph xs ph' ys [pageno a \<mapsto> mk_pte pa perm]" "length xs \<le> length ys + 2"
      "\<And>l. mappages_loop root a l pa perm ph =
        (if a = l then Inr (0, ph') else mappages_loop root (a + PGSIZE) l (pa + PGSIZE) perm ph')"
proof (rule walk_True [OF ok a])
  fix r ph1 ys
  assume w: "walk root a True ph = Inr (r, ph1)" and grow: "pt_grow root ph xs ph1 ys"
    and zero: "r = 0 \<Longrightarrow> length xs < 2 \<and> ys = []"
    and found: "r \<noteq> 0 \<Longrightarrow> \<exists>t. table0 (ram ph1) root (PX 2 a) (PX 1 a) = Some t \<and> r = pte_addr t (PX 0 a)"
    and len: "length xs \<le> length ys + 2"
  show thesis
  proof (cases "r = 0")
    case True
    with w have "mappages_loop root a l pa perm ph = Inr (- 1, ph1)" for l
      by (subst mappages_loop.simps) simp
    with grow zero True show ?thesis by (auto intro: full pt_upd_grow)
  next
    case False
    with found obtain t where t: "table0 (ram ph1) root (PX 2 a) (PX 1 a) = Some t" "r = pte_addr t (PX 0 a)"
      by blast
    have "load64 (ram ph1) r = leaf (ram ph1) root a" using t by (simp add: leaf_def pte_of_def pt_entry_def)
    then have unmapped: "load64 (ram ph1) r AND PTE_V = 0" using free pt_grow_leaf [OF grow] by (simp add: PTE_bits)
    let ?ph = "ph1\<lparr>ram := store64 r (mk_pte pa perm) (ram ph1)\<rparr>"
    have "pt_ok ph1 root ys" using grow by (simp add: pt_grow_def)
    then have upd: "pt_upd root ph1 ys ?ph ys [pageno a \<mapsto> mk_pte pa perm]"
      using pte_store_upd [OF _ _ t(1)] a t(2) by simp
    have "pt_upd root ph xs ?ph ys [pageno a \<mapsto> mk_pte pa perm]"
      by (rule pt_upd_cong [OF pt_upd_trans [OF pt_upd_grow [OF grow] upd]]) auto
    moreover have "mappages_loop root a l pa perm ph =
        (if a = l then Inr (0, ?ph) else mappages_loop root (a + PGSIZE) l (pa + PGSIZE) perm ?ph)" for l
      using w False unmapped by (subst mappages_loop.simps) (simp add: Let_def mk_pte_def)
    ultimately show ?thesis using len by (intro mapped) auto
  qed
qed

lemma mappages_loop_spec:
  assumes "pt_ok ph root xs" "page_aligned a" "unat a + 4096 * n < 0x4000000000"
    and "\<forall>b. unat b < 2 ^ 39 \<and> pageno a \<le> pageno b \<and> pageno b \<le> pageno a + n \<longrightarrow> \<not> bit (leaf (ram ph) root b) 0"
  shows "\<exists>rc ph' ys d. mappages_loop root a (a + of_nat (4096 * n)) pa perm ph = Inr (rc, ph') \<and>
    pt_upd root ph xs ph' ys (range_ptes (pageno a) d pa perm) \<and>
    (rc = 0 \<and> d = Suc n \<or> rc = - 1 \<and> d \<le> n \<and> ys = [])"
  using assms
proof (induction n arbitrary: a pa ph xs)
  case 0
  then have a: "unat a < 0x4000000000" "\<not> bit (leaf (ram ph) root a) 0" by auto
  show ?case
  proof (cases rule: mappages_step [OF 0(1) a, of pa perm])
    case (1 ph')
    then show ?thesis by (auto simp: range_ptes_0 intro!: exI [of _ 0])
  next
    case (2 ph' ys)
    have "pt_upd root ph xs ph' ys (range_ptes (pageno a) (Suc 0) pa perm)"
      by (rule pt_upd_cong [OF 2(1)]) (auto simp: range_ptes_def)
    with 2(3) show ?thesis by auto
  qed
next
  case (Suc n)
  let ?l = "a + of_nat (4096 * Suc n)"
  have a: "unat a < 0x4000000000" "\<not> bit (leaf (ram ph) root a) 0" using Suc.prems by auto
  have next_page: "unat (a + PGSIZE) = unat a + 4096" using Suc.prems by (simp add: unat_add_nowrap)
  then have al: "page_aligned (a + PGSIZE)" and pn: "pageno (a + PGSIZE) = Suc (pageno a)"
    using Suc.prems by (simp_all add: page_aligned_def pageno_def)
  have l: "?l = (a + PGSIZE) + of_nat (4096 * n)" by (simp add: algebra_simps)
  have "unat ?l = unat a + 4096 * Suc n" using Suc.prems(3) by (intro unat_add_of_nat) simp
  then have ne: "a \<noteq> ?l" by auto
  show ?case
  proof (cases rule: mappages_step [OF Suc.prems(1) a, of pa perm])
    case (1 ph')
    then show ?thesis by (auto simp: range_ptes_0 intro!: exI [of _ 0])
  next
    case (2 ph1 ys)
    have ok1: "pt_ok ph1 root ys" using 2(1) by (simp add: pt_upd_def)
    have "\<forall>b. unat b < 2 ^ 39 \<and> pageno (a + PGSIZE) \<le> pageno b \<and> pageno b \<le> pageno (a + PGSIZE) + n \<longrightarrow>
        \<not> bit (leaf (ram ph1) root b) 0"
      using Suc.prems(4) 2(1) pn by (auto simp: pt_upd_def)
    from Suc.IH [OF ok1 al _ this, of "pa + PGSIZE"] Suc.prems(3) next_page
    obtain rc ph' zs d where ih: "mappages_loop root (a + PGSIZE) ?l (pa + PGSIZE) perm ph1 = Inr (rc, ph')"
      "pt_upd root ph1 ys ph' zs (range_ptes (Suc (pageno a)) d (pa + PGSIZE) perm)"
      "rc = 0 \<and> d = Suc n \<or> rc = - 1 \<and> d \<le> n \<and> zs = []"
      unfolding l pn by auto
    have "pt_upd root ph xs ph' zs (range_ptes (pageno a) (Suc d) pa perm)"
      by (rule pt_upd_cong [OF pt_upd_trans [OF 2(1) ih(2)]]) (rule range_ptes_Suc [symmetric])
    moreover have "mappages_loop root a ?l pa perm ph = Inr (rc, ph')" using 2(3) ih(1) ne by simp
    ultimately show ?thesis using ih(3) by (intro exI [of _ rc] exI [of _ ph'] exI [of _ zs] exI [of _ "Suc d"]) auto
  qed
qed

text \<open>
  \<open>mappages\<close> on a range that fits below \<open>MAXVA\<close> and holds no valid PTE: either every page is mapped,
  or the allocator ran dry and a prefix of the range is mapped.
\<close>

lemma mappages_spec:
  assumes ok: "pt_ok ph root xs" and sz: "sz \<noteq> 0" "unat va + unat sz \<le> 0x4000000000"
    and free: "\<forall>b. unat b < 2 ^ 39 \<and> pageno va \<le> pageno b \<and> pageno b \<le> pageno (va + sz - 1) \<longrightarrow>
      \<not> bit (leaf (ram ph) root b) 0"
  shows "\<exists>rc ph' ys d. mappages root pa va sz perm ph = Inr (rc, ph') \<and>
    pt_upd root ph xs ph' ys (range_ptes (pageno va) d pa perm) \<and>
    (rc = 0 \<and> d = Suc (pageno (va + sz - 1) - pageno va) \<or>
     rc = - 1 \<and> d \<le> pageno (va + sz - 1) - pageno va \<and> ys = [])"
proof -
  define e where "e = va + sz - 1"
  have sz1: "1 \<le> unat sz" using sz by (simp add: Suc_le_eq unat_gt_0)
  have "unat (va + sz) = unat va + unat sz" using sz by (intro unat_add_nowrap) simp
  then have e: "unat e = unat va + unat sz - 1" using sz1 unat_sub_le [of 1 "va + sz"] by (simp add: e_def)
  define n where "n = pageno e - pageno va"
  have le: "pageno va \<le> pageno e" using e sz1 by (auto simp: pageno_def intro: div_le_mono)
  have al: "page_aligned (PGROUNDDOWN va)" by simp
  have bound: "unat (PGROUNDDOWN va) + 4096 * n < 0x4000000000"
  proof -
    have "4096 * pageno e \<le> unat e" by (simp add: pageno_def)
    moreover have "unat (PGROUNDDOWN va) + 4096 * n = 4096 * pageno e"
      using le by (simp add: unat_PGROUNDDOWN pageno_def n_def diff_mult_distrib2)
    ultimately show ?thesis using e sz sz1 by linarith
  qed
  have "PGROUNDDOWN e = PGROUNDDOWN va + of_nat (4096 * n)"
  proof (rule word_eq_unatI)
    have "unat (PGROUNDDOWN va + of_nat (4096 * n)) = unat (PGROUNDDOWN va) + 4096 * n"
      using bound by (intro unat_add_of_nat) simp
    then show "unat (PGROUNDDOWN e) = unat (PGROUNDDOWN va + of_nat (4096 * n))"
      using le by (simp add: unat_PGROUNDDOWN pageno_def n_def diff_mult_distrib2)
  qed
  then have "mappages root pa va sz perm ph =
      mappages_loop root (PGROUNDDOWN va) (PGROUNDDOWN va + of_nat (4096 * n)) pa perm ph"
    using sz by (simp add: mappages_def e_def Let_def)
  moreover have "\<forall>b. unat b < 2 ^ 39 \<and> pageno (PGROUNDDOWN va) \<le> pageno b \<and>
      pageno b \<le> pageno (PGROUNDDOWN va) + n \<longrightarrow> \<not> bit (leaf (ram ph) root b) 0"
    using free le by (simp add: n_def e_def)
  ultimately show ?thesis
    using mappages_loop_spec [OF ok al bound, of pa perm] by (simp add: n_def e_def)
qed

lemma mappages_remap:
  assumes ok: "pt_ok ph root xs" and va: "unat va < 0x4000000000" and sz: "sz \<noteq> 0"
    and mapped: "bit (leaf (ram ph) root va) 0"
  shows "mappages root pa va sz perm ph = Inl (Panic ''mappages: remap'')"
proof -
  have v: "unat (PGROUNDDOWN va) < 0x4000000000"
    using va by (simp add: unat_PGROUNDDOWN)
  have bit: "bit (leaf (ram ph) root (PGROUNDDOWN va)) 0"
    using mapped leaf_same_page [of "PGROUNDDOWN va" va] by simp
  then obtain t where t: "table0 (ram ph) root (PX 2 (PGROUNDDOWN va)) (PX 1 (PGROUNDDOWN va)) = Some t"
    by (auto simp: leaf_def pte_of_def split: option.splits)
  note sl = leaf_slot [OF _ t]
  have "pt_wf (ram ph) root" using ok by (simp add: pt_ok_def)
  then show ?thesis
    using walk_present [OF v t] bit sz sl(3,4) by (simp add: mappages_def mappages_loop.simps Let_def PTE_bits)
qed

end
