(* ===== verification/Copy_User.thy ===== *)
theory Copy_User
  imports Map_Pages
begin

text \<open>
  What \<open>copyin\<close>, \<open>copyout\<close> and \<open>copyinstr\<close> move. \<open>user_addr\<close> is the physical address a user
  virtual address stands for; the copies are stated byte by byte over it, whatever the way the
  loops cut the range at page boundaries.
\<close>

section \<open>The user's view of memory\<close>

definition user_addr :: "memory \<Rightarrow> u64 \<Rightarrow> u64 \<Rightarrow> u64 option" where
  "user_addr m root va =
     (if unat va < 0x4000000000 \<and> user_ok (leaf m root va) \<and> PTE2PA (leaf m root va) \<noteq> 0
      then Some (PTE2PA (leaf m root va) + of_nat (unat va mod 4096)) else None)"

definition user_waddr :: "memory \<Rightarrow> u64 \<Rightarrow> u64 \<Rightarrow> u64 option" where
  "user_waddr m root va = (if bit (leaf m root va) 2 then user_addr m root va else None)"

lemma user_addr_agree:
  assumes "agree_on (pageno ` tables m root) m m'" "page_aligned root"
  shows "user_addr m' root va = user_addr m root va" "user_waddr m' root va = user_waddr m root va"
    "leaf m' root va = leaf m root va"
proof -
  show *: "leaf m' root va = leaf m root va"
    unfolding leaf_def by (rule tree_agree(3) [OF assms]) simp_all
  then show "user_addr m' root va = user_addr m root va" "user_waddr m' root va = user_waddr m root va"
    by (simp_all add: user_addr_def user_waddr_def)
qed

lemma page_split: "a = PGROUNDDOWN a + of_nat (unat a mod 4096)"
proof (rule word_eq_unatI)
  have "unat (PGROUNDDOWN a + of_nat (unat a mod 4096)) = unat (PGROUNDDOWN a) + unat a mod 4096"
    by (rule unat_page_offset) simp_all
  then show "unat a = unat (PGROUNDDOWN a + of_nat (unat a mod 4096))" by (simp add: unat_PGROUNDDOWN)
qed

lemma user_addr_page:
  assumes wf: "pt_wf (ram ph) root" and w: "walkaddr root v ph = Inr pa" and al: "page_aligned v"
    and k: "k < 4096"
  shows "user_addr (ram ph) root (v + of_nat k) = (if pa = 0 then None else Some (pa + of_nat k))"
    "page_aligned pa" "pa \<noteq> 0 \<Longrightarrow> unat v < 0x4000000000"
    "leaf (ram ph) root (v + of_nat k) = leaf (ram ph) root v"
proof -
  have u: "unat (v + of_nat k) = unat v + k" and p: "pageno (v + of_nat k) = pageno v"
    using al k by (simp_all add: unat_page_offset pageno_page_offset)
  have mod: "(unat v + k) mod 4096 = k" using al k by (simp add: page_aligned_def mod_add_eq [symmetric])
  have less: "unat v + k < 0x4000000000 \<longleftrightarrow> unat v < 0x4000000000"
    using al k by (simp add: page_aligned_unat) linarith
  show leaf: "leaf (ram ph) root (v + of_nat k) = leaf (ram ph) root v" by (rule leaf_same_page [OF p])
  note w' = w [unfolded walkaddr_eq [OF wf], simplified]
  show "user_addr (ram ph) root (v + of_nat k) = (if pa = 0 then None else Some (pa + of_nat k))"
    using w' by (auto simp: user_addr_def u mod less leaf split: if_splits)
  show "page_aligned pa" using w' page_aligned_PTE2PA by (auto simp: page_aligned_def split: if_splits)
  show "unat v < 0x4000000000" if "pa \<noteq> 0" using w' that by (auto split: if_splits)
qed

text \<open>One turn of the copy loops: the bytes from \<open>va\<close> to the end of the chunk stand side by side.\<close>

lemma user_addr_chunk:
  assumes wf: "pt_wf (ram ph) root" and w: "walkaddr root (PGROUNDDOWN va) ph = Inr pa"
  shows "pa = 0 \<Longrightarrow> user_addr (ram ph) root va = None"
    and "pa \<noteq> 0 \<Longrightarrow> i < unat (chunk va len) \<Longrightarrow>
      user_addr (ram ph) root (va + of_nat i) = Some (pa + (va - PGROUNDDOWN va) + of_nat i)"
    and "i < unat (chunk va len) \<Longrightarrow> leaf (ram ph) root (va + of_nat i) = leaf (ram ph) root (PGROUNDDOWN va)"
    and "pa \<noteq> 0 \<Longrightarrow> unat (PGROUNDDOWN va) < 0x4000000000"
proof -
  define d where "d = unat va mod 4096"
  have va: "va + of_nat i = PGROUNDDOWN va + of_nat (d + i)" for i
    by (subst page_split [of va]) (simp add: d_def)
  have off: "va - PGROUNDDOWN va = of_nat d"
    using page_split [of va] by (simp add: d_def algebra_simps)
  note p = user_addr_page [OF wf w page_aligned_PGROUNDDOWN]
  show "user_addr (ram ph) root va = None" if "pa = 0"
    using p(1) [of d] that va [of 0] by (simp add: d_def)
  have less: "d + i < 4096" if "i < unat (chunk va len)" for i
    using that mod_less_divisor [of 4096 "unat va"] by (simp add: unat_chunk d_def del: mod_less_divisor) linarith
  show "user_addr (ram ph) root (va + of_nat i) = Some (pa + (va - PGROUNDDOWN va) + of_nat i)"
    if "pa \<noteq> 0" "i < unat (chunk va len)"
    using p(1) [OF less [OF that(2)]] that unfolding va off by (simp add: add.assoc)
  show "leaf (ram ph) root (va + of_nat i) = leaf (ram ph) root (PGROUNDDOWN va)"
    if "i < unat (chunk va len)"
    using p(4) [OF less [OF that]] unfolding va .
  show "unat (PGROUNDDOWN va) < 0x4000000000" if "pa \<noteq> 0"
    using p(3) [of 0] that by simp
qed

lemma chunk_le: "unat (chunk va len) \<le> unat len" "unat (chunk va len) < 2 ^ 31"
  by (simp_all add: unat_chunk)

lemma chunk_pos: "0 < len \<Longrightarrow> 0 < unat (chunk va len)"
  using mod_less_divisor [of 4096 "unat va"] by (simp add: unat_chunk word_less_nat_alt del: mod_less_divisor)

lemma next_page_addr:
  assumes "unat (chunk va len) < unat len"
  shows "PGROUNDDOWN va + PGSIZE = va + chunk va len"
proof -
  have "unat (chunk va len) = 4096 - unat va mod 4096" using assms by (simp add: unat_chunk)
  then have c: "chunk va len = of_nat (4096 - unat va mod 4096)" by (rule unat_eqD)
  have "va + chunk va len = PGROUNDDOWN va + of_nat (unat va mod 4096 + (4096 - unat va mod 4096))"
    by (subst page_split [of va]) (simp only: c of_nat_add add.assoc)
  then show ?thesis using mod_less_divisor [of 4096 "unat va"] by (simp del: mod_less_divisor)
qed

section \<open>copyin\<close>

text \<open>
  \<open>fetched m f dst k\<close>: the memory \<open>m\<close> with the \<open>k\<close> bytes at \<open>f 0, f 1, ...\<close> copied to \<open>dst\<close>.
\<close>

definition fetched :: "memory \<Rightarrow> (u64 \<Rightarrow> u64) \<Rightarrow> u64 \<Rightarrow> nat \<Rightarrow> memory" where
  "fetched m f dst k = (\<lambda>x. if unat (x - dst) < k then m (f (x - dst)) else m x)"

lemma sub_add_range:
  fixes x d :: u64
  assumes "n + k < 2 ^ 64"
  shows "unat (x - d) < n \<Longrightarrow> \<not> unat (x - (d + of_nat n)) < k"
    and "n \<le> unat (x - d) \<Longrightarrow> unat (x - (d + of_nat n)) = unat (x - d) - n"
proof -
  define y where "y = x - d"
  have y: "x - (d + of_nat n) = y - of_nat n" by (simp add: y_def)
  have n: "unat (of_nat n :: u64) = n" using assms by (simp add: unat_of_nat)
  show "\<not> unat (x - (d + of_nat n)) < k" if "unat (x - d) < n"
    using that assms unfolding y y_def [symmetric] by (simp add: unat_sub_if_size word_size n)
  show "unat (x - (d + of_nat n)) = unat (x - d) - n" if "n \<le> unat (x - d)"
    using that unfolding y y_def [symmetric] by (simp add: unat_sub_le n)
qed

lemma fetched_fetched:
  assumes "n + k < 2 ^ 64" and f: "\<And>j. j < k \<Longrightarrow> g (of_nat j) = f (of_nat (n + j))"
    and out: "\<And>j. j < k \<Longrightarrow> \<not> unat (f (of_nat (n + j)) - dst) < n"
  shows "fetched (fetched m f dst n) g (dst + of_nat n) k = fetched m f dst (n + k)"
proof (rule ext)
  fix x
  note s = sub_add_range [OF assms(1), where x = x and d = dst]
  show "fetched (fetched m f dst n) g (dst + of_nat n) k x = fetched m f dst (n + k) x"
  proof (cases "unat (x - dst) < n")
    case True
    with s(1) show ?thesis by (simp add: fetched_def)
  next
    case False
    define j where "j = unat (x - dst) - n"
    have j: "unat (x - (dst + of_nat n)) = j" "unat (x - dst) = n + j" using False s(2) by (simp_all add: j_def)
    then have x: "x - (dst + of_nat n) = of_nat j" "x - dst = of_nat (n + j)"
      by (simp_all only: unat_eqD)
    show ?thesis
    proof (cases "j < k")
      case True
      then show ?thesis using f [OF True] out [OF True] j by (simp only: fetched_def x(1) x(2) j) simp
    next
      case False
      then show ?thesis using j by (simp only: fetched_def) simp
    qed
  qed
qed

lemma all_less_add: "(\<forall>i < n + q. P i) \<longleftrightarrow> (\<forall>i < n. P i) \<and> (\<forall>i < q. P (n + i))" for n q :: nat
proof (intro iffI conjI allI impI)
  fix i assume a: "(\<forall>i < n. P i) \<and> (\<forall>i < q. P (n + i))" and "i < n + q"
  then show "P i" by (cases "i < n") (auto dest: spec [of _ "i - n"])
qed auto

text \<open>
  A request is safe when the destination meets neither the page tables nor the source bytes.
\<close>

definition mapped :: "memory \<Rightarrow> u64 \<Rightarrow> u64 \<Rightarrow> nat \<Rightarrow> bool" where
  "mapped m root va n \<longleftrightarrow> (\<forall>i < n. user_addr m root (va + of_nat i) \<noteq> None)"

definition copyin_safe :: "memory \<Rightarrow> u64 \<Rightarrow> u64 \<Rightarrow> u64 \<Rightarrow> nat \<Rightarrow> bool" where
  "copyin_safe m root dst srcva n \<longleftrightarrow>
     (\<forall>x. unat (x - dst) < n \<longrightarrow> pageno x \<notin> pageno ` tables m root) \<and>
     (\<forall>i < n. \<forall>a. user_addr m root (srcva + of_nat i) = Some a \<longrightarrow> \<not> unat (a - dst) < n)"

lemma mapped_add: "mapped m root va (n + q) \<longleftrightarrow> mapped m root va n \<and> mapped m root (va + of_nat n) q"
  by (simp add: mapped_def all_less_add add.assoc)

lemma fetched_tables:
  assumes "pt_wf m root" "copyin_safe m root dst srcva len" "n \<le> len"
  shows "pt_wf (fetched m f dst n) root" "tables (fetched m f dst n) root = tables m root"
    "user_addr (fetched m f dst n) root va = user_addr m root va"
proof -
  have "agree_on (pageno ` tables m root) m (fetched m f dst n)"
    using assms(2,3) by (fastforce simp: agree_on_def fetched_def copyin_safe_def)
  note ag = this pt_wf_agree [OF assms(1) this]
  then show "pt_wf (fetched m f dst n) root" "tables (fetched m f dst n) root = tables m root" by simp_all
  show "user_addr (fetched m f dst n) root va = user_addr m root va"
    using user_addr_agree(1) [OF ag(1)] assms(1) by (simp add: pt_wf_def)
qed

lemma copyin_safe_rest:
  assumes wf: "pt_wf m root" and safe: "copyin_safe m root dst srcva (n + q)" and less: "n + q < 2 ^ 64"
  shows "copyin_safe (fetched m f dst n) root (dst + of_nat n) (srcva + of_nat n) q"
proof -
  note t = fetched_tables [OF wf safe, of n f]
  have range: "unat (x - dst) < n + q" if "unat (x - (dst + of_nat n)) < q" for x
    using that sub_add_range(2) [OF less, of x dst] by linarith
  have "\<not> unat (a - (dst + of_nat n)) < q"
    if "i < q" "user_addr m root (srcva + of_nat n + of_nat i) = Some a" for i a
  proof -
    have "user_addr m root (srcva + of_nat (n + i)) = Some a" using that by (simp add: add.assoc)
    then have "\<not> unat (a - dst) < n + q"
      using safe that(1) unfolding copyin_safe_def by (metis nat_add_left_cancel_less)
    then show ?thesis using range by blast
  qed
  then show ?thesis using safe range t by (auto simp: copyin_safe_def)
qed

lemma fetched_join:
  assumes safe: "copyin_safe m root dst srcva (n + q)" and less: "n + q < 2 ^ 64" and k: "k \<le> q"
    and m: "mapped m root srcva (n + k)"
  defines "f \<equiv> \<lambda>i. the (user_addr m root (srcva + i))"
  shows "fetched (fetched m f dst n) (\<lambda>i. f (of_nat n + i)) (dst + of_nat n) k = fetched m f dst (n + k)"
proof (rule fetched_fetched)
  show "n + k < 2 ^ 64" using k less by linarith
  fix j assume j: "j < k"
  then have "n + j < n + k" by simp
  with m obtain a where a: "user_addr m root (srcva + of_nat (n + j)) = Some a"
    unfolding mapped_def by blast
  moreover have "n + j < n + q" using j k by linarith
  ultimately have "\<not> unat (a - dst) < n + q" using safe unfolding copyin_safe_def by blast
  with a show "\<not> unat (f (of_nat (n + j)) - dst) < n" by (simp add: f_def)
qed simp

text \<open>One turn: either the page is missing, or a non-empty chunk is fetched and the rest remains.\<close>

lemma copyin_turn:
  assumes wf: "pt_wf (ram ph) root" and safe: "copyin_safe (ram ph) root dst srcva (unat len)" and pos: "0 < len"
  obtains (missing) "user_addr (ram ph) root srcva = None" "copyin root dst srcva len ph = Inr (- 1, ph)"
  | (fetch) n where "0 < n" "n \<le> unat len" "mapped (ram ph) root srcva n"
      "copyin root dst srcva len ph = copyin root (dst + of_nat n) (srcva + of_nat n) (len - of_nat n)
        (ph\<lparr>ram := fetched (ram ph) (\<lambda>i. the (user_addr (ram ph) root (srcva + i))) dst n\<rparr>)"
proof -
  let ?f = "\<lambda>i. the (user_addr (ram ph) root (srcva + i))"
  obtain pa where w: "walkaddr root (PGROUNDDOWN srcva) ph = Inr pa"
    using walkaddr_eq [OF wf] by blast
  note u = user_addr_chunk [OF wf w]
  show ?thesis
  proof (cases "pa = 0")
    case True
    then show ?thesis using u(1) pos w by (intro missing) (simp, subst copyin.simps, simp)
  next
    case nz: False
    define n where "n = chunk srcva len"
    define s where "s = pa + (srcva - PGROUNDDOWN srcva)"
    have n: "0 < unat n" "unat n \<le> unat len" "unat n < 2 ^ 31"
      using chunk_pos [OF pos] chunk_le by (simp_all add: n_def)
    have ua: "user_addr (ram ph) root (srcva + of_nat i) = Some (s + of_nat i)" if "i < unat n" for i
      using u(2) [OF nz, of i len] that by (simp add: n_def s_def)
    have "\<not> unat (dst - s) < unat n"
    proof
      assume d: "unat (dst - s) < unat n"
      then have "user_addr (ram ph) root (srcva + of_nat (unat (dst - s))) = Some dst"
        using ua [of "unat (dst - s)"] by simp
      moreover have "unat (dst - s) < unat len" using d n by simp
      ultimately have "\<not> unat (dst - dst) < unat len" using safe unfolding copyin_safe_def by blast
      then show False using n by simp
    qed
    then have fs: "forward_safe dst s (unat n)" by (simp add: forward_safe_def)
    have "memmove dst s n (ram ph) = fetched (ram ph) ?f dst (unat n)"
    proof (rule ext, goal_cases)
      case (1 x)
      show ?case using ua [of "unat (x - dst)"] memmove_eq [OF n(3) fs, of "ram ph"] by (simp add: fetched_def)
    qed
    moreover have "copyin root d (PGROUNDDOWN srcva + PGSIZE) (len - n) p = copyin root d (srcva + n) (len - n) p" for d p
    proof (cases "unat n < unat len")
      case True
      then show ?thesis using next_page_addr [of srcva len] by (simp add: n_def del: PGSIZE_def)
    next
      case False
      with n have "len - n = 0" by (simp add: word_eq_unatI)
      then show ?thesis by (simp add: copyin.simps)
    qed
    ultimately have "copyin root dst srcva len ph = copyin root (dst + n) (srcva + n) (len - n)
        (ph\<lparr>ram := fetched (ram ph) ?f dst (unat n)\<rparr>)"
      using pos w nz by (subst copyin.simps) (simp add: Let_def n_def s_def del: PGSIZE_def)
    then show ?thesis using ua n by (intro fetch [of "unat n"]) (simp_all add: mapped_def)
  qed
qed

lemma copyin_spec:
  assumes "pt_wf (ram ph) root" "copyin_safe (ram ph) root dst srcva (unat len)"
  shows "\<exists>rc k. copyin root dst srcva len ph = Inr (rc, ph\<lparr>ram :=
        fetched (ram ph) (\<lambda>i. the (user_addr (ram ph) root (srcva + i))) dst k\<rparr>) \<and>
    k \<le> unat len \<and> mapped (ram ph) root srcva k \<and>
    (if mapped (ram ph) root srcva (unat len) then rc = 0 \<and> k = unat len else rc = - 1)"
  using assms
proof (induction "unat len" arbitrary: dst srcva len ph rule: less_induct)
  case less
  have none: "fetched m f d 0 = m" for m f d by (simp add: fetched_def)
  show ?case
  proof (cases "len = 0")
    case True
    then show ?thesis by (subst copyin.simps) (auto simp: none mapped_def)
  next
    case False
    then have pos: "0 < len" by (simp add: word_gt_0)
    from less.prems pos show ?thesis
    proof (cases rule: copyin_turn)
      case missing
      moreover have "0 < unat len" using pos by (simp add: word_less_nat_alt)
      ultimately show ?thesis by (auto simp: none mapped_def intro!: exI [of _ 0])
    next
      case (fetch n)
      let ?f = "\<lambda>i. the (user_addr (ram ph) root (srcva + i))"
      let ?ph = "ph\<lparr>ram := fetched (ram ph) ?f dst n\<rparr>"
      have un: "unat (of_nat n :: u64) = n" using order_le_less_trans [OF fetch(2) unat_lt_2p64] by (simp add: unat_of_nat)
      define q where "q = unat len - n"
      have q: "unat (len - of_nat n) = q" "unat len = n + q" "n + q < 2 ^ 64"
        using fetch(2) unat_lt_2p64 [of len] by (simp_all add: unat_sub_le un q_def)
      note safe = less.prems(2) [unfolded q(2)]
      note t = fetched_tables [OF less.prems(1) safe, of n ?f]
      have "copyin_safe (ram ?ph) root (dst + of_nat n) (srcva + of_nat n) (unat (len - of_nat n))"
        unfolding q using copyin_safe_rest [OF less.prems(1) safe q(3)] by simp
      from less.hyps [OF _ _ this] fetch(1) t q obtain rc k where
        ih: "copyin root (dst + of_nat n) (srcva + of_nat n) (len - of_nat n) ?ph = Inr (rc, ?ph\<lparr>ram :=
          fetched (fetched (ram ph) ?f dst n) (\<lambda>i. ?f (of_nat n + i)) (dst + of_nat n) k\<rparr>)"
        "k \<le> q" "mapped (ram ph) root (srcva + of_nat n) k"
        "if mapped (ram ph) root (srcva + of_nat n) q then rc = 0 \<and> k = q else rc = - 1"
        by (auto simp: mapped_def add.assoc)
      have m: "mapped (ram ph) root srcva (n + k)" using fetch(3) ih(3) by (simp add: mapped_add)
      note join = fetched_join [OF safe q(3) ih(2) m]
      with ih fetch(3,4) m q show ?thesis by (intro exI [of _ rc] exI [of _ "n + k"]) (auto simp: mapped_add)
    qed
  qed
qed

section \<open>copyout\<close>

definition wmapped :: "memory \<Rightarrow> u64 \<Rightarrow> u64 \<Rightarrow> nat \<Rightarrow> bool" where
  "wmapped m root va n \<longleftrightarrow> (\<forall>i < n. user_waddr m root (va + of_nat i) \<noteq> None)"

text \<open>
  \<open>stored m root dstva src k m'\<close>: \<open>m'\<close> is \<open>m\<close> with the \<open>k\<close> bytes at \<open>src\<close> written through the
  user addresses from \<open>dstva\<close> on.
\<close>

definition stored :: "memory \<Rightarrow> u64 \<Rightarrow> u64 \<Rightarrow> u64 \<Rightarrow> nat \<Rightarrow> memory \<Rightarrow> bool" where
  "stored m root dstva src k m' \<longleftrightarrow>
     (\<forall>i < k. \<exists>a. user_waddr m root (dstva + of_nat i) = Some a \<and> m' a = m (src + of_nat i)) \<and>
     (\<forall>x. (\<forall>i < k. user_waddr m root (dstva + of_nat i) \<noteq> Some x) \<longrightarrow> m' x = m x)"

text \<open>
  A request is safe when the user frames it writes are not table pages, do not meet the source,
  and no frame is mapped twice in the range.
\<close>

definition copyout_safe :: "memory \<Rightarrow> u64 \<Rightarrow> u64 \<Rightarrow> u64 \<Rightarrow> nat \<Rightarrow> bool" where
  "copyout_safe m root dstva src n \<longleftrightarrow>
     (\<forall>i < n. \<forall>a. user_waddr m root (dstva + of_nat i) = Some a \<longrightarrow>
        pageno a \<notin> pageno ` tables m root \<and> \<not> unat (a - src) < n \<and>
        (\<forall>j < n. user_waddr m root (dstva + of_nat j) = Some a \<longrightarrow> j = i))"

lemma wmapped_add: "wmapped m root va (n + q) \<longleftrightarrow> wmapped m root va n \<and> wmapped m root (va + of_nat n) q"
  by (simp add: wmapped_def all_less_add add.assoc)

lemma stored_0: "stored m root dstva src 0 m"
  by (simp add: stored_def)

lemma stored_wmapped: "stored m root dstva src k m' \<Longrightarrow> wmapped m root dstva k"
  by (auto simp: stored_def wmapped_def)

lemma stored_agree:
  assumes "copyout_safe m root dstva src len" "n \<le> len" "stored m root dstva src n m'"
  shows "agree_on (pageno ` tables m root) m m'"
  unfolding agree_on_def
proof (intro allI impI)
  fix x assume "pageno x \<in> pageno ` tables m root"
  then have "user_waddr m root (dstva + of_nat i) \<noteq> Some x" if "i < n" for i
    using assms(1) order_less_le_trans [OF that assms(2)] unfolding copyout_safe_def by blast
  then show "m' x = m x" using assms(3) by (simp add: stored_def)
qed

lemma stored_tables:
  assumes "pt_wf m root" "copyout_safe m root dstva src len" "n \<le> len" "stored m root dstva src n m'"
  shows "pt_wf m' root" "tables m' root = tables m root" "user_waddr m' root va = user_waddr m root va"
    "unat (x - src) < len \<Longrightarrow> m' x = m x"
proof -
  have "agree_on (pageno ` tables m root) m m'" using assms(2-4) by (rule stored_agree)
  note ag = this pt_wf_agree [OF assms(1) this]
  then show "pt_wf m' root" "tables m' root = tables m root" by simp_all
  show "user_waddr m' root va = user_waddr m root va"
    using user_addr_agree(2) [OF ag(1)] assms(1) by (simp add: pt_wf_def)
  show "m' x = m x" if "unat (x - src) < len"
  proof -
    have "user_waddr m root (dstva + of_nat i) \<noteq> Some x" if "i < n" for i
      using assms(2) order_less_le_trans [OF that assms(3)] \<open>unat (x - src) < len\<close>
      unfolding copyout_safe_def by blast
    then show ?thesis using assms(4) by (simp add: stored_def)
  qed
qed

lemma stored_user_addr:
  assumes "pt_wf m root" "copyout_safe m root dstva src len" "n \<le> len" "stored m root dstva src n m'"
  shows "user_addr m' root va = user_addr m root va"
proof -
  have "agree_on (pageno ` tables m root) m m'" using assms(2-4) by (rule stored_agree)
  then show ?thesis using user_addr_agree(1) assms(1) by (simp add: pt_wf_def)
qed

lemma copyout_safe_rest:
  assumes wf: "pt_wf m root" and safe: "copyout_safe m root dstva src (n + q)" and less: "n + q < 2 ^ 64"
    and st: "stored m root dstva src n m'"
  shows "copyout_safe m' root (dstva + of_nat n) (src + of_nat n) q"
proof -
  note t = stored_tables [OF wf safe _ st]
  have range: "unat (x - src) < n + q" if "unat (x - (src + of_nat n)) < q" for x
    using that sub_add_range(2) [OF less, of x src] by linarith
  have sh: "dstva + of_nat n + of_nat i = dstva + of_nat (n + i)" for i by (simp add: add.assoc)
  show ?thesis
    unfolding copyout_safe_def sh t(3) [OF le_add1]
  proof (intro allI impI conjI)
    fix i a assume i: "i < q" "user_waddr m root (dstva + of_nat (n + i)) = Some a"
    then have ni: "n + i < n + q" by simp
    have s: "pageno a \<notin> pageno ` tables m root" "\<not> unat (a - src) < n + q"
      "\<And>j. j < n + q \<Longrightarrow> user_waddr m root (dstva + of_nat j) = Some a \<Longrightarrow> j = n + i"
      using safe ni i(2) unfolding copyout_safe_def by blast+
    then show "pageno a \<notin> pageno ` tables m' root" "\<not> unat (a - (src + of_nat n)) < q"
      using t(2) range by auto
    show "j = i" if "j < q" "user_waddr m root (dstva + of_nat (n + j)) = Some a" for j
      using s(3) [of "n + j"] that by simp
  qed
qed

lemma stored_stored:
  assumes wf: "pt_wf m root" and safe: "copyout_safe m root dstva src (n + q)" and less: "n + q < 2 ^ 64"
    and st: "stored m root dstva src n m1" "stored m1 root (dstva + of_nat n) (src + of_nat n) k m2" and k: "k \<le> q"
  shows "stored m root dstva src (n + k) m2"
proof -
  note t = stored_tables [OF wf safe le_add1 st(1)]
  have sh: "dstva + of_nat n + of_nat i = dstva + of_nat (n + i)" "src + of_nat n + of_nat i = src + of_nat (n + i)" for i
    by (simp_all add: add.assoc)
  note s2 = st(2) [unfolded stored_def sh t(3)]
  note s1 = st(1) [unfolded stored_def]
  have src: "m1 (src + of_nat j) = m (src + of_nat j)" if "j < n + q" for j
    using t(4) [of "src + of_nat j"] that less by (simp add: unat_of_nat)
  have uniq: "j = i" if "i < n + q" "j < n + q" "user_waddr m root (dstva + of_nat i) = Some a"
    "user_waddr m root (dstva + of_nat j) = Some a" for i j a
    using safe that unfolding copyout_safe_def by blast
  have "\<exists>a. user_waddr m root (dstva + of_nat i) = Some a \<and> m2 a = m (src + of_nat i)" if i: "i < n + k" for i
  proof (cases "i < n")
    case True
    with s1 obtain a where a: "user_waddr m root (dstva + of_nat i) = Some a" "m1 a = m (src + of_nat i)" by blast
    have "user_waddr m root (dstva + of_nat (n + j)) \<noteq> Some a" if "j < k" for j
      using uniq [of i "n + j" a] a(1) True that k by auto
    then have "m2 a = m1 a" using s2 by blast
    with a show ?thesis by simp
  next
    case False
    then have "i - n < k" "n + (i - n) = i" using i by auto
    with s2 obtain a where "user_waddr m root (dstva + of_nat i) = Some a" "m2 a = m1 (src + of_nat i)" by metis
    then show ?thesis using src [of i] i k by auto
  qed
  moreover have "m2 x = m x" if "\<forall>i < n + k. user_waddr m root (dstva + of_nat i) \<noteq> Some x" for x
  proof -
    from that have "\<forall>i < k. user_waddr m root (dstva + of_nat (n + i)) \<noteq> Some x"
      "\<forall>i < n. user_waddr m root (dstva + of_nat i) \<noteq> Some x" unfolding all_less_add by blast+
    then show ?thesis using s1 s2 by metis
  qed
  ultimately show ?thesis by (simp add: stored_def)
qed

text \<open>The null dereference \<open>*pte\<close> cannot happen: a page \<open>walkaddr\<close> translates has a PTE.\<close>

lemma walk_of_walkaddr:
  assumes wf: "pt_wf (ram ph) root" and w: "walkaddr root va ph = Inr pa" "pa \<noteq> 0"
  obtains pte where "walk root va False ph = Inr (pte, ph)" "pte \<noteq> 0" "load64 (ram ph) pte = leaf (ram ph) root va"
proof -
  from w have va: "unat va < 0x4000000000" "user_ok (leaf (ram ph) root va)"
    by (auto simp: walkaddr_eq [OF wf] split: if_splits)
  then obtain t where t: "table0 (ram ph) root (PX 2 va) (PX 1 va) = Some t"
    by (auto simp: leaf_def pte_of_def user_ok_def split: option.splits)
  show ?thesis
    using that [of "pte_addr t (PX 0 va)"] t walk_False [OF va(1), of root ph] leaf_slot(3,4) [OF wf t] by simp
qed

lemma stored_memmove:
  assumes ua: "\<And>i. i < unat n \<Longrightarrow> user_waddr m0 root (dstva + of_nat i) = Some (s + of_nat i)"
    and safe: "copyout_safe m0 root dstva src (unat len)"
    and n: "0 < unat n" "unat n \<le> unat len" "unat n < 2 ^ 31"
  shows "stored m0 root dstva src (unat n) (memmove s src n m0)"
proof -
  have "0 < unat len" "user_waddr m0 root (dstva + of_nat 0) = Some s" using n ua [of 0] by simp_all
  then have "\<not> unat (s - src) < unat len" using safe unfolding copyout_safe_def by blast
  then have fs: "forward_safe s src (unat n)" using n by (simp add: forward_safe_def)
  have m: "memmove s src n m0 x = (if unat (x - s) < unat n then m0 (src + (x - s)) else m0 x)" for x
    using memmove_eq [OF n(3) fs, of m0] by simp
  show ?thesis
    unfolding stored_def
  proof (intro conjI allI impI)
    fix i assume i: "i < unat n"
    then have "unat (of_nat i :: u64) = i"
      using order_less_trans [OF i unat_lt_2p64] by (simp add: unat_of_nat)
    then show "\<exists>a. user_waddr m0 root (dstva + of_nat i) = Some a \<and> memmove s src n m0 a = m0 (src + of_nat i)"
      using ua [OF i] i by (simp add: m)
  next
    fix x assume x: "\<forall>i < unat n. user_waddr m0 root (dstva + of_nat i) \<noteq> Some x"
    have "\<not> unat (x - s) < unat n"
    proof
      assume "unat (x - s) < unat n"
      moreover from this have "user_waddr m0 root (dstva + of_nat (unat (x - s))) \<noteq> Some x"
        using x by blast
      ultimately show False using ua [of "unat (x - s)"] by simp
    qed
    then show "memmove s src n m0 x = m0 x" by (simp add: m)
  qed
qed

lemma copyout_next_page:
  assumes "n = chunk dstva len" "unat n \<le> unat len"
  shows "copyout root (PGROUNDDOWN dstva + PGSIZE) d (len - n) p = copyout root (dstva + n) d (len - n) p"
proof (cases "unat n < unat len")
  case True
  then show ?thesis using assms next_page_addr [of dstva len] by (simp del: PGSIZE_def)
next
  case False
  with assms have "len - n = 0" by (simp add: word_eq_unatI)
  then show ?thesis by (simp add: copyout.simps)
qed

lemma copyout_turn:
  assumes wf: "pt_wf (ram ph) root" and safe: "copyout_safe (ram ph) root dstva src (unat len)" and pos: "0 < len"
  obtains (missing) "user_waddr (ram ph) root dstva = None" "copyout root dstva src len ph = Inr (- 1, ph)"
  | (store) n m where "0 < n" "n \<le> unat len" "stored (ram ph) root dstva src n m"
      "copyout root dstva src len ph =
        copyout root (dstva + of_nat n) (src + of_nat n) (len - of_nat n) (ph\<lparr>ram := m\<rparr>)"
proof -
  define n where "n = chunk dstva len"
  obtain pa where w: "walkaddr root (PGROUNDDOWN dstva) ph = Inr pa"
    using walkaddr_eq [OF wf] by blast
  note u = user_addr_chunk [OF wf w]
  have n: "0 < unat n" "unat n \<le> unat len" "unat n < 2 ^ 31"
    using chunk_pos [OF pos] chunk_le by (simp_all add: n_def)
  have lf: "leaf (ram ph) root dstva = leaf (ram ph) root (PGROUNDDOWN dstva)"
    by (rule leaf_same_page) simp
  show ?thesis
  proof (cases "pa = 0")
    case True
    then have "user_waddr (ram ph) root dstva = None" using u(1) by (simp add: user_waddr_def)
    moreover have "copyout root dstva src len ph = Inr (- 1, ph)"
      using True pos w by (subst copyout.simps) (simp add: Let_def)
    ultimately show ?thesis by (rule missing)
  next
    case nz: False
    then have va: "\<not> MAXVA \<le> PGROUNDDOWN dstva" using u(4) by (simp add: word_le_nat_alt)
    from walk_of_walkaddr [OF wf w nz] obtain pte where pte: "walk root (PGROUNDDOWN dstva) False ph = Inr (pte, ph)"
      "pte \<noteq> 0" "load64 (ram ph) pte = leaf (ram ph) root (PGROUNDDOWN dstva)" .
    show ?thesis
    proof (cases "bit (leaf (ram ph) root (PGROUNDDOWN dstva)) 2")
      case False
      then have "user_waddr (ram ph) root dstva = None" using lf by (simp add: user_waddr_def)
      moreover have "copyout root dstva src len ph = Inr (- 1, ph)"
        using False pos w nz va pte by (subst copyout.simps) (simp add: Let_def PTE_bits)
      ultimately show ?thesis by (rule missing)
    next
      case True
      define s where "s = pa + (dstva - PGROUNDDOWN dstva)"
      have ua: "user_waddr (ram ph) root (dstva + of_nat i) = Some (s + of_nat i)" if "i < unat n" for i
        using u(2) [OF nz, of i len] u(3) [of i len] that True by (simp add: n_def s_def user_waddr_def)
      have "copyout root dstva src len ph =
          copyout root (dstva + n) (src + n) (len - n) (ph\<lparr>ram := memmove s src n (ram ph)\<rparr>)"
        using pos w nz va pte True copyout_next_page [OF n_def n(2)]
        by (subst copyout.simps) (simp add: Let_def PTE_bits n_def s_def del: PGSIZE_def)
      then show ?thesis
        using n stored_memmove [OF ua safe n] by (intro store [of "unat n"]) simp_all
    qed
  qed
qed

lemma copyout_spec:
  assumes "pt_wf (ram ph) root" "copyout_safe (ram ph) root dstva src (unat len)"
  shows "\<exists>rc k m. copyout root dstva src len ph = Inr (rc, ph\<lparr>ram := m\<rparr>) \<and>
    stored (ram ph) root dstva src k m \<and> k \<le> unat len \<and>
    (if wmapped (ram ph) root dstva (unat len) then rc = 0 \<and> k = unat len else rc = - 1)"
  using assms
proof (induction "unat len" arbitrary: dstva src len ph rule: less_induct)
  case less
  show ?case
  proof (cases "len = 0")
    case True
    then have "copyout root dstva src len ph = Inr (0, ph\<lparr>ram := ram ph\<rparr>)" by (subst copyout.simps) simp
    then show ?thesis using True stored_0 by (fastforce simp: wmapped_def)
  next
    case False
    then have pos: "0 < len" by (simp add: word_gt_0)
    from less.prems pos show ?thesis
    proof (cases rule: copyout_turn)
      case missing
      moreover have "0 < unat len" using pos by (simp add: word_less_nat_alt)
      ultimately have "\<not> wmapped (ram ph) root dstva (unat len)" by (auto simp: wmapped_def)
      moreover have "copyout root dstva src len ph = Inr (- 1, ph\<lparr>ram := ram ph\<rparr>)" using missing by simp
      ultimately show ?thesis using stored_0 by fastforce
    next
      case (store n m)
      have un: "unat (of_nat n :: u64) = n"
        using order_le_less_trans [OF store(2) unat_lt_2p64] by (simp add: unat_of_nat)
      define q where "q = unat len - n"
      have q: "unat (len - of_nat n) = q" "unat len = n + q" "n + q < 2 ^ 64"
        using store(2) unat_lt_2p64 [of len] by (simp_all add: unat_sub_le un q_def)
      note safe = less.prems(2) [unfolded q(2)]
      note t = stored_tables [OF less.prems(1) safe le_add1 store(3)]
      have safe': "copyout_safe (ram (ph\<lparr>ram := m\<rparr>)) root (dstva + of_nat n) (src + of_nat n) (unat (len - of_nat n))"
        unfolding q using copyout_safe_rest [OF less.prems(1) safe q(3) store(3)] by simp
      from less.hyps [OF _ _ safe'] store(1) t(1) q obtain rc k m' where
        ih: "copyout root (dstva + of_nat n) (src + of_nat n) (len - of_nat n) (ph\<lparr>ram := m\<rparr>) = Inr (rc, ph\<lparr>ram := m'\<rparr>)"
        "stored m root (dstva + of_nat n) (src + of_nat n) k m'" "k \<le> q"
        "if wmapped m root (dstva + of_nat n) q then rc = 0 \<and> k = q else rc = - 1"
        by auto
      have "wmapped m root va q' = wmapped (ram ph) root va q'" for va q'
        by (simp add: wmapped_def t(3))
      then have "if wmapped (ram ph) root dstva (unat len) then rc = 0 \<and> n + k = unat len else rc = - 1"
        using ih(4) stored_wmapped [OF store(3)] by (simp add: q(2) wmapped_add split: if_splits)
      moreover have "stored (ram ph) root dstva src (n + k) m'"
        using stored_stored [OF less.prems(1) safe q(3) store(3) ih(2,3)] .
      moreover have "copyout root dstva src len ph = Inr (rc, ph\<lparr>ram := m'\<rparr>)" using store(4) ih(1) by simp
      moreover have "n + k \<le> unat len" using ih(3) q(2) by simp
      ultimately show ?thesis by blast
    qed
  qed
qed

section \<open>copyinstr\<close>

text \<open>The string at \<open>va\<close> ends at index \<open>j\<close>: the bytes up to it are mapped and it is the first zero.\<close>

definition user_byte :: "memory \<Rightarrow> u64 \<Rightarrow> u64 \<Rightarrow> u8" where
  "user_byte m root va = m (the (user_addr m root va))"

definition nul_at :: "memory \<Rightarrow> u64 \<Rightarrow> u64 \<Rightarrow> nat \<Rightarrow> bool" where
  "nul_at m root va j \<longleftrightarrow> mapped m root va (Suc j) \<and> user_byte m root (va + of_nat j) = 0 \<and>
     (\<forall>i < j. user_byte m root (va + of_nat i) \<noteq> 0)"

text \<open>The bytes of a page one by one: the first is copied, and the rest is a copy of its own.\<close>

lemma fetched_one: "fetched m (\<lambda>i. p + i) dst 1 = m(dst := m p)"
  by (rule ext) (auto simp: fetched_def unat_eq_zero)

lemma fetched_behind:
  assumes apart: "\<forall>i < Suc n. \<not> unat (p + of_nat i - dst) < len" and len: "Suc n \<le> len" "len < 2 ^ 64"
  shows "i < n \<Longrightarrow> (m(dst := m p)) (p + 1 + of_nat i) = m (p + of_nat (Suc i))"
    "k \<le> n \<Longrightarrow> fetched (m(dst := m p)) (\<lambda>i. p + 1 + i) (dst + 1) k = fetched m (\<lambda>i. p + i) dst (Suc k)"
    "i < n \<Longrightarrow> \<not> unat (p + 1 + of_nat i - (dst + 1)) < len - 1"
proof -
  assume "i < n"
  then have "\<not> unat (p + of_nat (Suc i) - dst) < len" using apart [rule_format, of "Suc i"] by simp
  then have "p + of_nat (Suc i) \<noteq> dst" using len by auto
  then show "(m(dst := m p)) (p + 1 + of_nat i) = m (p + of_nat (Suc i))" by (simp add: add.assoc)
next
  assume k: "k \<le> n"
  have "fetched (fetched m (\<lambda>i. p + i) dst 1) (\<lambda>i. p + 1 + i) (dst + of_nat 1) k = fetched m (\<lambda>i. p + i) dst (1 + k)"
  proof (rule fetched_fetched)
    show "1 + k < 2 ^ 64" using k len by simp
    fix j assume "j < k"
    then have "\<not> unat (p + of_nat (1 + j) - dst) < len" using apart [rule_format, of "Suc j"] k by simp
    then show "\<not> unat (p + of_nat (1 + j) - dst) < 1" using len by linarith
  qed simp
  then show "fetched (m(dst := m p)) (\<lambda>i. p + 1 + i) (dst + 1) k = fetched m (\<lambda>i. p + i) dst (Suc k)"
    by (simp add: fetched_one [unfolded One_nat_def])
next
  assume "i < n"
  then show "\<not> unat (p + 1 + of_nat i - (dst + 1)) < len - 1" using apart [rule_format, of i] by (simp add: algebra_simps)
qed

lemma copyinstr_page_nul:
  assumes "\<And>i. i < n \<Longrightarrow> \<not> unat (p + of_nat i - dst) < len" "n \<le> len" "len < 2 ^ 64"
    and "j < n" "m (p + of_nat j) = 0" "\<And>i. i < j \<Longrightarrow> m (p + of_nat i) \<noteq> 0"
  shows "copyinstr_page n dst p mx m = (True, dst + of_nat j, mx - of_nat j, fetched m (\<lambda>i. p + i) dst (Suc j))"
  using assms
proof (induction n arbitrary: dst p mx m len j)
  case (Suc n)
  have "\<forall>i < Suc n. \<not> unat (p + of_nat i - dst) < len" using Suc.prems(1) by blast
  note fb = fetched_behind [OF this Suc.prems(2,3)]
  show ?case
  proof (cases j)
    case 0
    then show ?thesis using Suc.prems(5) fetched_one [of m p dst] by (simp add: fun_upd_def)
  next
    case (Suc l)
    have l: "l < n" using Suc Suc.prems(4) by simp
    have "m p \<noteq> 0" using Suc.prems(6) [of 0] Suc by simp
    moreover have "copyinstr_page n (dst + 1) (p + 1) (mx - 1) (m(dst := m p)) =
        (True, dst + 1 + of_nat l, mx - 1 - of_nat l, fetched (m(dst := m p)) (\<lambda>i. p + 1 + i) (dst + 1) (Suc l))"
    proof (rule Suc.IH [of _ _ "len - 1"])
      show "\<not> unat (p + 1 + of_nat i - (dst + 1)) < len - 1" if "i < n" for i using that by (rule fb(3))
      show "(m(dst := m p)) (p + 1 + of_nat l) = 0" using fb(1) [OF l] Suc.prems(5) Suc by simp
      show "(m(dst := m p)) (p + 1 + of_nat i) \<noteq> 0" if "i < l" for i
        using fb(1) [of i] Suc.prems(6) [of "Suc i"] that l Suc by simp
    qed (use Suc.prems(2,3) l in auto)
    ultimately show ?thesis using fb(2) [of "Suc l"] l Suc by (simp add: add.assoc diff_diff_eq)
  qed
qed simp

lemma copyinstr_page_full:
  assumes "\<And>i. i < n \<Longrightarrow> \<not> unat (p + of_nat i - dst) < len" "n \<le> len" "len < 2 ^ 64"
    and "\<And>i. i < n \<Longrightarrow> m (p + of_nat i) \<noteq> 0"
  shows "copyinstr_page n dst p mx m = (False, dst + of_nat n, mx - of_nat n, fetched m (\<lambda>i. p + i) dst n)"
  using assms
proof (induction n arbitrary: dst p mx m len)
  case 0
  then show ?case by (simp add: fetched_def)
next
  case (Suc n)
  have "\<forall>i < Suc n. \<not> unat (p + of_nat i - dst) < len" using Suc.prems(1) by blast
  note fb = fetched_behind [OF this Suc.prems(2,3)]
  have "m p \<noteq> 0" using Suc.prems(4) [of 0] by simp
  moreover have "copyinstr_page n (dst + 1) (p + 1) (mx - 1) (m(dst := m p)) =
      (False, dst + 1 + of_nat n, mx - 1 - of_nat n, fetched (m(dst := m p)) (\<lambda>i. p + 1 + i) (dst + 1) n)"
  proof (rule Suc.IH [of _ _ "len - 1"])
    show "\<not> unat (p + 1 + of_nat i - (dst + 1)) < len - 1" if "i < n" for i using that by (rule fb(3))
    show "(m(dst := m p)) (p + 1 + of_nat i) \<noteq> 0" if "i < n" for i using fb(1) [OF that] Suc.prems(4) [of "Suc i"] that by simp
  qed (use Suc.prems(2,3) in auto)
  ultimately show ?case using fb(2) [of n] by (simp add: add.assoc diff_diff_eq)
qed

lemma copyinstr_page_eq:
  assumes "\<And>i. i < n \<Longrightarrow> \<not> unat (p + of_nat i - dst) < len" "n \<le> len" "len < 2 ^ 64"
  shows "copyinstr_page n dst p mx m =
    (if \<exists>j < n. m (p + of_nat j) = 0
     then let j = (LEAST j. m (p + of_nat j) = 0)
          in (True, dst + of_nat j, mx - of_nat j, fetched m (\<lambda>i. p + i) dst (Suc j))
     else (False, dst + of_nat n, mx - of_nat n, fetched m (\<lambda>i. p + i) dst n))"
proof (cases "\<exists>j < n. m (p + of_nat j) = 0")
  case True
  define j where "j = (LEAST j. m (p + of_nat j) = 0)"
  have "m (p + of_nat j) = 0" using True unfolding j_def by (metis (mono_tags, lifting) LeastI)
  moreover have "j < n" using True unfolding j_def by (metis (mono_tags, lifting) Least_le order_le_less_trans)
  moreover have "m (p + of_nat i) \<noteq> 0" if "i < j" for i using that unfolding j_def by (rule not_less_Least)
  ultimately show ?thesis using copyinstr_page_nul [OF assms, of j m mx] True by (simp add: j_def [symmetric] Let_def)
next
  case False
  have "copyinstr_page n dst p mx m = (False, dst + of_nat n, mx - of_nat n, fetched m (\<lambda>i. p + i) dst n)"
    by (rule copyinstr_page_full [OF assms]) (use False in auto)
  then show ?thesis by (simp only: False if_False)
qed

lemma copyinstr_turn:
  assumes wf: "pt_wf (ram ph) root" and safe: "copyin_safe (ram ph) root dst srcva (unat mx)" and pos: "0 < mx"
  defines "f \<equiv> \<lambda>i. the (user_addr (ram ph) root (srcva + i))"
  obtains (missing) "user_addr (ram ph) root srcva = None" "copyinstr root dst srcva mx ph = Inr (- 1, ph)"
  | (nul) j where "j < unat mx" "nul_at (ram ph) root srcva j"
      "copyinstr root dst srcva mx ph = Inr (0, ph\<lparr>ram := fetched (ram ph) f dst (Suc j)\<rparr>)"
  | (fetch) n where "0 < n" "n \<le> unat mx" "mapped (ram ph) root srcva n"
      "\<forall>i < n. user_byte (ram ph) root (srcva + of_nat i) \<noteq> 0"
      "copyinstr root dst srcva mx ph = copyinstr root (dst + of_nat n) (srcva + of_nat n) (mx - of_nat n)
        (ph\<lparr>ram := fetched (ram ph) f dst n\<rparr>)"
proof -
  obtain pa where w: "walkaddr root (PGROUNDDOWN srcva) ph = Inr pa"
    using walkaddr_eq [OF wf] by blast
  note u = user_addr_chunk [OF wf w]
  show ?thesis
  proof (cases "pa = 0")
    case True
    then show ?thesis using u(1) pos w by (intro missing) (simp, subst copyinstr.simps, simp)
  next
    case nz: False
    define n where "n = unat (chunk srcva mx)"
    define s where "s = pa + (srcva - PGROUNDDOWN srcva)"
    have n: "0 < n" "n \<le> unat mx"
      using chunk_pos [OF pos] chunk_le by (simp_all add: n_def)
    have ua: "user_addr (ram ph) root (srcva + of_nat i) = Some (s + of_nat i)" if "i < n" for i
      using u(2) [OF nz, of i mx] that by (simp add: n_def s_def)
    have byte: "user_byte (ram ph) root (srcva + of_nat i) = ram ph (s + of_nat i)" if "i < n" for i
      using ua [OF that] by (simp add: user_byte_def)
    have out: "\<not> unat (s + of_nat i - dst) < unat mx" if "i < n" for i
      using safe ua [OF that] order_less_le_trans [OF that n(2)] unfolding copyin_safe_def by blast
    have cong: "fetched (ram ph) (\<lambda>i. s + i) dst k = fetched (ram ph) f dst k" if "k \<le> n" for k
    proof (rule ext, goal_cases)
      case (1 x)
      show ?case using ua [of "unat (x - dst)"] that by (simp add: fetched_def f_def)
    qed
    note page = copyinstr_page_eq [OF out n(2), of mx "ram ph"]
    show ?thesis
    proof (cases "\<exists>j < n. ram ph (s + of_nat j) = 0")
      case True
      define j where "j = (LEAST j. ram ph (s + of_nat j) = 0)"
      have j: "j < n" "ram ph (s + of_nat j) = 0" "\<And>i. i < j \<Longrightarrow> ram ph (s + of_nat i) \<noteq> 0"
      proof -
        from True obtain i where i: "i < n" "ram ph (s + of_nat i) = 0" by blast
        then show "ram ph (s + of_nat j) = 0" unfolding j_def by (intro LeastI)
        have "j \<le> i" unfolding j_def by (rule Least_le) (rule i)
        with i show "j < n" by simp
        show "ram ph (s + of_nat i) \<noteq> 0" if "i < j" for i using that not_less_Least unfolding j_def by blast
      qed
      have "nul_at (ram ph) root srcva j"
        using j byte ua by (auto simp: nul_at_def mapped_def less_Suc_eq)
      moreover have "copyinstr root dst srcva mx ph = Inr (0, ph\<lparr>ram := fetched (ram ph) f dst (Suc j)\<rparr>)"
        using pos w nz page True j(1) cong [of "Suc j"]
        by (subst copyinstr.simps) (simp add: n_def [symmetric] s_def [symmetric] j_def [symmetric] Let_def)
      moreover have "j < unat mx" using j n by simp
      ultimately show ?thesis by (intro nul)
    next
      case False
      have step: "copyinstr root dst srcva mx ph = copyinstr root (dst + of_nat n) (PGROUNDDOWN srcva + PGSIZE) (mx - of_nat n)
          (ph\<lparr>ram := fetched (ram ph) f dst n\<rparr>)"
        using pos w nz page False cong [of n]
        by (subst copyinstr.simps) (simp add: n_def [symmetric] s_def [symmetric] del: PGSIZE_def)
      have "copyinstr root d (PGROUNDDOWN srcva + PGSIZE) (mx - of_nat n) p =
          copyinstr root d (srcva + of_nat n) (mx - of_nat n) p" for d p
      proof (cases "n < unat mx")
        case True
        then show ?thesis using next_page_addr [of srcva mx] by (simp add: n_def del: PGSIZE_def)
      next
        case False
        with n have "mx - of_nat n = 0" by (simp add: word_eq_unatI)
        then show ?thesis by (simp add: copyinstr.simps)
      qed
      with step show ?thesis using n False byte ua by (intro fetch [of n]) (auto simp: mapped_def)
    qed
  qed
qed

lemma nul_at_shift:
  assumes "mapped m root va n" "\<forall>i < n. user_byte m root (va + of_nat i) \<noteq> 0"
  shows "nul_at m root va (n + j) \<longleftrightarrow> nul_at m root (va + of_nat n) j"
    and "j < n \<Longrightarrow> \<not> nul_at m root va j"
proof -
  have "mapped m root va (Suc (n + j)) \<longleftrightarrow> mapped m root (va + of_nat n) (Suc j)"
    using assms(1) mapped_add [of m root va n "Suc j"] by simp
  then show "nul_at m root va (n + j) \<longleftrightarrow> nul_at m root (va + of_nat n) j"
    using assms(2) unfolding nul_at_def all_less_add by (simp add: add.assoc)
  show "j < n \<Longrightarrow> \<not> nul_at m root va j" using assms(2) by (auto simp: nul_at_def)
qed

lemma nul_at_fetched:
  assumes wf: "pt_wf m root" and safe: "copyin_safe m root dst srcva (n + q)" and less: "n + q < 2 ^ 64"
    and j: "j < q"
  shows "nul_at (fetched m f dst n) root (srcva + of_nat n) j \<longleftrightarrow> nul_at m root (srcva + of_nat n) j"
proof (cases "mapped m root (srcva + of_nat n) (Suc j)")
  case True
  note t = fetched_tables(3) [OF wf safe le_add1]
  have "user_byte (fetched m f dst n) root (srcva + of_nat n + of_nat i) = user_byte m root (srcva + of_nat n + of_nat i)"
    if "i \<le> j" for i
  proof -
    from that have "i < Suc j" by simp
    with True obtain a where "user_addr m root (srcva + of_nat n + of_nat i) = Some a"
      unfolding mapped_def by blast
    then have a: "user_addr m root (srcva + of_nat (n + i)) = Some a" by (simp add: add.assoc)
    moreover have "n + i < n + q" using that j by simp
    ultimately have "\<not> unat (a - dst) < n + q" using safe unfolding copyin_safe_def by blast
    then have "fetched m f dst n a = m a" by (simp add: fetched_def)
    with a show ?thesis by (simp add: user_byte_def t add.assoc)
  qed
  then show ?thesis by (simp add: nul_at_def mapped_def t)
next
  case False
  then have "\<not> mapped (fetched m f dst n) root (srcva + of_nat n) (Suc j)"
    using fetched_tables(3) [OF wf safe le_add1] by (simp add: mapped_def)
  with False show ?thesis by (simp add: nul_at_def)
qed

lemma copyinstr_spec:
  assumes "pt_wf (ram ph) root" "copyin_safe (ram ph) root dst srcva (unat mx)"
  shows "\<exists>rc k. copyinstr root dst srcva mx ph = Inr (rc, ph\<lparr>ram :=
        fetched (ram ph) (\<lambda>i. the (user_addr (ram ph) root (srcva + i))) dst k\<rparr>) \<and>
    k \<le> unat mx \<and> mapped (ram ph) root srcva k \<and>
    (if \<exists>j < unat mx. nul_at (ram ph) root srcva j then rc = 0 \<and> 0 < k \<and> nul_at (ram ph) root srcva (k - 1)
     else rc = - 1)"
  using assms
proof (induction "unat mx" arbitrary: dst srcva mx ph rule: less_induct)
  case less
  have none: "fetched m f d 0 = m" for m f d by (simp add: fetched_def)
  show ?case
  proof (cases "mx = 0")
    case True
    then show ?thesis by (subst copyinstr.simps) (auto simp: none mapped_def intro!: exI [of _ 0])
  next
    case False
    then have pos: "0 < mx" by (simp add: word_gt_0)
    from less.prems pos show ?thesis
    proof (cases rule: copyinstr_turn)
      case missing
      then have "\<not> nul_at (ram ph) root srcva j" for j by (auto simp: nul_at_def mapped_def)
      with missing show ?thesis by (auto simp: none mapped_def intro!: exI [of _ 0])
    next
      case (nul j)
      then have "mapped (ram ph) root srcva (Suc j)" by (simp add: nul_at_def)
      with nul show ?thesis by (intro exI [of _ 0] exI [of _ "Suc j"]) auto
    next
      case (fetch n)
      let ?f = "\<lambda>i. the (user_addr (ram ph) root (srcva + i))"
      let ?ph = "ph\<lparr>ram := fetched (ram ph) ?f dst n\<rparr>"
      have un: "unat (of_nat n :: u64) = n"
        using order_le_less_trans [OF fetch(2) unat_lt_2p64] by (simp add: unat_of_nat)
      define q where "q = unat mx - n"
      have q: "unat (mx - of_nat n) = q" "unat mx = n + q" "n + q < 2 ^ 64"
        using fetch(2) unat_lt_2p64 [of mx] by (simp_all add: unat_sub_le un q_def)
      note safe = less.prems(2) [unfolded q(2)]
      note t = fetched_tables [OF less.prems(1) safe, of n ?f]
      have safe': "copyin_safe (ram ?ph) root (dst + of_nat n) (srcva + of_nat n) (unat (mx - of_nat n))"
        unfolding q using copyin_safe_rest [OF less.prems(1) safe q(3)] by simp
      have nul: "nul_at (ram ?ph) root (srcva + of_nat n) j \<longleftrightarrow> nul_at (ram ph) root srcva (n + j)" if "j < q" for j
        using nul_at_fetched [OF less.prems(1) safe q(3) that] nul_at_shift(1) [OF fetch(3,4), of j] by simp
      from less.hyps [OF _ _ safe'] fetch(1) t q obtain rc k where
        ih: "copyinstr root (dst + of_nat n) (srcva + of_nat n) (mx - of_nat n) ?ph = Inr (rc, ?ph\<lparr>ram :=
          fetched (fetched (ram ph) ?f dst n) (\<lambda>i. ?f (of_nat n + i)) (dst + of_nat n) k\<rparr>)"
        "k \<le> q" "mapped (ram ph) root (srcva + of_nat n) k"
        "if \<exists>j < q. nul_at (ram ?ph) root (srcva + of_nat n) j
         then rc = 0 \<and> 0 < k \<and> nul_at (ram ?ph) root (srcva + of_nat n) (k - 1) else rc = - 1"
        by (auto simp: mapped_def add.assoc)
      have m: "mapped (ram ph) root srcva (n + k)" using fetch(3) ih(3) by (simp add: mapped_add)
      note join = fetched_join [OF safe q(3) ih(2) m]
      have ex: "(\<exists>j < unat mx. nul_at (ram ph) root srcva j) \<longleftrightarrow>
          (\<exists>j < q. nul_at (ram ?ph) root (srcva + of_nat n) j)"
      proof
        assume "\<exists>j < unat mx. nul_at (ram ph) root srcva j"
        then obtain j where j: "j < n + q" "nul_at (ram ph) root srcva j" using q by auto
        then have "n \<le> j" using nul_at_shift(2) [OF fetch(3,4)] by (meson not_le)
        then show "\<exists>j < q. nul_at (ram ?ph) root (srcva + of_nat n) j"
          using j nul by (intro exI [of _ "j - n"]) auto
      next
        assume "\<exists>j < q. nul_at (ram ?ph) root (srcva + of_nat n) j"
        then obtain j where "j < q" "nul_at (ram ph) root srcva (n + j)" using nul by blast
        then show "\<exists>j < unat mx. nul_at (ram ph) root srcva j" unfolding q(2) by (metis nat_add_left_cancel_less)
      qed
      have "if \<exists>j < unat mx. nul_at (ram ph) root srcva j
          then rc = 0 \<and> 0 < n + k \<and> nul_at (ram ph) root srcva (n + k - 1) else rc = - 1"
        using ih(2,4) nul [of "k - 1"] unfolding ex by (auto split: if_splits)
      with ih(1,2) fetch(5) m join q(2) show ?thesis by (intro exI [of _ rc] exI [of _ "n + k"]) auto
    qed
  qed
qed

end
