(* ===== verification/Free_Walk.thy ===== *)
theory Free_Walk
  imports Map_Pages
begin

text \<open>
  \<open>freewalk\<close> gives every page of a table tree back to the allocator, once each, children before
  parents, provided the level-0 entries were cleared before. \<open>tree_pages\<close> lists the pages in the
  order the routine frees them; for a well-formed three-level tree they are its tables.
\<close>

section \<open>The pages of a tree in the order they are freed\<close>

primrec tree_pages :: "nat \<Rightarrow> memory \<Rightarrow> u64 \<Rightarrow> u64 list" where
  "tree_pages 0 m t = [t]"
| "tree_pages (Suc d) m t =
     concat (map (\<lambda>i. case sub_table m t (of_nat i) of None \<Rightarrow> [] | Some c \<Rightarrow> tree_pages d m c) [0..<512]) @ [t]"

text \<open>No valid entry at the last level, no permission bits on the valid entries above it.\<close>

primrec leafless :: "nat \<Rightarrow> memory \<Rightarrow> u64 \<Rightarrow> bool" where
  "leafless 0 m t \<longleftrightarrow> (\<forall>i \<in> set [0..<512]. \<not> bit (pt_entry m t (of_nat i)) 0)"
| "leafless (Suc d) m t \<longleftrightarrow> (\<forall>i \<in> set [0..<512]. bit (pt_entry m t (of_nat i)) 0 \<longrightarrow>
     pt_entry m t (of_nat i) AND (PTE_R OR PTE_W OR PTE_X) = 0 \<and> leafless d m (PTE2PA (pt_entry m t (of_nat i))))"

lemma idx_of_nat [simp]: "i < 512 \<Longrightarrow> idx (of_nat i)"
  by (simp add: unat_of_nat)

lemma tree_pages_root: "t \<in> set (tree_pages d m t)"
  by (cases d) auto

lemma tree_pages_agree:
  assumes "agree_on (pageno ` set (tree_pages d m t)) m m'" "page_aligned t"
  shows "tree_pages d m' t = tree_pages d m t" "leafless d m' t = leafless d m t"
proof -
  have "tree_pages d m' t = tree_pages d m t \<and> leafless d m' t = leafless d m t"
    using assms
  proof (induction d arbitrary: t)
    case 0
    then have "pt_entry m' t (of_nat i) = pt_entry m t (of_nat i)" if "i < 512" for i
      using that by (intro pt_entry_agree) auto
    then show ?case by simp
  next
    case (Suc d)
    have e: "pt_entry m' t (of_nat i) = pt_entry m t (of_nat i)" if "i < 512" for i
      using that Suc.prems by (intro pt_entry_agree) auto
    then have s: "sub_table m' t (of_nat i) = sub_table m t (of_nat i)" if "i < 512" for i
      using that by (simp add: sub_table_def)
    have ih: "tree_pages d m' c = tree_pages d m c \<and> leafless d m' c = leafless d m c"
      if "i < 512" "sub_table m t (of_nat i) = Some c" for i c
    proof (rule Suc.IH)
      have "set (tree_pages d m c) \<subseteq> set (tree_pages (Suc d) m t)" using that by force
      then show "agree_on (pageno ` set (tree_pages d m c)) m m'"
        using Suc.prems(1) by (blast intro: agree_on_subset)
      show "page_aligned c" using that(2) by (rule page_aligned_sub_table)
    qed
    have "tree_pages (Suc d) m' t = tree_pages (Suc d) m t"
      unfolding tree_pages.simps using s ih
      by (intro arg_cong2 [where f = append] arg_cong [where f = concat] map_cong) (auto split: option.split)
    moreover have "leafless (Suc d) m' t = leafless (Suc d) m t"
      unfolding leafless.simps using e ih by (intro ball_cong) (auto simp: sub_table_def)
    ultimately show ?case by blast
  qed
  then show "tree_pages d m' t = tree_pages d m t" "leafless d m' t = leafless d m t" by simp_all
qed

section \<open>The recursion\<close>

lemma free_inv_store:
  assumes inv: "free_inv ph xs" and t: "managed ph t" "t \<notin> set xs" and i: "idx i"
  shows "free_inv (ph\<lparr>ram := store64 (pte_addr t i) v (ram ph)\<rparr>) xs"
    "agree_on (- {pageno t}) (ram ph) (store64 (pte_addr t i) v (ram ph))"
proof -
  have "page_aligned t" using t by (simp add: managed_def)
  then show ag: "agree_on (- {pageno t}) (ram ph) (store64 (pte_addr t i) v (ram ph))"
    using i by (intro agree_on_pte_store) simp_all
  have "pageno ` set xs \<subseteq> - {pageno t}"
    using inv t by (auto simp: free_inv_def dest: pageno_inj_managed)
  then show "free_inv (ph\<lparr>ram := store64 (pte_addr t i) v (ram ph)\<rparr>) xs"
    using free_inv_frame [OF inv agree_on_subset [OF ag]] by simp
qed

definition freewalk_turn :: "nat \<Rightarrow> u64 \<Rightarrow> nat \<Rightarrow> phys \<Rightarrow> phys outcome" where
  "freewalk_turn fuel pagetable i ph =
     (let pte = load64 (ram ph) (pte_addr pagetable (of_nat i)) in
      if pte AND PTE_V \<noteq> 0 \<and> pte AND (PTE_R OR PTE_W OR PTE_X) = 0 then
        let child = PTE2PA pte in
        bindE (freewalk fuel child ph) (\<lambda>ph.
        Inr (ph\<lparr>ram := store64 (pte_addr pagetable (of_nat i)) 0 (ram ph)\<rparr>))
      else if pte AND PTE_V \<noteq> 0 then Inl (Panic ''freewalk: leaf'')
      else Inr ph)"

lemma freewalk_turns: "freewalk (Suc fuel) t ph = bindE (forE (freewalk_turn fuel t) [0..<512] ph) (kfree t)"
  unfolding freewalk.simps freewalk_turn_def [abs_def] ..

text \<open>What freeing the pages \<open>ps\<close> leaves.\<close>

definition pages_freed :: "phys \<Rightarrow> u64 list \<Rightarrow> u64 list \<Rightarrow> phys \<Rightarrow> bool" where
  "pages_freed ph xs ps ph' \<longleftrightarrow> free_inv ph' (rev ps @ xs) \<and> end_address ph' = end_address ph \<and>
     agree_on (- pageno ` set ps) (ram ph) (ram ph')"

text \<open>
  The loop invariant at table \<open>t\<close>: \<open>done\<close> are the pages freed so far, and the entries not yet
  visited are those of the start.
\<close>

definition loop_inv :: "u64 \<Rightarrow> phys \<Rightarrow> u64 list \<Rightarrow> u64 list \<Rightarrow> nat set \<Rightarrow> phys \<Rightarrow> bool" where
  "loop_inv t ph xs ps visited s \<longleftrightarrow> free_inv s (rev ps @ xs) \<and> end_address s = end_address ph \<and>
     agree_on (- pageno ` insert t (set ps)) (ram ph) (ram s) \<and>
     (\<forall>j < 512. j \<notin> visited \<longrightarrow> pt_entry (ram s) t (of_nat j) = pt_entry (ram ph) t (of_nat j))"

lemma pageno_disjoint:
  assumes "\<forall>p \<in> A \<union> B. managed ph p" "A \<inter> B = {}"
  shows "pageno ` A \<subseteq> - pageno ` B"
  using assms by (auto dest!: pageno_inj_managed)

lemma freewalk_turn_frees:
  assumes inv: "loop_inv t ph xs ps V s" and i: "i < 512" "i \<notin> V"
    and c: "sub_table (ram ph) t (of_nat i) = Some c" "pt_entry (ram ph) t (of_nat i) AND (PTE_R OR PTE_W OR PTE_X) = 0"
    and man: "\<forall>p \<in> insert t (set ps \<union> set (tree_pages d (ram ph) c)). managed ph p \<and> p \<notin> set xs"
    and sep: "set (tree_pages d (ram ph) c) \<inter> insert t (set ps) = {}" "t \<notin> set ps"
    and ih: "\<exists>s'. freewalk (Suc d) c s = Inr s' \<and> pages_freed s (rev ps @ xs) (tree_pages d (ram ph) c) s'"
  shows "\<exists>s'. freewalk_turn (Suc d) t i s = Inr s' \<and> loop_inv t ph xs (ps @ tree_pages d (ram ph) c) (insert i V) s'"
proof -
  let ?qs = "tree_pages d (ram ph) c"
  note l = inv [unfolded loop_inv_def]
  have e: "load64 (ram s) (pte_addr t (of_nat i)) = pt_entry (ram ph) t (of_nat i)" using l i by (simp add: pt_entry_def)
  have bit: "bit (pt_entry (ram ph) t (of_nat i)) 0" "PTE2PA (pt_entry (ram ph) t (of_nat i)) = c"
    using c(1) by (auto simp: sub_table_def split: if_splits)
  have al: "page_aligned t" using man by (simp add: managed_def)
  from ih obtain s1 where s1: "freewalk (Suc d) c s = Inr s1" "free_inv s1 (rev (ps @ ?qs) @ xs)"
    "end_address s1 = end_address ph" "agree_on (- pageno ` set ?qs) (ram s) (ram s1)"
    using l by (auto simp: pages_freed_def)
  let ?s = "s1\<lparr>ram := store64 (pte_addr t (of_nat i)) 0 (ram s1)\<rparr>"
  have "managed s1 t" "t \<notin> set (rev (ps @ ?qs) @ xs)" using man sep managed_end [OF s1(3)] by auto
  note st = free_inv_store [OF s1(2) this idx_of_nat [OF i(1)], where v = 0]
  have "agree_on (- pageno ` insert t (set (ps @ ?qs))) (ram ph) (ram ?s)"
  proof (rule agree_on_trans [OF agree_on_trans])
    show "agree_on (- pageno ` insert t (set (ps @ ?qs))) (ram ph) (ram s)"
      using l by (auto intro: agree_on_subset)
    show "agree_on (- pageno ` insert t (set (ps @ ?qs))) (ram s) (ram s1)"
      using s1(4) by (auto intro: agree_on_subset)
    show "agree_on (- pageno ` insert t (set (ps @ ?qs))) (ram s1) (ram ?s)"
      using st(2) by (auto intro: agree_on_subset)
  qed
  moreover have "pt_entry (ram ?s) t (of_nat j) = pt_entry (ram ph) t (of_nat j)"
    if j: "j < 512" "j \<noteq> i" "j \<notin> V" for j
  proof -
    have "(of_nat i :: u64) \<noteq> of_nat j" using i j by (simp add: word_unat_eq_iff unat_of_nat)
    then have "pt_entry (ram ?s) t (of_nat j) = pt_entry (ram s1) t (of_nat j)"
      using al i j by (simp add: pt_entry_store)
    also have "\<dots> = pt_entry (ram s) t (of_nat j)"
      using pageno_disjoint [of "{t}" "set ?qs" ph] man sep al j by (intro pt_entry_agree [OF s1(4)]) auto
    finally show ?thesis using l j by simp
  qed
  ultimately have "loop_inv t ph xs (ps @ ?qs) (insert i V) ?s" using st(1) s1(3) by (simp add: loop_inv_def)
  moreover have "freewalk_turn (Suc d) t i s = Inr ?s"
    using bit c(2) s1(1) by (simp add: freewalk_turn_def e PTE_bits(1) del: freewalk.simps)
  ultimately show ?thesis by blast
qed

definition sub_pages :: "nat \<Rightarrow> memory \<Rightarrow> u64 \<Rightarrow> nat list \<Rightarrow> u64 list" where
  "sub_pages d m t is = concat (map (\<lambda>i. case sub_table m t (of_nat i) of None \<Rightarrow> [] | Some c \<Rightarrow> tree_pages d m c) is)"

lemma freewalk_entries_free:
  assumes lf: "leafless (Suc d) (ram ph) t" and fi: "free_inv ph xs" and dist: "distinct (sub_pages d (ram ph) t [0..<512] @ [t])"
    and man: "\<forall>p \<in> set (sub_pages d (ram ph) t [0..<512] @ [t]). managed ph p \<and> p \<notin> set xs"
    and ih: "\<And>c s ys. leafless d (ram s) c \<Longrightarrow> free_inv s ys \<Longrightarrow> distinct (tree_pages d (ram s) c) \<Longrightarrow>
      \<forall>p \<in> set (tree_pages d (ram s) c). managed s p \<and> p \<notin> set ys \<Longrightarrow>
      \<exists>s'. freewalk (Suc d) c s = Inr s' \<and> pages_freed s ys (tree_pages d (ram s) c) s'"
  shows "\<exists>s. forE (freewalk_turn (Suc d) t) [0..<512] ph = Inr s \<and>
    loop_inv t ph xs (sub_pages d (ram ph) t [0..<512]) (set [0..<512]) s"
proof -
  let ?ps = "sub_pages d (ram ph) t"
  show ?thesis
  proof (rule forE_induct)
    show "loop_inv t ph xs (?ps []) (set []) ph" using fi by (simp add: loop_inv_def sub_pages_def)
    fix pre i post s assume split: "[0..<512] = pre @ i # post" and inv: "loop_inv t ph xs (?ps pre) (set pre) s"
    have i: "i < 512" "i \<notin> set pre"
      using split by (metis in_set_conv_decomp atLeastLessThan_iff set_upt)
        (metis split distinct_upt distinct_append disjoint_iff list.set_intros(1))
    have psi: "?ps (pre @ [i]) = ?ps pre @ ?ps [i]" "?ps [0..<512] = ?ps pre @ ?ps [i] @ ?ps post"
      by (simp_all add: split sub_pages_def)
    show "\<exists>s'. freewalk_turn (Suc d) t i s = Inr s' \<and> loop_inv t ph xs (?ps (pre @ [i])) (set (pre @ [i])) s'"
    proof (cases "sub_table (ram ph) t (of_nat i)")
      case None
      then have "load64 (ram s) (pte_addr t (of_nat i)) AND PTE_V = 0" "?ps [i] = []"
        using inv i by (auto simp: loop_inv_def sub_table_def pt_entry_def PTE_bits sub_pages_def split: if_splits)
      then show ?thesis using inv by (simp add: freewalk_turn_def loop_inv_def psi)
    next
      case (Some c)
      then have fc: "?ps [i] = tree_pages d (ram ph) c" by (simp add: sub_pages_def)
      have pure: "pt_entry (ram ph) t (of_nat i) AND (PTE_R OR PTE_W OR PTE_X) = 0" "leafless d (ram ph) c"
        using lf Some i by (auto simp: sub_table_def split: if_splits)
      from dist man psi(2) have sep: "distinct (?ps [i])" "set (?ps [i]) \<inter> insert t (set (?ps pre)) = {}" "t \<notin> set (?ps pre)"
        "\<forall>p \<in> insert t (set (?ps pre) \<union> set (?ps [i])). managed ph p \<and> p \<notin> set xs" by auto
      have "pageno ` set (?ps [i]) \<subseteq> - pageno ` insert t (set (?ps pre))"
        using sep(2,4) by (intro pageno_disjoint [of _ _ ph]) auto
      then have ag: "agree_on (pageno ` set (tree_pages d (ram ph) c)) (ram ph) (ram s)"
        using inv fc by (auto simp: loop_inv_def intro: agree_on_subset)
      note tr = tree_pages_agree [OF ag page_aligned_sub_table [OF Some]]
      have "\<exists>s'. freewalk (Suc d) c s = Inr s' \<and> pages_freed s (rev (?ps pre) @ xs) (tree_pages d (ram s) c) s'"
        using inv pure(2) sep tr fc managed_end [of s ph] by (intro ih) (auto simp: loop_inv_def)
      then show ?thesis
        using freewalk_turn_frees [OF inv i Some pure(1)] sep fc tr psi(1) by simp
    qed
  qed
qed

lemma freewalk_frees:
  assumes "leafless d (ram ph) t" "free_inv ph xs" "distinct (tree_pages d (ram ph) t)"
    and "\<forall>p \<in> set (tree_pages d (ram ph) t). managed ph p \<and> p \<notin> set xs"
  shows "\<exists>ph'. freewalk (Suc d) t ph = Inr ph' \<and> pages_freed ph xs (tree_pages d (ram ph) t) ph'"
  using assms
proof (induction d arbitrary: t ph xs)
  case 0
  have "\<exists>ph'. forE (freewalk_turn 0 t) [0..<512] ph = Inr ph' \<and> ph' = ph"
  proof (rule forE_induct)
    fix pre i post s assume "[0..<512] = pre @ i # post" "s = ph"
    then have "i \<in> set [0..<512]" by (metis in_set_conv_decomp)
    then show "\<exists>s'. freewalk_turn 0 t i s = Inr s' \<and> s' = ph"
      using 0(1) \<open>s = ph\<close> by (simp add: freewalk_turn_def PTE_bits pt_entry_def)
  qed simp
  moreover from 0 obtain ph' where "kfree t ph = Inr ph'" "free_inv ph' (t # xs)"
    "agree_on (- {pageno t}) (ram ph) (ram ph')" "end_address ph' = end_address ph"
    using kfree_free_inv [of ph xs t] by auto
  ultimately show ?case unfolding freewalk_turns by (auto simp: pages_freed_def)
next
  case (Suc d)
  let ?ps = "sub_pages d (ram ph) t [0..<512]"
  have tp: "tree_pages (Suc d) (ram ph) t = ?ps @ [t]" by (simp add: sub_pages_def)
  note prems = Suc.prems(1,2) Suc.prems(3,4) [unfolded tp]
  obtain s where s: "forE (freewalk_turn (Suc d) t) [0..<512] ph = Inr s" "loop_inv t ph xs ?ps (set [0..<512]) s"
    using freewalk_entries_free [OF prems Suc.IH] by blast
  have "managed s t" "t \<notin> set (rev ?ps @ xs)"
    using s(2) prems(3,4) managed_end [of s ph] by (simp_all add: loop_inv_def)
  moreover have "free_inv s (rev ?ps @ xs)" using s(2) by (simp add: loop_inv_def)
  ultimately obtain ph' where k: "kfree t s = Inr ph'"
    "free_inv ph' (t # rev ?ps @ xs)" "agree_on (- {pageno t}) (ram s) (ram ph')"
    "end_address ph' = end_address s" using kfree_free_inv by blast
  have "agree_on (- pageno ` set (?ps @ [t])) (ram ph) (ram ph')"
  proof (rule agree_on_trans)
    show "agree_on (- pageno ` set (?ps @ [t])) (ram ph) (ram s)" using s(2) by (simp add: loop_inv_def)
    show "agree_on (- pageno ` set (?ps @ [t])) (ram s) (ram ph')" using k(3) by (rule agree_on_subset) auto
  qed
  then have "pages_freed ph xs (tree_pages (Suc d) (ram ph) t) ph'"
    unfolding tp pages_freed_def using k s(2) by (simp add: loop_inv_def)
  then show ?case using s(1) k(1) unfolding freewalk_turns by auto
qed

section \<open>Three-level trees\<close>

lemma distinct_concat_map:
  assumes "distinct is" "\<And>i. i \<in> set is \<Longrightarrow> distinct (f i)"
    and "\<And>i j. i \<in> set is \<Longrightarrow> j \<in> set is \<Longrightarrow> i \<noteq> j \<Longrightarrow> set (f i) \<inter> set (f j) = {}"
  shows "distinct (concat (map f is))"
  using assms
proof (induction "is")
  case Nil
  then show ?case by simp
next
  case (Cons i "is")
  then have "set (f i) \<inter> set (f j) = {}" if "j \<in> set is" for j
    using that by (metis distinct.simps(2) list.set_intros)
  moreover have "distinct (concat (map f is))" using Cons by auto
  ultimately show ?case using Cons.prems(2) by auto
qed

lemma mem_tree_pages:
  "x \<in> set (tree_pages (Suc d) m t) \<longleftrightarrow>
     x = t \<or> (\<exists>j c. idx j \<and> sub_table m t j = Some c \<and> x \<in> set (tree_pages d m c))"
proof -
  let ?f = "\<lambda>j. case sub_table m t j of None \<Rightarrow> [] | Some c \<Rightarrow> tree_pages d m c"
  have f: "x \<in> set (?f j) \<longleftrightarrow> (\<exists>c. sub_table m t j = Some c \<and> x \<in> set (tree_pages d m c))" for j
    by (cases "sub_table m t j") simp_all
  have "x \<in> set (tree_pages (Suc d) m t) \<longleftrightarrow> x = t \<or> (\<exists>i < 512. x \<in> set (?f (of_nat i)))"
    unfolding tree_pages.simps by (auto simp del: option.case)
  also have "(\<exists>i < 512. x \<in> set (?f (of_nat i))) \<longleftrightarrow> (\<exists>j. idx j \<and> x \<in> set (?f j))"
    by (metis idx_of_nat unat_eqD)
  finally show ?thesis unfolding f by blast
qed

lemma tree_pages_Suc_distinct:
  assumes "\<And>j c. idx j \<Longrightarrow> sub_table m t j = Some c \<Longrightarrow> distinct (tree_pages d m c) \<and> t \<notin> set (tree_pages d m c)"
    and "\<And>j j' c c'. idx j \<Longrightarrow> idx j' \<Longrightarrow> j \<noteq> j' \<Longrightarrow> sub_table m t j = Some c \<Longrightarrow> sub_table m t j' = Some c' \<Longrightarrow>
      set (tree_pages d m c) \<inter> set (tree_pages d m c') = {}"
  shows "distinct (tree_pages (Suc d) m t)"
proof -
  let ?f = "\<lambda>i. case sub_table m t (of_nat i) of None \<Rightarrow> [] | Some c \<Rightarrow> tree_pages d m c"
  have "distinct (concat (map ?f [0..<512]))"
  proof (rule distinct_concat_map)
    show "distinct (?f i)" if "i \<in> set [0..<512]" for i
      using that assms(1) [of "of_nat i"] by (cases "sub_table m t (of_nat i)") simp_all
    fix i j :: nat assume ij: "i \<in> set [0..<512]" "j \<in> set [0..<512]" "i \<noteq> j"
    then have "(of_nat i :: u64) \<noteq> of_nat j" by (simp add: word_unat_eq_iff unat_of_nat)
    then show "set (?f i) \<inter> set (?f j) = {}"
      using ij assms(2) [of "of_nat i" "of_nat j"]
      by (cases "sub_table m t (of_nat i)"; cases "sub_table m t (of_nat j)") simp_all
  qed simp
  moreover have "t \<notin> set (?f i)" if "i \<in> set [0..<512]" for i
    using that assms(1) [of "of_nat i"] by (cases "sub_table m t (of_nat i)") simp_all
  then have "t \<notin> set (concat (map ?f [0..<512]))" by (simp del: set_upt)
  ultimately show ?thesis by simp
qed

lemma tree_pages_tables:
  assumes wf: "pt_wf m root"
  shows "set (tree_pages 2 m root) = tables m root" "distinct (tree_pages 2 m root)"
proof -
  have p1: "x \<in> set (tree_pages (Suc 0) m t) \<longleftrightarrow> x = t \<or> (\<exists>j. idx j \<and> sub_table m t j = Some x)" for x t
    unfolding mem_tree_pages by auto
  show "set (tree_pages 2 m root) = tables m root"
    unfolding numeral_2_eq_2 set_eq_iff mem_tree_pages [of _ "Suc 0"] p1
    by (simp add: tables_def tables1_def tables0_def table0_def bind_eq_Some_conv) blast
  have in1: "t \<in> tables1 m root" if "idx i" "sub_table m root i = Some t" for i t
    using that by (rule tables1I)
  have in0: "u \<in> tables0 m root" "table0 m root i j = Some u"
    if "idx i" "sub_table m root i = Some t" "idx j" "sub_table m t j = Some u" for i j t u
    using that tables0I [of i j m root u] by (simp_all add: table0_def)
  show "distinct (tree_pages 2 m root)"
    unfolding numeral_2_eq_2
  proof (rule tree_pages_Suc_distinct)
    fix i t assume i: "idx i" "sub_table m root i = Some t"
    have "distinct (tree_pages (Suc 0) m t)"
    proof (rule tree_pages_Suc_distinct)
      fix j u assume j: "idx j" "sub_table m t j = Some u"
      then show "distinct (tree_pages 0 m u) \<and> t \<notin> set (tree_pages 0 m u)"
        using in1 [OF i] in0(1) [OF i j] wf by (auto simp: pt_wf_def)
    next
      fix j j' u u' assume "idx j" "idx j'" "j \<noteq> j'" "sub_table m t j = Some u" "sub_table m t j' = Some u'"
      then show "set (tree_pages 0 m u) \<inter> set (tree_pages 0 m u') = {}"
        using pt_wf_table0_unique [OF wf i(1) _ i(1), of j j' u] in0(2) [OF i] by auto
    qed
    moreover have "root \<notin> set (tree_pages (Suc 0) m t)"
      using in1 [OF i] in0(1) [OF i] wf unfolding p1 by (auto simp: pt_wf_def)
    ultimately show "distinct (tree_pages (Suc 0) m t) \<and> root \<notin> set (tree_pages (Suc 0) m t)" ..
  next
    fix i i' t t'
    assume a: "idx i" "idx i'" "i \<noteq> i'" "sub_table m root i = Some t" "sub_table m root i' = Some t'"
    have "t \<noteq> t'" using pt_wf_sub_unique [OF wf a(1,2,4)] a by auto
    moreover have "u \<noteq> t" "u \<noteq> t'" if "idx j" "sub_table m t j = Some u \<or> sub_table m t' j = Some u" for j u
      using in1 [OF a(1,4)] in1 [OF a(2,5)] in0(1) [OF a(1,4) that(1), of u] in0(1) [OF a(2,5) that(1), of u] that(2) wf
      by (auto simp: pt_wf_def)
    moreover have "u \<noteq> u'" if "idx j" "sub_table m t j = Some u" "idx j'" "sub_table m t' j' = Some u'" for j j' u u'
      using pt_wf_table0_unique [OF wf a(1) that(1) a(2) that(3), of u] in0(2) [OF a(1,4) that(1,2)]
        in0(2) [OF a(2,5) that(3,4)] a(3) by auto
    ultimately show "set (tree_pages (Suc 0) m t) \<inter> set (tree_pages (Suc 0) m t') = {}"
      unfolding disjoint_iff p1 by metis
  qed
qed

text \<open>The inner entries carry no permission bits and no page is mapped.\<close>

definition pure_tree :: "memory \<Rightarrow> u64 \<Rightarrow> bool" where
  "pure_tree m root \<longleftrightarrow>
     (\<forall>t \<in> insert root (tables1 m root). \<forall>i. idx i \<longrightarrow> bit (pt_entry m t i) 0 \<longrightarrow>
        pt_entry m t i AND (PTE_R OR PTE_W OR PTE_X) = 0)"

lemma leafless_tree:
  assumes "pure_tree m root" "\<And>i j k. idx i \<Longrightarrow> idx j \<Longrightarrow> idx k \<Longrightarrow> \<not> bit (pte_of m root i j k) 0"
  shows "leafless 2 m root"
proof -
  have sub: "sub_table m t i = Some (PTE2PA (pt_entry m t i))" if "bit (pt_entry m t i) 0" for t i
    using that by (simp add: sub_table_def)
  have lf: "leafless (Suc 0) m t" if i: "idx i" "sub_table m root i = Some t" for i t
    unfolding leafless.simps
  proof (intro ballI impI conjI)
    fix j :: nat assume j: "j \<in> set [0..<512]" and b: "bit (pt_entry m t (of_nat j)) 0"
    have t1: "t \<in> tables1 m root" using i by (rule tables1I)
    then show "pt_entry m t (of_nat j) AND (PTE_R OR PTE_W OR PTE_X) = 0"
      using assms(1) b j by (simp add: pure_tree_def)
    fix k :: nat assume k: "k \<in> set [0..<512]"
    have "table0 m root i (of_nat j) = Some (PTE2PA (pt_entry m t (of_nat j)))"
      using i(2) sub [OF b] by (simp add: table0_def)
    then show "\<not> bit (pt_entry m (PTE2PA (pt_entry m t (of_nat j))) (of_nat k)) 0"
      using assms(2) [of i "of_nat j" "of_nat k"] i j k by (simp add: pte_of_def)
  qed
  have "leafless (Suc 0) m (PTE2PA (pt_entry m root (of_nat i)))"
    if "i \<in> set [0..<512]" "bit (pt_entry m root (of_nat i)) 0" for i
    using lf [OF idx_of_nat sub [OF that(2)]] that(1) by (simp del: leafless.simps)
  then show ?thesis
    using assms(1) unfolding numeral_2_eq_2 leafless.simps(2) [of "Suc 0"] by (simp add: pure_tree_def del: leafless.simps)
qed

lemma freewalk_spec:
  assumes ok: "pt_ok ph root xs" and pure: "pure_tree (ram ph) root"
    and empty: "\<And>i j k. idx i \<Longrightarrow> idx j \<Longrightarrow> idx k \<Longrightarrow> \<not> bit (pte_of (ram ph) root i j k) 0"
  obtains ph' ps where "freewalk 3 root ph = Inr ph'" "set ps = tables (ram ph) root"
    "pages_freed ph xs ps ph'"
proof -
  have wf: "pt_wf (ram ph) root" and inv: "free_inv ph xs" using ok by (simp_all add: pt_ok_def)
  note tp = tree_pages_tables [OF wf]
  have "\<exists>ph'. freewalk (Suc 2) root ph = Inr ph' \<and> pages_freed ph xs (tree_pages 2 (ram ph) root) ph'"
    using leafless_tree [OF pure empty] inv tp ok by (intro freewalk_frees) (simp_all add: pt_ok_def)
  moreover have "Suc 2 = 3" by simp
  ultimately show ?thesis using that tp(1) by metis
qed

end
