(* ===== verification/Table_Steps.thy ===== *)
theory Table_Steps
  imports Free_Walk
begin

text \<open>
  The single writes of \<open>walk\<close> and \<open>mappages\<close> as a step relation, and what every step keeps: the permission
  bits stay off the entries above the last level, and the tables stay within the groups of pages that
  are asked for, which bounds their number.
\<close>

section \<open>Entries above the last level\<close>

text \<open>The entries above the last level are as they were.\<close>

definition inner_kept :: "memory \<Rightarrow> u64 \<Rightarrow> memory \<Rightarrow> bool" where
  "inner_kept m root m' \<longleftrightarrow> (\<forall>t \<in> insert root (tables1 m root). \<forall>i. idx i \<longrightarrow> pt_entry m' t i = pt_entry m t i)"

lemma inner_kept_tables1: "inner_kept m root m' \<Longrightarrow> tables1 m' root = tables1 m root"
  by (simp add: inner_kept_def tables1_def sub_table_def cong: conj_cong)

lemma inner_kept_trans: "inner_kept m root m' \<Longrightarrow> inner_kept m' root m'' \<Longrightarrow> inner_kept m root m''"
  using inner_kept_tables1 [of m root m'] by (simp add: inner_kept_def)

lemma inner_kept_agree:
  assumes "pt_wf m root" "agree_on (pageno ` tables m root) m m'"
  shows "inner_kept m root m'"
  unfolding inner_kept_def
proof (intro ballI allI impI)
  fix t i assume "t \<in> insert root (tables1 m root)" "idx i"
  moreover from this have "t \<in> tables m root" by (auto simp: tables_def)
  ultimately show "pt_entry m' t i = pt_entry m t i"
    using page_aligned_tables [OF assms(1)] by (intro pt_entry_agree [OF assms(2)]) auto
qed

lemma inner_kept_leaf_store:
  assumes wf: "pt_wf m root" and t: "table0 m root i j = Some t" and ix: "idx i" "idx j" "idx k"
  shows "inner_kept m root (store64 (pte_addr t k) v m)"
  unfolding inner_kept_def
proof (intro ballI allI impI)
  fix t' i' assume t': "t' \<in> insert root (tables1 m root)" and i': "idx i'"
  have "t \<in> tables0 m root" by (rule tables0I [OF ix(1,2) t])
  then have "t \<noteq> t'" using wf t' by (auto simp: pt_wf_def)
  moreover have "page_aligned t" "page_aligned t'"
    using t' wf page_aligned_table0 [OF t] page_aligned_tables [OF wf, of t'] by (auto simp: tables_def)
  ultimately show "pt_entry (store64 (pte_addr t k) v m) t' i' = pt_entry m t' i'"
    using ix(3) i' by (simp add: pt_entry_store)
qed

lemma pure_tree_kept: "inner_kept m root m' \<Longrightarrow> pure_tree m root \<Longrightarrow> pure_tree m' root"
  using inner_kept_tables1 [of m root m'] by (simp add: pure_tree_def inner_kept_def)

section \<open>Groups of pages\<close>

text \<open>
  A level-0 table serves 512 virtual pages; \<open>within m root R\<close> says that the tree has level-0 tables only
  for the groups of pages in \<open>R\<close>, and level-1 tables only above those. Such a tree has at most one page for
  every group, one for every gigabyte they lie in, and the root.
\<close>

definition within :: "memory \<Rightarrow> u64 \<Rightarrow> nat set \<Rightarrow> bool" where
  "within m root R \<longleftrightarrow>
     (\<forall>i. idx i \<longrightarrow> sub_table m root i \<noteq> None \<longrightarrow> unat i \<in> (\<lambda>r. r div 512) ` R) \<and>
     (\<forall>i j. idx i \<longrightarrow> idx j \<longrightarrow> table0 m root i j \<noteq> None \<longrightarrow> 512 * unat i + unat j \<in> R)"

lemma card_tables:
  assumes w: "within m root R" and R: "finite R"
  shows "card (tables m root) \<le> Suc (card ((\<lambda>r. r div 512) ` R) + card R)"
proof -
  have "tables1 m root \<subseteq> (\<lambda>r. the (sub_table m root (of_nat r))) ` (\<lambda>r. r div 512) ` R"
  proof
    fix t assume "t \<in> tables1 m root"
    then obtain i where i: "idx i" "sub_table m root i = Some t" by (auto simp: tables1_def)
    then have "unat i \<in> (\<lambda>r. r div 512) ` R" using w unfolding within_def by fastforce
    then show "t \<in> (\<lambda>r. the (sub_table m root (of_nat r))) ` (\<lambda>r. r div 512) ` R"
      by (rule rev_image_eqI) (simp add: i)
  qed
  then have t1: "card (tables1 m root) \<le> card ((\<lambda>r. r div 512) ` R)"
    using R by (meson card_image_le card_mono finite_imageI le_trans)
  have "tables0 m root \<subseteq> (\<lambda>r. the (table0 m root (of_nat (r div 512)) (of_nat (r mod 512)))) ` R"
  proof
    fix t assume "t \<in> tables0 m root"
    then obtain i j where ij: "idx i" "idx j" "table0 m root i j = Some t" by (auto simp: tables0_def)
    then have "512 * unat i + unat j \<in> R" using w unfolding within_def by fastforce
    then show "t \<in> (\<lambda>r. the (table0 m root (of_nat (r div 512)) (of_nat (r mod 512)))) ` R"
      by (rule rev_image_eqI) (simp add: ij)
  qed
  then have t0: "card (tables0 m root) \<le> card R" using R by (meson card_image_le card_mono finite_imageI le_trans)
  have "card (tables m root) \<le> Suc (card (tables1 m root \<union> tables0 m root))"
    by (simp add: tables_def card_insert_le_m1)
  also have "\<dots> \<le> Suc (card (tables1 m root) + card (tables0 m root))" by (simp add: card_Un_le)
  finally show ?thesis using t0 t1 by linarith
qed

lemma within_cong:
  assumes "\<And>i. idx i \<Longrightarrow> sub_table m' root i = sub_table m root i"
    and "\<And>i j. idx i \<Longrightarrow> idx j \<Longrightarrow> table0 m' root i j = table0 m root i j"
  shows "within m' root R = within m root R"
  using assms by (simp add: within_def cong: imp_cong)

text \<open>The group of the page of an address.\<close>

lemma page_group: "unat va < 2 ^ 39 \<Longrightarrow> 512 * unat (PX 2 va) + unat (PX 1 va) = pageno va div 512"
proof -
  assume va: "unat va < 2 ^ 39"
  have a: "unat (PX 2 va) = pageno va div 512 div 512 mod 512" "unat (PX 1 va) = pageno va div 512 mod 512"
    by (simp_all add: unat_PX pageno_def flip: div_mult2_eq)
  have "pageno va div 512 div 512 < 512" using va by (simp add: pageno_def flip: div_mult2_eq)
  then show ?thesis unfolding a by (simp add: mult_div_mod_eq)
qed

lemma group_gigabyte: "unat va < 2 ^ 39 \<Longrightarrow> unat (PX 2 va) = pageno va div 512 div 512"
  using page_group [of va] by (metis idx_PX div_mult_self4 div_less add.right_neutral add_0 zero_neq_numeral)

section \<open>What walk and mappages write\<close>

text \<open>
  The writes on behalf of one virtual address: a new table below the root, a new table below a table of
  level 1, and a PTE.
\<close>

inductive pt_step :: "u64 \<Rightarrow> u64 \<Rightarrow> memory \<Rightarrow> memory \<Rightarrow> bool" for root va where
  level1: "pt_wf m root \<Longrightarrow> fresh m c mz \<Longrightarrow> c \<notin> tables m root \<Longrightarrow> sub_table m root (PX 2 va) = None \<Longrightarrow>
    pt_step root va m (store64 (pte_addr root (PX 2 va)) (PA2PTE c OR PTE_V) mz)"
| level0: "pt_wf m root \<Longrightarrow> fresh m c mz \<Longrightarrow> c \<notin> tables m root \<Longrightarrow> sub_table m root (PX 2 va) = Some t \<Longrightarrow>
    sub_table m t (PX 1 va) = None \<Longrightarrow> pt_step root va m (store64 (pte_addr t (PX 1 va)) (PA2PTE c OR PTE_V) mz)"
| entry: "pt_wf m root \<Longrightarrow> table0 m root (PX 2 va) (PX 1 va) = Some t \<Longrightarrow>
    pt_step root va m (store64 (pte_addr t (PX 0 va)) pte m)"

text \<open>What one step keeps, a sequence of steps keeps.\<close>

lemma pt_steps_keep:
  assumes "(pt_step root va)\<^sup>*\<^sup>* m m'" "P m" "\<forall>m m'. pt_step root va m m' \<and> P m \<longrightarrow> P m'"
  shows "P m'"
  using assms(1,2) by (induction rule: rtranclp_induct) (use assms(3) in blast)+

lemma hang_table1_step:
  assumes ok: "pt_ok ph root (c # ys)" and k: "kalloc ph = (c, ph1)" and none: "sub_table (ram ph) root (PX 2 va) = None"
  shows "pt_step root va (ram ph) (store64 (pte_addr root (PX 2 va)) (PA2PTE c OR PTE_V) (memset c 0 PGSIZE (ram ph1)))"
proof -
  have root: "root \<in> tables (ram ph) root" by (simp add: tables_def)
  note h = hang_table [OF ok k root idx_PX]
  show ?thesis using ok h(1,2) none by (intro level1) (simp_all add: pt_ok_def)
qed

lemma hang_table0_step:
  assumes ok: "pt_ok ph root (c # ys)" and k: "kalloc ph = (c, ph1)"
    and t: "sub_table (ram ph) root (PX 2 va) = Some t" and none: "sub_table (ram ph) t (PX 1 va) = None"
  shows "pt_step root va (ram ph) (store64 (pte_addr t (PX 1 va)) (PA2PTE c OR PTE_V) (memset c 0 PGSIZE (ram ph1)))"
proof -
  have tt: "t \<in> tables (ram ph) root" using t by (auto simp: tables_def intro: tables1I [OF idx_PX])
  note h = hang_table [OF ok k tt idx_PX]
  show ?thesis using ok h(1,2) t none by (intro level0) (simp_all add: pt_ok_def)
qed

lemma walk_level1_steps:
  assumes ok: "pt_ok ph root xs" and t: "sub_table (ram ph) root (PX 2 va) = Some t"
    and w: "walk_loop (Suc 0) t va True ph = (r, ph')"
  shows "(pt_step root va)\<^sup>*\<^sup>* (ram ph) (ram ph')"
proof (cases "bit (pt_entry (ram ph) t (PX (Suc 0) va)) 0")
  case True
  with w show ?thesis by (auto simp: walk_loop_Suc)
next
  case False
  obtain c ph1 where k: "kalloc ph = (c, ph1)" by force
  have inv: "free_inv ph xs" using ok by (simp add: pt_ok_def)
  show ?thesis
    using inv k
  proof (cases rule: pa.alloc_cases)
    case none
    with w False k show ?thesis by (auto simp: walk_loop_Suc)
  next
    case (some ys)
    have none: "sub_table (ram ph) t (PX 1 va) = None" using False by (simp add: sub_table_def)
    note h = hang_table0_step [OF ok [unfolded some(1)] k t none]
    show ?thesis using h w False k some(2) by (auto simp: walk_loop_Suc Let_def)
  qed
qed

lemma walk_steps:
  assumes ok: "pt_ok ph root xs" and w: "walk root va True ph = Inr (r, ph')"
  shows "(pt_step root va)\<^sup>*\<^sup>* (ram ph) (ram ph')"
proof -
  have two: "walk_loop 2 root va True ph = walk_loop (Suc (Suc 0)) root va True ph"
    by (simp only: numeral_2_eq_2)
  have px: "PX (Suc (Suc 0)) va = PX 2 va" by (simp add: numeral_2_eq_2)
  have w2: "walk_loop (Suc (Suc 0)) root va True ph = (r, ph')"
    using w by (simp add: walk_def two split: if_splits)
  show ?thesis
  proof (cases "sub_table (ram ph) root (PX 2 va)")
    case (Some t)
    then have "walk_loop (Suc 0) t va True ph = (r, ph')"
      using w2 by (subst (asm) walk_loop_Suc) (auto simp: px sub_table_def split: if_splits)
    then show ?thesis by (rule walk_level1_steps [OF ok Some])
  next
    case None
    obtain c ph1 where k: "kalloc ph = (c, ph1)" by force
    have inv: "free_inv ph xs" using ok by (simp add: pt_ok_def)
    from None have bit: "\<not> bit (pt_entry (ram ph) root (PX 2 va)) 0" by (simp add: sub_table_def split: if_splits)
    show ?thesis
      using inv k
    proof (cases rule: pa.alloc_cases)
      case none
      then show ?thesis using w2 bit k by (simp add: walk_loop_Suc px)
    next
      case (some zs)
      let ?ph = "ph1\<lparr>ram := store64 (pte_addr root (PX 2 va)) (PA2PTE c OR PTE_V) (memset c 0 PGSIZE (ram ph1))\<rparr>"
      note g = hang_table1_step [OF ok [unfolded some(1)] k None]
      note h = hang_table1 [OF ok [unfolded some(1)] k idx_PX None]
      have w': "walk_loop (Suc 0) c va True ?ph = (r, ph')"
        using w2 bit k some(2) by (subst (asm) walk_loop_Suc) (simp add: px Let_def)
      have "pt_ok ?ph root zs" using h(1) by (simp add: pt_grow_def)
      from walk_level1_steps [OF this h(2) w'] g show ?thesis by (simp add: converse_rtranclp_into_rtranclp)
    qed
  qed
qed

text \<open>
  \<open>mappages\<close> on a range makes such steps for its pages only: what every one of them keeps, the call keeps.
\<close>

lemma mappages_turn_keeps:
  assumes ok: "pt_ok ph root xs" and P: "P (ram ph)" and keep: "\<forall>m m'. pt_step root a m m' \<and> P m \<longrightarrow> P m'"
    and m: "mappages_loop root a l pa perm ph = Inr (rc, ph')"
  obtains ph1 ys where "pt_ok ph1 root ys" "P (ram ph1)"
    "ph' = ph1 \<or> a \<noteq> l \<and> mappages_loop root (a + PGSIZE) l (pa + PGSIZE) perm ph1 = Inr (rc, ph')"
proof -
  obtain r ph1 where w: "walk root a True ph = Inr (r, ph1)"
    using m by (subst (asm) mappages_loop.simps) (auto simp: bindE_Inr_iff split: prod.splits)
  then have a: "unat a < 0x4000000000" by (rule walk_Inr_MAXVA)
  obtain ys where g: "pt_grow root ph xs ph1 ys"
    "r \<noteq> 0 \<Longrightarrow> \<exists>t. table0 (ram ph1) root (PX 2 a) (PX 1 a) = Some t \<and> r = pte_addr t (PX 0 a)"
    by (rule walk_True [OF ok a]) (use w in \<open>simp del: One_nat_def\<close>)
  have ok1: "pt_ok ph1 root ys" using g(1) by (simp add: pt_grow_def)
  have P1: "P (ram ph1)" using pt_steps_keep [OF walk_steps [OF ok w], of P] P keep by blast
  show thesis
  proof (cases "r = 0")
    case True
    then have "ph' = ph1" using m w by (subst (asm) mappages_loop.simps) simp
    with ok1 P1 show ?thesis by (intro that) auto
  next
    case False
    then obtain t where t: "table0 (ram ph1) root (PX 2 a) (PX 1 a) = Some t" "r = pte_addr t (PX 0 a)"
      using g(2) by blast
    let ?ph = "ph1\<lparr>ram := store64 r (PA2PTE pa OR scast perm OR PTE_V) (ram ph1)\<rparr>"
    have "pt_upd root ph1 ys ?ph ys [pageno a \<mapsto> PA2PTE pa OR scast perm OR PTE_V]"
      using pte_store_upd [OF ok1 _ t(1)] a t(2) by simp
    then have "pt_ok ?ph root ys" by (simp add: pt_upd_def)
    moreover have "pt_step root a (ram ph1) (ram ?ph)" using ok1 t by (auto simp: pt_ok_def intro: entry)
    then have "P (ram ?ph)" using keep P1 by blast
    ultimately show ?thesis
      using m w False by (intro that [of ?ph ys]) (auto simp: mappages_loop.simps [of root a] Let_def split: if_splits)
  qed
qed

lemma mappages_loop_keeps:
  assumes "pt_ok ph root xs" "P (ram ph)" "\<forall>i \<le> n. \<forall>m m'. pt_step root (a + of_nat (4096 * i)) m m' \<and> P m \<longrightarrow> P m'"
    and "mappages_loop root a (a + of_nat (4096 * n)) pa perm ph = Inr (rc, ph')"
  shows "P (ram ph')"
  using assms
proof (induction n arbitrary: a pa ph xs)
  case 0
  have keep: "\<forall>m m'. pt_step root a m m' \<and> P m \<longrightarrow> P m'" using 0(3) by simp
  from mappages_turn_keeps [OF 0(1), of P, OF 0(2) keep 0(4)] obtain ph1 ys where "P (ram ph1)" "ph' = ph1" by auto
  then show ?case by simp
next
  case (Suc n)
  have keep: "\<forall>m m'. pt_step root a m m' \<and> P m \<longrightarrow> P m'" using Suc.prems(3) [rule_format, of 0] by simp
  from mappages_turn_keeps [OF Suc.prems(1), of P, OF Suc.prems(2) keep Suc.prems(4)] obtain ph1 ys where
    t: "pt_ok ph1 root ys" "P (ram ph1)"
      "ph' = ph1 \<or> mappages_loop root (a + PGSIZE) (a + of_nat (4096 * Suc n)) (pa + PGSIZE) perm ph1 = Inr (rc, ph')"
    by blast
  have shift: "a + of_nat (4096 * Suc i) = (a + PGSIZE) + of_nat (4096 * i)" for i by (simp add: algebra_simps)
  have "\<forall>i \<le> n. \<forall>m m'. pt_step root (a + PGSIZE + of_nat (4096 * i)) m m' \<and> P m \<longrightarrow> P m'"
    using Suc.prems(3) by (metis shift Suc_le_mono)
  from Suc.IH [OF t(1,2) this] t(2,3) show ?case unfolding shift by blast
qed

lemma mappages_keeps:
  assumes ok: "pt_ok ph root xs" and sz: "sz \<noteq> 0" "unat va + unat sz \<le> 0x4000000000"
    and al: "page_aligned va" "page_aligned sz" and P: "P (ram ph)"
    and keep: "\<forall>a m m'. pageno va \<le> pageno a \<and> pageno a < pageno va + pageno sz \<and> unat a < 2 ^ 39 \<and> pt_step root a m m' \<and> P m \<longrightarrow> P m'"
    and m: "mappages root pa va sz perm ph = Inr (rc, ph')"
  shows "P (ram ph')"
proof -
  have u: "unat va = 4096 * pageno va" "unat sz = 4096 * pageno sz" using al by (simp_all add: page_aligned_unat)
  define n where "n = pageno sz - 1"
  have n: "pageno sz = Suc n" using u(2) sz(1) by (cases "pageno sz") (auto simp: n_def unat_eq_0)
  have off: "unat (va + of_nat (4096 * i)) = 4096 * (pageno va + i)" if "i \<le> n" for i
    using that u n sz(2) by (subst unat_add_of_nat) auto
  have pn: "pageno (va + of_nat (4096 * i)) = pageno va + i" "unat (va + of_nat (4096 * i)) < 2 ^ 39" if "i \<le> n" for i
  proof -
    show "pageno (va + of_nat (4096 * i)) = pageno va + i" using off [OF that] by (simp add: pageno_def)
    have "4096 * (pageno va + i) \<le> 4096 * pageno va + 4096 * pageno sz" using that n by simp
    also have "\<dots> \<le> 0x4000000000" using sz(2) unfolding u .
    finally show "unat (va + of_nat (4096 * i)) < 2 ^ 39" unfolding off [OF that] by simp
  qed
  have "unat (va + sz) = unat va + unat sz" using sz by (intro unat_add_nowrap) simp
  then have "unat (va + sz - 1) = unat va + unat sz - 1" using n u unat_sub_le [of 1 "va + sz"] by simp
  then have "unat (va + sz - 1) = 4096 * (pageno va + n) + 4095" using u n by simp
  moreover have "(4096 * (pageno va + n) + 4095) div 4096 = pageno va + n" by presburger
  ultimately have "unat (PGROUNDDOWN (va + sz - 1)) = unat (va + of_nat (4096 * n))"
    unfolding off [OF order.refl] by (simp only: unat_PGROUNDDOWN)
  then have "PGROUNDDOWN (va + sz - 1) = va + of_nat (4096 * n)" by (rule word_eq_unatI)
  then have "mappages_loop root va (va + of_nat (4096 * n)) pa perm ph = Inr (rc, ph')"
    using m sz(1) al(1) by (simp add: mappages_def Let_def PGROUNDDOWN_aligned)
  moreover have "\<forall>i \<le> n. \<forall>m m'. pt_step root (va + of_nat (4096 * i)) m m' \<and> P m \<longrightarrow> P m'"
  proof (intro allI impI)
    fix i m m' assume i: "i \<le> n" and s: "pt_step root (va + of_nat (4096 * i)) m m' \<and> P m"
    then show "P m'" using keep pn [OF i] n by (metis le_add1 nat_add_left_cancel_less less_Suc_eq_le)
  qed
  ultimately show ?thesis using mappages_loop_keeps [OF ok, of P] P by blast
qed

section \<open>Permission bits\<close>

text \<open>The writes of \<open>mappages\<close> keep the permission bits off the entries above the last level.\<close>

lemma table_entry_pure: "(PA2PTE c OR PTE_V) AND (PTE_R OR PTE_W OR PTE_X) = 0"
proof -
  let ?e = "PA2PTE c OR PTE_V"
  have "\<not> bit ?e 1" "\<not> bit ?e 2" "\<not> bit ?e 3" by (simp_all add: PA2PTE_def PTE_V_def bit_simps)
  then have "?e AND PTE_R = 0" "?e AND PTE_W = 0" "?e AND PTE_X = 0" unfolding PTE_bits by simp_all
  then show ?thesis by (simp only: bit.conj_disj_distrib) simp
qed

lemma step_pure:
  assumes "pt_step root va m m'" "pure_tree m root"
  shows "pure_tree m' root"
  using assms(1)
proof cases
  case (level1 c mz)
  let ?i = "PX 2 va"
  have al: "page_aligned root" "page_aligned c" using level1(2,3) by (simp_all add: pt_wf_def fresh_def)
  have ag: "agree_on (pageno ` tables m root) m mz" by (rule fresh_tree [OF level1(2,3,4)])
  note g = graft1 [OF level1(2,3,4) idx_PX level1(5), folded level1(1)]
  have ne: "c \<noteq> root" using level1(4) by (auto simp: tables_def)
  have new: "pt_entry m' t k = (if t = root \<and> k = ?i then PA2PTE c OR PTE_V else pt_entry m t k)"
    if "t \<in> insert root (tables1 m root)" "idx k" for t k
  proof -
    have t: "t \<in> tables m root" "page_aligned t" using that(1) page_aligned_tables [OF level1(2)] by (auto simp: tables_def)
    then show ?thesis using pt_entry_agree [OF ag t(2) _ that(2)] al that(2) by (simp add: level1(1) pt_entry_store)
  qed
  have zero: "pt_entry m' c k = 0" if "idx k" for k
    using pt_entry_zero_page [of c mz k] level1(3) that ne al by (simp add: level1(1) pt_entry_store fresh_def)
  have "t \<in> tables1 m' root \<Longrightarrow> t = c \<or> t \<in> tables1 m root" for t
    using g(1) by (auto simp: tables1_def split: if_splits)
  then show ?thesis
    using assms(2) new zero table_entry_pure unfolding pure_tree_def by (metis bit_0_eq bot_apply insert_iff bot_bool_def)
next
  case (level0 c mz t)
  let ?j = "PX 1 va"
  have t1: "t \<in> tables1 m root" by (rule tables1I [OF idx_PX level0(5)])
  then have al: "page_aligned t" using page_aligned_tables [OF level0(2)] by (simp add: tables_def)
  have ag: "agree_on (pageno ` tables m root) m mz" by (rule fresh_tree [OF level0(2,3,4)])
  note g = graft0 [OF level0(2,3,4) idx_PX idx_PX level0(5,6), folded level0(1)]
  have new: "pt_entry m' u k = (if u = t \<and> k = ?j then PA2PTE c OR PTE_V else pt_entry m u k)"
    if "u \<in> insert root (tables1 m root)" "idx k" for u k
  proof -
    have u: "u \<in> tables m root" "page_aligned u" using that(1) page_aligned_tables [OF level0(2)] by (auto simp: tables_def)
    then show ?thesis using pt_entry_agree [OF ag u(2) _ that(2)] al that(2) by (simp add: level0(1) pt_entry_store)
  qed
  have "tables1 m' root = tables1 m root" using g(1) by (simp add: tables1_def cong: conj_cong)
  then show ?thesis using assms(2) new table_entry_pure unfolding pure_tree_def by metis
next
  case (entry t pte)
  have "inner_kept m root m'" unfolding entry(1) by (rule inner_kept_leaf_store [OF entry(2,3) idx_PX idx_PX idx_PX])
  then show ?thesis using assms(2) by (rule pure_tree_kept)
qed

text \<open>A call for a single page: no table can be had, or at most two pages became tables.\<close>

lemma mappages_page:
  assumes ok: "pt_ok ph root xs" and va: "page_aligned va" "unat va < 0x4000000000"
    and free: "\<not> bit (leaf (ram ph) root va) 0"
  obtains (full) ph' where "mappages root pa va PGSIZE perm ph = Inr (- 1, ph')" "pt_upd root ph xs ph' [] (\<lambda>_. None)" "length xs < 2"
  | (mapped) ph' ys where "mappages root pa va PGSIZE perm ph = Inr (0, ph')"
      "pt_upd root ph xs ph' ys [pageno va \<mapsto> mk_pte pa perm]" "length xs \<le> length ys + 2"
proof -
  have m: "mappages root pa va PGSIZE perm ph = mappages_loop root va va pa perm ph"
  proof -
    have "unat va mod 4096 = 0" using va(1) by (simp add: page_aligned_def)
    have "va + PGSIZE - 1 = va + 4095" by simp
    moreover have "unat (va + 4095) = unat va + 4095" using va(2) unat_add_nowrap [of va "4095"] by simp
    ultimately have "unat (va + PGSIZE - 1) = unat va + 4095" by (simp only:)
    then have "unat (PGROUNDDOWN (va + PGSIZE - 1)) = unat va"
      using va(1) unfolding unat_PGROUNDDOWN by (simp add: page_aligned_unat)
    then have "PGROUNDDOWN (va + PGSIZE - 1) = va" by (rule word_eq_unatI)
    then show ?thesis using va(1) by (simp add: mappages_def Let_def PGROUNDDOWN_aligned)
  qed
  show ?thesis
  proof (cases rule: mappages_step [OF ok va(2) free, of pa perm])
    case (1 ph')
    then show ?thesis using full m by simp
  next
    case (2 ph' ys)
    then show ?thesis using mapped m by simp
  qed
qed

lemma mappages_pure:
  assumes ok: "pt_ok ph root xs" and va: "page_aligned va" "unat va < 0x4000000000"
    and pure: "pure_tree (ram ph) root" and m: "mappages root pa va PGSIZE perm ph = Inr (rc, ph')"
  shows "pure_tree (ram ph') root"
proof -
  have "\<forall>a m m'. pageno va \<le> pageno a \<and> pageno a < pageno va + pageno PGSIZE \<and> unat a < 2 ^ 39 \<and> pt_step root a m m' \<and>
      pure_tree m root \<longrightarrow> pure_tree m' root"
    using step_pure by blast
  moreover have "unat va + unat PGSIZE \<le> 0x4000000000"
    using va page_aligned_unat [OF va(1)] by simp
  moreover have "page_aligned PGSIZE" "PGSIZE \<noteq> 0" by (simp_all add: page_aligned_def)
  ultimately show ?thesis using mappages_keeps [OF ok _ _ va(1), of PGSIZE "\<lambda>m. pure_tree m root"] pure m by blast
qed

section \<open>The groups a call touches\<close>

lemma step_within:
  assumes "pt_step root va m m'" "within m root R" "unat va < 2 ^ 39" "pageno va div 512 \<in> R"
  shows "within m' root R"
  using assms(1)
proof cases
  case (level1 c mz)
  have i: "unat (PX 2 va) \<in> (\<lambda>r. r div 512) ` R" using assms(4) group_gigabyte [OF assms(3)] by simp
  note g = graft1 [OF level1(2,3,4) idx_PX level1(5), folded level1(1)]
  show ?thesis using assms(2) i g(1,2) unfolding within_def by (simp cong: imp_cong)
next
  case (level0 c mz t)
  have i: "512 * unat (PX 2 va) + unat (PX 1 va) \<in> R" using page_group [OF assms(3)] assms(4) by simp
  note g = graft0 [OF level0(2,3,4) idx_PX idx_PX level0(5,6), folded level0(1)]
  show ?thesis using assms(2) i g(1,2) unfolding within_def by (simp cong: imp_cong)
next
  case (entry t pte)
  note g = leaf_store(1,2) [OF entry(2,3) idx_PX idx_PX idx_PX [of 0 va], where v = pte, folded entry(1)]
  show ?thesis using assms(2) g by (subst within_cong [of _ _ m]) auto
qed

lemma mappages_within:
  assumes ok: "pt_ok ph root xs" and sz: "sz \<noteq> 0" "unat va + unat sz \<le> 0x4000000000"
    and al: "page_aligned va" "page_aligned sz"
    and s: "within (ram ph) root R" "\<forall>v. pageno va \<le> v \<and> v < pageno va + pageno sz \<longrightarrow> v div 512 \<in> R"
    and m: "mappages root pa va sz perm ph = Inr (rc, ph')"
  shows "within (ram ph') root R"
proof -
  have "\<forall>a m m'. pageno va \<le> pageno a \<and> pageno a < pageno va + pageno sz \<and> unat a < 2 ^ 39 \<and> pt_step root a m m' \<and>
      within m root R \<longrightarrow> within m' root R"
    using s(2) step_within by blast
  with s(1) show ?thesis using mappages_keeps [OF ok sz al, of "\<lambda>m. within m root R"] m by blast
qed

end
