(* ===== verification/Uvm.thy ===== *)
theory Uvm
  imports Table_Steps
begin

text \<open>
  The user address spaces of \<open>kernel/mm/uvm.c\<close>: creation, release and copying. A page table is read
  here as a function from virtual page numbers to PTEs; \<open>uvmunmap\<close> clears a range of it and gives
  the frames back to the allocator, \<open>uvmcopy\<close> gives the child its own copy of every frame.
\<close>

section \<open>Operations\<close>

definition uvmcreate :: "phys \<Rightarrow> u64 \<times> phys" where
  "uvmcreate ph =
     (let (pagetable, ph) = kalloc ph in
      if pagetable = 0 then (0, ph)
      else (pagetable, ph\<lparr>ram := memset pagetable 0 PGSIZE (ram ph)\<rparr>))"

function uvmunmap_loop :: "u64 \<Rightarrow> u64 \<Rightarrow> u64 \<Rightarrow> bool \<Rightarrow> phys \<Rightarrow> phys outcome" where
  "uvmunmap_loop pagetable a e do_free ph =
     (if a < e then
        bindE (walk pagetable a False ph) (\<lambda>(pte, ph).
          if pte = 0 then uvmunmap_loop pagetable (a + PGSIZE) e do_free ph
          else if load64 (ram ph) pte AND PTE_V = 0 then uvmunmap_loop pagetable (a + PGSIZE) e do_free ph
          else
            bindE (if do_free then kfree (PTE2PA (load64 (ram ph) pte)) ph else Inr ph) (\<lambda>ph.
            uvmunmap_loop pagetable (a + PGSIZE) e do_free (ph\<lparr>ram := store64 pte 0 (ram ph)\<rparr>)))
      else Inr ph)"
  by pat_completeness auto
termination
proof (relation "measure (\<lambda>(pagetable, a, e, do_free, ph). 0x4000001000 - unat a)", goal_cases)
  case (2 pagetable a e do_free ph x pte ph')
  then have "unat a < 0x4000000000" by (auto dest: walk_Inr_MAXVA)
  then show ?case by (simp add: unat_add_nowrap)
next
  case (3 pagetable a e do_free ph x pte ph')
  then have "unat a < 0x4000000000" by (auto dest: walk_Inr_MAXVA)
  then show ?case by (simp add: unat_add_nowrap)
next
  case (4 pagetable a e do_free ph x pte ph')
  then have "unat a < 0x4000000000" by (auto dest: walk_Inr_MAXVA)
  then show ?case by (simp add: unat_add_nowrap)
qed simp

declare uvmunmap_loop.simps [simp del]

definition uvmunmap :: "u64 \<Rightarrow> u64 \<Rightarrow> u64 \<Rightarrow> bool \<Rightarrow> phys \<Rightarrow> phys outcome" where
  "uvmunmap pagetable va sz do_free ph =
     (if va mod PGSIZE \<noteq> 0 then Inl (Panic ''uvmunmap: not aligned'')
      else if sz mod PGSIZE \<noteq> 0 then Inl (Panic ''uvmunmap: size not aligned'')
      else
        let npages = sz div PGSIZE in
        uvmunmap_loop pagetable va (va + npages * PGSIZE) do_free ph)"

text \<open>The loop of \<open>uvmcopy\<close>, with the label \<open>err\<close> as the value of a failed turn.\<close>

function uvmcopy_loop :: "u64 \<Rightarrow> u64 \<Rightarrow> u64 \<Rightarrow> u64 \<Rightarrow> phys \<Rightarrow> (u32 \<times> phys) outcome" where
  "uvmcopy_loop old new i sz ph =
     (if i < sz then
        bindE (walk old i False ph) (\<lambda>(pte, ph).
          if pte = 0 then uvmcopy_loop old new (i + PGSIZE) sz ph
          else if load64 (ram ph) pte AND PTE_V = 0 then uvmcopy_loop old new (i + PGSIZE) sz ph
          else
            let pa = PTE2PA (load64 (ram ph) pte);
                flags = ucast (PTE_FLAGS (load64 (ram ph) pte));
                (mem, ph) = kalloc ph
            in
            if mem = 0 then bindE (uvmunmap new 0 i True ph) (\<lambda>ph. Inr (- 1, ph))
            else
              let ph = ph\<lparr>ram := memmove mem pa PGSIZE (ram ph)\<rparr> in
              bindE (mappages new mem i PGSIZE flags ph) (\<lambda>(r, ph).
                if r \<noteq> 0 then
                  bindE (kfree mem ph) (\<lambda>ph.
                  bindE (uvmunmap new 0 i True ph) (\<lambda>ph. Inr (- 1, ph)))
                else uvmcopy_loop old new (i + PGSIZE) sz ph))
      else Inr (0, ph))"
  by pat_completeness auto
termination
proof (relation "measure (\<lambda>(old, new, i, sz, ph). 0x4000001000 - unat i)", goal_cases)
  case (2 old new i sz ph x pte ph')
  then have "unat i < 0x4000000000" by (auto dest: walk_Inr_MAXVA)
  then show ?case by (simp add: unat_add_nowrap)
next
  case (3 old new i sz ph x pte ph')
  then have "unat i < 0x4000000000" by (auto dest: walk_Inr_MAXVA)
  then show ?case by (simp add: unat_add_nowrap)
next
  case (4 old new i sz ph x pte ph')
  then have "unat i < 0x4000000000" by (auto dest: walk_Inr_MAXVA)
  then show ?case by (simp add: unat_add_nowrap)
qed simp

declare uvmcopy_loop.simps [simp del]

definition uvmcopy :: "u64 \<Rightarrow> u64 \<Rightarrow> u64 \<Rightarrow> phys \<Rightarrow> (u32 \<times> phys) outcome" where
  "uvmcopy old new sz ph = uvmcopy_loop old new 0 sz ph"

section \<open>The address space as a function of page numbers\<close>

definition vaddr :: "nat \<Rightarrow> u64" where "vaddr v = of_nat (4096 * v)"
definition pte_at :: "memory \<Rightarrow> u64 \<Rightarrow> nat \<Rightarrow> u64" where "pte_at m root v = leaf m root (vaddr v)"

lemma unat_vaddr: "v < 2 ^ 27 \<Longrightarrow> unat (vaddr v) = 4096 * v"
  unfolding vaddr_def unat_of_nat by simp

lemma vaddr_facts:
  assumes "v < 2 ^ 27"
  shows "page_aligned (vaddr v)" "pageno (vaddr v) = v" "unat (vaddr v) < 2 ^ 39"
    "unat (vaddr v) < 0x4000000000 \<longleftrightarrow> v < 2 ^ 26" "vaddr v + PGSIZE = vaddr (Suc v)"
  using assms unat_vaddr [OF assms] by (auto simp: page_aligned_def pageno_def vaddr_def)

lemma pte_at_leaf: "unat va < 2 ^ 39 \<Longrightarrow> pte_at m root (pageno va) = leaf m root va"
  unfolding pte_at_def
proof (rule leaf_same_page)
  assume "unat va < 2 ^ 39"
  then have "pageno va < 2 ^ 27" by (simp add: pageno_def less_mult_imp_div_less)
  then show "pageno (vaddr (pageno va)) = pageno va" by (rule vaddr_facts)
qed

lemma pt_upd_pte_at:
  assumes "pt_upd root ph xs ph' ys L" "v < 2 ^ 27"
  shows "pte_at (ram ph') root v = (case L v of Some pte \<Rightarrow> pte | None \<Rightarrow> pte_at (ram ph) root v)"
  using assms(1) vaddr_facts(2,3) [OF assms(2)] unfolding pt_upd_def pte_at_def by metis

text \<open>The frames behind a range of virtual pages, in ascending order.\<close>

definition frames :: "(nat \<Rightarrow> u64) \<Rightarrow> nat \<Rightarrow> nat \<Rightarrow> u64 list" where
  "frames f v n = map (\<lambda>v. PTE2PA (f v)) (filter (\<lambda>v. bit (f v) 0) [v..<v + n])"

lemma frames_0 [simp]: "frames f v 0 = []"
  by (simp add: frames_def)

lemma frames_Suc: "frames f v (Suc n) = (if bit (f v) 0 then [PTE2PA (f v)] else []) @ frames f (Suc v) n"
proof -
  have "[v..<v + Suc n] = v # [Suc v..<Suc v + n]" by (simp add: upt_rec)
  then show ?thesis by (simp add: frames_def)
qed

lemma frames_1: "frames f v 1 = (if bit (f v) 0 then [PTE2PA (f v)] else [])"
  unfolding One_nat_def frames_Suc by simp

lemma frames_cong: "(\<And>w. v \<le> w \<Longrightarrow> w < v + n \<Longrightarrow> f w = g w) \<Longrightarrow> frames f v n = frames g v n"
  unfolding frames_def by (intro map_cong filter_cong) auto

section \<open>uvmcreate\<close>

lemma zero_table_wf:
  assumes "\<forall>a. pageno a = pageno c \<longrightarrow> m a = 0" "page_aligned c" "c \<noteq> 0"
  shows "pt_wf m c" "tables m c = {c}" "leaf m c va = 0"
proof -
  have sub: "sub_table m c i = None" if "idx i" for i
    using pt_entry_zero_page [OF assms(1,2) that] by (simp add: sub_table_def)
  then have t0: "table0 m c i j = None" if "idx i" for i j
    using that by (simp add: table0_def)
  have e: "tables1 m c = {}" "tables0 m c = {}" by (simp_all add: tables1_def tables0_def sub t0 cong: conj_cong)
  then show "tables m c = {c}" by (simp add: tables_def)
  then show "pt_wf m c" using assms e sub t0 by (simp add: pt_wf_def)
  show "leaf m c va = 0" by (simp add: leaf_def pte_of_def t0)
qed

text \<open>
  A new user table is one page off the free list and maps nothing, and the step writes that page only.
\<close>

lemma uvmcreate_spec:
  assumes inv: "free_inv ph (c # ys)"
  obtains ph' where "uvmcreate ph = (c, ph')" "c \<noteq> 0" "pt_ok ph' c ys" "tables (ram ph') c = {c}"
    "\<And>va. leaf (ram ph') c va = 0" "agree_on (- {pageno c}) (ram ph) (ram ph')" "end_address ph' = end_address ph"
proof -
  from inv obtain ph1 where k: "kalloc ph = (c, ph1)" "free_inv ph1 ys" "end_address ph1 = end_address ph"
    and ag: "agree_on (- {pageno c}) (ram ph) (ram ph1)" by (rule kalloc_free_inv)
  have c: "managed ph c" "c \<noteq> 0" "c \<notin> set ys" using inv managed_nonzero by (auto simp: free_inv_def)
  let ?ph = "ph1\<lparr>ram := memset c 0 PGSIZE (ram ph1)\<rparr>"
  have mz: "ram ?ph = (\<lambda>a. if pageno a = pageno c then 0 else ram ph1 a)"
    using managed_bounds [OF c(1)] by (simp add: memset_page del: PGSIZE_def)
  then have ag1: "agree_on (- {pageno c}) (ram ph1) (ram ?ph)" by (simp add: agree_on_def)
  have al: "page_aligned c" using c by (simp add: managed_def)
  note z = zero_table_wf [of c "ram ?ph", OF _ al c(2)]
  have "pageno ` set ys \<subseteq> - {pageno c}"
    using inv c(1,3) by (auto simp: free_inv_def dest: pageno_inj_managed)
  then have "free_inv ?ph ys" using k(2) ag1 by (intro free_inv_frame) (auto intro: agree_on_subset)
  moreover have "managed ?ph c" using c(1) k(3) by (simp add: managed_def)
  ultimately have "pt_ok ?ph c ys" using z mz c(3) by (simp add: pt_ok_def)
  moreover have "uvmcreate ph = (c, ?ph)" using k c by (simp add: uvmcreate_def)
  moreover have "agree_on (- {pageno c}) (ram ph) (ram ?ph)" by (rule agree_on_trans [OF ag ag1])
  ultimately show ?thesis using that c z mz k(3) by simp
qed

section \<open>uvmunmap\<close>

text \<open>
  \<open>pt_unmap root ph xs ph' fs V\<close>: the valid PTEs of the pages \<open>V\<close> were cleared, the frames \<open>fs\<close>
  went to the front of the free list, the last one first, and nothing else changed.
\<close>

definition pt_unmap :: "u64 \<Rightarrow> phys \<Rightarrow> u64 list \<Rightarrow> phys \<Rightarrow> u64 list \<Rightarrow> nat set \<Rightarrow> bool" where
  "pt_unmap root ph xs ph' fs V \<longleftrightarrow>
     pt_ok ph' root (rev fs @ xs) \<and> end_address ph' = end_address ph \<and>
     tables (ram ph') root = tables (ram ph) root \<and> inner_kept (ram ph) root (ram ph') \<and>
     (\<forall>w < 2 ^ 27. pte_at (ram ph') root w =
        (if w \<in> V \<and> bit (pte_at (ram ph) root w) 0 then 0 else pte_at (ram ph) root w)) \<and>
     agree_on (- pageno ` (tables (ram ph) root \<union> set fs)) (ram ph) (ram ph')"

lemma pt_unmap_refl: "pt_ok ph root xs \<Longrightarrow> pt_unmap root ph xs ph [] {}"
  by (simp add: pt_unmap_def inner_kept_def)

lemma pt_unmap_trans:
  assumes "pt_unmap root ph xs ph1 fs V" "pt_unmap root ph1 (rev fs @ xs) ph2 gs W"
  shows "pt_unmap root ph xs ph2 (fs @ gs) (V \<union> W)"
proof -
  have "agree_on (- pageno ` (tables (ram ph) root \<union> set (fs @ gs))) (ram ph) (ram ph2)"
  proof (rule agree_on_trans)
    show "agree_on (- pageno ` (tables (ram ph) root \<union> set (fs @ gs))) (ram ph) (ram ph1)"
      using assms(1) by (auto simp: pt_unmap_def intro: agree_on_subset)
    show "agree_on (- pageno ` (tables (ram ph) root \<union> set (fs @ gs))) (ram ph1) (ram ph2)"
      using assms by (auto simp: pt_unmap_def intro: agree_on_subset)
  qed
  moreover have "inner_kept (ram ph) root (ram ph2)"
    using assms by (auto simp: pt_unmap_def intro: inner_kept_trans)
  ultimately show ?thesis using assms by (auto simp: pt_unmap_def)
qed

lemma free_frame:
  assumes ok: "pt_ok ph root xs" and f: "managed ph f" "f \<notin> set xs" "f \<notin> tables (ram ph) root"
  obtains ph' where "kfree f ph = Inr ph'" "pt_unmap root ph xs ph' [f] {}"
    "agree_on (pageno ` tables (ram ph) root) (ram ph) (ram ph')"
proof -
  have inv: "free_inv ph xs" and wf: "pt_wf (ram ph) root" using ok by (simp_all add: pt_ok_def)
  from inv f(1,2) obtain ph' where k: "kfree f ph = Inr ph'" "free_inv ph' (f # xs)"
    "agree_on (- {pageno f}) (ram ph) (ram ph')" "end_address ph' = end_address ph" by (rule kfree_free_inv)
  have "pageno ` tables (ram ph) root \<subseteq> - {pageno f}"
    using ok f by (auto simp: pt_ok_def dest: pageno_inj_managed)
  then have ag: "agree_on (pageno ` tables (ram ph) root) (ram ph) (ram ph')"
    using k(3) by (rule agree_on_subset [rotated])
  note t = pt_wf_agree [OF wf ag]
  have "pte_at (ram ph') root w = pte_at (ram ph) root w" for w
    unfolding pte_at_def leaf_def using wf by (intro tree_agree(3) [OF ag]) (simp_all add: pt_wf_def)
  moreover have "agree_on (- pageno ` (tables (ram ph) root \<union> set [f])) (ram ph) (ram ph')"
    using k(3) by (auto intro: agree_on_subset)
  moreover have "pt_ok ph' root (f # xs)" using ok k t f by (auto simp: pt_ok_def managed_def)
  moreover have "inner_kept (ram ph) root (ram ph')" by (rule inner_kept_agree [OF wf ag])
  ultimately show ?thesis using that k(1,4) t ag by (simp add: pt_unmap_def)
qed

lemma clear_pte:
  assumes ok: "pt_ok ph root xs" and v: "v < 2 ^ 26"
    and t: "table0 (ram ph) root (PX 2 (vaddr v)) (PX 1 (vaddr v)) = Some t"
    and valid: "bit (pte_at (ram ph) root v) 0"
  shows "pt_unmap root ph xs (ph\<lparr>ram := store64 (pte_addr t (PX 0 (vaddr v))) 0 (ram ph)\<rparr>) [] {v}"
proof -
  have v27: "v < 2 ^ 27" using v by simp
  note u = pte_store_upd [OF ok vaddr_facts(3) [OF v27] t, where v = 0]
  have "inner_kept (ram ph) root (store64 (pte_addr t (PX 0 (vaddr v))) 0 (ram ph))"
    using ok by (intro inner_kept_leaf_store [OF _ t]) (simp_all add: pt_ok_def)
  then show ?thesis
    using u valid pt_upd_pte_at [OF u] unfolding pt_unmap_def
    by (auto simp: pt_upd_def vaddr_facts(2) [OF v27])
qed

lemma uvmunmap_page:
  assumes ok: "pt_ok ph root xs" and v: "v < 2 ^ 26" and e: "vaddr v < e"
    and frame: "do_free \<Longrightarrow> \<forall>f \<in> set (frames (pte_at (ram ph) root) v 1).
      managed ph f \<and> f \<notin> set xs \<and> f \<notin> tables (ram ph) root"
  obtains ph' where "uvmunmap_loop root (vaddr v) e do_free ph = uvmunmap_loop root (vaddr (Suc v)) e do_free ph'"
    "pt_unmap root ph xs ph' (if do_free then frames (pte_at (ram ph) root) v 1 else []) {v}"
proof -
  let ?a = "vaddr v"
  have v27: "v < 2 ^ 27" using v by simp
  have a: "unat ?a < 0x4000000000" "?a + PGSIZE = vaddr (Suc v)" using v vaddr_facts [OF v27] by simp_all
  show ?thesis
  proof (cases "bit (pte_at (ram ph) root v) 0")
    case False
    have "uvmunmap_loop root ?a e do_free ph = uvmunmap_loop root (vaddr (Suc v)) e do_free ph"
    proof (cases "table0 (ram ph) root (PX 2 ?a) (PX 1 ?a)")
      case None
      then show ?thesis
        using e walk_False [OF a(1), of root ph] a(2) by (subst uvmunmap_loop.simps) simp
    next
      case (Some t)
      with False have "load64 (ram ph) (pte_addr t (PX 0 ?a)) AND PTE_V = 0"
        by (simp add: PTE_bits pte_at_def leaf_def pte_of_def pt_entry_def)
      then show ?thesis
        using e walk_False [OF a(1), of root ph] a(2) Some by (subst uvmunmap_loop.simps) simp
    qed
    moreover have "pt_unmap root ph xs ph [] {v}"
      using ok False by (auto simp: pt_unmap_def inner_kept_def)
    ultimately show ?thesis using that [of ph] False by (simp add: frames_Suc)
  next
    case True
    let ?f = "PTE2PA (pte_at (ram ph) root v)"
    from True obtain t where t: "table0 (ram ph) root (PX 2 ?a) (PX 1 ?a) = Some t"
      by (auto simp: pte_at_def leaf_def pte_of_def split: option.splits)
    have wf: "pt_wf (ram ph) root" using ok by (simp add: pt_ok_def)
    note sl = leaf_slot [OF wf t]
    let ?k = "if do_free then kfree ?f ph else Inr ph"
    obtain ph1 where k: "?k = Inr ph1" "pt_unmap root ph xs ph1 (if do_free then [?f] else []) {}"
      "agree_on (pageno ` tables (ram ph) root) (ram ph) (ram ph1)"
    proof (cases do_free)
      case True
      with frame \<open>bit _ 0\<close> have "managed ph ?f" "?f \<notin> set xs" "?f \<notin> tables (ram ph) root"
        by (simp_all add: frames_Suc)
      from free_frame [OF ok this] show ?thesis using True that by auto
    next
      case False
      then show ?thesis using that pt_unmap_refl [OF ok] by simp
    qed
    have ok1: "pt_ok ph1 root ((if do_free then [?f] else []) @ xs)"
      using k(2) by (simp add: pt_unmap_def split: if_splits)
    have al: "page_aligned root" using wf by (simp add: pt_wf_def)
    have t1: "table0 (ram ph1) root (PX 2 ?a) (PX 1 ?a) = Some t"
      using tree_agree(2) [OF k(3) al idx_PX idx_PX idx_PX [of 0 0]] t by simp
    have valid1: "bit (pte_at (ram ph1) root v) 0" using k(2) True v27 by (simp add: pt_unmap_def)
    let ?ph = "ph1\<lparr>ram := store64 (pte_addr t (PX 0 ?a)) 0 (ram ph1)\<rparr>"
    have "pt_unmap root ph xs ?ph ((if do_free then [?f] else []) @ []) ({} \<union> {v})"
      using clear_pte [OF ok1 v t1 valid1] by (intro pt_unmap_trans [OF k(2)]) (simp split: if_splits)
    moreover have "uvmunmap_loop root ?a e do_free ph = uvmunmap_loop root (vaddr (Suc v)) e do_free ?ph"
      using e walk_False [OF a(1), of root ph] t a(2) sl(3,4) [folded pte_at_def] True k(1)
      by (subst uvmunmap_loop.simps) (cases do_free; simp add: PTE_bits)
    ultimately show ?thesis using that [of ?ph] True unfolding frames_1 by (cases do_free) simp_all
  qed
qed

lemma frames_1_Suc: "frames f v (Suc n) = frames f v 1 @ frames f (Suc v) n"
  unfolding frames_1 frames_Suc by simp

lemma uvmunmap_loop_spec:
  assumes "pt_ok ph root xs" "v + n \<le> 2 ^ 26"
    and "do_free \<Longrightarrow> distinct (frames (pte_at (ram ph) root) v n) \<and>
      (\<forall>f \<in> set (frames (pte_at (ram ph) root) v n). managed ph f \<and> f \<notin> set xs \<and> f \<notin> tables (ram ph) root)"
  shows "\<exists>ph'. uvmunmap_loop root (vaddr v) (vaddr (v + n)) do_free ph = Inr ph' \<and>
    pt_unmap root ph xs ph' (if do_free then frames (pte_at (ram ph) root) v n else []) {v..<v + n}"
  using assms
proof (induction n arbitrary: v ph xs)
  case 0
  then show ?case by (subst uvmunmap_loop.simps) (simp add: pt_unmap_refl)
next
  case (Suc n)
  let ?fs = "frames (pte_at (ram ph) root)"
  have v: "v < 2 ^ 26" using Suc.prems by simp
  have e: "vaddr v < vaddr (v + Suc n)"
    using Suc.prems by (simp add: word_less_nat_alt unat_vaddr)
  have one: "do_free \<Longrightarrow> \<forall>f \<in> set (?fs v 1). managed ph f \<and> f \<notin> set xs \<and> f \<notin> tables (ram ph) root"
    using Suc.prems(3) unfolding frames_1_Suc by simp
  obtain ph1 where ph1: "uvmunmap_loop root (vaddr v) (vaddr (v + Suc n)) do_free ph =
      uvmunmap_loop root (vaddr (Suc v)) (vaddr (v + Suc n)) do_free ph1"
    "pt_unmap root ph xs ph1 (if do_free then ?fs v 1 else []) {v}"
    using uvmunmap_page [OF Suc.prems(1) v e, of do_free] one by blast
  let ?xs = "rev (if do_free then ?fs v 1 else []) @ xs"
  have fs: "frames (pte_at (ram ph1) root) (Suc v) n = ?fs (Suc v) n"
    using ph1(2) Suc.prems(2) by (intro frames_cong) (simp add: pt_unmap_def)
  have "\<exists>ph'. uvmunmap_loop root (vaddr (Suc v)) (vaddr (Suc v + n)) do_free ph1 = Inr ph' \<and>
      pt_unmap root ph1 ?xs ph' (if do_free then frames (pte_at (ram ph1) root) (Suc v) n else []) {Suc v..<Suc v + n}"
  proof (rule Suc.IH)
    show "pt_ok ph1 root ?xs" using ph1(2) by (simp add: pt_unmap_def)
    assume do_free
    with Suc.prems(3) have "distinct (?fs v 1 @ ?fs (Suc v) n)"
      "\<forall>f \<in> set (?fs (Suc v) n). managed ph f \<and> f \<notin> set xs \<and> f \<notin> tables (ram ph) root"
      unfolding frames_1_Suc by simp_all
    moreover have "managed ph1 = managed ph" "tables (ram ph1) root = tables (ram ph) root"
      using ph1(2) managed_end [of ph1 ph] by (simp_all add: pt_unmap_def)
    ultimately show "distinct (frames (pte_at (ram ph1) root) (Suc v) n) \<and>
        (\<forall>f \<in> set (frames (pte_at (ram ph1) root) (Suc v) n).
          managed ph1 f \<and> f \<notin> set ?xs \<and> f \<notin> tables (ram ph1) root)"
      using \<open>do_free\<close> by (auto simp: fs)
  qed (use Suc.prems in simp)
  then obtain ph' where ih: "uvmunmap_loop root (vaddr (Suc v)) (vaddr (v + Suc n)) do_free ph1 = Inr ph'"
    "pt_unmap root ph1 ?xs ph' (if do_free then ?fs (Suc v) n else []) {Suc v..<v + Suc n}"
    unfolding fs by auto
  have "{v} \<union> {Suc v..<v + Suc n} = {v..<v + Suc n}" by auto
  with pt_unmap_trans [OF ph1(2) ih(2)] ph1(1) ih(1) show ?case
    unfolding frames_1_Suc [of _ v] by (cases do_free) auto
qed

text \<open>A range of \<open>n\<close> pages below \<open>MAXVA\<close>.\<close>

lemma unat_eq_mult_div: "unat (x :: u64) mod 4096 = 0 \<Longrightarrow> x div PGSIZE * PGSIZE = x"
proof (rule word_eq_unatI)
  assume x: "unat x mod 4096 = 0"
  have d: "unat (x div PGSIZE) = unat x div 4096" by (simp add: unat_div)
  have "unat (x div PGSIZE * PGSIZE) = unat x div 4096 * 4096 mod 2 ^ 64"
    by (simp only: unat_word_ariths(2) d) simp
  also have "unat x div 4096 * 4096 = unat x" using x by auto
  finally show "unat (x div PGSIZE * PGSIZE) = unat x" by simp
qed

lemma uvmunmap_spec:
  assumes ok: "pt_ok ph root xs" and al: "page_aligned va" "page_aligned sz"
    and r: "unat va + unat sz \<le> 0x4000000000"
    and free: "do_free \<Longrightarrow> distinct (frames (pte_at (ram ph) root) (pageno va) (pageno sz)) \<and>
      (\<forall>f \<in> set (frames (pte_at (ram ph) root) (pageno va) (pageno sz)).
        managed ph f \<and> f \<notin> set xs \<and> f \<notin> tables (ram ph) root)"
  shows "\<exists>ph'. uvmunmap root va sz do_free ph = Inr ph' \<and>
    pt_unmap root ph xs ph' (if do_free then frames (pte_at (ram ph) root) (pageno va) (pageno sz) else [])
      {pageno va..<pageno va + pageno sz}"
proof -
  have va: "va = vaddr (pageno va)" "va + sz = vaddr (pageno va + pageno sz)"
  proof (rule word_eq_unatI)
    have v: "pageno va + pageno sz \<le> 2 ^ 26" using r al by (simp add: page_aligned_unat)
    then show "unat va = unat (vaddr (pageno va))" using al by (simp add: unat_vaddr page_aligned_unat)
    have "unat (va + sz) = unat va + unat sz" using r by (simp add: unat_add_nowrap)
    then have "unat (va + sz) = unat (vaddr (pageno va + pageno sz))"
      using v al by (simp add: unat_vaddr page_aligned_unat)
    then show "va + sz = vaddr (pageno va + pageno sz)" by (rule word_eq_unatI)
  qed
  have "va mod PGSIZE = 0" "sz mod PGSIZE = 0"
    using al by (simp_all add: page_aligned_def word_unat_eq_iff unat_mod)
  moreover have "va + sz div PGSIZE * PGSIZE = va + sz"
    using al by (simp add: unat_eq_mult_div page_aligned_def del: PGSIZE_def)
  ultimately have "uvmunmap root va sz do_free ph =
      uvmunmap_loop root (vaddr (pageno va)) (vaddr (pageno va + pageno sz)) do_free ph"
    using va by (simp add: uvmunmap_def Let_def)
  moreover have "pageno va + pageno sz \<le> 2 ^ 26" using r al by (simp add: page_aligned_unat)
  ultimately show ?thesis using uvmunmap_loop_spec [OF ok _ free] by simp
qed

section \<open>uvmcopy\<close>

text \<open>\<open>w\<close> is mapped in the child with the parent's flags and a frame holding the parent's bytes.\<close>

definition copy_of :: "memory \<Rightarrow> u64 \<Rightarrow> memory \<Rightarrow> u64 \<Rightarrow> nat \<Rightarrow> bool" where
  "copy_of m old m' new w \<longleftrightarrow>
     bit (pte_at m' new w) 0 \<and> PTE_FLAGS (pte_at m' new w) = PTE_FLAGS (pte_at m old w) \<and>
     (\<forall>k < 4096. m' (PTE2PA (pte_at m' new w) + of_nat k) = m (PTE2PA (pte_at m old w) + of_nat k))"

text \<open>
  The state after the first \<open>v\<close> pages, from \<open>ph\<close> with the free pages \<open>xs\<close>. Every page that was
  free or a table of the child is now free, a table of the child or one of its frames.
\<close>

definition child_inv :: "u64 \<Rightarrow> u64 \<Rightarrow> phys \<Rightarrow> u64 list \<Rightarrow> phys \<Rightarrow> u64 list \<Rightarrow> nat \<Rightarrow> bool" where
  "child_inv old new ph xs ph' ys v \<longleftrightarrow>
     pt_ok ph' new ys \<and> end_address ph' = end_address ph \<and> set ys \<subseteq> set xs \<and>
     distinct (frames (pte_at (ram ph') new) 0 v) \<and>
     set (frames (pte_at (ram ph') new) 0 v) \<subseteq> set xs \<and>
     set (frames (pte_at (ram ph') new) 0 v) \<inter> (set ys \<union> tables (ram ph') new) = {} \<and>
     set xs \<union> tables (ram ph) new = set ys \<union> tables (ram ph') new \<union> set (frames (pte_at (ram ph') new) 0 v) \<and>
     (\<forall>w < v. if bit (pte_at (ram ph) old w) 0 then copy_of (ram ph) old (ram ph') new w
        else \<not> bit (pte_at (ram ph') new w) 0) \<and>
     (\<forall>w < 2 ^ 27. v \<le> w \<longrightarrow> pte_at (ram ph') new w = pte_at (ram ph) new w) \<and>
     agree_on (- pageno ` (tables (ram ph) new \<union> set xs)) (ram ph) (ram ph') \<and>
     (pure_tree (ram ph) new \<longrightarrow> pure_tree (ram ph') new)"

text \<open>The parent's tables and frames are neither free nor tables of the child.\<close>

definition parent_ok :: "u64 \<Rightarrow> u64 \<Rightarrow> phys \<Rightarrow> u64 list \<Rightarrow> nat \<Rightarrow> bool" where
  "parent_ok old new ph xs n \<longleftrightarrow> pt_wf (ram ph) old \<and>
     (\<forall>t \<in> tables (ram ph) old \<union> set (frames (pte_at (ram ph) old) 0 n).
        managed ph t \<and> t \<notin> tables (ram ph) new \<and> t \<notin> set xs)"

lemma frames_0_Suc: "frames f 0 (Suc v) = frames f 0 v @ (if bit (f v) 0 then [PTE2PA (f v)] else [])"
  by (simp add: frames_def)

lemma mem_frames: "w < n \<Longrightarrow> bit (f w) 0 \<Longrightarrow> PTE2PA (f w) \<in> set (frames f 0 n)"
  by (auto simp: frames_def)

text \<open>What the copy keeps of the parent.\<close>

lemma parent_kept:
  assumes ok: "pt_ok ph new xs" and par: "parent_ok old new ph xs n"
    and ag: "agree_on (- pageno ` (tables (ram ph) new \<union> set xs)) (ram ph) m"
  shows "pt_wf m old" "tables m old = tables (ram ph) old" "pte_at m old w = pte_at (ram ph) old w"
    "table0 m old (PX 2 a) (PX 1 a) = table0 (ram ph) old (PX 2 a) (PX 1 a)"
    "w < n \<Longrightarrow> bit (pte_at (ram ph) old w) 0 \<Longrightarrow> k < 4096 \<Longrightarrow>
      m (PTE2PA (pte_at (ram ph) old w) + of_nat k) = ram ph (PTE2PA (pte_at (ram ph) old w) + of_nat k)"
proof -
  have man: "managed ph t" if "t \<in> tables (ram ph) new \<union> set xs" for t
    using ok that by (auto simp: pt_ok_def free_inv_def)
  have "pageno t \<notin> pageno ` (tables (ram ph) new \<union> set xs)"
    if "t \<in> tables (ram ph) old \<union> set (frames (pte_at (ram ph) old) 0 n)" for t
    using par that man unfolding parent_ok_def by (auto dest!: pageno_inj_managed)
  then have ag': "agree_on (pageno ` (tables (ram ph) old \<union> set (frames (pte_at (ram ph) old) 0 n))) (ram ph) m"
    by (intro agree_on_subset [OF ag]) auto
  have wf: "pt_wf (ram ph) old" using par by (simp add: parent_ok_def)
  then have al: "page_aligned old" by (simp add: pt_wf_def)
  have agt: "agree_on (pageno ` tables (ram ph) old) (ram ph) m"
    by (rule agree_on_subset [OF ag']) auto
  show "pt_wf m old" "tables m old = tables (ram ph) old" by (rule pt_wf_agree [OF wf agt])+
  show "pte_at m old w = pte_at (ram ph) old w"
    unfolding pte_at_def leaf_def by (rule tree_agree(3) [OF agt al]) simp_all
  show "table0 m old (PX 2 a) (PX 1 a) = table0 (ram ph) old (PX 2 a) (PX 1 a)"
    by (rule tree_agree(2) [OF agt al idx_PX idx_PX idx_PX [of 0 0]])
  show "m (PTE2PA (pte_at (ram ph) old w) + of_nat k) = ram ph (PTE2PA (pte_at (ram ph) old w) + of_nat k)"
    if "w < n" "bit (pte_at (ram ph) old w) 0" "k < 4096"
    using mem_frames [OF that(1), of "pte_at (ram ph) old"] that
    by (intro agree_onD [OF ag']) (auto simp: pageno_page_offset page_aligned_PTE2PA)
qed

lemma child_inv_start:
  "pt_ok ph new xs \<Longrightarrow> child_inv old new ph xs ph xs 0"
  by (simp add: child_inv_def Un_commute)

lemma child_inv_skip:
  assumes "child_inv old new ph xs ph' ys v" "v < 2 ^ 26"
    and "\<not> bit (pte_at (ram ph) old v) 0" "\<not> bit (pte_at (ram ph) new v) 0"
  shows "child_inv old new ph xs ph' ys (Suc v)"
proof -
  have "pte_at (ram ph') new v = pte_at (ram ph) new v" using assms by (simp add: child_inv_def)
  with assms show ?thesis by (simp add: child_inv_def frames_0_Suc less_Suc_eq)
qed

text \<open>A page taken from the allocator and filled with a copy of the page \<open>pa\<close>.\<close>

lemma copy_page:
  assumes ok: "pt_ok ph root (c # ys)" and pa: "page_aligned pa" "pa \<noteq> c"
  obtains ph1 where "kalloc ph = (c, ph1)"
    "pt_ok (ph1\<lparr>ram := memmove c pa PGSIZE (ram ph1)\<rparr>) root ys"
    "end_address ph1 = end_address ph"
    "agree_on (- {pageno c}) (ram ph) (memmove c pa PGSIZE (ram ph1))"
    "tables (memmove c pa PGSIZE (ram ph1)) root = tables (ram ph) root"
    "\<forall>v. pte_at (memmove c pa PGSIZE (ram ph1)) root v = pte_at (ram ph) root v"
    "\<forall>k < 4096. memmove c pa PGSIZE (ram ph1) (c + of_nat k) = ram ph (pa + of_nat k)"
    "managed ph c" "c \<notin> set ys" "c \<notin> tables (ram ph) root" "c \<noteq> 0"
    "inner_kept (ram ph) root (memmove c pa PGSIZE (ram ph1))"
proof -
  have inv: "free_inv ph (c # ys)" and wf: "pt_wf (ram ph) root" using ok by (simp_all add: pt_ok_def)
  from inv obtain ph1 where k: "kalloc ph = (c, ph1)" "free_inv ph1 ys" "end_address ph1 = end_address ph"
    and ag: "agree_on (- {pageno c}) (ram ph) (ram ph1)" by (rule kalloc_free_inv)
  have c: "managed ph c" "c \<noteq> 0" "c \<notin> set ys" "c \<notin> tables (ram ph) root"
    using inv managed_nonzero ok by (auto simp: free_inv_def pt_ok_def)
  then have al: "page_aligned c" by (simp add: managed_def)
  let ?m = "memmove c pa PGSIZE (ram ph1)"
  have page: "pageno x = pageno c" if "unat (x - c) < 4096" for x
    using pageno_page_offset [OF al that] by simp
  have "forward_safe c pa 4096"
  proof -
    have "\<not> unat (c - pa) < 4096"
    proof
      assume "unat (c - pa) < 4096"
      from pageno_page_offset [OF pa(1) this] have "pageno c = pageno pa" by simp
      then show False using page_aligned_eqI [OF al pa(1)] pa(2) by simp
    qed
    then show ?thesis by (simp add: forward_safe_def)
  qed
  then have mv: "?m = (\<lambda>x. if unat (x - c) < 4096 then ram ph1 (pa + (x - c)) else ram ph1 x)"
    using memmove_eq [of 4096 c pa "ram ph1"] by simp
  have ag1: "agree_on (- {pageno c}) (ram ph1) ?m"
    unfolding mv agree_on_def by (metis Compl_iff page singletonI)
  have agm: "agree_on (- {pageno c}) (ram ph) ?m" by (rule agree_on_trans [OF ag ag1])
  have "pageno ` tables (ram ph) root \<subseteq> - {pageno c}" "pageno ` set ys \<subseteq> - {pageno c}"
    using ok c inv by (auto simp: pt_ok_def free_inv_def dest: pageno_inj_managed)
  then have agt: "agree_on (pageno ` tables (ram ph) root) (ram ph) ?m"
    and agf: "agree_on (pageno ` set ys) (ram ph1) ?m" using agm ag1 by (auto intro: agree_on_subset)
  note t = pt_wf_agree [OF wf agt]
  have "pt_ok (ph1\<lparr>ram := ?m\<rparr>) root ys"
    using ok t free_inv_frame [OF k(2) agf] k(3) by (auto simp: pt_ok_def managed_def)
  moreover have "\<forall>v. pte_at ?m root v = pte_at (ram ph) root v"
    unfolding pte_at_def leaf_def using wf by (intro allI tree_agree(3) [OF agt]) (simp_all add: pt_wf_def)
  moreover have "\<forall>i < 4096. ?m (c + of_nat i) = ram ph (pa + of_nat i)"
  proof (intro allI impI)
    fix i :: nat assume that: "i < 4096"
    have "pageno (pa + of_nat i) \<noteq> pageno c"
      using pa that al page_aligned_eqI by (auto simp: pageno_page_offset)
    then have "ram ph1 (pa + of_nat i) = ram ph (pa + of_nat i)" using ag by (simp add: agree_on_def)
    moreover have "unat (of_nat i :: u64) = i" using that by (simp add: unat_of_nat)
    ultimately show "?m (c + of_nat i) = ram ph (pa + of_nat i)" using that unfolding mv by simp
  qed
  ultimately show ?thesis by (rule that [OF k(1) _ k(3) agm t(2) _ _ c(1,3,4,2) inner_kept_agree [OF wf agt]])
qed

lemma mk_pte_flags:
  assumes "page_aligned c" "bit pte 0"
  shows "PTE2PA (mk_pte c (ucast (PTE_FLAGS pte))) = c" "bit (mk_pte c (ucast (PTE_FLAGS pte))) 0"
    "PTE_FLAGS (mk_pte c (ucast (PTE_FLAGS pte))) = PTE_FLAGS pte"
proof -
  have mask: "PTE_FLAGS x = x AND mask 10" for x by (simp add: PTE_FLAGS_def mask_eq_exp_minus_1)
  have bits: "bit (scast (ucast (PTE_FLAGS pte) :: u32) OR PTE_V :: u64) n \<longleftrightarrow> n < 10 \<and> bit pte n" for n
    using assms(2) by (auto simp: mask PTE_V_def bit_simps dest: bit_imp_le_length)
  let ?f = "scast (ucast (PTE_FLAGS pte) :: u32) OR PTE_V :: u64"
  have f: "?f = pte AND mask 10" by (rule bit_word_eqI) (simp only: bits bit_and_iff bit_mask_iff, auto)
  have mk: "mk_pte c (ucast (PTE_FLAGS pte)) = PA2PTE c OR ?f" by (simp add: mk_pte_def or.assoc)
  have "unat ?f < 2 ^ 10" by (simp only: f unat_and_mask) simp
  then show "PTE2PA (mk_pte c (ucast (PTE_FLAGS pte))) = c"
    using assms(1) by (simp only: mk PTE2PA_pack PGROUNDDOWN_aligned)
  show "bit (mk_pte c (ucast (PTE_FLAGS pte))) 0"
    using bits [of 0] assms(2) unfolding mk by (simp add: bit_simps)
  show "PTE_FLAGS (mk_pte c (ucast (PTE_FLAGS pte))) = PTE_FLAGS pte"
    unfolding mk f unfolding mask by (rule bit_word_eqI) (auto simp: PA2PTE_def bit_simps)
qed

text \<open>The body of a turn of \<open>uvmcopy\<close> up to the call of \<open>mappages\<close>.\<close>

lemma copy_and_map:
  assumes ok: "pt_ok ph root (c # ys)" and pa: "page_aligned pa" "pa \<noteq> c"
    and v: "v < 2 ^ 26" and free: "\<not> bit (pte_at (ram ph) root v) 0"
  obtains ph1 r ph2 as zs where "kalloc ph = (c, ph1)" "c \<noteq> 0" "managed ph c"
    "mappages root c (vaddr v) PGSIZE perm (ph1\<lparr>ram := memmove c pa PGSIZE (ram ph1)\<rparr>) = Inr (r, ph2)"
    "pt_ok ph2 root zs" "end_address ph2 = end_address ph" "ys = as @ zs"
    "tables (ram ph2) root = tables (ram ph) root \<union> set as" "c \<notin> tables (ram ph2) root" "c \<notin> set zs"
    "\<forall>w < 2 ^ 27. pte_at (ram ph2) root w =
      (if w = v \<and> r = 0 then mk_pte c perm else pte_at (ram ph) root w)"
    "agree_on (- pageno ` insert c (tables (ram ph2) root)) (ram ph) (ram ph2)"
    "\<forall>k < 4096. ram ph2 (c + of_nat k) = ram ph (pa + of_nat k)"
    "pure_tree (ram ph) root \<longrightarrow> pure_tree (ram ph2) root" "r = 0 \<or> length ys < 2" "length ys \<le> length zs + 2"
proof -
  from ok pa obtain ph1 where k: "kalloc ph = (c, ph1)"
    "pt_ok (ph1\<lparr>ram := memmove c pa PGSIZE (ram ph1)\<rparr>) root ys" "end_address ph1 = end_address ph"
    "agree_on (- {pageno c}) (ram ph) (memmove c pa PGSIZE (ram ph1))"
    "tables (memmove c pa PGSIZE (ram ph1)) root = tables (ram ph) root"
    "\<forall>v. pte_at (memmove c pa PGSIZE (ram ph1)) root v = pte_at (ram ph) root v"
    "\<forall>k < 4096. memmove c pa PGSIZE (ram ph1) (c + of_nat k) = ram ph (pa + of_nat k)"
    "managed ph c" "c \<notin> set ys" "c \<notin> tables (ram ph) root" "c \<noteq> 0"
    "inner_kept (ram ph) root (memmove c pa PGSIZE (ram ph1))" by (rule copy_page)
  let ?ph = "ph1\<lparr>ram := memmove c pa PGSIZE (ram ph1)\<rparr>"
  have v27: "v < 2 ^ 27" using v by simp
  note first = vaddr_facts(2) [OF v27]
  have al: "page_aligned (vaddr v)" "unat (vaddr v) < 0x4000000000" using v vaddr_facts [OF v27] by simp_all
  have fr: "\<not> bit (leaf (ram ?ph) root (vaddr v)) 0" using free k(6) by (simp add: pte_at_def)
  obtain r ph2 zs where
    m: "mappages root c (vaddr v) PGSIZE perm ?ph = Inr (r, ph2)"
    "pt_upd root ?ph ys ph2 zs (if r = 0 then [v \<mapsto> mk_pte c perm] else (\<lambda>_. None))"
    "r = 0 \<or> length ys < 2" "length ys \<le> length zs + 2"
  proof (cases rule: mappages_page [OF k(2) al fr, of c perm])
    case (1 ph2)
    then show ?thesis by (intro that [of "- 1" ph2 "[]"]) simp_all
  next
    case (2 ph2 zs)
    then show ?thesis using first by (intro that [of 0 ph2 zs]) simp_all
  qed
  then obtain as where as: "ys = as @ zs" "tables (ram ph2) root = tables (ram ph) root \<union> set as"
    using k(5) by (auto simp: pt_upd_def)
  have cn: "c \<notin> tables (ram ph2) root" "c \<notin> set zs" using k(9,10) as by auto
  have pte: "pte_at (ram ph2) root w = (if w = v \<and> r = 0 then mk_pte c perm else pte_at (ram ph) root w)"
    if "w < 2 ^ 27" for w
    using pt_upd_pte_at [OF m(2) that] k(6) by (simp split: if_splits)
  have ok2: "pt_ok ph2 root zs" "end_address ph2 = end_address ph" using m(2) k(3) by (auto simp: pt_upd_def)
  have ag2: "agree_on (- pageno ` tables (ram ph2) root) (ram ?ph) (ram ph2)" using m(2) by (simp add: pt_upd_def)
  have ag: "agree_on (- pageno ` insert c (tables (ram ph2) root)) (ram ph) (ram ph2)"
  proof (rule agree_on_trans)
    show "agree_on (- pageno ` insert c (tables (ram ph2) root)) (ram ph) (ram ?ph)"
      using k(4) by (simp del: PGSIZE_def) (rule agree_on_subset, auto)
    show "agree_on (- pageno ` insert c (tables (ram ph2) root)) (ram ?ph) (ram ph2)"
      by (rule agree_on_subset [OF ag2]) auto
  qed
  have man: "managed ph2 t" if "t \<in> tables (ram ph2) root" for t using ok2 that by (simp add: pt_ok_def)
  have "pageno c \<notin> pageno ` tables (ram ph2) root"
    using cn(1) man k(8) pageno_inj_managed [of ph2 c] managed_end [OF ok2(2)] by auto
  then have "\<forall>i < 4096. ram ph2 (c + of_nat i) = ram ph (pa + of_nat i)"
    using k(7,8) by (simp add: agree_onD [OF ag2] pageno_page_offset managed_def del: PGSIZE_def)
  moreover have "pure_tree (ram ph2) root" if "pure_tree (ram ph) root"
  proof -
    have "pure_tree (ram ?ph) root" using pure_tree_kept [OF k(12) that] by simp
    then show ?thesis using mappages_pure [OF k(2) _ _ _ m(1)] vaddr_facts [OF v27] v by blast
  qed
  ultimately show ?thesis using that [OF k(1,11,8) m(1) ok2 as cn _ ag _ _ m(3,4)] pte by blast
qed

text \<open>
  After a failure the child maps what it mapped before, and every page the call took is free again
  or a table of the child.
\<close>

definition child_undone :: "u64 \<Rightarrow> phys \<Rightarrow> u64 list \<Rightarrow> phys \<Rightarrow> bool" where
  "child_undone new ph xs ph' \<longleftrightarrow>
     (\<exists>ys. pt_ok ph' new ys \<and> end_address ph' = end_address ph \<and> set ys \<subseteq> set xs \<and>
        set xs \<union> tables (ram ph) new = set ys \<union> tables (ram ph') new) \<and>
     (\<forall>w < 2 ^ 27. if bit (pte_at (ram ph) new w) 0 then pte_at (ram ph') new w = pte_at (ram ph) new w
        else \<not> bit (pte_at (ram ph') new w) 0) \<and>
     agree_on (- pageno ` (tables (ram ph) new \<union> set xs)) (ram ph) (ram ph') \<and>
     (pure_tree (ram ph) new \<longrightarrow> pure_tree (ram ph') new)"

lemma child_undo:
  assumes ok: "pt_ok ph new xs" and inv: "child_inv old new ph xs ph' ys v" and v: "v \<le> 2 ^ 26"
    and free: "\<forall>w < v. \<not> bit (pte_at (ram ph) new w) 0"
  obtains ph2 where "uvmunmap new 0 (vaddr v) True ph' = Inr ph2" "child_undone new ph xs ph2"
proof -
  let ?cf = "frames (pte_at (ram ph') new) 0 v"
  note i = inv [unfolded child_inv_def]
  have man: "managed ph' t" if "t \<in> set xs" for t
    using that ok managed_end [of ph' ph] i by (auto simp: pt_ok_def free_inv_def)
  have v27: "v < 2 ^ 27" using v by simp
  have un: "unat (vaddr v) = 4096 * v" by (rule unat_vaddr [OF v27])
  have p: "pageno 0 = 0" "pageno (vaddr v) = v" "page_aligned 0" "page_aligned (vaddr v)"
    using vaddr_facts [OF v27] by (simp_all add: pageno_def page_aligned_def)
  have cf: "distinct ?cf \<and> (\<forall>f \<in> set ?cf. managed ph' f \<and> f \<notin> set ys \<and> f \<notin> tables (ram ph') new)"
    using i man by blast
  have "pt_ok ph' new ys" "unat (0 :: u64) + unat (vaddr v) \<le> 0x4000000000" using i un v by simp_all
  from uvmunmap_spec [OF this(1) p(3,4) this(2), of True, unfolded p(1,2)] cf obtain ph2 where
    u: "uvmunmap new 0 (vaddr v) True ph' = Inr ph2" "pt_unmap new ph' ys ph2 ?cf {0..<v}" by auto
  note pu = u(2) [unfolded pt_unmap_def]
  have "agree_on (- pageno ` (tables (ram ph) new \<union> set xs)) (ram ph) (ram ph2)"
  proof (rule agree_on_trans)
    show "agree_on (- pageno ` (tables (ram ph) new \<union> set xs)) (ram ph) (ram ph')" using i by simp
    have "tables (ram ph') new \<union> set ?cf \<subseteq> tables (ram ph) new \<union> set xs" using i by blast
    then show "agree_on (- pageno ` (tables (ram ph) new \<union> set xs)) (ram ph') (ram ph2)"
      using pu by (blast intro: agree_on_subset)
  qed
  moreover have "set xs \<union> tables (ram ph) new = set (rev ?cf @ ys) \<union> tables (ram ph2) new"
    using i pu by auto
  moreover have "if bit (pte_at (ram ph) new w) 0 then pte_at (ram ph2) new w = pte_at (ram ph) new w
      else \<not> bit (pte_at (ram ph2) new w) 0" if w: "w < 2 ^ 27" for w
  proof (cases "w < v")
    case True
    then show ?thesis using free pu w by simp
  next
    case False
    then have "pte_at (ram ph') new w = pte_at (ram ph) new w" "pte_at (ram ph2) new w = pte_at (ram ph') new w"
      using i pu w by simp_all
    then show ?thesis by simp
  qed
  moreover have "pure_tree (ram ph) new \<longrightarrow> pure_tree (ram ph2) new" using i pu pure_tree_kept by blast
  moreover have "pt_ok ph2 new (rev ?cf @ ys)" "end_address ph2 = end_address ph" "set (rev ?cf @ ys) \<subseteq> set xs" using i pu by simp_all
  ultimately have "child_undone new ph xs ph2" unfolding child_undone_def by blast
  with u(1) show ?thesis by (rule that)
qed

text \<open>
  One step of the copy seen from the start: \<open>as\<close> became tables, \<open>c\<close> was written and is either
  mapped at \<open>v\<close> or free again.
\<close>

lemma child_inv_step:
  assumes ok: "pt_ok ph new xs" and inv: "child_inv old new ph xs ph' (c # as @ zs) v" and v: "v < 2 ^ 26"
    and ok2: "pt_ok ph2 new ws" "end_address ph2 = end_address ph'"
    and tabs: "tables (ram ph2) new = tables (ram ph') new \<union> set as"
    and pte: "\<forall>w < 2 ^ 27. w \<noteq> v \<longrightarrow> pte_at (ram ph2) new w = pte_at (ram ph') new w"
    and ag: "agree_on (- pageno ` insert c (tables (ram ph2) new)) (ram ph') (ram ph2)"
  shows "frames (pte_at (ram ph2) new) 0 v = frames (pte_at (ram ph') new) 0 v"
    and "agree_on (- pageno ` (tables (ram ph) new \<union> set xs)) (ram ph) (ram ph2)"
    and "\<forall>w < v. if bit (pte_at (ram ph) old w) 0 then copy_of (ram ph) old (ram ph2) new w
        else \<not> bit (pte_at (ram ph2) new w) 0"
    and "\<forall>w < 2 ^ 27. v < w \<longrightarrow> pte_at (ram ph2) new w = pte_at (ram ph) new w"
proof -
  let ?cf = "frames (pte_at (ram ph') new) 0 v"
  note i = inv [unfolded child_inv_def]
  show "frames (pte_at (ram ph2) new) 0 v = ?cf"
    using pte v by (intro frames_cong) simp
  have sub: "insert c (tables (ram ph2) new) \<subseteq> tables (ram ph) new \<union> set xs" using i tabs by auto
  show "agree_on (- pageno ` (tables (ram ph) new \<union> set xs)) (ram ph) (ram ph2)"
    using i sub by (intro agree_on_trans [OF _ agree_on_subset [OF ag]]) auto
  show "\<forall>w < 2 ^ 27. v < w \<longrightarrow> pte_at (ram ph2) new w = pte_at (ram ph) new w" using i pte by simp
  have man: "managed ph' t" if "t \<in> set xs \<union> tables (ram ph) new" for t
    using that ok managed_end [of ph' ph] i by (auto simp: pt_ok_def free_inv_def)
  show "\<forall>w < v. if bit (pte_at (ram ph) old w) 0 then copy_of (ram ph) old (ram ph2) new w
      else \<not> bit (pte_at (ram ph2) new w) 0"
  proof (intro allI impI)
    fix w assume w: "w < v"
    then have same: "pte_at (ram ph2) new w = pte_at (ram ph') new w" using pte v by simp
    show "if bit (pte_at (ram ph) old w) 0 then copy_of (ram ph) old (ram ph2) new w
        else \<not> bit (pte_at (ram ph2) new w) 0"
    proof (cases "bit (pte_at (ram ph) old w) 0")
      case False
      then show ?thesis using i w same by simp
    next
      case True
      let ?f = "PTE2PA (pte_at (ram ph') new w)"
      have cp: "copy_of (ram ph) old (ram ph') new w" using i w True by simp
      then have "?f \<in> set ?cf" using w by (intro mem_frames) (simp_all add: copy_of_def)
      then have f: "?f \<in> set xs" "?f \<notin> insert c (tables (ram ph2) new)" using i tabs by auto
      have "pageno ?f \<notin> pageno ` insert c (tables (ram ph2) new)"
      proof
        assume "pageno ?f \<in> pageno ` insert c (tables (ram ph2) new)"
        then obtain t where t: "t \<in> insert c (tables (ram ph2) new)" "pageno ?f = pageno t" by auto
        then have "managed ph' t" using sub man by blast
        then have "?f = t" using pageno_inj_managed t(2) man f(1) by blast
        with f t show False by simp
      qed
      then have "ram ph2 (?f + of_nat k) = ram ph' (?f + of_nat k)" if "k < 4096" for k
        using that by (intro agree_onD [OF ag]) (simp add: pageno_page_offset page_aligned_PTE2PA)
      then show ?thesis using True cp same by (simp add: copy_of_def)
    qed
  qed
qed

lemma child_mapped:
  assumes ok: "pt_ok ph new xs" and inv: "child_inv old new ph xs ph' (c # as @ zs) v" and v: "v < 2 ^ 26"
    and ok2: "pt_ok ph2 new zs" "end_address ph2 = end_address ph'"
    and tabs: "tables (ram ph2) new = tables (ram ph') new \<union> set as" "c \<notin> tables (ram ph2) new" "c \<notin> set zs"
    and pte: "\<forall>w < 2 ^ 27. pte_at (ram ph2) new w =
      (if w = v then mk_pte c (ucast (PTE_FLAGS pte)) else pte_at (ram ph') new w)"
    and ag: "agree_on (- pageno ` insert c (tables (ram ph2) new)) (ram ph') (ram ph2)"
    and parent: "pte = pte_at (ram ph) old v" "bit pte 0"
    and bytes: "\<forall>k < 4096. ram ph2 (c + of_nat k) = ram ph (PTE2PA pte + of_nat k)"
    and pure: "pure_tree (ram ph') new \<longrightarrow> pure_tree (ram ph2) new"
  shows "child_inv old new ph xs ph2 zs (Suc v)"
proof -
  let ?cf = "frames (pte_at (ram ph') new) 0 v"
  note i = inv [unfolded child_inv_def]
  have c: "c \<in> set xs \<union> tables (ram ph) new" "c \<notin> tables (ram ph') new" "c \<notin> set ?cf" "page_aligned c"
    using i tabs ok by (auto simp: pt_ok_def free_inv_def managed_def)
  have pte': "\<forall>w < 2 ^ 27. w \<noteq> v \<longrightarrow> pte_at (ram ph2) new w = pte_at (ram ph') new w" using pte by simp
  note st = child_inv_step [OF ok inv v ok2 tabs(1) pte' ag]
  have here: "pte_at (ram ph2) new v = mk_pte c (ucast (PTE_FLAGS pte))" using pte v by simp
  note mk = mk_pte_flags [OF c(4) parent(2)]
  have cf: "frames (pte_at (ram ph2) new) 0 (Suc v) = ?cf @ [c]"
    using mk here st(1) by (simp add: frames_0_Suc)
  have copy: "copy_of (ram ph) old (ram ph2) new v"
    using mk here bytes parent by (simp add: copy_of_def)
  have "c \<in> set xs" using i by auto
  then show ?thesis
    unfolding child_inv_def cf using st i ok2 tabs c copy parent pure less_Suc_eq by auto
qed

lemma child_unmapped:
  assumes ok: "pt_ok ph new xs" and inv: "child_inv old new ph xs ph' (c # as @ zs) v" and v: "v < 2 ^ 26"
    and free: "\<not> bit (pte_at (ram ph) new v) 0"
    and ok2: "pt_ok ph2 new zs" "end_address ph2 = end_address ph'"
    and tabs: "tables (ram ph2) new = tables (ram ph') new \<union> set as" "c \<notin> tables (ram ph2) new" "c \<notin> set zs"
    and pte: "\<forall>w < 2 ^ 27. pte_at (ram ph2) new w = pte_at (ram ph') new w"
    and ag: "agree_on (- pageno ` insert c (tables (ram ph2) new)) (ram ph') (ram ph2)"
    and pure: "pure_tree (ram ph') new \<longrightarrow> pure_tree (ram ph2) new"
  obtains ph3 where "kfree c ph2 = Inr ph3" "child_inv old new ph xs ph3 (c # zs) v"
proof -
  note i = inv [unfolded child_inv_def]
  have "managed ph' c" using i by (auto simp: pt_ok_def free_inv_def)
  then have "managed ph2 c" using managed_end [OF ok2(2)] by simp
  from free_frame [OF ok2(1) this tabs(3,2)] obtain ph3 where k: "kfree c ph2 = Inr ph3"
    "pt_unmap new ph2 zs ph3 [c] {}" by blast
  note u = k(2) [unfolded pt_unmap_def]
  have ok3: "pt_ok ph3 new (c # zs)" "end_address ph3 = end_address ph'" using u ok2 by simp_all
  have tabs3: "tables (ram ph3) new = tables (ram ph') new \<union> set as" using u tabs(1) by simp
  have pte3: "\<forall>w < 2 ^ 27. pte_at (ram ph3) new w = pte_at (ram ph') new w" using u pte by simp
  then have pte3': "\<forall>w < 2 ^ 27. w \<noteq> v \<longrightarrow> pte_at (ram ph3) new w = pte_at (ram ph') new w" by simp
  have "agree_on (- pageno ` insert c (tables (ram ph3) new)) (ram ph2) (ram ph3)"
    using u by (auto intro: agree_on_subset)
  then have ag3: "agree_on (- pageno ` insert c (tables (ram ph3) new)) (ram ph') (ram ph3)"
    using ag u by (auto intro: agree_on_trans)
  note st = child_inv_step [OF ok inv v ok3 tabs3 pte3' ag3]
  have here: "pte_at (ram ph3) new v = pte_at (ram ph) new v" using pte3 i v by simp
  have "child_inv old new ph xs ph3 (c # zs) v"
    unfolding child_inv_def st(1)
  proof (intro conjI)
    show "\<forall>w < 2 ^ 27. v \<le> w \<longrightarrow> pte_at (ram ph3) new w = pte_at (ram ph) new w"
      using st(4) here by (auto simp: le_less)
    show "pure_tree (ram ph) new \<longrightarrow> pure_tree (ram ph3) new" using i u pure pure_tree_kept by blast
  qed (use st i ok3 tabs3 in auto)
  with k(1) show ?thesis by (rule that)
qed

text \<open>One turn as an equation over the PTE of the parent.\<close>

lemma uvmcopy_turn:
  assumes e: "vaddr v < sz" "v < 2 ^ 26" and wf: "pt_wf (ram ph') old" and pte: "pte = pte_at (ram ph') old v"
  shows "uvmcopy_loop old new (vaddr v) sz ph' =
    (if \<not> bit pte 0 then uvmcopy_loop old new (vaddr (Suc v)) sz ph'
     else let (mem, ph) = kalloc ph' in
       if mem = 0 then bindE (uvmunmap new 0 (vaddr v) True ph) (\<lambda>ph. Inr (- 1, ph))
       else bindE (mappages new mem (vaddr v) PGSIZE (ucast (PTE_FLAGS pte)) (ph\<lparr>ram := memmove mem (PTE2PA pte) PGSIZE (ram ph)\<rparr>))
         (\<lambda>(r, ph). if r \<noteq> 0 then bindE (kfree mem ph) (\<lambda>ph. bindE (uvmunmap new 0 (vaddr v) True ph) (\<lambda>ph. Inr (- 1, ph)))
           else uvmcopy_loop old new (vaddr (Suc v)) sz ph))"
proof -
  have "v < 2 ^ 27" using e(2) by simp
  then have a: "unat (vaddr v) < 0x4000000000" "vaddr v + PGSIZE = vaddr (Suc v)" using e(2) vaddr_facts [of v] by simp_all
  note w = walk_False [OF a(1), of old ph']
  show ?thesis
  proof (cases "table0 (ram ph') old (PX 2 (vaddr v)) (PX 1 (vaddr v))")
    case None
    then have "\<not> bit pte 0" by (simp add: pte pte_at_def leaf_def pte_of_def)
    then show ?thesis using e(1) w None a(2) by (subst uvmcopy_loop.simps) simp
  next
    case (Some t)
    note sl = leaf_slot [OF wf Some]
    have ld: "load64 (ram ph') (pte_addr t (PX 0 (vaddr v))) = pte" using sl(4) by (simp add: pte pte_at_def)
    show ?thesis using e(1) w Some a(2) sl(3) ld
      by (subst uvmcopy_loop.simps) (simp add: PTE_bits Let_def del: PGSIZE_def split: prod.split cong: if_cong)
  qed
qed

text \<open>The result of a turn: one page further, or everything undone for want of pages.\<close>

definition copy_turned :: "u64 \<Rightarrow> u64 \<Rightarrow> phys \<Rightarrow> u64 list \<Rightarrow> phys \<Rightarrow> u64 list \<Rightarrow> nat \<Rightarrow> u64 \<Rightarrow> bool" where
  "copy_turned old new ph xs ph' ys v sz \<longleftrightarrow>
     (\<exists>ph2 zs. uvmcopy_loop old new (vaddr v) sz ph' = uvmcopy_loop old new (vaddr (Suc v)) sz ph2 \<and>
        child_inv old new ph xs ph2 zs (Suc v) \<and> length ys \<le> length zs + 3) \<or>
     (\<exists>ph2. uvmcopy_loop old new (vaddr v) sz ph' = Inr (- 1, ph2) \<and> child_undone new ph xs ph2 \<and> length ys < 3)"

lemma copy_turned_undo:
  assumes ok: "pt_ok ph new xs" and v: "v < 2 ^ 26" and free: "\<forall>w < v. \<not> bit (pte_at (ram ph) new w) 0"
    and inv: "child_inv old new ph xs ph1 us v" and few: "length ys < 3"
    and loop: "uvmcopy_loop old new (vaddr v) sz ph' = bindE (uvmunmap new 0 (vaddr v) True ph1) (\<lambda>ph. Inr (- 1, ph))"
  shows "copy_turned old new ph xs ph' ys v sz"
proof -
  from child_undo [OF ok inv less_imp_le [OF v] free] obtain ph2 where
    "uvmunmap new 0 (vaddr v) True ph1 = Inr ph2" "child_undone new ph xs ph2" .
  then show ?thesis using loop few by (simp add: copy_turned_def)
qed

text \<open>A turn that has a page for the copy: the copy is mapped, or taken back for want of a table.\<close>

lemma child_page:
  assumes ok: "pt_ok ph new xs" and par: "parent_ok old new ph xs n" and inv: "child_inv old new ph xs ph' (c # us) v"
    and v: "v < n" "n \<le> 2 ^ 26" and e: "vaddr v < sz" and free: "\<forall>w < n. \<not> bit (pte_at (ram ph) new w) 0"
    and valid: "bit (pte_at (ram ph) old v) 0"
  shows "copy_turned old new ph xs ph' (c # us) v sz"
proof -
  let ?pte = "pte_at (ram ph) old v"
  note i = inv [unfolded child_inv_def]
  have v26: "v < 2 ^ 26" and v27: "v < 2 ^ 27" using v by simp_all
  have agp: "agree_on (- pageno ` (tables (ram ph) new \<union> set xs)) (ram ph) (ram ph')" using i by simp
  note kept = parent_kept [OF ok par agp]
  have freev: "\<not> bit (pte_at (ram ph) new v) 0" "\<forall>w < v. \<not> bit (pte_at (ram ph) new w) 0" using free v by auto
  note loop = uvmcopy_turn [OF e v26 kept(1) kept(3) [symmetric, of v], of new]
  have pa: "page_aligned (PTE2PA ?pte)" "PTE2PA ?pte \<noteq> c"
    using par valid v(1) mem_frames [of v n "pte_at (ram ph) old"] i page_aligned_PTE2PA by (auto simp: parent_ok_def)
  have fr: "\<not> bit (pte_at (ram ph') new v) 0" and ok': "pt_ok ph' new (c # us)" using i freev v27 by simp_all
  from ok' pa v26 fr obtain ph1 r ph2 as zs where cm: "kalloc ph' = (c, ph1)" "c \<noteq> 0" "managed ph' c"
    "mappages new c (vaddr v) PGSIZE (ucast (PTE_FLAGS ?pte)) (ph1\<lparr>ram := memmove c (PTE2PA ?pte) PGSIZE (ram ph1)\<rparr>) = Inr (r, ph2)"
    "pt_ok ph2 new zs" "end_address ph2 = end_address ph'" "us = as @ zs"
    "tables (ram ph2) new = tables (ram ph') new \<union> set as" "c \<notin> tables (ram ph2) new" "c \<notin> set zs"
    "\<forall>w < 2 ^ 27. pte_at (ram ph2) new w = (if w = v \<and> r = 0 then mk_pte c (ucast (PTE_FLAGS ?pte)) else pte_at (ram ph') new w)"
    "agree_on (- pageno ` insert c (tables (ram ph2) new)) (ram ph') (ram ph2)"
    "\<forall>k < 4096. ram ph2 (c + of_nat k) = ram ph' (PTE2PA ?pte + of_nat k)"
    "pure_tree (ram ph') new \<longrightarrow> pure_tree (ram ph2) new" "r = 0 \<or> length us < 2" "length us \<le> length zs + 2"
    by (rule copy_and_map)
  note inv' = inv [unfolded cm(7)]
  show ?thesis
  proof (cases "r = 0")
    case True
    have "\<forall>k < 4096. ram ph2 (c + of_nat k) = ram ph (PTE2PA ?pte + of_nat k)" using cm(13) kept(5) [OF v(1) valid] by simp
    then have "child_inv old new ph xs ph2 zs (Suc v)"
      using cm(11) True by (intro child_mapped [OF ok inv' v26 cm(5,6,8-10) _ cm(12) refl valid _ cm(14)]) simp_all
    moreover have "uvmcopy_loop old new (vaddr v) sz ph' = uvmcopy_loop old new (vaddr (Suc v)) sz ph2"
      using loop cm(1,2,4) valid True by (simp del: PGSIZE_def)
    ultimately show ?thesis unfolding copy_turned_def using cm(16) by fastforce
  next
    case False
    have "\<forall>w < 2 ^ 27. pte_at (ram ph2) new w = pte_at (ram ph') new w" using cm(11) False by simp
    from child_unmapped [OF ok inv' v26 freev(1) cm(5,6,8-10) this cm(12,14)]
    obtain ph3 where k: "kfree c ph2 = Inr ph3" "child_inv old new ph xs ph3 (c # zs) v" by blast
    have "uvmcopy_loop old new (vaddr v) sz ph' = bindE (uvmunmap new 0 (vaddr v) True ph3) (\<lambda>ph. Inr (- 1, ph))"
      using loop cm(1,2,4) k(1) valid False by (simp del: PGSIZE_def)
    then show ?thesis using cm(15) False by (intro copy_turned_undo [OF ok v26 freev(2) k(2)]) simp_all
  qed
qed

lemma child_turn:
  assumes ok: "pt_ok ph new xs" and par: "parent_ok old new ph xs n"
    and inv: "child_inv old new ph xs ph' ys v" and v: "v < n" "n \<le> 2 ^ 26" and e: "vaddr v < sz"
    and free: "\<forall>w < n. \<not> bit (pte_at (ram ph) new w) 0"
  shows "copy_turned old new ph xs ph' ys v sz"
proof -
  note i = inv [unfolded child_inv_def]
  have v26: "v < 2 ^ 26" using v by simp
  have agp: "agree_on (- pageno ` (tables (ram ph) new \<union> set xs)) (ram ph) (ram ph')" using i by simp
  note kept = parent_kept [OF ok par agp]
  have freev: "\<not> bit (pte_at (ram ph) new v) 0" "\<forall>w < v. \<not> bit (pte_at (ram ph) new w) 0" using free v by auto
  note loop = uvmcopy_turn [OF e v26 kept(1) kept(3) [symmetric, of v], of new]
  consider (hole) "\<not> bit (pte_at (ram ph) old v) 0" | (full) "bit (pte_at (ram ph) old v) 0" "ys = []"
    | (page) c us where "bit (pte_at (ram ph) old v) 0" "ys = c # us" by (cases ys) auto
  then show ?thesis
  proof cases
    case hole
    then have "child_inv old new ph xs ph' ys (Suc v)" using child_inv_skip [OF inv v26] freev by simp
    then show ?thesis unfolding copy_turned_def using loop hole by fastforce
  next
    case full
    then have "kalloc ph' = (0, ph')" using i by (intro kalloc_empty) (simp add: pt_ok_def)
    with loop full show ?thesis by (intro copy_turned_undo [OF ok v26 freev(2) inv]) simp_all
  next
    case page
    then show ?thesis using child_page [OF ok par _ v e free] inv by simp
  qed
qed

lemma uvmcopy_loop_spec:
  assumes ok: "pt_ok ph new xs" and par: "parent_ok old new ph xs n"
    and free: "\<forall>w < n. \<not> bit (pte_at (ram ph) new w) 0"
    and n: "n = (unat sz + 4095) div 4096" "unat sz \<le> 0x4000000000"
    and inv: "child_inv old new ph xs ph' ys v" "v \<le> n"
  shows "\<exists>rc ph2. uvmcopy_loop old new (vaddr v) sz ph' = Inr (rc, ph2) \<and>
    (rc = 0 \<and> (\<exists>zs. child_inv old new ph xs ph2 zs n) \<or> rc = - 1 \<and> child_undone new ph xs ph2 \<and> length ys < 3 * (n - v))"
  using inv
proof (induction "n - v" arbitrary: v ph' ys)
  case 0
  have n26: "n \<le> 2 ^ 26" using n roundup_le_iff [of "unat sz" "2 ^ 26"] by simp
  from 0 have "v = n" by simp
  moreover have "\<not> vaddr n < sz"
    using n26 n roundup_le_iff [of "unat sz" n] by (simp add: word_less_nat_alt unat_vaddr)
  ultimately have "uvmcopy_loop old new (vaddr v) sz ph' = Inr (0, ph')" by (subst uvmcopy_loop.simps) simp
  then show ?case using 0 \<open>v = n\<close> by blast
next
  case (Suc d)
  have n26: "n \<le> 2 ^ 26" using n roundup_le_iff [of "unat sz" "2 ^ 26"] by simp
  have v: "v < n" using Suc by simp
  then have "\<not> unat sz \<le> 4096 * v" using n roundup_le_iff [of "unat sz" v] by simp
  then have e: "vaddr v < sz" using v n26 by (simp add: word_less_nat_alt unat_vaddr)
  from child_turn [OF ok par Suc.prems(1) v n26 e free]
  consider (more) ph2 zs where "uvmcopy_loop old new (vaddr v) sz ph' = uvmcopy_loop old new (vaddr (Suc v)) sz ph2"
      "child_inv old new ph xs ph2 zs (Suc v)" "length ys \<le> length zs + 3"
    | (fail) ph2 where "uvmcopy_loop old new (vaddr v) sz ph' = Inr (- 1, ph2)" "child_undone new ph xs ph2" "length ys < 3"
    unfolding copy_turned_def by blast
  then show ?case
  proof cases
    case (more ph2 zs)
    have "3 * (n - v) = 3 * (n - Suc v) + 3" "d = n - Suc v" using v Suc.hyps(2) by simp_all
    moreover obtain rc ph3 where "uvmcopy_loop old new (vaddr (Suc v)) sz ph2 = Inr (rc, ph3)"
      "rc = 0 \<and> (\<exists>zs. child_inv old new ph xs ph3 zs n) \<or>
       rc = - 1 \<and> child_undone new ph xs ph3 \<and> length zs < 3 * (n - Suc v)"
      using Suc.hyps(1) [OF \<open>d = n - Suc v\<close> more(2)] v by auto
    ultimately show ?thesis using more(1,3) by auto
  next
    case (fail ph2)
    have "3 \<le> 3 * (n - v)" using v by simp
    with fail show ?thesis by (intro exI [of _ "- 1"] exI [of _ ph2]) simp
  qed
qed

lemma uvmcopy_spec:
  assumes "pt_ok ph new xs" "parent_ok old new ph xs ((unat sz + 4095) div 4096)" "unat sz \<le> 0x4000000000"
    and "\<forall>w < (unat sz + 4095) div 4096. \<not> bit (pte_at (ram ph) new w) 0"
  obtains (copied) ph' zs where "uvmcopy old new sz ph = Inr (0, ph')"
      "child_inv old new ph xs ph' zs ((unat sz + 4095) div 4096)"
  | (undone) ph' where "uvmcopy old new sz ph = Inr (- 1, ph')" "child_undone new ph xs ph'"
      "length xs < 3 * ((unat sz + 4095) div 4096)"
  using uvmcopy_loop_spec [OF assms(1,2,4) refl assms(3) child_inv_start [OF assms(1)]]
  by (auto simp: uvmcopy_def vaddr_def)

end
