(* ===== verification/Example_Space.thy ===== *)
theory Example_Space
  imports Copy_User Uvm
begin

text \<open>
  A small machine state on which the facts about memory management are instantiated: eleven pages
  of RAM, the table \<open>exR\<close> of a parent that maps its page 0 read-write for the user, the empty table
  \<open>exC\<close> of a child, and four free pages.
\<close>

definition exR :: u64 where "exR = 0x87FF0000"
definition exT1 :: u64 where "exT1 = 0x87FF1000"
definition exT0 :: u64 where "exT0 = 0x87FF2000"
definition exF :: u64 where "exF = 0x87FF3000"
definition exC :: u64 where "exC = 0x87FF4000"
definition exX1 :: u64 where "exX1 = 0x87FF5000"
definition exX2 :: u64 where "exX2 = 0x87FF6000"
definition exX3 :: u64 where "exX3 = 0x87FF7000"
definition exX4 :: u64 where "exX4 = 0x87FF8000"
definition exK :: u64 where "exK = 0x87FF9000"

lemmas ex_pages = exR_def exT1_def exT0_def exF_def exC_def exX1_def exX2_def exX3_def exX4_def exK_def

definition ex_ram :: memory where
  "ex_ram =
     store64 (pte_addr exR 0) (PA2PTE exT1 OR PTE_V)
     (store64 (pte_addr exT1 0) (PA2PTE exT0 OR PTE_V)
     (store64 (pte_addr exT0 0) (mk_pte exF 0x16)
     (store64 (pte_addr exX1 0) exX2
     (store64 (pte_addr exX2 0) exX3
     (store64 (pte_addr exX3 0) exX4 (\<lambda>_. 0))))))"

definition ex_phys :: phys where
  "ex_phys = \<lparr>ram = ex_ram, free_mem_list = exX1, end_address = exR\<rparr>"

lemma ex_aligned [simp]:
  "page_aligned exR" "page_aligned exT1" "page_aligned exT0" "page_aligned exF" "page_aligned exC"
  "page_aligned exX1" "page_aligned exX2" "page_aligned exX3" "page_aligned exX4" "page_aligned exK"
  by (simp_all add: ex_pages page_aligned_def)

lemma ex_entry:
  assumes "page_aligned t" "idx i"
  shows "pt_entry ex_ram t i =
    (if i \<noteq> 0 then 0
     else if t = exR then PA2PTE exT1 OR PTE_V else if t = exT1 then PA2PTE exT0 OR PTE_V
     else if t = exT0 then mk_pte exF 0x16 else if t = exX1 then exX2 else if t = exX2 then exX3
     else if t = exX3 then exX4 else 0)"
proof -
  have zero: "pt_entry (\<lambda>_. 0) t j = 0" for j unfolding pt_entry_def by (rule load_le_zero) simp
  show ?thesis
    unfolding ex_ram_def using assms by (auto simp: pt_entry_store zero)
qed

lemma ex_sub:
  assumes "page_aligned t" "idx i"
  shows "sub_table ex_ram t i =
    (if i \<noteq> 0 then None else if t = exR then Some exT1 else if t = exT1 then Some exT0
     else if t = exT0 then Some exF else None)"
proof -
  have mk: "bit (mk_pte exF 0x16) 0" "PTE2PA (mk_pte exF 0x16) = exF"
    by (simp_all add: mk_pte_def PTE_V_def PA2PTE_def PTE2PA_def exF_def bit_simps)
  show ?thesis
    using assms mk table_entry_facts [of exT1] table_entry_facts [of exT0]
    by (auto simp: sub_table_def ex_entry) (simp_all add: ex_pages)
qed

lemma ex_pages_neq [simp]:
  "exR \<noteq> exT1" "exR \<noteq> exT0" "exT1 \<noteq> exR" "exT1 \<noteq> exT0" "exT0 \<noteq> exR" "exT0 \<noteq> exT1"
  "exC \<noteq> exR" "exC \<noteq> exT1" "exC \<noteq> exT0" "exF \<noteq> exR" "exF \<noteq> exT1" "exF \<noteq> exT0" "exC \<noteq> exF"
  "exC \<noteq> exX1" "exC \<noteq> exX2" "exC \<noteq> exX3" "exC \<noteq> exX4"
  by (simp_all add: ex_pages)

lemma ex_table0:
  assumes "idx i" "idx j"
  shows "table0 ex_ram exR i j = (if i = 0 \<and> j = 0 then Some exT0 else None)" "table0 ex_ram exC i j = None"
  using assms by (auto simp: table0_def ex_sub)

lemma ex_tables01:
  "tables1 ex_ram exR = {exT1}" "tables1 ex_ram exC = {}" "tables0 ex_ram exR = {exT0}" "tables0 ex_ram exC = {}"
  by (auto simp: tables1_def tables0_def ex_sub ex_table0 intro!: exI [of _ 0] split: if_splits)

lemma ex_tables: "tables ex_ram exR = {exR, exT1, exT0}" "tables ex_ram exC = {exC}"
  by (auto simp: tables_def ex_tables01)

lemma ex_wf: "pt_wf ex_ram exR" "pt_wf ex_ram exC"
proof -
  show "pt_wf ex_ram exR" unfolding pt_wf_def ex_tables ex_tables01
    by (auto simp: ex_sub ex_table0 split: if_splits) (simp_all add: ex_pages)
  show "pt_wf ex_ram exC" unfolding pt_wf_def ex_tables ex_tables01
    by (auto simp: ex_sub ex_table0 split: if_splits) (simp_all add: ex_pages)
qed

lemma ex_leaf:
  "leaf ex_ram exR va = (if PX 2 va = 0 \<and> PX 1 va = 0 \<and> PX 0 va = 0 then mk_pte exF 0x16 else 0)"
  "leaf ex_ram exC va = 0"
  by (auto simp: leaf_def pte_of_def ex_table0 ex_entry)

lemma ex_leaf_page0: "unat va < 4096 \<Longrightarrow> leaf ex_ram exR va = mk_pte exF 0x16"
proof -
  assume "unat va < 4096"
  then have "pageno va = pageno 0" by (simp add: pageno_def)
  then have "PX l va = PX l 0" for l by (rule PX_same_page)
  moreover have "PX l 0 = 0" for l by (simp add: PX_def)
  ultimately show ?thesis by (auto simp: ex_leaf)
qed

lemma ex_pte_bits: "bit (mk_pte exF 0x16) 0" "bit (mk_pte exF 0x16) 2" "bit (mk_pte exF 0x16) 4"
  "PTE2PA (mk_pte exF 0x16) = exF"
  by (simp_all add: mk_pte_def PTE_V_def PA2PTE_def PTE2PA_def exF_def bit_simps)

lemma ex_free: "free_inv ex_phys [exX1, exX2, exX3, exX4]"
proof -
  have ld: "load64 ex_ram t = pt_entry ex_ram t 0" for t by (simp add: pt_entry_def pte_addr_def)
  have "exX4 \<noteq> exR \<and> exX4 \<noteq> exT1 \<and> exX4 \<noteq> exT0 \<and> exX4 \<noteq> exX1 \<and> exX4 \<noteq> exX2 \<and> exX4 \<noteq> exX3"
    by (simp add: ex_pages)
  then have "chain ex_ram exX1 [exX1, exX2, exX3, exX4]"
    by (simp add: ld ex_entry) (simp add: ex_pages)
  moreover have "managed ex_phys p" if "p \<in> {exX1, exX2, exX3, exX4}" for p
    using that by (auto simp: managed_def ex_phys_def) (simp_all add: ex_pages PHYSTOP_def KERNBASE_def)
  ultimately show ?thesis
    unfolding free_inv_def by (simp add: ex_phys_def) (simp add: ex_pages)
qed

lemma ex_managed: "p \<in> {exR, exT1, exT0, exF, exC, exK} \<Longrightarrow> managed ex_phys p"
  by (auto simp: managed_def ex_phys_def) (simp_all add: ex_pages PHYSTOP_def KERNBASE_def)

lemma ex_ok: "pt_ok ex_phys exR [exX1, exX2, exX3, exX4]" "pt_ok ex_phys exC [exX1, exX2, exX3, exX4]"
proof -
  have ram: "ram ex_phys = ex_ram" by (simp add: ex_phys_def)
  have "p \<notin> set [exX1, exX2, exX3, exX4]" if "p \<in> {exR, exT1, exT0, exC}" for p
    using that by (auto simp: ex_pages)
  then show "pt_ok ex_phys exR [exX1, exX2, exX3, exX4]" "pt_ok ex_phys exC [exX1, exX2, exX3, exX4]"
    using ex_free ex_wf ex_managed unfolding pt_ok_def ram ex_tables by blast+
qed

lemma ex_user_addr:
  assumes "unat va < 4096"
  shows "user_addr ex_ram exR va = Some (exF + of_nat (unat va))"
    "user_waddr ex_ram exR va = Some (exF + of_nat (unat va))"
  using assms ex_leaf_page0 [OF assms] ex_pte_bits
  by (simp_all add: user_addr_def user_waddr_def user_ok_def) (simp_all add: exF_def)

lemma ex_page_range:
  assumes "page_aligned p" "page_aligned q" "p \<noteq> q" "k < 4096" "n \<le> 4096"
  shows "\<not> unat (q + of_nat k - p) < n"
proof
  assume "unat (q + of_nat k - p) < n"
  then have "unat (q + of_nat k - p) < 4096" using assms by simp
  from pageno_page_offset [OF assms(1) this] have "pageno (q + of_nat k) = pageno p" by simp
  then show False using assms page_aligned_eqI [of p q] by (simp add: pageno_page_offset)
qed

lemma ex_index:
  assumes "k + n \<le> 4096" "i < n"
  shows "unat (of_nat k + of_nat i :: u64) = k + i"
proof -
  have "(of_nat k + of_nat i :: u64) = of_nat (k + i)" by simp
  then show ?thesis using assms by (simp only: unat_of_nat) simp
qed

lemma ex_user_range:
  assumes "k + n \<le> 4096" "i < n"
  shows "user_addr ex_ram exR (of_nat k + of_nat i) = Some (exF + of_nat (k + i))"
    "user_waddr ex_ram exR (of_nat k + of_nat i) = Some (exF + of_nat (k + i))"
  using ex_user_addr [of "of_nat k + of_nat i"] assms by (simp_all add: ex_index [OF assms])

text \<open>Copies between the parent's page 0 and the kernel page \<open>exK\<close>.\<close>

lemma ex_copyin_safe:
  assumes "k + n \<le> 4096"
  shows "copyin_safe ex_ram exR exK (of_nat k) n"
  unfolding copyin_safe_def
proof (intro conjI allI impI)
  fix x :: u64 assume "unat (x - exK) < n"
  then have "unat (x - exK) < 4096" using assms by simp
  from pageno_page_offset [OF _ this, of exK] have "pageno x = pageno exK" by simp
  then show "pageno x \<notin> pageno ` tables ex_ram exR" by (simp add: ex_tables) (simp add: ex_pages pageno_def)
next
  fix i a assume i: "i < n" "user_addr ex_ram exR (of_nat k + of_nat i) = Some a"
  then have "a = exF + of_nat (k + i)" using ex_user_range(1) [OF assms i(1)] by simp
  moreover have "exK \<noteq> exF" "k + i < 4096" "n \<le> 4096" using i assms by (simp_all add: ex_pages)
  ultimately show "\<not> unat (a - exK) < n" using ex_page_range [of exK exF "k + i" n] by simp
qed

lemma ex_copyout_safe:
  assumes "k + n \<le> 4096"
  shows "copyout_safe ex_ram exR (of_nat k) exK n"
  unfolding copyout_safe_def
proof (intro allI impI conjI)
  fix i a assume i: "i < n" "user_waddr ex_ram exR (of_nat k + of_nat i) = Some a"
  then have a: "a = exF + of_nat (k + i)" using ex_user_range(2) [OF assms i(1)] by simp
  have ki: "k + i < 4096" "n \<le> 4096" using i assms by simp_all
  then have "pageno a = pageno exF" unfolding a by (intro pageno_page_offset) simp_all
  then show "pageno a \<notin> pageno ` tables ex_ram exR" by (simp add: ex_tables) (simp add: ex_pages pageno_def)
  have "exK \<noteq> exF" by (simp add: ex_pages)
  then show "\<not> unat (a - exK) < n" unfolding a using ki by (intro ex_page_range) simp_all
  fix j assume j: "j < n" "user_waddr ex_ram exR (of_nat k + of_nat j) = Some a"
  then have "exF + of_nat (k + j) = exF + of_nat (k + i)" using ex_user_range(2) [OF assms j(1)] a by simp
  then have "unat (of_nat (k + j) :: u64) = unat (of_nat (k + i) :: u64)" by simp
  then show "j = i" using ex_index [OF assms j(1)] ex_index [OF assms i(1)] by simp
qed

lemma ex_mapped:
  assumes "k + n \<le> 4096"
  shows "mapped ex_ram exR (of_nat k) n" "wmapped ex_ram exR (of_nat k) n"
  using ex_user_range [OF assms] by (simp_all add: mapped_def wmapped_def)

lemma ex_ram [simp]: "ram ex_phys = ex_ram"
  by (simp add: ex_phys_def)

lemma ex_unmapped:
  assumes "unat va < 2 ^ 39" "pageno va \<noteq> 0"
  shows "leaf ex_ram exR va = 0"
proof -
  have "unat (0 :: u64) < 2 ^ 39" "pageno 0 = 0" by (simp_all add: pageno_def)
  then have "\<not> (PX 2 va = PX 2 0 \<and> PX 1 va = PX 1 0 \<and> PX 0 va = PX 0 0)"
    using PX_same_iff [of va 0] assms by simp
  moreover have "PX l 0 = 0" for l by (simp add: PX_def)
  ultimately show ?thesis by (auto simp: ex_leaf)
qed

lemma ex_pte_at: "pte_at ex_ram exR 0 = mk_pte exF 0x16" "w < 2 ^ 27 \<Longrightarrow> 0 < w \<Longrightarrow> pte_at ex_ram exR w = 0"
  "pte_at ex_ram exC w = 0"
  using ex_leaf_page0 [of "vaddr 0"] ex_unmapped [of "vaddr w"] vaddr_facts [of w]
  by (simp_all add: pte_at_def ex_leaf(2) vaddr_def)

lemma ex_frames: "n < 2 ^ 27 \<Longrightarrow> frames (pte_at ex_ram exR) 0 (Suc n) = [exF]"
proof -
  assume n: "n < 2 ^ 27"
  have "frames (pte_at ex_ram exR) (Suc 0) n = frames (\<lambda>_. 0) (Suc 0) n"
    using n ex_pte_at(2) by (intro frames_cong) simp
  moreover have "frames (\<lambda>_. 0) (Suc 0) n = []" by (simp add: frames_def)
  ultimately show ?thesis using ex_pte_at(1) ex_pte_bits unfolding frames_Suc by simp
qed

lemma ex_parent: "n < 2 ^ 27 \<Longrightarrow> parent_ok exR exC ex_phys [exX1, exX2, exX3, exX4] (Suc n)"
  using ex_managed ex_wf by (simp add: parent_ok_def ex_frames ex_tables) (simp add: ex_pages)

lemma ex_parent_2: "parent_ok exR exC ex_phys [exX1, exX2, exX3, exX4] 2"
  unfolding numeral_2_eq_2 by (rule ex_parent) simp

end
