(* ===== verification/Kernel_Map.thy ===== *)
theory Kernel_Map
  imports Uvm
begin

text \<open>
  The page table of the kernel: what the calls of \<open>mappages\<close> in \<open>kvmininit\<close> build together.
\<close>

section \<open>One more range\<close>

text \<open>
  \<open>maps root ph0 xs ph ys L\<close>: since \<open>ph0\<close>, where the table maps nothing, the PTEs \<open>L\<close> were written, and
  \<open>ys\<close> is left of the free pages \<open>xs\<close>. The tables stay within the groups of 512 pages that the kernel maps:
  one for the UART, two for the PLIC, 64 for the 128 MB of memory and one for the trampoline.
\<close>

definition kernel_groups :: "nat set" where
  "kernel_groups = {0x80, 0x60, 0x61, 0x1ffff} \<union> {0x400..<0x440}"

definition maps :: "u64 \<Rightarrow> phys \<Rightarrow> u64 list \<Rightarrow> phys \<Rightarrow> u64 list \<Rightarrow> (nat \<Rightarrow> u64 option) \<Rightarrow> bool" where
  "maps root ph0 xs ph ys L \<longleftrightarrow> pt_upd root ph0 xs ph ys L \<and> (\<forall>va. leaf (ram ph0) root va = 0) \<and>
     within (ram ph) root kernel_groups"

definition add_range :: "(nat \<Rightarrow> u64 option) \<Rightarrow> nat \<Rightarrow> nat \<Rightarrow> u64 \<Rightarrow> u32 \<Rightarrow> nat \<Rightarrow> u64 option" where
  "add_range L v0 n pa perm v = (if v0 \<le> v \<and> v < v0 + n then Some (mk_pte (pa + of_nat (4096 * (v - v0))) perm) else L v)"

lemma maps_leaf: "maps root ph0 xs ph ys L \<Longrightarrow> unat va < 2 ^ 39 \<Longrightarrow>
    leaf (ram ph) root va = (case L (pageno va) of Some pte \<Rightarrow> pte | None \<Rightarrow> 0)"
  by (auto simp: maps_def pt_upd_def split: option.split)

lemma maps_step:
  assumes m: "maps root ph0 xs ph ys L" and sz: "sz \<noteq> 0" "unat va + unat sz \<le> 0x4000000000"
    and al: "page_aligned va" "page_aligned sz"
    and new: "\<forall>v. pageno va \<le> v \<and> v < pageno va + pageno sz \<longrightarrow> L v = None \<and> v div 512 \<in> kernel_groups"
  shows "\<exists>rc ph' zs d. mappages root pa va sz perm ph = Inr (rc, ph') \<and> d \<le> pageno sz \<and>
    maps root ph0 xs ph' zs (add_range L (pageno va) d pa perm) \<and> (zs \<noteq> [] \<longrightarrow> ys \<noteq> [] \<and> d = pageno sz)"
proof -
  have u: "unat va = 4096 * pageno va" "unat sz = 4096 * pageno sz" using al by (simp_all add: page_aligned_unat)
  have sz1: "1 \<le> unat sz" using sz by (simp add: Suc_le_eq unat_gt_0)
  have "unat (va + sz) = unat va + unat sz" using sz by (intro unat_add_nowrap) simp
  then have "unat (va + sz - 1) = unat va + unat sz - 1" using sz1 unat_sub_le [of 1 "va + sz"] by simp
  then have last: "pageno (va + sz - 1) = pageno va + pageno sz - 1"
    using u sz1 unfolding pageno_def [of "va + sz - 1"] by simp
  have n: "Suc (pageno (va + sz - 1) - pageno va) = pageno sz" using last u(2) sz1 by simp
  have ok: "pt_ok ph root ys" using m by (simp add: maps_def pt_upd_def)
  have "\<not> bit (leaf (ram ph) root b) 0" if "unat b < 2 ^ 39" "pageno va \<le> pageno b" "pageno b \<le> pageno (va + sz - 1)" for b
    using maps_leaf [OF m that(1)] new that(2,3) last sz1 u(2) by simp
  with mappages_spec [OF ok sz, of pa perm] obtain rc ph' zs d where
    r: "mappages root pa va sz perm ph = Inr (rc, ph')" "pt_upd root ph ys ph' zs (range_ptes (pageno va) d pa perm)"
      "rc = 0 \<and> d = pageno sz \<or> rc = - 1 \<and> d \<le> pageno (va + sz - 1) - pageno va \<and> zs = []"
    unfolding n by blast
  have "within (ram ph') root kernel_groups"
    using m new by (intro mappages_within [OF ok sz al _ _ r(1)]) (auto simp: maps_def)
  have "pt_upd root ph0 xs ph' zs (\<lambda>v. case range_ptes (pageno va) d pa perm v of Some pte \<Rightarrow> Some pte | None \<Rightarrow> L v)"
    using m r(2) unfolding maps_def by (intro pt_upd_trans) auto
  then have "pt_upd root ph0 xs ph' zs (add_range L (pageno va) d pa perm)"
    by (rule pt_upd_cong) (simp add: add_range_def range_ptes_def)
  then have "maps root ph0 xs ph' zs (add_range L (pageno va) d pa perm)"
    using m \<open>within (ram ph') root kernel_groups\<close> by (simp add: maps_def)
  moreover have "d \<le> pageno sz" using r(3) n by linarith
  moreover have "zs \<noteq> [] \<longrightarrow> ys \<noteq> [] \<and> d = pageno sz" using r(2,3) by (auto simp: pt_upd_def)
  ultimately show ?thesis using r(1) by blast
qed

section \<open>A list of ranges\<close>

text \<open>A range is its virtual address, its physical address, its size and its permissions.\<close>

type_synonym range = "u64 \<times> u64 \<times> u64 \<times> u32"

fun map_ranges :: "u64 \<Rightarrow> range list \<Rightarrow> phys \<Rightarrow> phys outcome" where
  "map_ranges root [] ph = Inr ph"
| "map_ranges root ((va, pa, sz, perm) # rs) ph = bindE (mappages root pa va sz perm ph) (\<lambda>(_, ph). map_ranges root rs ph)"

fun range_pages :: "range \<Rightarrow> nat set" where
  "range_pages (va, pa, sz, perm) = {pageno va..<pageno va + pageno sz}"

fun range_ok :: "range \<Rightarrow> bool" where
  "range_ok (va, pa, sz, perm) \<longleftrightarrow> sz \<noteq> 0 \<and> unat va + unat sz \<le> 0x4000000000 \<and> page_aligned va \<and> page_aligned sz"

fun full_range :: "range \<Rightarrow> (nat \<Rightarrow> u64 option) \<Rightarrow> nat \<Rightarrow> u64 option" where
  "full_range (va, pa, sz, perm) L = add_range L (pageno va) (pageno sz) pa perm"

lemma map_ranges_spec:
  assumes "maps root ph0 xs ph ys L"
    and "\<forall>r \<in> set rs. range_ok r \<and> (\<forall>v \<in> range_pages r. L v = None \<and> v div 512 \<in> kernel_groups)"
    and "sorted_wrt (\<lambda>r s. range_pages r \<inter> range_pages s = {}) rs"
  shows "\<exists>ph' zs M. map_ranges root rs ph = Inr ph' \<and> maps root ph0 xs ph' zs M \<and>
    (zs \<noteq> [] \<longrightarrow> ys \<noteq> [] \<and> M = fold full_range rs L)"
  using assms
proof (induction rs arbitrary: ph ys L)
  case Nil
  then show ?case by auto
next
  case (Cons r rs)
  obtain va pa sz perm where r: "r = (va, pa, sz, perm)" by (cases r)
  have ok: "sz \<noteq> 0" "unat va + unat sz \<le> 0x4000000000" "page_aligned va" "page_aligned sz"
      "\<forall>v. pageno va \<le> v \<and> v < pageno va + pageno sz \<longrightarrow> L v = None \<and> v div 512 \<in> kernel_groups"
    using Cons.prems(2) r by simp_all
  from maps_step [OF Cons.prems(1) ok, of pa perm] obtain rc ph1 zs d where
    s: "mappages root pa va sz perm ph = Inr (rc, ph1)" "d \<le> pageno sz"
      "maps root ph0 xs ph1 zs (add_range L (pageno va) d pa perm)" "zs \<noteq> [] \<longrightarrow> ys \<noteq> [] \<and> d = pageno sz" by blast
  have "\<forall>q \<in> set rs. range_ok q \<and>
      (\<forall>v \<in> range_pages q. add_range L (pageno va) d pa perm v = None \<and> v div 512 \<in> kernel_groups)"
  proof
    fix q assume q: "q \<in> set rs"
    then have "{pageno va..<pageno va + pageno sz} \<inter> range_pages q = {}" using Cons.prems(3) r by simp
    then show "range_ok q \<and> (\<forall>v \<in> range_pages q. add_range L (pageno va) d pa perm v = None \<and> v div 512 \<in> kernel_groups)"
      using q Cons.prems(2) s(2) by (fastforce simp: add_range_def)
  qed
  moreover have "sorted_wrt (\<lambda>r s. range_pages r \<inter> range_pages s = {}) rs" using Cons.prems(3) by simp
  ultimately obtain ph' ws M where "map_ranges root rs ph1 = Inr ph'" "maps root ph0 xs ph' ws M"
      "ws \<noteq> [] \<longrightarrow> zs \<noteq> [] \<and> M = fold full_range rs (add_range L (pageno va) d pa perm)"
    using Cons.IH [OF s(3)] by blast
  then show ?case using s(1,4) r by auto
qed

section \<open>kvmininit\<close>

lemma within_root: "pt_wf m root \<Longrightarrow> tables m root = {root} \<Longrightarrow> within m root R"
proof -
  assume w: "pt_wf m root" "tables m root = {root}"
  then have "tables1 m root = {}" "tables0 m root = {}" by (auto simp: pt_wf_def tables_def)
  then show ?thesis by (auto simp: within_def tables1_def tables0_def)
qed

text \<open>The tables of the kernel: the root, three of level 1, 68 of level 0.\<close>

lemma kernel_table_pages:
  assumes "maps root ph0 xs ph ys L" "free_inv ph0 xs" "tables (ram ph0) root = {root}" "root \<notin> set xs" "72 \<le> length xs"
  shows "ys \<noteq> []"
proof -
  obtain zs where zs: "xs = zs @ ys" "tables (ram ph) root = insert root (set zs)"
    using assms(1,3) by (auto simp: maps_def pt_upd_def)
  have "distinct xs" using assms(2) by (simp add: free_inv_def)
  then have card: "card (tables (ram ph) root) = Suc (length zs)" using zs assms(4) by (simp add: distinct_card)
  have "finite kernel_groups" "card kernel_groups \<le> 68" "(\<lambda>r. r div 512) ` kernel_groups \<subseteq> {0, 2, 255}"
    by (auto simp: kernel_groups_def card_insert_if)
  moreover from this(3) have "card ((\<lambda>r. r div 512) ` kernel_groups) \<le> card {0, 2, 255 :: nat}" by (intro card_mono) auto
  ultimately have "card (tables (ram ph) root) \<le> 72"
    using card_tables [of "ram ph" root kernel_groups] assms(1) by (simp add: maps_def)
  then show ?thesis using card zs(1) assms(5) by auto
qed

lemma zero_table_stores:
  assumes "\<forall>a. pageno a = pageno r \<longrightarrow> m a = 0" "page_aligned r" "n \<le> 512"
  shows "fold (\<lambda>i. store64 (pte_addr r (of_nat i)) 0) [0..<n] m = m"
  using assms(3)
proof (induction n)
  case (Suc n)
  have "store64 (pte_addr r (of_nat n)) (0 :: u64) m x = m x" for x
  proof (cases "unat (x - pte_addr r (of_nat n)) < 8")
    case True
    define j where "j = unat (x - pte_addr r (of_nat n))"
    have "x = r + of_nat (8 * n + j)" by (simp add: j_def pte_addr_def)
    moreover have "8 * n + j < 4096" using True Suc.prems by (simp add: j_def)
    ultimately have "pageno x = pageno r" using pageno_page_offset [OF assms(2)] by metis
    with assms(1) show ?thesis by (simp add: store_le_def)
  qed (simp add: store_le_def)
  then have "store64 (pte_addr r (of_nat n)) (0 :: u64) m = m" by (rule ext)
  with Suc show ?case by simp
qed simp

text \<open>The PTE the kernel's table has for virtual page \<open>v\<close>.\<close>

definition kernel_pte :: "u64 \<Rightarrow> u64 \<Rightarrow> nat \<Rightarrow> u64" where
  "kernel_pte etext trampoline v =
     (if v = pageno UART0 \<or> pageno PLIC \<le> v \<and> v < pageno PLIC + 0x400 \<or> pageno etext \<le> v \<and> v < pageno PHYSTOP
      then mk_pte (of_nat (4096 * v)) PTE_RW
      else if pageno KERNBASE \<le> v \<and> v < pageno etext then mk_pte (of_nat (4096 * v)) PTE_RX
      else if v = pageno TRAMPOLINE then mk_pte trampoline PTE_RX
      else 0)"

lemma layout_pages:
  "pageno UART0 = 0x10000" "pageno PLIC = 0xc000" "pageno KERNBASE = 0x80000" "pageno PHYSTOP = 0x88000"
  "pageno TRAMPOLINE = 0x3ffffff" "pageno 4096 = 1" "pageno (0x400000 :: u64) = 0x400"
  by (simp_all add: pageno_def UART0_def PLIC_def KERNBASE_def PHYSTOP_def TRAMPOLINE_def MAXVA_def)

lemma layout_aligned:
  "page_aligned UART0" "page_aligned PLIC" "page_aligned KERNBASE" "page_aligned PHYSTOP" "page_aligned TRAMPOLINE"
  "page_aligned PGSIZE" "page_aligned 0x400000"
  by (simp_all add: page_aligned_def UART0_def PLIC_def KERNBASE_def PHYSTOP_def TRAMPOLINE_def MAXVA_def)

lemma aligned_diff:
  assumes "page_aligned a" "page_aligned b" "b < a"
  shows "page_aligned (a - b)" "pageno (a - b) = pageno a - pageno b" "a - b \<noteq> 0" "unat b + unat (a - b) = unat a"
proof -
  have le: "unat b \<le> unat a" using assms(3) by (simp add: word_less_nat_alt)
  then have u: "unat (a - b) = unat a - unat b" by (rule unat_sub_le)
  have ab: "unat a = 4096 * pageno a" "unat b = 4096 * pageno b" using assms by (simp_all add: page_aligned_unat)
  then have d: "unat (a - b) = 4096 * (pageno a - pageno b)" using u by (simp add: right_diff_distrib')
  then show "page_aligned (a - b)" "pageno (a - b) = pageno a - pageno b" by (simp_all add: page_aligned_def pageno_def)
  show "a - b \<noteq> 0" using assms(3) by auto
  show "unat b + unat (a - b) = unat a" using u le by simp
qed

lemma kvmininit_ranges:
  assumes inv: "free_inv ph (r # xs)"
  obtains ph0 where "free_inv ph0 xs" "maps r ph0 xs ph0 xs (\<lambda>_. None)" "tables (ram ph0) r = {r}" "r \<notin> set xs"
    "kvmininit etext trampoline ph =
       bindE (map_ranges r [(UART0, UART0, PGSIZE, PTE_RW), (PLIC, PLIC, 0x400000, PTE_RW),
         (KERNBASE, KERNBASE, etext - KERNBASE, PTE_RX), (etext, etext, PHYSTOP - etext, PTE_RW),
         (TRAMPOLINE, trampoline, PGSIZE, PTE_RX)] ph0) (\<lambda>ph. Inr (r, ph))"
proof -
  obtain ph0 where k: "kalloc ph = (r, ph0)" "free_inv ph0 xs" "\<forall>a. pageno a = pageno r \<longrightarrow> ram ph0 a = 0"
      "end_address ph0 = end_address ph"
    using kalloc_free_inv [OF inv] by metis
  have r: "managed ph r" "r \<notin> set xs" "r \<noteq> 0" using inv managed_nonzero by (auto simp: free_inv_def)
  have al: "page_aligned r" using r(1) by (simp add: managed_def)
  note z = zero_table_wf [OF k(3) al r(3)]
  have "pt_ok ph0 r xs" using k(2,4) z r by (simp add: pt_ok_def managed_def)
  moreover have "within (ram ph0) r kernel_groups" using z(1,2) by (rule within_root)
  ultimately have m0: "maps r ph0 xs ph0 xs (\<lambda>_. None)" using z(3) by (simp add: maps_def pt_upd_def)
  have ph0: "ph0\<lparr>ram := fold (\<lambda>i. store64 (pte_addr r (of_nat i)) 0) [0..<512] (ram ph0)\<rparr> = ph0"
    using zero_table_stores [OF k(3) al] by simp
  show thesis
    by (rule that [OF k(2) m0 z(2) r(2)])
      (simp add: kvmininit_def k(1) r(3) ph0 bindE_assoc case_prod_unfold del: PGSIZE_def)
qed

lemma kvmininit_spec:
  assumes inv: "free_inv ph (r # xs)" and e: "page_aligned etext" "KERNBASE < etext" "etext < PHYSTOP"
  shows "\<exists>ph' ys. kvmininit etext trampoline ph = Inr (r, ph') \<and> pt_ok ph' r ys \<and>
    (72 \<le> length xs \<longrightarrow> ys \<noteq> [] \<and>
      (\<forall>va. unat va < 2 ^ 39 \<longrightarrow> leaf (ram ph') r va = kernel_pte etext trampoline (pageno va)))"
proof -
  define rs where "rs = [(UART0, UART0, PGSIZE, PTE_RW), (PLIC, PLIC, 0x400000, PTE_RW),
      (KERNBASE, KERNBASE, etext - KERNBASE, PTE_RX), (etext, etext, PHYSTOP - etext, PTE_RW),
      (TRAMPOLINE, trampoline, PGSIZE, PTE_RX)]"
  obtain ph0 where k: "free_inv ph0 xs" "maps r ph0 xs ph0 xs (\<lambda>_. None)" "tables (ram ph0) r = {r}" "r \<notin> set xs"
      "kvmininit etext trampoline ph = bindE (map_ranges r rs ph0) (\<lambda>ph. Inr (r, ph))"
    unfolding rs_def by (rule kvmininit_ranges [OF inv])
  note code = aligned_diff [OF e(1) layout_aligned(3) e(2)] and data = aligned_diff [OF layout_aligned(4) e(1) e(3)]
  have et: "etext = 4096 * of_nat (pageno etext)"
  proof -
    have "etext = of_nat (unat etext)" by simp
    also have "unat etext = 4096 * pageno etext" using e(1) by (simp add: page_aligned_unat)
    finally show ?thesis by simp
  qed
  have ep: "0x80000 < pageno etext" "pageno etext < 0x88000"
    using e(2,3) page_aligned_unat [OF e(1)] by (simp_all add: word_less_nat_alt KERNBASE_def PHYSTOP_def)
  have "\<forall>q \<in> set rs. range_ok q"
    unfolding rs_def using code data layout_aligned e(1)
    by (simp add: UART0_def PLIC_def TRAMPOLINE_def MAXVA_def PHYSTOP_def KERNBASE_def)
  moreover have "\<forall>q \<in> set rs. \<forall>v \<in> range_pages q. v div 512 \<in> kernel_groups"
    using ep by (auto simp: rs_def layout_pages code(2) data(2) kernel_groups_def)
  moreover have "sorted_wrt (\<lambda>r s. range_pages r \<inter> range_pages s = {}) rs"
    using ep by (simp add: rs_def layout_pages code(2) data(2))
  ultimately obtain ph' ys M where m: "map_ranges r rs ph0 = Inr ph'" "maps r ph0 xs ph' ys M"
      "ys \<noteq> [] \<longrightarrow> M = fold full_range rs (\<lambda>_. None)"
    using map_ranges_spec [OF k(2), of rs] by auto
  have "pt_ok ph' r ys" using m(2) by (simp add: maps_def pt_upd_def)
  moreover have "leaf (ram ph') r va = kernel_pte etext trampoline (pageno va)" if "ys \<noteq> []" "unat va < 2 ^ 39" for va
  proof -
    have ef: "etext + (4096 * of_nat v - 4096 * of_nat (pageno etext)) = 4096 * of_nat v" for v
      by (subst et) simp
    have M: "M = fold full_range rs (\<lambda>_. None)" using that(1) m(3) by blast
    have "leaf (ram ph') r va = (case M (pageno va) of Some pte \<Rightarrow> pte | None \<Rightarrow> 0)" by (rule maps_leaf [OF m(2) that(2)])
    then show ?thesis
      using ep
      unfolding M rs_def fold.simps full_range.simps kernel_pte_def code(2) data(2) layout_pages add_range_def comp_def id_def PGSIZE_def
      by (auto simp: of_nat_diff ef UART0_def PLIC_def KERNBASE_def)
  qed
  moreover have "72 \<le> length xs \<Longrightarrow> ys \<noteq> []" by (rule kernel_table_pages [OF m(2) k(1,3,4)])
  ultimately show ?thesis using k(5) m(1) by auto
qed

text \<open>What the kernel's PTEs permit.\<close>

lemma kernel_pte_permissions:
  "\<not> bit (kernel_pte etext trampoline v) 4" "\<not> (bit (kernel_pte etext trampoline v) 2 \<and> bit (kernel_pte etext trampoline v) 3)"
  by (auto simp: kernel_pte_def mk_pte_def PA2PTE_def PTE_RW_def PTE_RX_def PTE_R_def PTE_W_def PTE_X_def PTE_V_def bit_simps)

lemma length_pages_from: "length (pages_from p n) = n"
  by (induction n arbitrary: p) simp_all

lemma length_kinit_pages:
  assumes "end_address ph \<le> PHYSTOP"
  shows "length (kinit_pages (end_address ph)) = 0x88000 - (unat (end_address ph) + 4095) div 4096"
proof -
  have "unat (PGROUNDUP (end_address ph)) = 4096 * ((unat (end_address ph) + 4095) div 4096)"
    using assms by (simp add: unat_PGROUNDUP word_le_nat_alt)
  moreover have "((0x88000000 :: nat) - 4096 * q) div 4096 = 0x88000 - q" for q by arith
  ultimately show ?thesis by (simp add: kinit_pages_def length_pages_from)
qed

text \<open>
  The order of \<open>start_main\<close>: the page table of the kernel is built from the pages that \<open>kinit\<close> frees, and
  73 of them are enough.
\<close>

lemma kinit_kvmininit:
  assumes e: "0 < end_address ph" "unat (end_address ph) + 73 * 4096 \<le> 0x88000000"
    and t: "page_aligned etext" "KERNBASE < etext" "etext < PHYSTOP"
  shows "\<exists>ph1 root ph2 ys. kinit ph = Inr ph1 \<and> kvmininit etext trampoline ph1 = Inr (root, ph2) \<and> pt_ok ph2 root ys \<and>
    ys \<noteq> [] \<and> (\<forall>va. unat va < 2 ^ 39 \<longrightarrow> leaf (ram ph2) root va = kernel_pte etext trampoline (pageno va))"
proof -
  have stop: "end_address ph \<le> PHYSTOP" using e(2) by (simp add: word_le_nat_alt)
  from kinit_free_inv [OF e(1) stop] obtain ph1 where
    k: "kinit ph = Inr ph1" "free_inv ph1 (kinit_pages (end_address ph))" by blast
  have "73 \<le> length (kinit_pages (end_address ph))" using e(2) by (simp add: length_kinit_pages [OF stop])
  then obtain root xs where xs: "kinit_pages (end_address ph) = root # xs" "72 \<le> length xs"
    by (cases "kinit_pages (end_address ph)") auto
  from kvmininit_spec [OF k(2) [unfolded xs(1)] t] xs(2) k(1) show ?thesis by blast
qed

end
