(* ===== verification/Memory_Props.thy ===== *)
theory Memory_Props
  imports Example_Space Free_Walk Kernel_Map
begin

text \<open>
  The properties of the memory subsystem: the allocator, the page tables, the user address spaces
  and the copies across the user boundary. Each is followed by an instance on the state
  \<open>ex_phys\<close> of \<open>Example_Space\<close>.
\<close>

section \<open>Page tables\<close>

text \<open>
  C22: \<open>walk\<close> with allocation changes no translation. Whatever tables it adds, every virtual address
  has the PTE it had; the tree stays well formed and disjoint from the free list; it fails only
  when fewer than two pages are free, and then leaves none; otherwise it returns the address of the PTE of \<open>va\<close>: the slot
  \<open>PX 0 va\<close> of the last-level table that the tree now has for \<open>va\<close>, and the PTE stored there is the one \<open>va\<close> had.
\<close>

theorem walk_alloc_keeps_translations:
  assumes "pt_ok ph root xs" "unat va < 0x4000000000"
  shows "\<exists>r ph' ys. walk root va True ph = Inr (r, ph') \<and> pt_ok ph' root ys \<and>
    (\<forall>b. leaf (ram ph') root b = leaf (ram ph) root b) \<and>
    (r = 0 \<longrightarrow> length xs < 2 \<and> ys = []) \<and>
    (r \<noteq> 0 \<longrightarrow> (\<exists>t. table0 (ram ph') root (PX 2 va) (PX 1 va) = Some t \<and> r = pte_addr t (PX 0 va)) \<and>
      load64 (ram ph') r = leaf (ram ph) root va)"
proof (rule walk_True [OF assms])
  fix r ph' ys
  assume w: "walk root va True ph = Inr (r, ph')" and g: "pt_grow root ph xs ph' ys"
    and z: "r = 0 \<Longrightarrow> length xs < 2 \<and> ys = []"
    and t: "r \<noteq> 0 \<Longrightarrow> \<exists>t. table0 (ram ph') root (PX 2 va) (PX 1 va) = Some t \<and> r = pte_addr t (PX 0 va)"
  have ok: "pt_ok ph' root ys" using g by (simp add: pt_grow_def)
  then have "pt_wf (ram ph') root" by (simp add: pt_ok_def)
  then have "r \<noteq> 0 \<Longrightarrow> load64 (ram ph') r = leaf (ram ph) root va"
    using t leaf_slot(4) pt_grow_leaf [OF g] by metis
  then show ?thesis using w ok z t pt_grow_leaf [OF g] by blast
qed

theorem walk_alloc_keeps_translations_ex:
  "\<exists>r ph' ys. walk exC 0x12345 True ex_phys = Inr (r, ph') \<and> pt_ok ph' exC ys \<and>
    (\<forall>b. leaf (ram ph') exC b = leaf (ram ex_phys) exC b) \<and>
    (r = 0 \<longrightarrow> length [exX1, exX2, exX3, exX4] < 2 \<and> ys = []) \<and>
    (r \<noteq> 0 \<longrightarrow> (\<exists>t. table0 (ram ph') exC (PX 2 0x12345) (PX 1 0x12345) = Some t \<and> r = pte_addr t (PX 0 0x12345)) \<and>
      load64 (ram ph') r = leaf (ram ex_phys) exC 0x12345)"
  by (rule walk_alloc_keeps_translations [OF ex_ok(2)]) simp

text \<open>
  C10: \<open>mappages\<close> on a range below \<open>MAXVA\<close> without a valid PTE. It returns 0 and every page of the
  range maps the physical page at the same distance from \<open>pa\<close> with the permissions given, or it
  returns -1 with the free list empty and a proper prefix of the range mapped. Every other address
  keeps its PTE.
\<close>

theorem mappages_maps_the_range:
  assumes "pt_ok ph root xs" "sz \<noteq> 0" "unat va + unat sz \<le> 0x4000000000"
    and "\<forall>b. unat b < 2 ^ 39 \<and> pageno va \<le> pageno b \<and> pageno b \<le> pageno (va + sz - 1) \<longrightarrow>
      \<not> bit (leaf (ram ph) root b) 0"
  shows "\<exists>rc ph' ys d. mappages root pa va sz perm ph = Inr (rc, ph') \<and> pt_ok ph' root ys \<and>
    (rc = 0 \<and> d = Suc (pageno (va + sz - 1) - pageno va) \<or>
     rc = - 1 \<and> ys = [] \<and> d \<le> pageno (va + sz - 1) - pageno va) \<and>
    (\<forall>b. unat b < 2 ^ 39 \<longrightarrow> leaf (ram ph') root b =
      (if pageno va \<le> pageno b \<and> pageno b < pageno va + d
       then PA2PTE (pa + of_nat (4096 * (pageno b - pageno va))) OR scast perm OR PTE_V
       else leaf (ram ph) root b))"
proof -
  from mappages_spec [OF assms, of pa perm] obtain rc ph' ys d where
    m: "mappages root pa va sz perm ph = Inr (rc, ph')"
    "pt_upd root ph xs ph' ys (range_ptes (pageno va) d pa perm)"
    "rc = 0 \<and> d = Suc (pageno (va + sz - 1) - pageno va) \<or>
     rc = - 1 \<and> d \<le> pageno (va + sz - 1) - pageno va \<and> ys = []" by blast
  then show ?thesis
    by (intro exI [of _ rc] exI [of _ ph'] exI [of _ ys] exI [of _ d])
      (auto simp: pt_upd_def range_ptes_def mk_pte_def)
qed

theorem mappages_maps_the_range_ex:
  "\<exists>rc ph' ys d. mappages exR 0x80003000 0x1000 0x2000 6 ex_phys = Inr (rc, ph') \<and> pt_ok ph' exR ys \<and>
    (rc = 0 \<and> d = Suc (pageno (0x1000 + 0x2000 - 1) - pageno 0x1000) \<or>
     rc = - 1 \<and> ys = [] \<and> d \<le> pageno (0x1000 + 0x2000 - 1) - pageno 0x1000) \<and>
    (\<forall>b. unat b < 2 ^ 39 \<longrightarrow> leaf (ram ph') exR b =
      (if pageno 0x1000 \<le> pageno b \<and> pageno b < pageno 0x1000 + d
       then PA2PTE (0x80003000 + of_nat (4096 * (pageno b - pageno 0x1000))) OR scast (6 :: u32) OR PTE_V
       else leaf (ram ex_phys) exR b))"
proof (rule mappages_maps_the_range [OF ex_ok(1)])
  have "pageno 0x1000 = 1" by (simp add: pageno_def)
  then show "\<forall>b. unat b < 2 ^ 39 \<and> pageno 0x1000 \<le> pageno b \<and> pageno b \<le> pageno (0x1000 + 0x2000 - 1) \<longrightarrow>
      \<not> bit (leaf (ram ex_phys) exR b) 0"
    using ex_unmapped by auto
qed simp_all

text \<open>Mapping a page whose PTE is valid panics, whatever the size and permissions.\<close>

theorem mappages_remap_panics:
  assumes "pt_ok ph root xs" "unat va < 0x4000000000" "sz \<noteq> 0" "bit (leaf (ram ph) root va) 0"
  shows "mappages root pa va sz perm ph = Inl (Panic ''mappages: remap'')"
  by (rule mappages_remap [OF assms])

theorem mappages_remap_panics_ex:
  "mappages exR 0x80003000 0x123 0x2000 6 ex_phys = Inl (Panic ''mappages: remap'')"
  by (rule mappages_remap_panics [OF ex_ok(1)]) (simp_all add: ex_leaf_page0 ex_pte_bits)

text \<open>
  \<open>walkaddr\<close> never panics and returns the frame of the page of \<open>va\<close> exactly when the address is
  below \<open>MAXVA\<close> and its PTE is valid and open to the user; otherwise it returns 0.
\<close>

theorem walkaddr_translates:
  assumes "pt_wf (ram ph) root"
  shows "walkaddr root va ph =
    Inr (if unat va < 0x4000000000 \<and> bit (leaf (ram ph) root va) 0 \<and> bit (leaf (ram ph) root va) 4
         then PTE2PA (leaf (ram ph) root va) else 0)"
  using walkaddr_eq [OF assms] by (simp add: user_ok_def)

theorem walkaddr_translates_ex: "walkaddr exR 0x7ff ex_phys = Inr exF"
  using walkaddr_translates [of ex_phys exR "0x7ff"] by (simp add: ex_wf ex_leaf_page0 ex_pte_bits)

text \<open>
  C11: the page table of the kernel. When the image leaves at least 73 pages, \<open>kinit\<close> followed by
  \<open>kvmininit\<close> succeeds and the table maps exactly what \<open>kernel_pte\<close> says: the UART, the PLIC and the memory
  from \<open>etext\<close> to \<open>PHYSTOP\<close> to themselves for reading and writing, the text to itself and the
  trampoline at the top for reading and executing, and nothing else. No page is both writable and
  executable, and none is open to the user.
\<close>

theorem kernel_map_after_boot:
  assumes "0 < end_address ph" "unat (end_address ph) + 73 * 4096 \<le> 0x88000000"
    and "page_aligned etext" "KERNBASE < etext" "etext < PHYSTOP"
  shows "\<exists>ph1 root ph2. kinit ph = Inr ph1 \<and> kvmininit etext trampoline ph1 = Inr (root, ph2) \<and> pt_wf (ram ph2) root \<and>
    (\<forall>va. unat va < 2 ^ 39 \<longrightarrow> leaf (ram ph2) root va = kernel_pte etext trampoline (pageno va) \<and>
      \<not> (bit (leaf (ram ph2) root va) 2 \<and> bit (leaf (ram ph2) root va) 3) \<and> \<not> bit (leaf (ram ph2) root va) 4)"
  using kinit_kvmininit [OF assms, of trampoline] kernel_pte_permissions by (fastforce simp: pt_ok_def)

theorem kernel_map_after_boot_ex:
  "\<exists>ph1 root ph2. kinit (ex_phys\<lparr>end_address := 0x80020000\<rparr>) = Inr ph1 \<and> kvmininit 0x80001000 0x80000000 ph1 = Inr (root, ph2) \<and> pt_wf (ram ph2) root \<and>
    (\<forall>va. unat va < 2 ^ 39 \<longrightarrow> leaf (ram ph2) root va = kernel_pte 0x80001000 0x80000000 (pageno va) \<and>
      \<not> (bit (leaf (ram ph2) root va) 2 \<and> bit (leaf (ram ph2) root va) 3) \<and> \<not> bit (leaf (ram ph2) root va) 4)"
  by (rule kernel_map_after_boot) (simp_all add: ex_phys_def exR_def page_aligned_def KERNBASE_def PHYSTOP_def)

section \<open>Copies across the user boundary\<close>

text \<open>
  C26: \<open>copyin\<close> moves the bytes the user sees, wherever the pages lie. It returns 0 with all \<open>len\<close>
  bytes at \<open>dst\<close> when the whole range is mapped for the user, and -1 otherwise; no byte outside
  the destination changes and no page table is touched.
\<close>

theorem copyin_copies_user_bytes:
  assumes "pt_wf (ram ph) root" "copyin_safe (ram ph) root dst srcva (unat len)"
  shows "\<exists>rc ph'. copyin root dst srcva len ph = Inr (rc, ph') \<and>
    (rc = 0 \<longleftrightarrow> mapped (ram ph) root srcva (unat len)) \<and> (rc = 0 \<or> rc = - 1) \<and>
    (rc = 0 \<longrightarrow> (\<forall>i < unat len. \<exists>a. user_addr (ram ph) root (srcva + of_nat i) = Some a \<and>
      ram ph' (dst + of_nat i) = ram ph a)) \<and>
    (\<forall>x. unat len \<le> unat (x - dst) \<longrightarrow> ram ph' x = ram ph x) \<and> ph' = ph\<lparr>ram := ram ph'\<rparr>"
proof -
  let ?f = "\<lambda>i. the (user_addr (ram ph) root (srcva + i))"
  from copyin_spec [OF assms] obtain rc k where c: "copyin root dst srcva len ph = Inr (rc, ph\<lparr>ram := fetched (ram ph) ?f dst k\<rparr>)"
    "k \<le> unat len" "mapped (ram ph) root srcva k"
    "if mapped (ram ph) root srcva (unat len) then rc = 0 \<and> k = unat len else rc = - 1" by blast
  have "\<exists>a. user_addr (ram ph) root (srcva + of_nat i) = Some a \<and> fetched (ram ph) ?f dst k (dst + of_nat i) = ram ph a"
    if "i < k" for i
  proof -
    have "unat (of_nat i :: u64) = i"
      using that order_le_less_trans [OF c(2) unat_lt_2p64] by (simp add: unat_of_nat)
    then show ?thesis using c(3) that by (auto simp: mapped_def fetched_def)
  qed
  moreover have "fetched (ram ph) ?f dst k x = ram ph x" if "unat len \<le> unat (x - dst)" for x
    using that c(2) by (simp add: fetched_def)
  ultimately show ?thesis using c
    by (intro exI [of _ rc] exI [of _ "ph\<lparr>ram := fetched (ram ph) ?f dst k\<rparr>"]) (auto split: if_splits)
qed

theorem copyin_copies_user_bytes_ex:
  "\<exists>rc ph'. copyin exR exK 16 8 ex_phys = Inr (rc, ph') \<and>
    (rc = 0 \<longleftrightarrow> mapped (ram ex_phys) exR 16 (unat (8 :: u64))) \<and> (rc = 0 \<or> rc = - 1) \<and>
    (rc = 0 \<longrightarrow> (\<forall>i < unat (8 :: u64). \<exists>a. user_addr (ram ex_phys) exR (16 + of_nat i) = Some a \<and>
      ram ph' (exK + of_nat i) = ram ex_phys a)) \<and>
    (\<forall>x. unat (8 :: u64) \<le> unat (x - exK) \<longrightarrow> ram ph' x = ram ex_phys x) \<and> ph' = ex_phys\<lparr>ram := ram ph'\<rparr>"
  by (rule copyin_copies_user_bytes) (use ex_wf ex_copyin_safe [of 16 8] in simp_all)

text \<open>
  C19: \<open>copyout\<close> writes only pages the user may write: it returns 0 when the whole range is mapped,
  open to the user and writable, and then byte \<open>i\<close> of the source stands behind address \<open>dstva + i\<close>;
  otherwise it returns -1. Memory that is not behind an address of the range does not change.
\<close>

theorem copyout_writes_user_bytes:
  assumes "pt_wf (ram ph) root" "copyout_safe (ram ph) root dstva src (unat len)"
  shows "\<exists>rc ph'. copyout root dstva src len ph = Inr (rc, ph') \<and>
    (rc = 0 \<longleftrightarrow> wmapped (ram ph) root dstva (unat len)) \<and> (rc = 0 \<or> rc = - 1) \<and>
    (rc = 0 \<longrightarrow> (\<forall>i < unat len. \<exists>a. user_waddr (ram ph) root (dstva + of_nat i) = Some a \<and>
      ram ph' a = ram ph (src + of_nat i))) \<and>
    (\<forall>x. (\<forall>i < unat len. user_waddr (ram ph) root (dstva + of_nat i) \<noteq> Some x) \<longrightarrow> ram ph' x = ram ph x)"
proof -
  from copyout_spec [OF assms] obtain rc k m where c: "copyout root dstva src len ph = Inr (rc, ph\<lparr>ram := m\<rparr>)"
    "stored (ram ph) root dstva src k m" "k \<le> unat len"
    "if wmapped (ram ph) root dstva (unat len) then rc = 0 \<and> k = unat len else rc = - 1" by blast
  have "m x = ram ph x" if "\<forall>i < unat len. user_waddr (ram ph) root (dstva + of_nat i) \<noteq> Some x" for x
    using that c(2,3) by (simp add: stored_def)
  then show ?thesis using c
    by (intro exI [of _ rc] exI [of _ "ph\<lparr>ram := m\<rparr>"]) (auto simp: stored_def split: if_splits)
qed

theorem copyout_writes_user_bytes_ex:
  "\<exists>rc ph'. copyout exR 16 exK 8 ex_phys = Inr (rc, ph') \<and>
    (rc = 0 \<longleftrightarrow> wmapped (ram ex_phys) exR 16 (unat (8 :: u64))) \<and> (rc = 0 \<or> rc = - 1) \<and>
    (rc = 0 \<longrightarrow> (\<forall>i < unat (8 :: u64). \<exists>a. user_waddr (ram ex_phys) exR (16 + of_nat i) = Some a \<and>
      ram ph' a = ram ex_phys (exK + of_nat i))) \<and>
    (\<forall>x. (\<forall>i < unat (8 :: u64). user_waddr (ram ex_phys) exR (16 + of_nat i) \<noteq> Some x) \<longrightarrow>
      ram ph' x = ram ex_phys x)"
  by (rule copyout_writes_user_bytes) (use ex_wf ex_copyout_safe [of 16 8] in simp_all)

text \<open>what \<open>copyout\<close> wrote to a user buffer, \<open>copyin\<close> reads back unchanged.\<close>

theorem copyout_copyin_roundtrip:
  assumes "pt_wf (ram ph) root" "copyout_safe (ram ph) root va src (unat len)"
    and "copyin_safe (ram ph) root dst va (unat len)" "wmapped (ram ph) root va (unat len)"
  shows "\<exists>ph1 ph2. copyout root va src len ph = Inr (0, ph1) \<and> copyin root dst va len ph1 = Inr (0, ph2) \<and>
    bytes_at (ram ph2) dst (unat len) = bytes_at (ram ph) src (unat len)"
proof -
  from copyout_spec [OF assms(1,2)] assms(4) obtain m where c:
    "copyout root va src len ph = Inr (0, ph\<lparr>ram := m\<rparr>)" "stored (ram ph) root va src (unat len) m" by auto
  note t = stored_tables [OF assms(1,2) order_refl c(2)]
  have u: "user_addr m root a = user_addr (ram ph) root a" for a
    by (rule stored_user_addr [OF assms(1,2) order_refl c(2)])
  have "copyin_safe m root dst va (unat len)" using assms(3) by (simp add: copyin_safe_def u t(2))
  moreover have map: "mapped (ram ph) root va (unat len)"
    using assms(4) by (auto simp: mapped_def wmapped_def user_waddr_def split: if_splits)
  then have "mapped m root va (unat len)" by (simp add: mapped_def u)
  ultimately obtain ph2 where c2: "copyin root dst va len (ph\<lparr>ram := m\<rparr>) = Inr (0, ph2)"
    "ram ph2 = fetched m (\<lambda>i. the (user_addr m root (va + i))) dst (unat len)"
    using copyin_spec [of "ph\<lparr>ram := m\<rparr>" root dst va len] t(1) by auto
  have "bytes_at (ram ph2) dst (unat len) = bytes_at (ram ph) src (unat len)"
  proof (rule nth_equalityI)
    fix i assume "i < length (bytes_at (ram ph2) dst (unat len))"
    then have i: "i < unat len" by simp
    then have "unat (of_nat i :: u64) = i"
      using order_less_trans [OF i unat_lt_2p64] by (simp add: unat_of_nat)
    moreover from c(2) i obtain a where "user_waddr (ram ph) root (va + of_nat i) = Some a"
      "m a = ram ph (src + of_nat i)" by (auto simp: stored_def)
    ultimately show "bytes_at (ram ph2) dst (unat len) ! i = bytes_at (ram ph) src (unat len) ! i"
      using i by (auto simp: c2(2) fetched_def u user_waddr_def split: if_splits)
  qed simp
  with c(1) c2(1) show ?thesis by blast
qed

theorem copyout_copyin_roundtrip_ex:
  "\<exists>ph1 ph2. copyout exR 100 exK 24 ex_phys = Inr (0, ph1) \<and> copyin exR exK 100 24 ph1 = Inr (0, ph2) \<and>
    bytes_at (ram ph2) exK (unat (24 :: u64)) = bytes_at (ram ex_phys) exK (unat (24 :: u64))"
  by (rule copyout_copyin_roundtrip)
    (use ex_wf ex_copyout_safe [of 100 24] ex_copyin_safe [of 100 24] ex_mapped [of 100 24] in simp_all)

text \<open>
  C36: \<open>copyinstr\<close> returns 0 exactly when a zero byte lies within the first \<open>max\<close> bytes of the
  mapped part of the string; then the bytes up to and including the first zero are at \<open>dst\<close>.
  Otherwise it returns -1. It never writes beyond \<open>dst + max\<close>.
\<close>

theorem copyinstr_copies_the_string:
  assumes "pt_wf (ram ph) root" "copyin_safe (ram ph) root dst srcva (unat mx)"
  shows "\<exists>rc ph'. copyinstr root dst srcva mx ph = Inr (rc, ph') \<and>
    (rc = 0 \<longleftrightarrow> (\<exists>j < unat mx. nul_at (ram ph) root srcva j)) \<and> (rc = 0 \<or> rc = - 1) \<and>
    (\<forall>j < unat mx. nul_at (ram ph) root srcva j \<longrightarrow>
      cstr (ram ph') dst (map (\<lambda>i. user_byte (ram ph) root (srcva + of_nat i)) [0..<j])) \<and>
    (\<forall>x. unat mx \<le> unat (x - dst) \<longrightarrow> ram ph' x = ram ph x)"
proof -
  let ?f = "\<lambda>i. the (user_addr (ram ph) root (srcva + i))"
  from copyinstr_spec [OF assms] obtain rc k where c: "copyinstr root dst srcva mx ph = Inr (rc, ph\<lparr>ram := fetched (ram ph) ?f dst k\<rparr>)"
    "k \<le> unat mx" "mapped (ram ph) root srcva k"
    "if \<exists>j < unat mx. nul_at (ram ph) root srcva j then rc = 0 \<and> 0 < k \<and> nul_at (ram ph) root srcva (k - 1) else rc = - 1"
    by blast
  let ?m = "fetched (ram ph) ?f dst k"
  have at: "?m (dst + of_nat i) = user_byte (ram ph) root (srcva + of_nat i)" if "i < k" for i
    using that order_le_less_trans [OF c(2) unat_lt_2p64] by (simp add: unat_of_nat fetched_def user_byte_def)
  have "cstr ?m dst (map (\<lambda>i. user_byte (ram ph) root (srcva + of_nat i)) [0..<j])"
    if j: "j < unat mx" "nul_at (ram ph) root srcva j" for j
  proof -
    have "nul_at (ram ph) root srcva (k - 1)" "0 < k" using c(4) j by (auto split: if_splits)
    then have "j = k - 1" using j(2) unfolding nul_at_def by (metis linorder_neqE_nat)
    then have k: "k = Suc j" using \<open>0 < k\<close> by simp
    then show ?thesis using j(2) at by (intro cstr_mapI) (auto simp: nul_at_def)
  qed
  moreover have "?m x = ram ph x" if "unat mx \<le> unat (x - dst)" for x
    using that c(2) by (simp add: fetched_def)
  ultimately show ?thesis using c
    by (intro exI [of _ rc] exI [of _ "ph\<lparr>ram := ?m\<rparr>"]) (auto split: if_splits)
qed

theorem copyinstr_copies_the_string_ex:
  "\<exists>rc ph'. copyinstr exR exK 5 128 ex_phys = Inr (rc, ph') \<and>
    (rc = 0 \<longleftrightarrow> (\<exists>j < unat (128 :: u64). nul_at (ram ex_phys) exR 5 j)) \<and> (rc = 0 \<or> rc = - 1) \<and>
    (\<forall>j < unat (128 :: u64). nul_at (ram ex_phys) exR 5 j \<longrightarrow>
      cstr (ram ph') exK (map (\<lambda>i. user_byte (ram ex_phys) exR (5 + of_nat i)) [0..<j])) \<and>
    (\<forall>x. unat (128 :: u64) \<le> unat (x - exK) \<longrightarrow> ram ph' x = ram ex_phys x)"
  by (rule copyinstr_copies_the_string) (use ex_wf ex_copyin_safe [of 5 128] in simp_all)

section \<open>User address spaces\<close>

text \<open>
  C3: \<open>uvmcopy\<close> never panics on a parent whose pages are its own. On success every page the parent
  has below \<open>sz\<close> is mapped in the child with the same flags, on a frame of its own that was free
  before and holds the same bytes, and no other page below \<open>sz\<close> is mapped. It fails only with fewer
  than three free pages for every page below \<open>sz\<close>; then the child maps what it mapped before and no page is lost: what was free or a table of the child is so
  again. In both cases the parent keeps its translations and its bytes.
\<close>

theorem uvmcopy_copies_or_undoes:
  assumes "pt_ok ph new xs" "unat sz \<le> 0x4000000000" "n = (unat sz + 4095) div 4096"
    and "parent_ok old new ph xs n" "\<forall>w < n. \<not> bit (pte_at (ram ph) new w) 0"
  shows "\<exists>rc ph' ys. uvmcopy old new sz ph = Inr (rc, ph') \<and> pt_ok ph' new ys \<and>
    (\<forall>w. pte_at (ram ph') old w = pte_at (ram ph) old w) \<and>
    (\<forall>w < n. \<forall>k < 4096. bit (pte_at (ram ph) old w) 0 \<longrightarrow>
      ram ph' (PTE2PA (pte_at (ram ph) old w) + of_nat k) = ram ph (PTE2PA (pte_at (ram ph) old w) + of_nat k)) \<and>
    (rc = 0 \<and> distinct (frames (pte_at (ram ph') new) 0 n) \<and> set (frames (pte_at (ram ph') new) 0 n) \<subseteq> set xs - set ys \<and>
       (\<forall>w < n. if bit (pte_at (ram ph) old w) 0 then copy_of (ram ph) old (ram ph') new w
          else \<not> bit (pte_at (ram ph') new w) 0) \<or>
     rc = - 1 \<and> length xs < 3 * n \<and> set ys \<union> tables (ram ph') new = set xs \<union> tables (ram ph) new \<and>
       (\<forall>w < 2 ^ 27. bit (pte_at (ram ph') new w) 0 = bit (pte_at (ram ph) new w) 0))"
proof -
  note par = parent_kept [OF assms(1,4)]
  from assms(1) assms(4) [unfolded assms(3)] assms(2) assms(5) [unfolded assms(3)] show ?thesis
  proof (cases rule: uvmcopy_spec)
    case (copied ph' zs)
    note i = copied(2) [unfolded child_inv_def, folded assms(3)]
    then have "agree_on (- pageno ` (tables (ram ph) new \<union> set xs)) (ram ph) (ram ph')" by simp
    note kept = par [OF this]
    have "uvmcopy old new sz ph = Inr (0, ph')" "pt_ok ph' new zs" using copied i by simp_all
    moreover have "set (frames (pte_at (ram ph') new) 0 n) \<subseteq> set xs - set zs" using i by blast
    ultimately show ?thesis using kept i
      by (intro exI [of _ 0] exI [of _ ph'] exI [of _ zs]) simp
  next
    case (undone ph')
    then obtain ys where ys: "pt_ok ph' new ys" "set xs \<union> tables (ram ph) new = set ys \<union> tables (ram ph') new"
      by (auto simp: child_undone_def)
    have "agree_on (- pageno ` (tables (ram ph) new \<union> set xs)) (ram ph) (ram ph')"
      using undone(2) by (simp add: child_undone_def)
    note kept = par [OF this]
    have "\<forall>w < 2 ^ 27. bit (pte_at (ram ph') new w) 0 = bit (pte_at (ram ph) new w) 0"
      using undone(2) unfolding child_undone_def by metis
    then show ?thesis using kept ys undone(1,3) assms(3)
      by (intro exI [of _ "- 1"] exI [of _ ph'] exI [of _ ys]) simp
  qed
qed

theorem uvmcopy_copies_or_undoes_ex:
  "\<exists>rc ph' ys. uvmcopy exR exC 0x1800 ex_phys = Inr (rc, ph') \<and> pt_ok ph' exC ys \<and>
    (\<forall>w. pte_at (ram ph') exR w = pte_at (ram ex_phys) exR w) \<and>
    (\<forall>w < 2. \<forall>k < 4096. bit (pte_at (ram ex_phys) exR w) 0 \<longrightarrow>
      ram ph' (PTE2PA (pte_at (ram ex_phys) exR w) + of_nat k) = ram ex_phys (PTE2PA (pte_at (ram ex_phys) exR w) + of_nat k)) \<and>
    (rc = 0 \<and> distinct (frames (pte_at (ram ph') exC) 0 2) \<and>
       set (frames (pte_at (ram ph') exC) 0 2) \<subseteq> set [exX1, exX2, exX3, exX4] - set ys \<and>
       (\<forall>w < 2. if bit (pte_at (ram ex_phys) exR w) 0 then copy_of (ram ex_phys) exR (ram ph') exC w
          else \<not> bit (pte_at (ram ph') exC w) 0) \<or>
     rc = - 1 \<and> length [exX1, exX2, exX3, exX4] < 3 * 2 \<and> set ys \<union> tables (ram ph') exC = set [exX1, exX2, exX3, exX4] \<union> tables (ram ex_phys) exC \<and>
       (\<forall>w < 2 ^ 27. bit (pte_at (ram ph') exC w) 0 = bit (pte_at (ram ex_phys) exC w) 0))"
  by (rule uvmcopy_copies_or_undoes [OF ex_ok(2)])
    (use ex_parent_2 ex_pte_at(3) in simp_all)

text \<open>
  C27: \<open>uvmunmap\<close> on a page-aligned range clears the valid PTEs of the range and no other; with
  \<open>do_free\<close> their frames go to the front of the free list, the last page first, and nothing else is
  freed. Missing tables and unmapped pages are skipped, so the call never fails.
\<close>

theorem uvmunmap_clears_the_range:
  assumes "pt_ok ph root xs" "page_aligned va" "page_aligned sz" "unat va + unat sz \<le> 0x4000000000"
    and "fs = frames (pte_at (ram ph) root) (pageno va) (pageno sz)"
    and "do_free \<longrightarrow> distinct fs \<and> (\<forall>f \<in> set fs. managed ph f \<and> f \<notin> set xs \<and> f \<notin> tables (ram ph) root)"
  shows "\<exists>ph'. uvmunmap root va sz do_free ph = Inr ph' \<and>
    pt_ok ph' root ((if do_free then rev fs else []) @ xs) \<and>
    (\<forall>w < 2 ^ 27. pte_at (ram ph') root w =
      (if pageno va \<le> w \<and> w < pageno va + pageno sz \<and> bit (pte_at (ram ph) root w) 0 then 0
       else pte_at (ram ph) root w))"
  using uvmunmap_spec [OF assms(1-4), of do_free] assms(5,6) by (cases do_free) (auto simp: pt_unmap_def)

theorem uvmunmap_clears_the_range_ex:
  "\<exists>ph'. uvmunmap exR 0 0x3000 True ex_phys = Inr ph' \<and>
    pt_ok ph' exR ((if True then rev [exF] else []) @ [exX1, exX2, exX3, exX4]) \<and>
    (\<forall>w < 2 ^ 27. pte_at (ram ph') exR w =
      (if pageno 0 \<le> w \<and> w < pageno 0 + pageno 0x3000 \<and> bit (pte_at (ram ex_phys) exR w) 0 then 0
       else pte_at (ram ex_phys) exR w))"
proof (rule uvmunmap_clears_the_range [OF ex_ok(1)])
  have p: "pageno 0 = 0" "pageno 0x3000 = Suc 2" by (simp_all add: pageno_def)
  show "[exF] = frames (pte_at (ram ex_phys) exR) (pageno 0) (pageno 0x3000)"
    unfolding p ex_ram by (rule ex_frames [symmetric]) simp
  show "True \<longrightarrow> distinct [exF] \<and> (\<forall>f \<in> set [exF]. managed ex_phys f \<and> f \<notin> set [exX1, exX2, exX3, exX4] \<and>
      f \<notin> tables (ram ex_phys) exR)"
    using ex_managed by (simp add: ex_tables) (simp add: ex_pages)
qed (simp_all add: page_aligned_def)

text \<open>
  C28: \<open>freewalk\<close> on a tree without mapped pages, with recursion depth 3, gives each of its tables
  back to the allocator exactly once and writes no other page.
\<close>

theorem freewalk_frees_every_table:
  assumes "pt_ok ph root xs" "pure_tree (ram ph) root"
    and "\<forall>i j k. idx i \<and> idx j \<and> idx k \<longrightarrow> \<not> bit (pte_of (ram ph) root i j k) 0"
  shows "\<exists>ph' ps. freewalk 3 root ph = Inr ph' \<and> set ps = tables (ram ph) root \<and> distinct ps \<and>
    free_inv ph' (ps @ xs) \<and> agree_on (- pageno ` tables (ram ph) root) (ram ph) (ram ph')"
proof -
  obtain ph' ps where f: "freewalk 3 root ph = Inr ph'" "set ps = tables (ram ph) root" "pages_freed ph xs ps ph'"
    using freewalk_spec [OF assms(1,2)] assms(3) by blast
  then have "free_inv ph' (rev ps @ xs)" "agree_on (- pageno ` set ps) (ram ph) (ram ph')"
    by (simp_all add: pages_freed_def)
  moreover from this have "distinct (rev ps)" by (simp add: free_inv_def)
  ultimately show ?thesis using f(1,2) by (intro exI [of _ ph'] exI [of _ "rev ps"]) simp
qed

theorem freewalk_frees_every_table_ex:
  "\<exists>ph' ps. freewalk 3 exC ex_phys = Inr ph' \<and> set ps = tables (ram ex_phys) exC \<and> distinct ps \<and>
    free_inv ph' (ps @ [exX1, exX2, exX3, exX4]) \<and> agree_on (- pageno ` tables (ram ex_phys) exC) (ram ex_phys) (ram ph')"
  by (rule freewalk_frees_every_table [OF ex_ok(2)])
    (simp_all add: pure_tree_def ex_tables01 ex_entry pte_of_def ex_table0)

section \<open>The page allocator\<close>

text \<open>
  after \<open>kinit\<close> the free list holds every page between the end of the kernel image and
  \<open>PHYSTOP\<close>, each of them once.
\<close>

theorem kinit_frees_every_page:
  assumes "0 < end_address ph" "end_address ph \<le> PHYSTOP"
  shows "\<exists>ph' xs. kinit ph = Inr ph' \<and> free_inv ph' xs \<and> distinct xs \<and>
    set xs = {p. page_aligned p \<and> end_address ph \<le> p \<and> p < PHYSTOP}"
proof -
  from kinit_free_inv [OF assms] obtain ph' where "kinit ph = Inr ph'" "free_inv ph' (kinit_pages (end_address ph))"
    by blast
  moreover from this have "distinct (kinit_pages (end_address ph))" by (simp add: free_inv_def)
  ultimately show ?thesis using set_kinit_pages [OF assms(2)] by (auto simp: managed_def)
qed

theorem kinit_frees_every_page_ex:
  "\<exists>ph' xs. kinit ex_phys = Inr ph' \<and> free_inv ph' xs \<and> distinct xs \<and>
    set xs = {p. page_aligned p \<and> end_address ex_phys \<le> p \<and> p < PHYSTOP}"
  by (rule kinit_frees_every_page) (simp_all add: ex_phys_def exR_def PHYSTOP_def KERNBASE_def)

text \<open>
  \<open>kalloc\<close> returns 0 exactly when no page is free; otherwise it returns the head of the free
  list, which it removes, filled with zeros, and changes no other page.
\<close>

theorem kalloc_takes_a_zeroed_page:
  assumes "free_inv ph xs" "kalloc ph = (r, ph')"
  shows "r = 0 \<and> xs = [] \<and> ph' = ph \<or>
    (\<exists>ys. xs = r # ys \<and> r \<noteq> 0 \<and> r \<notin> set ys \<and> free_inv ph' ys \<and>
      (\<forall>a. ram ph' a = (if pageno a = pageno r then 0 else ram ph a)))"
  using assms
proof (cases rule: pa.alloc_cases)
  case (some ys)
  then show ?thesis by (auto simp: agree_on_def)
qed simp

theorem kalloc_takes_a_zeroed_page_ex:
  "exX1 = 0 \<and> [exX1, exX2, exX3, exX4] = [] \<and> snd (kalloc ex_phys) = ex_phys \<or>
    (\<exists>ys. [exX1, exX2, exX3, exX4] = exX1 # ys \<and> exX1 \<noteq> 0 \<and> exX1 \<notin> set ys \<and> free_inv (snd (kalloc ex_phys)) ys \<and>
      (\<forall>a. ram (snd (kalloc ex_phys)) a = (if pageno a = pageno exX1 then 0 else ram ex_phys a)))"
proof (rule kalloc_takes_a_zeroed_page [OF ex_free])
  have "fst (kalloc ex_phys) = exX1" by (simp add: kalloc_def Let_def ex_phys_def exX1_def)
  then show "kalloc ex_phys = (exX1, snd (kalloc ex_phys))" by (metis prod.collapse)
qed

text \<open>
  \<open>kfree\<close> panics exactly on an address that is not page aligned, lies below the end of the
  kernel image or at or above \<open>PHYSTOP\<close>; a page freed otherwise is the next one \<open>kalloc\<close> returns,
  and the pair leaves the free list and every other page as they were.
\<close>

theorem kfree_guards_and_returns_the_page:
  assumes "free_inv ph xs" "p \<notin> set xs"
  shows "if p mod PGSIZE \<noteq> 0 \<or> p < end_address ph \<or> PHYSTOP \<le> p
    then kfree p ph = Inl (Panic ''kfree: invalid address'')
    else \<exists>ph1 ph2. kfree p ph = Inr ph1 \<and> free_inv ph1 (p # xs) \<and> kalloc ph1 = (p, ph2) \<and> free_inv ph2 xs \<and>
      agree_on (- {pageno p}) (ram ph) (ram ph2)"
proof (cases "managed ph p")
  case True
  then have "p mod PGSIZE = 0 \<and> end_address ph \<le> p \<and> p < PHYSTOP" by (simp only: managed_mod)
  moreover obtain ph1 ph2 where k: "kfree p ph = Inr ph1" "kalloc ph1 = (p, ph2)" "free_inv ph2 xs"
    "agree_on (- {pageno p}) (ram ph) (ram ph2)" using pa.free_then_alloc [OF assms(1) True assms(2)] by blast
  moreover have "free_inv ph1 (p # xs)" using kfree_free_inv [OF assms(1) True assms(2)] k(1) by auto
  ultimately show ?thesis by auto
next
  case False
  then have c: "p mod PGSIZE \<noteq> 0 \<or> p < end_address ph \<or> PHYSTOP \<le> p"
    by (simp only: managed_mod de_Morgan_conj not_le not_less)
  show ?thesis unfolding kfree_def if_P [OF c] ..
qed

theorem kfree_guards_and_returns_the_page_ex:
  "if exF mod PGSIZE \<noteq> 0 \<or> exF < end_address ex_phys \<or> PHYSTOP \<le> exF
   then kfree exF ex_phys = Inl (Panic ''kfree: invalid address'')
   else \<exists>ph1 ph2. kfree exF ex_phys = Inr ph1 \<and> free_inv ph1 (exF # [exX1, exX2, exX3, exX4]) \<and> kalloc ph1 = (exF, ph2) \<and>
     free_inv ph2 [exX1, exX2, exX3, exX4] \<and> agree_on (- {pageno exF}) (ram ex_phys) (ram ph2)"
  by (rule kfree_guards_and_returns_the_page [OF ex_free]) (simp add: ex_pages)

section \<open>string.c\<close>

text \<open>
  \<open>memmove\<close> copies \<open>n\<close> bytes and touches no others, for sizes below \<open>2 ^ 31\<close>, unless the
  destination starts strictly inside the source (the loop only runs forwards).
\<close>

theorem memmove_copies:
  assumes "n < 2 ^ 31" "dest = src \<or> n \<le> unat (dest - src)"
  shows "bytes_at (memmove dest src (of_nat n) m) dest n = bytes_at m src n \<and>
    (\<forall>x. n \<le> unat (x - dest) \<longrightarrow> memmove dest src (of_nat n) m x = m x)"
  using memmove_bytes_at [of n dest src m] memmove_eq [of n dest src m] assms by (simp add: forward_safe_def)

theorem memmove_copies_ex:
  "bytes_at (memmove 0x1000 0x1004 (of_nat 32) ex_ram) 0x1000 32 = bytes_at ex_ram 0x1004 32 \<and>
    memmove 0x1000 0x1004 (of_nat 32) ex_ram 0x1020 = ex_ram 0x1020"
  using memmove_copies [of 32 "0x1000" "0x1004" ex_ram] by simp

text \<open>
  on terminated strings \<open>strlen\<close> returns the number of bytes before the terminator and \<open>streq\<close>
  returns 1 for equal strings and 0 for different ones.
\<close>

theorem strlen_streq_of_strings:
  assumes "cstr m p s" "cstr m q t"
  shows "strlen m p = Some (of_nat (length s)) \<and> streq m p q = Some (if s = t then 1 else 0)"
  using strlen_cstr [OF assms(1)] streq_cstr [OF assms] by simp

theorem strlen_streq_of_strings_ex:
  "strlen ((\<lambda>_. 0)(8 := 104, 9 := 105, 20 := 104)) 8 = Some (of_nat (length [104, 105 :: u8])) \<and>
    streq ((\<lambda>_. 0)(8 := 104, 9 := 105, 20 := 104)) 8 20 = Some (if [104, 105 :: u8] = [104] then 1 else 0)"
  by (rule strlen_streq_of_strings) simp_all

end
