(* ===== verification/Spinlock.thy ===== *)
theory Spinlock
  imports Kernel_Prelude
begin

text \<open>
  Interrupt nesting and spinlocks (\<open>kernel/proc/spinlock.c\<close>, \<open>mycpu\<close> of \<open>proc.c\<close> and the interrupt
  switches of \<open>riscv.h\<close>). The state is that of the one hart the kernel runs on (\<open>NCPU\<close> is 1): its
  \<open>sstatus\<close> and \<open>tp\<close> registers and its \<open>struct cpu\<close>.
\<close>

section \<open>State\<close>

definition SSTATUS_SIE :: u64 where "SSTATUS_SIE = push_bit 1 1"

text \<open>
  \<open>intena\<close> is the C truth value, \<open>cpu_proc\<close> the index of the running process in the process table.
  \<open>noff\<close> is an \<open>int\<close> whose overflow C leaves undefined.
\<close>

record hart =
  sstatus :: u64
  tp :: u64
  noff :: int
  intena :: bool
  cpu_proc :: "nat option"

record spinlock =
  locked :: u32
  lk_name :: string
  lk_cpu :: "u64 option"

section \<open>Operations\<close>

text \<open>The hart number is an \<open>int\<close>, so \<open>tp\<close> is cut to 32 bits before it indexes \<open>cpus\<close>.\<close>

definition mycpu :: "hart \<Rightarrow> u64" where "mycpu h = scast (ucast (tp h) :: u32)"

definition intr_on :: "hart \<Rightarrow> hart" where
  "intr_on h = h\<lparr>sstatus := sstatus h OR SSTATUS_SIE\<rparr>"

definition intr_off :: "hart \<Rightarrow> hart" where
  "intr_off h = h\<lparr>sstatus := sstatus h AND NOT SSTATUS_SIE\<rparr>"

definition intr_get :: "hart \<Rightarrow> bool" where
  "intr_get h \<longleftrightarrow> sstatus h AND SSTATUS_SIE \<noteq> 0"

definition initlock :: "string \<Rightarrow> spinlock \<Rightarrow> spinlock" where
  "initlock name lk = lk\<lparr>lk_name := name, locked := 0, lk_cpu := None\<rparr>"

definition holding :: "spinlock \<Rightarrow> hart \<Rightarrow> bool" where
  "holding lk h \<longleftrightarrow> locked lk \<noteq> 0 \<and> lk_cpu lk = Some (mycpu h)"

definition push_off :: "hart \<Rightarrow> hart" where
  "push_off h =
     (let old = intr_get h;
          h = intr_off h;
          h = (if noff h = 0 then h\<lparr>intena := old\<rparr> else h)
      in h\<lparr>noff := noff h + 1\<rparr>)"

definition pop_off :: "hart \<Rightarrow> hart outcome" where
  "pop_off h =
     (if intr_get h then Inl (Panic ''pop_off - interruptible'')
      else if noff h < 1 then Inl (Panic ''pop_off'')
      else
        let h = h\<lparr>noff := noff h - 1\<rparr> in
        Inr (if noff h = 0 \<and> intena h then intr_on h else h))"

text \<open>
  \<open>while(__sync_lock_test_and_set(&lk->locked, 1) != 0);\<close> with interrupts off on a single hart: the
  loop leaves at once when the lock is free and never otherwise.
\<close>

definition acquire :: "spinlock \<times> hart \<Rightarrow> (spinlock \<times> hart) outcome" where
  "acquire = (\<lambda>(lk, h).
     let h = push_off h in
     if holding lk h then Inl (Panic ''acquire when holding'')
     else if locked lk \<noteq> 0 then Inl (Hang ''acquire'')
     else Inr (lk\<lparr>locked := 1, lk_cpu := Some (mycpu h)\<rparr>, h))"

definition release :: "spinlock \<times> hart \<Rightarrow> (spinlock \<times> hart) outcome" where
  "release = (\<lambda>(lk, h).
     if \<not> holding lk h then Inl (Panic ''release when not holding'')
     else
       let lk = lk\<lparr>lk_cpu := None, locked := 0\<rparr> in
       bindE (pop_off h) (\<lambda>h. Inr (lk, h)))"

section \<open>Interrupt nesting\<close>

text \<open>Inside a section interrupts are off; the depth is never negative.\<close>

definition hart_ok :: "hart \<Rightarrow> bool" where
  "hart_ok h \<longleftrightarrow> 0 \<le> noff h \<and> (0 < noff h \<longrightarrow> \<not> intr_get h)"

lemma intr_get_iff: "intr_get h \<longleftrightarrow> bit (sstatus h) 1"
  by (simp only: intr_get_def SSTATUS_SIE_def push_bit_of_1 and_exp_eq_0_iff_not_bit not_not)

lemma intr_simps [simp]:
  "intr_get (intr_on h)" "\<not> intr_get (intr_off h)"
  "noff (intr_on h) = noff h" "noff (intr_off h) = noff h"
  "intena (intr_on h) = intena h" "intena (intr_off h) = intena h"
  "tp (intr_on h) = tp h" "tp (intr_off h) = tp h"
  "cpu_proc (intr_on h) = cpu_proc h" "cpu_proc (intr_off h) = cpu_proc h"
  unfolding intr_get_iff by (simp_all add: intr_on_def intr_off_def SSTATUS_SIE_def bit_simps)

lemma intr_get_cong [simp]: "intr_get (h\<lparr>noff := n\<rparr>) = intr_get h" "intr_get (h\<lparr>intena := b\<rparr>) = intr_get h"
  "intr_get (h\<lparr>cpu_proc := p\<rparr>) = intr_get h"
  by (simp_all add: intr_get_def)

lemma intr_restore: "intr_get h \<Longrightarrow> sstatus (intr_on (intr_off h)) = sstatus h"
  and intr_off_id: "\<not> intr_get h \<Longrightarrow> intr_off h = h"
proof -
  show "sstatus (intr_on (intr_off h)) = sstatus h" if "intr_get h"
    using that unfolding intr_get_iff intr_on_def intr_off_def
    by (intro bit_word_eqI) (auto simp: SSTATUS_SIE_def bit_simps)
  have "sstatus h AND NOT SSTATUS_SIE = sstatus h" if "\<not> intr_get h"
    using that unfolding intr_get_iff by (intro bit_word_eqI) (auto simp: SSTATUS_SIE_def bit_simps)
  then show "intr_off h = h" if "\<not> intr_get h" using that by (simp add: intr_off_def)
qed

lemma push_off_simps [simp]:
  "noff (push_off h) = noff h + 1" "tp (push_off h) = tp h" "cpu_proc (push_off h) = cpu_proc h"
  "\<not> intr_get (push_off h)" "intena (push_off h) = (if noff h = 0 then intr_get h else intena h)"
  "mycpu (push_off h) = mycpu h"
  by (simp_all add: push_off_def Let_def mycpu_def)

lemma push_off_ok: "hart_ok h \<Longrightarrow> hart_ok (push_off h)"
  by (simp add: hart_ok_def)

text \<open>What a matched pair leaves: the nesting level records the state of interrupts at its start.\<close>

definition settled :: "hart \<Rightarrow> hart" where
  "settled h = (if noff h = 0 then h\<lparr>intena := intr_get h\<rparr> else h)"

lemma settled_simps [simp]:
  "sstatus (settled h) = sstatus h" "tp (settled h) = tp h" "noff (settled h) = noff h"
  "cpu_proc (settled h) = cpu_proc h" "intr_get (settled h) = intr_get h" "settled (settled h) = settled h"
  by (simp_all add: settled_def)

lemma sstatus_push_off [simp]: "sstatus (push_off h) = sstatus h AND NOT SSTATUS_SIE"
  by (simp add: push_off_def Let_def intr_off_def)

lemma SIE_mask:
  "intr_get h \<Longrightarrow> sstatus h AND NOT SSTATUS_SIE OR SSTATUS_SIE = sstatus h"
  "\<not> intr_get h \<Longrightarrow> sstatus h AND NOT SSTATUS_SIE = sstatus h"
  unfolding intr_get_iff by (auto intro!: bit_word_eqI simp: SSTATUS_SIE_def bit_simps)

lemma pop_push_off:
  assumes "hart_ok h"
  shows "pop_off (push_off h) = Inr (settled h)"
proof -
  define h' where "h' = (push_off h)\<lparr>noff := noff h\<rparr>"
  have pop: "pop_off (push_off h) = Inr (if noff h = 0 \<and> intena h' then intr_on h' else h')"
    using assms by (simp add: pop_off_def hart_ok_def h'_def Let_def)
  have "(if noff h = 0 \<and> intena h' then intr_on h' else h') = settled h"
  proof (rule hart.equality)
    show "sstatus (if noff h = 0 \<and> intena h' then intr_on h' else h') = sstatus (settled h)"
      using assms SIE_mask [of h] by (auto simp: h'_def intr_on_def hart_ok_def)
  qed (auto simp: h'_def settled_def)
  with pop show ?thesis by simp
qed

text \<open>
  \<open>n\<close> nested sections: \<open>n\<close> calls of \<open>push_off\<close>, then \<open>n\<close> of \<open>pop_off\<close>.
\<close>

primrec push_n :: "nat \<Rightarrow> hart \<Rightarrow> hart" where
  "push_n 0 h = h"
| "push_n (Suc n) h = push_n n (push_off h)"

primrec pop_n :: "nat \<Rightarrow> hart \<Rightarrow> hart outcome" where
  "pop_n 0 h = Inr h"
| "pop_n (Suc n) h = bindE (pop_n n h) pop_off"

lemma push_n_ok: "hart_ok h \<Longrightarrow> hart_ok (push_n n h) \<and> noff (push_n n h) = noff h + int n"
  by (induction n arbitrary: h) (auto simp: push_off_ok)

lemma push_n_off: "0 < n \<Longrightarrow> \<not> intr_get (push_n n h)"
proof (induction n arbitrary: h)
  case (Suc n)
  then show ?case by (cases n) simp_all
qed simp

lemma settled_push_off: "0 \<le> noff h \<Longrightarrow> settled (push_off h) = push_off h"
  by (simp add: settled_def)

lemma pop_off_settled: "hart_ok h \<Longrightarrow> pop_off (settled (push_off h)) = Inr (settled h)"
  by (simp add: settled_push_off pop_push_off hart_ok_def)

lemma pop_push_n: "hart_ok h \<Longrightarrow> pop_n n (push_n n h) = Inr (if n = 0 then h else settled h)"
proof (induction n arbitrary: h)
  case (Suc n)
  then have "pop_n n (push_n n (push_off h)) = Inr (if n = 0 then push_off h else settled (push_off h))"
    using push_off_ok by blast
  then show ?case using Suc.prems pop_off_settled pop_push_off by simp
qed simp

section \<open>Locks\<close>

text \<open>The contract of a lock: who is outside can enter, who is inside can leave, nobody can do the other.\<close>

locale critical_section =
  fixes enter :: "'s \<Rightarrow> 's outcome"
    and leave :: "'s \<Rightarrow> 's outcome"
    and outside :: "'s \<Rightarrow> bool"
    and inside :: "'s \<Rightarrow> bool"
  assumes enter_ok: "outside s \<Longrightarrow> \<exists>s'. enter s = Inr s' \<and> inside s'"
    and leave_ok: "inside s \<Longrightarrow> \<exists>s'. leave s = Inr s' \<and> outside s'"
    and enter_twice: "inside s \<Longrightarrow> \<exists>e. enter s = Inl e"
    and leave_twice: "outside s \<Longrightarrow> \<exists>e. leave s = Inl e"
begin

lemma exclusive: "\<not> (outside s \<and> inside s)"
  using enter_ok [of s] enter_twice [of s] by force

lemma guarded_body:
  assumes "outside s" "\<And>s. inside s \<Longrightarrow> \<exists>s'. body s = Inr s' \<and> inside s'"
  shows "\<exists>s'. bindE (enter s) (\<lambda>s. bindE (body s) leave) = Inr s' \<and> outside s'"
proof -
  from enter_ok [OF assms(1)] obtain s1 where 1: "enter s = Inr s1" "inside s1" by blast
  from assms(2) [OF 1(2)] obtain s2 where 2: "body s1 = Inr s2" "inside s2" by blast
  from leave_ok [OF 2(2)] 1 2 show ?thesis by simp
qed

lemma guarded_loop:
  assumes "outside s" "\<And>i s. i \<in> set is \<Longrightarrow> inside s \<Longrightarrow> \<exists>s'. body i s = Inr s' \<and> inside s'"
  shows "\<exists>s'. forE (\<lambda>i s. bindE (enter s) (\<lambda>s. bindE (body i s) leave)) is s = Inr s' \<and> outside s'"
  using assms
proof (induction "is" arbitrary: s)
  case Nil
  then show ?case by simp
next
  case (Cons i "is")
  have "\<exists>s'. bindE (enter s) (\<lambda>s. bindE (body i s) leave) = Inr s' \<and> outside s'"
    using Cons.prems by (intro guarded_body) auto
  with Cons.IH Cons.prems show ?case by fastforce
qed

end

definition lock_free :: "spinlock \<times> hart \<Rightarrow> bool" where
  "lock_free = (\<lambda>(lk, h). locked lk = 0 \<and> hart_ok h)"

definition lock_held :: "spinlock \<times> hart \<Rightarrow> bool" where
  "lock_held = (\<lambda>(lk, h). holding lk h \<and> hart_ok h \<and> 0 < noff h)"

lemma acquire_free:
  "locked lk = 0 \<Longrightarrow> acquire (lk, h) = Inr (lk\<lparr>locked := 1, lk_cpu := Some (mycpu h)\<rparr>, push_off h)"
  by (simp add: acquire_def holding_def Let_def)

lemma acquire_held: "holding lk h \<Longrightarrow> acquire (lk, h) = Inl (Panic ''acquire when holding'')"
  by (simp add: acquire_def holding_def Let_def)

lemma acquire_other:
  "locked lk \<noteq> 0 \<Longrightarrow> lk_cpu lk \<noteq> Some (mycpu h) \<Longrightarrow> acquire (lk, h) = Inl (Hang ''acquire'')"
  by (simp add: acquire_def holding_def Let_def)

lemma release_unheld: "\<not> holding lk h \<Longrightarrow> release (lk, h) = Inl (Panic ''release when not holding'')"
  by (simp add: release_def)

lemma pop_off_ok:
  assumes "hart_ok h" "0 < noff h"
  shows "\<exists>h'. pop_off h = Inr h' \<and> hart_ok h' \<and> noff h' = noff h - 1 \<and> tp h' = tp h \<and> cpu_proc h' = cpu_proc h"
  using assms by (auto simp: pop_off_def hart_ok_def Let_def)

interpretation spin: critical_section acquire release lock_free lock_held
proof (unfold_locales, goal_cases)
  case (1 s)
  then show ?case
    by (cases s) (auto simp: lock_free_def lock_held_def acquire_free holding_def push_off_ok hart_ok_def)
next
  case (2 s)
  then obtain lk h where s: "s = (lk, h)" "holding lk h" "hart_ok h" "0 < noff h"
    by (cases s) (auto simp: lock_held_def)
  with pop_off_ok [of h] show ?case by (auto simp: release_def lock_free_def)
next
  case (3 s)
  then show ?case by (cases s) (auto simp: lock_held_def acquire_held)
next
  case (4 s)
  then show ?case by (cases s) (auto simp: lock_free_def holding_def release_unheld)
qed

text \<open>A whole section on a free lock: the lock is free again and interrupts are as before.\<close>

lemma release_acquired:
  assumes "locked lk = 0" "hart_ok h"
  shows "bindE (acquire (lk, h)) release = Inr (lk\<lparr>locked := 0, lk_cpu := None\<rparr>, settled h)"
  using assms by (simp add: acquire_free release_def holding_def pop_push_off mycpu_def)

text \<open>A lock nobody holds, as \<open>initlock\<close> and \<open>release\<close> leave it, and the same lock held by the hart.\<close>

definition idle :: "spinlock \<Rightarrow> bool" where "idle lk \<longleftrightarrow> locked lk = 0 \<and> lk_cpu lk = None"

definition held :: "spinlock \<Rightarrow> hart \<Rightarrow> spinlock" where
  "held lk h = lk\<lparr>locked := 1, lk_cpu := Some (mycpu h)\<rparr>"

lemma holding_held [simp]: "mycpu h' = mycpu h \<Longrightarrow> holding (held lk h) h'"
  by (simp add: holding_def held_def)

lemma acquire_idle: "idle lk \<Longrightarrow> acquire (lk, h) = Inr (held lk h, push_off h)"
  by (simp add: acquire_free idle_def held_def)

lemma release_held: "idle lk \<Longrightarrow> hart_ok h \<Longrightarrow> release (held lk h, push_off h) = Inr (lk, settled h)"
  by (cases lk) (simp add: release_def pop_push_off held_def idle_def holding_def)

lemma idle_initlock [simp]: "idle (initlock name lk)"
  by (simp add: idle_def initlock_def)

lemma settled_ok [simp]: "hart_ok (settled h) = hart_ok h"
  by (simp add: hart_ok_def)

lemma mycpu_settled [simp]: "mycpu (settled h) = mycpu h"
  by (simp add: mycpu_def)

end
