(* ===== verification/Kernel_State.thy ===== *)
theory Kernel_State
  imports Kalloc Spinlock
begin

text \<open>
  The global state of the kernel: the variables of \<open>proc.c\<close>, \<open>file.c\<close>, \<open>console.c\<close>, \<open>vm.c\<close> and
  \<open>trap.c\<close>, with the hart, the RAM and the two sides of the UART. The records follow
  \<open>proc.h\<close> and \<open>file.h\<close>; a pointer to an element of a global array is its index, a pointer into
  RAM is its address.
\<close>

section \<open>Files\<close>

datatype file_type = FD_NONE | FD_PIPE | FD_INODE | FD_CONSOLE

record kfile =
  ftype :: file_type
  ref :: u32
  readable :: u32
  writable :: u32
  fpipe :: u64
  finode :: u64
  foff :: u32

section \<open>Processes\<close>

datatype task_status =
  TASK_FREE | TASK_ALLOCATED | TASK_READY | TASK_RUNNING | TASK_SLEEPING | TASK_ZOMBIE

text \<open>The twelve callee-saved registers, the return address and the stack pointer.\<close>

record kcontext =
  ctx_s :: "u64 list"
  ctx_ra :: u64
  ctx_sp :: u64

record proc =
  plock :: spinlock
  status :: task_status
  pid :: u32
  pagetable :: u64
  trapframe :: u64
  pcontext :: kcontext
  kstack :: u64
  sz :: u64
  pname :: "u8 list"
  parent :: "nat option"
  xstate :: u32
  killed :: u32
  chan :: u64
  ofile :: "nat option list"

section \<open>Console\<close>

record console =
  cons_lock :: spinlock
  cons_buf :: "u8 list"
  cons_r :: u32
  cons_w :: u32
  cons_e :: u32

section \<open>Control and status registers\<close>

text \<open>
  The registers of \<open>riscv.h\<close> other than \<open>sstatus\<close> and \<open>tp\<close>, which the hart record holds, and the two
  timer registers of the CLINT.
\<close>

record csr =
  mstatus :: u64
  mepc :: u64
  medeleg :: u64
  mideleg :: u64
  mtvec :: u64
  mie :: u64
  mscratch :: u64
  mhartid :: u64
  pmpaddr0 :: u64
  pmpcfg0 :: u64
  sip :: u64
  sie :: u64
  sepc :: u64
  stvec :: u64
  scause :: u64
  stval :: u64
  satp :: u64
  mtime :: u64
  mtimecmp :: u64

section \<open>The kernel\<close>

text \<open>
  \<open>uart_tx\<close> are the bytes sent so far, \<open>uart_rx\<close> the bytes the device holds for the kernel,
  \<open>plic_irq\<close> the request the PLIC would hand out next and \<open>mmio\<close> the writes to its registers and to
  the UART's interrupt-enable register, in order.
\<close>

record kernel =
  mem :: phys
  hart :: hart
  procs :: "proc list"
  nextpid :: u32
  pidlock :: spinlock
  initproc :: "nat option"
  files :: "kfile list"
  kernel_pagetable :: u64
  cons :: console
  uart_tx :: "u8 list"
  uart_rx :: "u8 list"
  plic_irq :: u32
  mmio :: "(u64 \<times> u64) list"
  csrs :: csr
  times :: u32

text \<open>
  What the C sources leave open: the addresses the linker gives to the assembly entry points, to the
  embedded programs and to a string literal, the addresses the compiler gives to local arrays, the
  context switch, and what happens elsewhere while a loop waits. \<open>swtch k\<close> is the state in which
  the context saved in \<open>k\<close> runs again.
\<close>

record user_program =
  up_name :: u64
  up_func :: u64
  up_size :: u64

record world =
  a_trampoline :: u64
  a_uservec :: u64
  a_userret :: u64
  a_forkret :: u64
  a_usertrap :: u64
  a_sys_trap_vector :: u64
  a_sh :: u64
  programs :: "user_program list"
  l_console_buf :: u64
  l_write_buf :: u64
  l_path :: u64
  l_argv :: u64
  l_uarg :: u64
  l_fd :: u64
  l_ustack :: u64
  keys :: "u32 list list"
  pipe_env :: "(phys \<Rightarrow> phys) list"
  wait_env :: "(kernel \<Rightarrow> kernel) list"
  swtch :: "kernel \<Rightarrow> kernel outcome"

text \<open>Routines of the lower layers on the global state.\<close>

definition on_mem :: "(phys \<Rightarrow> ('a \<times> phys) outcome) \<Rightarrow> kernel \<Rightarrow> ('a \<times> kernel) outcome" where
  "on_mem f k = bindE (f (mem k)) (\<lambda>(a, ph). Inr (a, k\<lparr>mem := ph\<rparr>))"

definition on_hart :: "(hart \<Rightarrow> hart) \<Rightarrow> kernel \<Rightarrow> kernel" where
  "on_hart f k = k\<lparr>hart := f (hart k)\<rparr>"

definition on_plock :: "(spinlock \<times> hart \<Rightarrow> (spinlock \<times> hart) outcome) \<Rightarrow> nat \<Rightarrow> kernel \<Rightarrow> kernel outcome" where
  "on_plock f i k =
     bindE (f (plock (procs k ! i), hart k)) (\<lambda>(lk, h).
     Inr (k\<lparr>procs := (procs k)[i := (procs k ! i)\<lparr>plock := lk\<rparr>], hart := h\<rparr>))"

definition on_cons_lock :: "(spinlock \<times> hart \<Rightarrow> (spinlock \<times> hart) outcome) \<Rightarrow> kernel \<Rightarrow> kernel outcome" where
  "on_cons_lock f k =
     bindE (f (cons_lock (cons k), hart k)) (\<lambda>(lk, h).
     Inr (k\<lparr>cons := (cons k)\<lparr>cons_lock := lk\<rparr>, hart := h\<rparr>))"

definition on_pidlock :: "(spinlock \<times> hart \<Rightarrow> (spinlock \<times> hart) outcome) \<Rightarrow> kernel \<Rightarrow> kernel outcome" where
  "on_pidlock f k =
     bindE (f (pidlock k, hart k)) (\<lambda>(lk, h). Inr (k\<lparr>pidlock := lk, hart := h\<rparr>))"

text \<open>\<open>myproc()\<close>: interrupts are off while \<open>mycpu()->proc\<close> is read.\<close>

definition myproc :: "kernel \<Rightarrow> (nat option \<times> kernel) outcome" where
  "myproc k =
     (let h = push_off (hart k);
          p = cpu_proc h
      in bindE (pop_off h) (\<lambda>h. Inr (p, k\<lparr>hart := h\<rparr>)))"

lemma myproc_eq: "hart_ok (hart k) \<Longrightarrow> myproc k = Inr (cpu_proc (hart k), k\<lparr>hart := settled (hart k)\<rparr>)"
  by (simp add: myproc_def pop_push_off Let_def)

end
