(* ===== verification/Ring_Buffer.thy ===== *)
theory Ring_Buffer
  imports Kernel_Prelude
begin

text \<open>
  Rings indexed by free-running 32-bit counters, as the console input buffer (128 bytes) and the
  pipes (512 bytes) use them: byte \<open>i\<close> of the queue stands in slot \<open>(r + i) mod size\<close>, and the number
  of bytes is \<open>w - r\<close>. The counters wrap at \<open>2 ^ 32\<close>; this is sound because the size divides it.
\<close>

locale ring =
  fixes size :: u32
  assumes size_dvd: "unat size dvd 2 ^ 32"
begin

definition contents :: "(u32 \<Rightarrow> 'a) \<Rightarrow> u32 \<Rightarrow> u32 \<Rightarrow> 'a list" where
  "contents buf r w = map (\<lambda>i. buf ((r + of_nat i) mod size)) [0..<unat (w - r)]"

lemma size_pos: "0 < unat size"
proof (rule ccontr)
  assume "\<not> 0 < unat size"
  with size_dvd show False by simp
qed

lemma slot: "unat ((r + of_nat i) mod size) = (unat r + i) mod unat size"
proof -
  have "unat (r + of_nat i) = (unat r + i) mod 2 ^ 32"
    by (simp add: unat_word_ariths unat_of_nat mod_add_right_eq)
  then show ?thesis using size_dvd by (simp add: unat_mod mod_mod_cancel)
qed

lemma slot_inj:
  assumes "i < unat size" "j < unat size" "(r + of_nat i) mod size = (r + of_nat j) mod size"
  shows "i = j"
proof -
  have "(unat r + i) mod unat size = (unat r + j) mod unat size"
    using assms(3) slot [of r i] slot [of r j] by simp
  then have "int (unat size) dvd int (unat r + i) - int (unat r + j)"
    by (simp only: mod_eq_dvd_iff [symmetric] zmod_int [symmetric])
  then have d: "int (unat size) dvd int i - int j" by simp
  have "\<bar>int i - int j\<bar> < int (unat size)" using assms(1,2) by linarith
  show ?thesis
  proof (rule ccontr)
    assume "i \<noteq> j"
    then have "int i - int j \<noteq> 0" by simp
    from dvd_imp_le_int [OF this d] \<open>\<bar>int i - int j\<bar> < int (unat size)\<close> show False by simp
  qed
qed

lemma length_contents [simp]: "length (contents buf r w) = unat (w - r)"
  by (simp add: contents_def)

lemma contents_empty_iff: "contents buf r w = [] \<longleftrightarrow> r = w"
  by (auto simp: contents_def unat_eq_zero)

text \<open>Storing at the write counter appends; advancing the read counter drops.\<close>

lemma contents_store:
  assumes "unat (w - r) < unat size"
  shows "contents (buf(w mod size := c)) r (w + 1) = contents buf r w @ [c]"
proof -
  define n where "n = unat (w - r)"
  have n: "n < unat size" "w = r + of_nat n" using assms by (simp_all add: n_def)
  have "unat size \<le> 2 ^ 32" using size_dvd by (simp add: dvd_imp_le)
  moreover have "unat size < 2 ^ 32" using unsigned_less [of size] by simp
  ultimately have "unat (w + 1 - r) = Suc n"
    using n by (simp add: unat_word_ariths unat_of_nat)
  moreover have "buf' ((r + of_nat i) mod size) = buf ((r + of_nat i) mod size)"
    if "i < n" "buf' = buf(w mod size := c)" for i buf'
    using slot_inj [of i n r] that n by auto
  ultimately show ?thesis
    unfolding contents_def n_def [symmetric] by (simp add: n(2))
qed

lemma contents_drop:
  assumes "r \<noteq> w"
  shows "contents buf r w = buf (r mod size) # contents buf (r + 1) w"
proof -
  define n where "n = unat (w - (r + 1))"
  have "w - (r + 1) = (w - r) - 1" by simp
  moreover have "w - r \<noteq> 0" using assms by simp
  ultimately have "unat (w - r) = Suc n" unfolding n_def
    using unat_minus_one [of "w - r"] by (metis Suc_pred' unat_gt_0)
  then show ?thesis
    unfolding contents_def n_def [symmetric] by (simp add: map_upt_Suc add.assoc del: upt_Suc)
qed

text \<open>Several bytes at once, and what happens outside the occupied slots does not matter.\<close>

lemma contents_cong:
  assumes "\<And>i. i < unat (w - r) \<Longrightarrow> buf' ((r + of_nat i) mod size) = buf ((r + of_nat i) mod size)"
  shows "contents buf' r w = contents buf r w"
  using assms by (simp add: contents_def)

lemma size_less: "unat size < 2 ^ 32"
  using unsigned_less [of size] by simp

lemma advance:
  fixes r w :: u32
  assumes "n = unat (w - r)" "n + k \<le> unat size"
  shows "w = r + of_nat n" "unat (w + of_nat k - r) = n + k"
proof -
  show w: "w = r + of_nat n" using assms(1) by simp
  have "n + k < 2 ^ 32" using assms(2) size_less by linarith
  then show "unat (w + of_nat k - r) = n + k"
    unfolding w by (simp add: unat_word_ariths unat_of_nat)
qed

lemma contents_store_many:
  assumes "unat (w - r) + length bs \<le> unat size"
    and new: "\<And>i. i < length bs \<Longrightarrow> buf' ((w + of_nat i) mod size) = bs ! i"
    and old: "\<And>i. i < unat (w - r) \<Longrightarrow> buf' ((r + of_nat i) mod size) = buf ((r + of_nat i) mod size)"
  shows "contents buf' r (w + of_nat (length bs)) = contents buf r w @ bs"
proof -
  define n where "n = unat (w - r)"
  note a = advance [OF n_def assms(1) [folded n_def]]
  have "buf' ((r + of_nat (n + i)) mod size) = bs ! i" if "i < length bs" for i
    using new [OF that] a(1) by (simp add: add.assoc)
  then have "contents buf' r (w + of_nat (length bs)) =
      map (\<lambda>i. buf' ((r + of_nat i) mod size)) [0..<n] @ map (\<lambda>i. bs ! i) [0..<length bs]"
    unfolding contents_def a(2) upt_split_map by simp
  also have "map (\<lambda>i. buf' ((r + of_nat i) mod size)) [0..<n] = contents buf r w"
    using old by (simp add: contents_def n_def)
  finally show ?thesis by (simp add: map_nth)
qed

lemma contents_drop_many:
  assumes "k \<le> unat (w - r)" "unat (w - r) \<le> unat size"
  shows "contents buf r w = map (\<lambda>i. buf ((r + of_nat i) mod size)) [0..<k] @ contents buf (r + of_nat k) w"
    and "unat (w - (r + of_nat k)) = unat (w - r) - k"
proof -
  have k: "unat (of_nat k :: u32) = k" using assms size_less by (simp add: unat_of_nat)
  have "w - (r + of_nat k) = (w - r) - of_nat k" by simp
  then show d: "unat (w - (r + of_nat k)) = unat (w - r) - k"
    using assms(1) k by (simp only: unat_sub word_le_nat_alt)
  define n where "n = unat (w - r) - k"
  have n: "unat (w - r) = k + n" using assms(1) by (simp add: n_def)
  show "contents buf r w = map (\<lambda>i. buf ((r + of_nat i) mod size)) [0..<k] @ contents buf (r + of_nat k) w"
    unfolding contents_def d n upt_split_map by (simp add: add.assoc)
qed

end

interpretation console_ring: ring 128
  by unfold_locales simp

interpretation pipe_ring: ring 512
  by unfold_locales simp

end
