(* ===== verification/Console.thy ===== *)
theory Console
  imports Kernel_State Ring_Buffer Vm
begin

text \<open>
  Console output and input: \<open>kernel/driver/console.c\<close> and \<open>uart.c\<close>. Output is the list of bytes
  written to the UART; input goes through a ring of 128 bytes that the interrupt handler fills and
  \<open>console_read\<close> empties.
\<close>

section \<open>uart.c\<close>

definition uart_putc :: "u8 \<Rightarrow> kernel \<Rightarrow> kernel" where
  "uart_putc c k = k\<lparr>uart_tx := uart_tx k @ [c]\<rparr>"

text \<open>The bytes of a terminated string; \<^const>\<open>None\<close> when no terminator follows.\<close>

partial_function (option) cstring_from :: "memory \<Rightarrow> u64 \<Rightarrow> u8 list option" where
  "cstring_from m s =
     (if m s \<noteq> 0 then Option.bind (cstring_from m (s + 1)) (\<lambda>cs. Some (m s # cs)) else Some [])"

definition uart_puts :: "u64 \<Rightarrow> kernel \<Rightarrow> kernel outcome" where
  "uart_puts s k =
     (case cstring_from (ram (mem k)) s of
        None \<Rightarrow> Inl (Hang ''uart_puts'')
      | Some cs \<Rightarrow> Inr (fold uart_putc cs k))"

text \<open>The receive-ready bit of LSR is set while the device holds a byte; reading RHR takes it.\<close>

definition uart_getc :: "kernel \<Rightarrow> u32 \<times> kernel" where
  "uart_getc k =
     (case uart_rx k of [] \<Rightarrow> (- 1, k) | c # cs \<Rightarrow> (ucast c, k\<lparr>uart_rx := cs\<rparr>))"

section \<open>printint and printf\<close>

definition digits :: "u8 list" where
  "digits = [48, 49, 50, 51, 52, 53, 54, 55, 56, 57, 97, 98, 99, 100, 101, 102]"

text \<open>
  The \<open>do ... while\<close> loop of \<open>printint\<close>, least digit first. The first argument counts the slots left
  in \<open>buf[16]\<close>.
\<close>

primrec printint_loop :: "nat \<Rightarrow> u32 \<Rightarrow> u32 \<Rightarrow> u8 list outcome" where
  "printint_loop 0 x base = Inl (OutOfBounds ''printint: buf'')"
| "printint_loop (Suc slots) x base =
     (if length digits \<le> unat (x mod base) then Inl (OutOfBounds ''printint: digits'')
      else
        let digit = digits ! unat (x mod base); x = x div base in
        if x \<noteq> 0 then bindE (printint_loop slots x base) (\<lambda>buf. Inr (digit # buf)) else Inr [digit])"

definition printint :: "u32 \<Rightarrow> u32 \<Rightarrow> bool \<Rightarrow> u8 list outcome" where
  "printint xx base sign =
     (let (x, sign) = (if sign \<and> xx <s 0 then (- xx, True) else (xx, False)) in
      bindE (printint_loop 16 x base) (\<lambda>buf.
        if sign then if length buf < 16 then Inr (rev (buf @ [45])) else Inl (OutOfBounds ''printint: buf'')
        else Inr (rev buf)))"

text \<open>
  The variadic arguments are the argument registers in order. \<open>printf_loop\<close> yields the bytes sent
  for a format, given without its terminator.
\<close>

definition va_arg :: "u64 list \<Rightarrow> (u64 \<times> u64 list) outcome" where
  "va_arg ap = (case ap of [] \<Rightarrow> Inl (OutOfBounds ''va_arg'') | a # ap \<Rightarrow> Inr (a, ap))"

definition null_text :: "u8 list" where "null_text = [40, 110, 117, 108, 108, 41]"

fun printf_loop :: "memory \<Rightarrow> u8 list \<Rightarrow> u64 list \<Rightarrow> u8 list outcome" where
  "printf_loop m [] ap = Inr []"
| "printf_loop m (c # fmt) ap =
     (if c \<noteq> 37 then bindE (printf_loop m fmt ap) (\<lambda>out. Inr (c # out))
      else
        case fmt of [] \<Rightarrow> Inr []
        | f # fmt \<Rightarrow>
          if f = 100 then
            bindE (va_arg ap) (\<lambda>(a, ap). bindE (printint (ucast a) 10 True) (\<lambda>s.
            bindE (printf_loop m fmt ap) (\<lambda>out. Inr (s @ out))))
          else if f = 120 then
            bindE (va_arg ap) (\<lambda>(a, ap). bindE (printint (ucast a) 16 False) (\<lambda>s.
            bindE (printf_loop m fmt ap) (\<lambda>out. Inr (s @ out))))
          else if f = 112 then
            bindE (va_arg ap) (\<lambda>(a, ap). bindE (printint (ucast a) 16 False) (\<lambda>s.
            bindE (printf_loop m fmt ap) (\<lambda>out. Inr ([48, 120] @ s @ out))))
          else if f = 115 then
            bindE (va_arg ap) (\<lambda>(a, ap).
            bindE (if a = 0 then Inr null_text
                   else case cstring_from m a of None \<Rightarrow> Inl (Hang ''printf: %s'') | Some s \<Rightarrow> Inr s) (\<lambda>s.
            bindE (printf_loop m fmt ap) (\<lambda>out. Inr (s @ out))))
          else if f = 99 then
            bindE (va_arg ap) (\<lambda>(a, ap).
            bindE (printf_loop m fmt ap) (\<lambda>out. Inr (ucast a # out)))
          else if f = 37 then bindE (printf_loop m fmt ap) (\<lambda>out. Inr (37 # out))
          else bindE (printf_loop m fmt ap) (\<lambda>out. Inr ([37, f] @ out)))"

definition printf :: "u8 list \<Rightarrow> u64 list \<Rightarrow> kernel \<Rightarrow> kernel outcome" where
  "printf fmt ap k =
     bindE (printf_loop (ram (mem k)) fmt ap) (\<lambda>out. Inr (fold uart_putc out k))"

definition clear_screen :: "kernel \<Rightarrow> kernel outcome" where
  "clear_screen k =
     bindE (printf [0x1b, 91, 50, 74] [] k) (\<lambda>k. printf [0x1b, 91, 72] [] k)"

text \<open>
  \<open>panic\<close> prints the reason and spins: its value is the state in which it does. Elsewhere a panic is
  the error \<^const>\<open>Panic\<close> with the reason; \<open>msg\<close> is the address of the text.
\<close>

definition panic :: "u64 \<Rightarrow> kernel \<Rightarrow> kernel outcome" where
  "panic msg k =
     bindE (printf [10, 10] [] k) (\<lambda>k.
     bindE (printf (map of_char ''!!! KERNEL PANIC !!!'' @ [10]) [] k) (\<lambda>k.
     bindE (printf (map of_char ''Reason: %s'' @ [10]) [msg] k) (\<lambda>k.
     printf (map of_char ''System halted.'' @ [10]) [] k)))"

section \<open>Input\<close>

definition consoleinit :: "kernel \<Rightarrow> kernel" where
  "consoleinit k =
     k\<lparr>cons := (cons k)\<lparr>cons_lock := initlock ''console lock'' (cons_lock (cons k)), cons_w := 0, cons_r := 0, cons_e := 0\<rparr>\<rparr>"

definition INPUT_BUF_SIZE :: u32 where [simp]: "INPUT_BUF_SIZE = 128"

definition console_intr :: "u32 \<Rightarrow> kernel \<Rightarrow> kernel outcome" where
  "console_intr c k =
     (if c <s 0 then Inr k
      else
        let c = (if c = 13 then 10 else c) in
        bindE (on_cons_lock acquire k) (\<lambda>k.
        let cs = cons k;
            k = (if cons_e cs - cons_r cs < INPUT_BUF_SIZE
                 then k\<lparr>cons := cs\<lparr>cons_buf := (cons_buf cs)[unat (cons_e cs mod INPUT_BUF_SIZE) := ucast c],
                       cons_e := cons_e cs + 1, cons_w := cons_e cs + 1\<rparr>\<rparr>
                 else k)
        in bindE (on_cons_lock release k) (\<lambda>k.
        Inr (uart_putc (ucast c) k))))"

text \<open>
  The loop of \<open>console_read\<close> waits with interrupts on, so characters may arrive before each turn:
  \<open>arr\<close> lists the arrivals turn by turn. When no more will come and the ring is empty the loop does
  not end. \<open>acc\<close> is \<open>buf[0..n-1]\<close>.
\<close>

function console_read_loop :: "u32 list list \<Rightarrow> nat \<Rightarrow> u8 list \<Rightarrow> kernel \<Rightarrow> (u8 list \<times> kernel) outcome" where
  "console_read_loop arr len acc k =
     (if length acc < len then
        bindE (forE console_intr (case arr of [] \<Rightarrow> [] | a # _ \<Rightarrow> a) k) (\<lambda>k.
        bindE (on_cons_lock acquire k) (\<lambda>k.
        let cs = cons k in
        if cons_r cs = cons_w cs then
          bindE (on_cons_lock release k) (\<lambda>k.
          case arr of [] \<Rightarrow> Inl (Hang ''console_read'') | _ # arr \<Rightarrow> console_read_loop arr len acc k)
        else
          let c = cons_buf cs ! unat (cons_r cs mod INPUT_BUF_SIZE);
              k = k\<lparr>cons := cs\<lparr>cons_r := cons_r cs + 1\<rparr>\<rparr>
          in bindE (on_cons_lock release k) (\<lambda>k.
             if c = 10 then Inr (acc @ [c], k) else console_read_loop (tl arr) len (acc @ [c]) k)))
      else Inr (acc, k))"
  by pat_completeness auto
termination
  by (relation "measure (\<lambda>(arr, len, acc, k). length arr + (len - length acc))") auto

declare console_read_loop.simps [simp del]

text \<open>\<open>buf\<close> is the address the compiler gave the local array.\<close>

definition store_bytes :: "u64 \<Rightarrow> u8 list \<Rightarrow> memory \<Rightarrow> memory" where
  "store_bytes a bs m = (\<lambda>x. if unat (x - a) < length bs then bs ! unat (x - a) else m x)"

definition console_read :: "u32 list list \<Rightarrow> u64 \<Rightarrow> u64 \<Rightarrow> u32 \<Rightarrow> kernel \<Rightarrow> (u32 \<times> kernel) outcome" where
  "console_read arr buf dst len k =
     bindE (myproc k) (\<lambda>(p, k).
     if len \<le>s 0 then Inr (0, k)
     else
       let len = (if (ucast len :: u64) > 128 then 128 else len) in
       bindE (console_read_loop arr (unat len) [] k) (\<lambda>(bs, k).
       let k = k\<lparr>mem := (mem k)\<lparr>ram := store_bytes buf bs (ram (mem k))\<rparr>\<rparr> in
       case p of None \<Rightarrow> Inl (NullDeref ''console_read: p->pagetable'')
       | Some i \<Rightarrow>
         bindE (on_mem (copyout (pagetable (procs k ! i)) dst buf (of_nat (length bs))) k) (\<lambda>(rc, k).
         Inr (if rc <s 0 then (- 1, k) else (of_nat (length bs), k)))))"

section \<open>Numbers\<close>

definition digit_value :: "u8 \<Rightarrow> nat" where
  "digit_value d = (if d \<le> 57 then unat d - 48 else unat d - 87)"

text \<open>The number a text of digits stands for, most significant digit first.\<close>

definition radix_value :: "nat \<Rightarrow> u8 list \<Rightarrow> nat" where
  "radix_value b ds = foldl (\<lambda>a d. a * b + digit_value d) 0 ds"

lemma radix_value_snoc [simp]: "radix_value b (ds @ [d]) = radix_value b ds * b + digit_value d"
  by (simp add: radix_value_def)

lemma radix_value_Nil [simp]: "radix_value b [] = 0"
  by (simp add: radix_value_def)

lemma digits_facts:
  assumes "n < 16"
  shows "digit_value (digits ! n) = n" "digits ! n = 48 \<longleftrightarrow> n = 0" "n < 10 \<Longrightarrow> digits ! n \<in> {48..57}"
proof -
  have "\<forall>n\<in>set [0..<16]. digit_value (digits ! n) = n \<and> (digits ! n = 48 \<longleftrightarrow> n = 0) \<and>
      (n < 10 \<longrightarrow> 48 \<le> digits ! n \<and> digits ! n \<le> 57)"
    by code_simp
  then show "digit_value (digits ! n) = n" "digits ! n = 48 \<longleftrightarrow> n = 0" "n < 10 \<Longrightarrow> digits ! n \<in> {48..57}"
    using assms by auto
qed

lemma printint_loop_value:
  assumes "2 \<le> unat base" "unat base \<le> 16" "0 < k" "k \<le> slots" "unat x < unat base ^ k"
  shows "\<exists>buf. printint_loop slots x base = Inr buf \<and> radix_value (unat base) (rev buf) = unat x \<and>
    buf \<noteq> [] \<and> length buf \<le> k \<and> (last buf = 48 \<longrightarrow> buf = [48]) \<and>
    (unat base \<le> 10 \<longrightarrow> set buf \<subseteq> {48..57})"
  using assms
proof (induction slots arbitrary: x k)
  case 0
  then show ?case by simp
next
  case (Suc slots)
  let ?b = "unat base"
  define d where "d = unat (x mod base)"
  have d: "d = unat x mod ?b" "d < 16" using Suc.prems(1,2) by (simp_all add: d_def unat_mod)
      (metis less_le_trans mod_less_divisor less_le_trans zero_less_numeral order_less_le_trans)
  have q: "unat (x div base) = unat x div ?b" by (simp add: unat_div)
  have len: "\<not> length digits \<le> d" using d by (simp add: digits_def)
  note dd = digits_facts [OF d(2)]
  have ten: "?b \<le> 10 \<longrightarrow> digits ! d \<in> {48..57}" using dd(3) d(1) Suc.prems(1)
    by (metis less_le_trans mod_less_divisor order_less_le_trans zero_less_numeral)
  have split: "unat x = unat x div ?b * ?b + d" unfolding d(1) by (rule div_mult_mod_eq [symmetric])
  show ?case
  proof (cases "x div base = 0")
    case True
    then have "unat x div ?b = 0" using q by simp
    then have "unat x = d" using split by simp
    moreover have "printint_loop (Suc slots) x base = Inr [digits ! d]"
      using True len by (simp add: d_def)
    ultimately show ?thesis using dd ten Suc.prems(3) by (intro exI [of _ "[digits ! d]"]) (auto simp: radix_value_def)
  next
    case False
    then have "0 < unat x div ?b" using q by (metis gr0I unat_eq_zero)
    then have "?b \<le> unat x" using Suc.prems(1) by (simp add: div_greater_zero_iff)
    then have "?b ^ 1 < ?b ^ k" using Suc.prems(5) by simp
    then have k: "1 < k" using Suc.prems(1) power_less_imp_less_exp [of ?b 1 k] by simp
    then obtain k' where k': "k = Suc k'" "0 < k'" by (cases k) auto
    have "unat (x div base) < ?b ^ k'"
      using Suc.prems(5) unfolding q k'(1) power_Suc by (simp add: less_mult_imp_div_less mult.commute)
    from Suc.IH [OF Suc.prems(1,2) k'(2) _ this] Suc.prems(4) k' obtain buf where
      b: "printint_loop slots (x div base) base = Inr buf" "radix_value ?b (rev buf) = unat x div ?b"
      "buf \<noteq> []" "length buf \<le> k'" "last buf = 48 \<longrightarrow> buf = [48]" "?b \<le> 10 \<longrightarrow> set buf \<subseteq> {48..57}"
      by (auto simp: q)
    have "printint_loop (Suc slots) x base = Inr (digits ! d # buf)"
      using False len b(1) by (simp add: d_def Let_def)
    moreover have "radix_value ?b (rev (digits ! d # buf)) = unat x"
      using b(2) dd(1) split by simp
    moreover have "last (digits ! d # buf) = 48 \<longrightarrow> digits ! d # buf = [48]"
    proof
      assume "last (digits ! d # buf) = 48"
      then have "buf = [48]" using b(3,5) by simp
      then have "unat x div ?b = 0" using b(2) by (simp add: radix_value_def digit_value_def)
      with \<open>0 < unat x div ?b\<close> show "digits ! d # buf = [48]" by simp
    qed
    moreover have "?b \<le> 10 \<longrightarrow> set (digits ! d # buf) \<subseteq> {48..57}" using ten b(6) by simp
    ultimately show ?thesis using b(3,4) k' by (intro exI [of _ "digits ! d # buf"]) simp
  qed
qed

lemma unat_neg_signed:
  fixes x :: u32
  assumes "x <s 0"
  shows "int (unat (- x)) = - sint x"
proof -
  have neg: "sint x < 0" using assms by (simp add: word_sless_alt)
  have lo: "- (2 ^ 31) \<le> sint x" using sint_ge [of x] by simp
  have "uint (- x) = uint (word_of_int (- sint x) :: u32)" by simp
  also have "\<dots> = (- sint x) mod 2 ^ 32" by (simp only: uint_word_of_int) simp
  also have "\<dots> = - sint x" using neg lo by simp
  finally show ?thesis by (simp add: uint_nat [symmetric])
qed

text \<open>
  What is printed is the number: the digits read back give the value, without superfluous leading
  zeros, and never more than fit the sixteen slots of \<open>buf\<close>.
\<close>

definition numeral_text :: "nat \<Rightarrow> u8 list \<Rightarrow> nat \<Rightarrow> bool" where
  "numeral_text b ds n \<longleftrightarrow>
     radix_value b ds = n \<and> ds \<noteq> [] \<and> (hd ds = 48 \<longrightarrow> ds = [48]) \<and> (b \<le> 10 \<longrightarrow> set ds \<subseteq> {48..57})"

lemma printint_loop_text:
  assumes "2 \<le> unat base" "unat base \<le> 16" "0 < k" "k \<le> 16" "unat x < unat base ^ k"
  obtains buf where "printint_loop 16 x base = Inr buf" "numeral_text (unat base) (rev buf) (unat x)"
    "length buf \<le> k"
proof -
  from printint_loop_value [OF assms] obtain buf where
    b: "printint_loop 16 x base = Inr buf" "radix_value (unat base) (rev buf) = unat x" "buf \<noteq> []"
    "length buf \<le> k" "last buf = 48 \<longrightarrow> buf = [48]" "unat base \<le> 10 \<longrightarrow> set buf \<subseteq> {48..57}" by blast
  have hd: "hd (rev buf) = 48 \<longrightarrow> rev buf = [48]" using b(3,5) by (auto simp: hd_rev)
  have "numeral_text (unat base) (rev buf) (unat x)"
    unfolding numeral_text_def by (intro conjI) (rule b(2), simp add: b(3), rule hd, simp add: b(6))
  with b(1,4) show thesis using that by blast
qed

lemma printint_signed:
  "\<exists>ds. printint xx 10 True = Inr ((if sint xx < 0 then [45] else []) @ ds) \<and>
        numeral_text 10 ds (nat \<bar>sint xx\<bar>) \<and> length ds \<le> 10"
proof -
  define x where "x = (if xx <s 0 then - xx else xx)"
  have x: "int (unat x) = \<bar>sint xx\<bar>"
  proof (cases "xx <s 0")
    case True
    moreover have "sint xx < 0" using True by (simp add: word_sless_alt)
    ultimately show ?thesis using unat_neg_signed [OF True] by (simp add: x_def)
  next
    case False
    then have pos: "0 \<le> sint xx" by (simp add: word_sless_alt)
    have "uint xx = uint (word_of_int (sint xx) :: u32)" by simp
    also have "\<dots> = sint xx mod 2 ^ 32" by (simp only: uint_word_of_int) simp
    also have "\<dots> = sint xx" using pos sint_lt [of xx] by simp
    finally have "uint xx = sint xx" .
    then show ?thesis using False pos by (simp add: x_def)
  qed
  have "\<bar>sint xx\<bar> \<le> 2147483648" using sint_ge [of xx] sint_lt [of xx] by simp
  then have "unat x \<le> 2147483648" using x by linarith
  then have "unat x < unat (10 :: u32) ^ 10" by simp
  from printint_loop_text [OF _ _ _ _ this] obtain buf where
    b: "printint_loop 16 x 10 = Inr buf" "numeral_text 10 (rev buf) (unat x)" "length buf \<le> 10" by auto
  have nat: "nat \<bar>sint xx\<bar> = unat x" using x by linarith
  have "xx <s 0 \<longleftrightarrow> sint xx < 0" by (simp add: word_sless_alt)
  then have "printint xx 10 True = Inr ((if sint xx < 0 then [45] else []) @ rev buf)"
    using b(1,3) unfolding printint_def x_def by auto
  with b nat show ?thesis by auto
qed

lemma printint_hex:
  "\<exists>ds. printint xx 16 False = Inr ds \<and> numeral_text 16 ds (unat xx) \<and> length ds \<le> 8"
proof -
  have "unat xx < unat (16 :: u32) ^ 8" using unsigned_less [of xx] by simp
  from printint_loop_text [OF _ _ _ _ this] obtain buf where
    "printint_loop 16 xx 16 = Inr buf" "numeral_text 16 (rev buf) (unat xx)" "length buf \<le> 8" by auto
  then show ?thesis by (simp add: printint_def)
qed

lemma uart_puts_fold [simp]: "uart_tx (fold uart_putc cs k) = uart_tx k @ cs"
  by (induction cs arbitrary: k) (simp_all add: uart_putc_def)

lemma fold_uart_putc: "fold uart_putc cs k = k\<lparr>uart_tx := uart_tx k @ cs\<rparr>"
  by (induction cs arbitrary: k) (simp_all add: uart_putc_def)

lemma printf_loop_verbatim: "37 \<notin> set cs \<Longrightarrow> printf_loop m cs ap = Inr cs"
  by (induction cs) auto

lemma printf_loop_prefix:
  "37 \<notin> set cs \<Longrightarrow> printf_loop m (cs @ fmt) ap = bindE (printf_loop m fmt ap) (\<lambda>out. Inr (cs @ out))"
  by (induction cs) (auto simp: bindE_assoc bindE_def split: sum.splits)

end
