(* ===== verification/Console_Queue.thy ===== *)
theory Console_Queue
  imports Console Copy_User "HOL-Library.Sublist"
begin

text \<open>
  The console input as a queue: what the interrupt handler appends is what \<open>console_read\<close> takes,
  in order, and both leave the lock free and the interrupt state as they found it.
\<close>

section \<open>The queue\<close>

definition cons_queue :: "console \<Rightarrow> u8 list" where
  "cons_queue c = console_ring.contents (\<lambda>i. cons_buf c ! unat i) (cons_r c) (cons_w c)"

definition cons_ok :: "console \<Rightarrow> bool" where
  "cons_ok c \<longleftrightarrow>
     length (cons_buf c) = 128 \<and> cons_e c = cons_w c \<and> unat (cons_w c - cons_r c) \<le> 128 \<and> idle (cons_lock c)"

definition cons_ready :: "kernel \<Rightarrow> bool" where
  "cons_ready k \<longleftrightarrow> cons_ok (cons k) \<and> hart_ok (hart k)"

text \<open>The byte a key press stands for: carriage return is read as newline.\<close>

definition key_byte :: "u32 \<Rightarrow> u8" where
  "key_byte c = ucast (if c = 13 then 10 else c)"

definition push_key :: "u32 \<Rightarrow> u8 list \<Rightarrow> u8 list" where
  "push_key c q = (if \<not> c <s 0 \<and> length q < 128 then q @ [key_byte c] else q)"

lemma length_cons_queue [simp]: "length (cons_queue c) = unat (cons_w c - cons_r c)"
  by (simp add: cons_queue_def)

lemma cons_acquire:
  "cons_ready k \<Longrightarrow> on_cons_lock acquire k =
     Inr (k\<lparr>cons := (cons k)\<lparr>cons_lock := held (cons_lock (cons k)) (hart k)\<rparr>, hart := push_off (hart k)\<rparr>)"
  by (simp add: on_cons_lock_def acquire_idle cons_ready_def cons_ok_def)

lemma cons_release:
  assumes "cons_ready k0" "cons_lock (cons k) = held (cons_lock (cons k0)) (hart k0)" "hart k = push_off (hart k0)"
  shows "on_cons_lock release k = Inr (k\<lparr>cons := (cons k)\<lparr>cons_lock := cons_lock (cons k0)\<rparr>, hart := settled (hart k0)\<rparr>)"
  using assms by (simp add: on_cons_lock_def release_held cons_ready_def cons_ok_def)

section \<open>The interrupt handler\<close>

lemma cons_store:
  assumes "cons_ok c" "unat (cons_w c - cons_r c) < 128"
    and "c' = c\<lparr>cons_buf := (cons_buf c)[unat (cons_e c mod 128) := b], cons_e := cons_e c + 1, cons_w := cons_e c + 1\<rparr>"
  shows "cons_queue c' = cons_queue c @ [b]" "cons_ok c'"
proof -
  have slot: "unat (cons_w c mod 128) < 128" by (simp add: unat_mod)
  have "(\<lambda>i. (cons_buf c)[unat (cons_w c mod 128) := b] ! unat i) ((cons_r c + of_nat i) mod 128) =
        ((\<lambda>i. cons_buf c ! unat i)(cons_w c mod 128 := b)) ((cons_r c + of_nat i) mod 128)" for i
    using assms(1) slot by (auto simp: cons_ok_def nth_list_update dest: word_eq_unatI)
  then have "cons_queue c' = console_ring.contents ((\<lambda>i. cons_buf c ! unat i)(cons_w c mod 128 := b)) (cons_r c) (cons_w c + 1)"
    using assms(1,3) unfolding cons_queue_def console_ring.contents_def cons_ok_def by simp
  also have "\<dots> = cons_queue c @ [b]"
    unfolding cons_queue_def by (rule console_ring.contents_store) (use assms(2) in simp)
  finally show q: "cons_queue c' = cons_queue c @ [b]" .
  have "unat (cons_w c' - cons_r c') = unat (cons_w c - cons_r c) + 1"
    using arg_cong [OF q, of length] by simp
  then show "cons_ok c'" using assms by (simp add: cons_ok_def)
qed

lemma cons_take:
  assumes "cons_ok c" "cons_r c \<noteq> cons_w c" "c' = c\<lparr>cons_r := cons_r c + 1\<rparr>"
  shows "cons_queue c = cons_buf c ! unat (cons_r c mod 128) # cons_queue c'" "cons_ok c'"
proof -
  show q: "cons_queue c = cons_buf c ! unat (cons_r c mod 128) # cons_queue c'"
    using console_ring.contents_drop [OF assms(2), of "\<lambda>i. cons_buf c ! unat i"] assms(3)
    by (simp add: cons_queue_def)
  have "unat (cons_w c' - cons_r c') < unat (cons_w c - cons_r c)"
    using arg_cong [OF q, of length] by simp
  then show "cons_ok c'" using assms by (simp add: cons_ok_def)
qed

lemma cons_queue_empty: "cons_queue c = [] \<longleftrightarrow> cons_r c = cons_w c"
  unfolding cons_queue_def by (rule console_ring.contents_empty_iff)

lemma console_intr_spec:
  assumes "cons_ready k"
  shows "\<exists>c'. console_intr c k =
                Inr (if c <s 0 then k
                     else k\<lparr>cons := c', hart := settled (hart k), uart_tx := uart_tx k @ [key_byte c]\<rparr>) \<and>
              cons_ok c' \<and> cons_queue c' = push_key c (cons_queue (cons k))"
proof -
  define b where "b = key_byte c"
  define c' where "c' = (if cons_e (cons k) - cons_r (cons k) < 128 \<and> \<not> c <s 0
     then (cons k)\<lparr>cons_buf := (cons_buf (cons k))[unat (cons_e (cons k) mod 128) := b],
            cons_e := cons_e (cons k) + 1, cons_w := cons_e (cons k) + 1\<rparr> else cons k)"
  have ok: "cons_ok (cons k)" "cons_e (cons k) = cons_w (cons k)" using assms by (simp_all add: cons_ready_def cons_ok_def)
  have q: "cons_ok c'" "cons_queue c' = push_key c (cons_queue (cons k))"
    using cons_store [OF ok(1) _ refl, of b] ok
    by (auto simp: c'_def push_key_def word_less_nat_alt b_def)
  have "console_intr c k = Inr (k\<lparr>cons := c', hart := settled (hart k), uart_tx := uart_tx k @ [b]\<rparr>)" if "\<not> c <s 0"
    using that
    by (simp add: console_intr_def uart_putc_def b_def key_byte_def Let_def c'_def
        cons_acquire [OF assms] cons_release [OF assms])
  moreover have "console_intr c k = Inr k" if "c <s 0" using that by (simp add: console_intr_def)
  ultimately show ?thesis using q by (cases "c <s 0") (auto simp: b_def)
qed

section \<open>Reading\<close>

text \<open>
  \<open>console_read\<close> on the queue alone: before each turn the keys of that turn are appended, then one
  byte is taken; a newline or a full buffer ends it. \<^const>\<open>None\<close> is waiting for ever.
\<close>

definition push_keys :: "u32 list \<Rightarrow> u8 list \<Rightarrow> u8 list" where "push_keys cs q = fold push_key cs q"

definition keys_now :: "u32 list list \<Rightarrow> u32 list" where
  "keys_now arr = (case arr of [] \<Rightarrow> [] | a # _ \<Rightarrow> a)"

function queue_read :: "u32 list list \<Rightarrow> nat \<Rightarrow> u8 list \<Rightarrow> u8 list \<Rightarrow> (u8 list \<times> u8 list) option" where
  "queue_read arr len acc q =
     (if length acc < len then
        (case push_keys (keys_now arr) q of
           [] \<Rightarrow> (case arr of [] \<Rightarrow> None | _ # arr \<Rightarrow> queue_read arr len acc [])
         | c # q \<Rightarrow> if c = 10 then Some (acc @ [c], q) else queue_read (tl arr) len (acc @ [c]) q)
      else Some (acc, q))"
  by pat_completeness auto
termination
  by (relation "measure (\<lambda>(arr, len, acc, q). length arr + (len - length acc))") auto

declare queue_read.simps [simp del]

text \<open>What a run over the console may change: the console, the interrupt state of the level, the output.\<close>

definition cons_step :: "kernel \<Rightarrow> u8 list \<Rightarrow> kernel \<Rightarrow> bool" where
  "cons_step k q k' \<longleftrightarrow>
     k' = k\<lparr>cons := cons k', hart := hart k', uart_tx := uart_tx k'\<rparr> \<and> cons_ok (cons k') \<and>
     cons_queue (cons k') = q \<and> hart k' \<in> {hart k, settled (hart k)}"

lemma cons_step_refl: "cons_ready k \<Longrightarrow> cons_step k (cons_queue (cons k)) k"
  by (simp add: cons_step_def cons_ready_def)

lemma cons_step_ready: "cons_ready k \<Longrightarrow> cons_step k q k' \<Longrightarrow> cons_ready k'"
  by (auto simp: cons_step_def cons_ready_def)

lemma cons_step_queue: "cons_step k q k' \<Longrightarrow> cons_queue (cons k') = q"
  by (simp add: cons_step_def)

lemma cons_only_trans:
  assumes "k1 = k\<lparr>cons := c, hart := h, uart_tx := t\<rparr>" "k2 = k1\<lparr>cons := c', hart := h', uart_tx := t'\<rparr>"
  shows "k2 = k\<lparr>cons := c', hart := h', uart_tx := t'\<rparr>"
  using assms by (cases k) simp

lemma cons_step_trans: "cons_step k q k1 \<Longrightarrow> cons_step k1 q' k2 \<Longrightarrow> cons_step k q' k2"
proof -
  assume a: "cons_step k q k1" "cons_step k1 q' k2"
  then have "k2 = k\<lparr>cons := cons k2, hart := hart k2, uart_tx := uart_tx k2\<rparr>"
    unfolding cons_step_def by (blast intro: cons_only_trans)
  moreover have "hart k2 \<in> {hart k, settled (hart k)}" using a by (auto simp: cons_step_def)
  ultimately show "cons_step k q' k2" using a(2) by (simp add: cons_step_def)
qed

lemma cons_stepI:
  "cons_ok c' \<Longrightarrow> h' \<in> {hart k, settled (hart k)} \<Longrightarrow>
   cons_step k (cons_queue c') (k\<lparr>cons := c', hart := h', uart_tx := tx\<rparr>)"
  by (simp add: cons_step_def)

lemma cons_stepI2:
  "cons_ok c' \<Longrightarrow> cons_step k (cons_queue c') (k\<lparr>cons := c', hart := settled (hart k)\<rparr>)"
  by (simp add: cons_step_def)

lemma console_intr_step:
  assumes "cons_ready k"
  shows "\<exists>k'. console_intr c k = Inr k' \<and> cons_step k (push_key c (cons_queue (cons k))) k'"
proof -
  from console_intr_spec [OF assms, of c] obtain c' where
    "console_intr c k = Inr (if c <s 0 then k
          else k\<lparr>cons := c', hart := settled (hart k), uart_tx := uart_tx k @ [key_byte c]\<rparr>)"
    "cons_ok c'" "cons_queue c' = push_key c (cons_queue (cons k))" by blast
  then show ?thesis
    using cons_step_refl [OF assms] cons_stepI [of c' "settled (hart k)" k "uart_tx k @ [key_byte c]"]
    by (auto simp: push_key_def)
qed

lemma console_intr_keys:
  assumes "cons_ready k"
  shows "\<exists>k'. forE console_intr cs k = Inr k' \<and> cons_step k (push_keys cs (cons_queue (cons k))) k'"
  using assms
proof (induction cs arbitrary: k)
  case Nil
  then show ?case by (simp add: push_keys_def cons_step_refl)
next
  case (Cons c cs)
  from console_intr_step [OF Cons.prems, of c] obtain k1 where
    1: "console_intr c k = Inr k1" "cons_step k (push_key c (cons_queue (cons k))) k1" by blast
  from Cons.IH [OF cons_step_ready [OF Cons.prems 1(2)]] 1 cons_step_queue [OF 1(2)]
  show ?case by (auto simp: push_keys_def intro: cons_step_trans)
qed

lemma console_read_loop_refines:
  assumes "cons_ready k"
  shows "case queue_read arr len acc (cons_queue (cons k)) of
           None \<Rightarrow> console_read_loop arr len acc k = Inl (Hang ''console_read'')
         | Some (bs, q) \<Rightarrow> \<exists>k'. console_read_loop arr len acc k = Inr (bs, k') \<and> cons_step k q k'"
  using assms
proof (induction "length arr + (len - length acc)" arbitrary: arr acc k rule: less_induct)
  case less
  show ?case
  proof (cases "length acc < len")
    case False
    then show ?thesis using cons_step_refl [OF less.prems]
      by (simp add: queue_read.simps console_read_loop.simps)
  next
    case True
    obtain k1 where k1: "forE console_intr (keys_now arr) k = Inr k1"
      "cons_step k (push_keys (keys_now arr) (cons_queue (cons k))) k1"
      using console_intr_keys [OF less.prems] by blast
    note rdy = cons_step_ready [OF less.prems k1(2)]
    note q = cons_step_queue [OF k1(2), symmetric]
    show ?thesis
    proof (cases "cons_r (cons k1) = cons_w (cons k1)")
      case empty: True
      define k2 where "k2 = k1\<lparr>hart := settled (hart k1)\<rparr>"
      have loop: "console_read_loop arr len acc k =
          (case arr of [] \<Rightarrow> Inl (Hang ''console_read'') | _ # arr \<Rightarrow> console_read_loop arr len acc k2)"
        using True empty k1(1)
        by (subst console_read_loop.simps)
          (cases arr; simp add: cons_acquire [OF rdy] cons_release [OF rdy] keys_now_def k2_def Let_def)
      have step: "cons_step k1 (cons_queue (cons k1)) k2"
        using rdy by (simp add: k2_def cons_step_def cons_ready_def)
      note st = cons_step_trans [OF k1(2) step]
      have e: "push_keys (keys_now arr) (cons_queue (cons k)) = []" using q empty by (simp add: cons_queue_empty)
      show ?thesis
      proof (cases arr)
        case Nil
        then show ?thesis using loop True e by (simp add: queue_read.simps)
      next
        case (Cons a arr')
        have "cons_queue (cons k2) = []" using empty by (simp add: k2_def cons_queue_empty)
        with less.hyps [of arr' acc k2] cons_step_ready [OF less.prems st] Cons loop True e
        show ?thesis by (subst queue_read.simps) (auto split: option.splits prod.splits intro: cons_step_trans [OF st])
      qed
    next
      case nonempty: False
      define c where "c = cons_buf (cons k1) ! unat (cons_r (cons k1) mod 128)"
      define c2 where "c2 = (cons k1)\<lparr>cons_r := cons_r (cons k1) + 1\<rparr>"
      define k2 where "k2 = k1\<lparr>cons := c2, hart := settled (hart k1)\<rparr>"
      have loop: "console_read_loop arr len acc k =
          (if c = 10 then Inr (acc @ [c], k2) else console_read_loop (tl arr) len (acc @ [c]) k2)"
        using True nonempty k1(1)
        by (subst console_read_loop.simps)
          (simp add: cons_acquire [OF rdy] cons_release [OF rdy] keys_now_def k2_def c2_def c_def Let_def)
      have take: "cons_queue (cons k1) = c # cons_queue c2" "cons_ok c2"
        using cons_take [OF _ nonempty c2_def] rdy by (simp_all add: cons_ready_def c_def)
      have step: "cons_step k1 (cons_queue c2) k2" unfolding k2_def by (rule cons_stepI2 [OF take(2)])
      note st = cons_step_trans [OF k1(2) step]
      have e: "push_keys (keys_now arr) (cons_queue (cons k)) = c # cons_queue c2" using q take(1) by simp
      have abs: "queue_read arr len acc (cons_queue (cons k)) =
          (if c = 10 then Some (acc @ [c], cons_queue c2) else queue_read (tl arr) len (acc @ [c]) (cons_queue c2))"
        using True e by (subst queue_read.simps) simp
      have c2: "cons k2 = c2" by (simp add: k2_def)
      have less': "length (tl arr) + (len - length (acc @ [c])) < length arr + (len - length acc)" using True by simp
      show ?thesis
        using loop abs st less.hyps [OF less' cons_step_ready [OF less.prems st]]
        by (auto simp: c2 split: option.splits prod.splits intro: cons_step_trans [OF st])
    qed
  qed
qed

section \<open>What a read returns\<close>

definition typed :: "u32 list \<Rightarrow> u8 list" where
  "typed cs = map key_byte (filter (\<lambda>c. \<not> c <s 0) cs)"

lemma typed_append [simp]: "typed (a @ b) = typed a @ typed b"
  by (simp add: typed_def)

lemma push_keys_subseq: "\<exists>got. subseq got (typed cs) \<and> push_keys cs q = q @ got"
proof (induction cs rule: rev_induct)
  case Nil
  show ?case by (simp add: push_keys_def)
next
  case (snoc c cs)
  then obtain got where g: "subseq got (typed cs)" "push_keys cs q = q @ got" by blast
  show ?case
  proof (cases "\<not> c <s 0 \<and> length (q @ got) < 128")
    case True
    with g have "push_keys (cs @ [c]) q = q @ got @ [key_byte c]" "typed (cs @ [c]) = typed cs @ [key_byte c]"
      by (simp_all add: push_keys_def push_key_def typed_def)
    with g(1) show ?thesis by (metis list_emb_append_mono subseq_order.order_refl)
  next
    case False
    with g have "push_keys (cs @ [c]) q = q @ got" by (auto simp: push_keys_def push_key_def)
    with g(1) show ?thesis by (metis list_emb_prefix typed_append)
  qed
qed

text \<open>First in, first out: what is read and what is left are what was there and what was typed since.\<close>

lemma queue_read_fifo:
  assumes "queue_read arr len acc q = Some (bs, q')"
  shows "\<exists>got. subseq got (typed (concat arr)) \<and> bs @ q' = acc @ q @ got"
  using assms
proof (induction arr len acc q rule: queue_read.induct)
  case (1 arr len acc q)
  show ?case
  proof (cases "length acc < len")
    case False
    then show ?thesis using "1.prems" by (simp add: queue_read.simps)
  next
    case True
    from push_keys_subseq [of "keys_now arr" q] obtain now where
      now: "subseq now (typed (keys_now arr))" "push_keys (keys_now arr) q = q @ now" by blast
    have arr: "typed (concat arr) = typed (keys_now arr) @ typed (concat (tl arr))"
      by (cases arr) (simp_all add: keys_now_def typed_def)
    show ?thesis
    proof (cases "q @ now")
      case Nil
      then obtain a arr' where "arr = a # arr'" "queue_read arr' len acc [] = Some (bs, q')"
        using True "1.prems" now(2) by (subst (asm) queue_read.simps) (auto split: list.splits)
      with "1.IH"(1) [OF True] Nil now(2) obtain got where
        "subseq got (typed (concat arr'))" "bs @ q' = acc @ got" by fastforce
      with Nil arr \<open>arr = a # arr'\<close> show ?thesis by (auto intro: list_emb_append2)
    next
      case (Cons c q1)
      show ?thesis
      proof (cases "c = 10")
        case nl: True
        then have "bs = acc @ [c]" "q' = q1" using True Cons "1.prems" now(2) by (auto simp: queue_read.simps)
        with Cons arr now(1) show ?thesis by (intro exI [of _ now]) (auto intro: list_emb_prefix)
      next
        case False
        then have "queue_read (tl arr) len (acc @ [c]) q1 = Some (bs, q')"
          using True Cons "1.prems" now(2) by (subst (asm) queue_read.simps) simp
        from "1.IH"(2) [OF True _ False this] Cons now(2) obtain got where
          "subseq got (typed (concat (tl arr)))" "bs @ q' = acc @ (c # q1) @ got" by auto
        with Cons arr now(1) show ?thesis
          by (intro exI [of _ "now @ got"]) (auto simp: list_emb_append_mono)
      qed
    qed
  qed
qed

text \<open>The line a reader of at most \<open>n\<close> bytes gets from a queue; \<^const>\<open>None\<close> while it must wait.\<close>

primrec line_of :: "nat \<Rightarrow> u8 list \<Rightarrow> u8 list option" where
  "line_of 0 q = Some []"
| "line_of (Suc n) q =
     (case q of [] \<Rightarrow> None | c # q \<Rightarrow> if c = 10 then Some [c] else map_option ((#) c) (line_of n q))"

lemma line_of_append: "line_of n q = Some l \<Longrightarrow> line_of n (q @ r) = Some l"
  by (induction n arbitrary: q l) (auto split: list.splits if_splits)

lemma line_of_prefix: "line_of n q = Some l \<Longrightarrow> \<exists>r. q = l @ r"
  by (induction n arbitrary: q l) (auto split: list.splits if_splits)

lemma line_of_facts:
  "line_of n q = Some l \<Longrightarrow> length l \<le> n \<and> 10 \<notin> set (butlast l) \<and> (length l < n \<longrightarrow> l \<noteq> [] \<and> last l = 10)"
  by (induction n arbitrary: q l) (fastforce split: list.splits if_splits)+

lemma queue_read_line:
  assumes "length acc \<le> len"
  shows "queue_read [] len acc q =
           map_option (\<lambda>l. (acc @ l, drop (length l) q)) (line_of (len - length acc) q)"
  using assms
proof (induction "len - length acc" arbitrary: acc q)
  case 0
  then show ?case by (simp add: queue_read.simps)
next
  case (Suc n)
  then have "length acc < len" "n = len - length (acc @ [c])" for c by simp_all
  note 1 = this
  have "len - length acc = Suc n" using Suc.hyps(2) by simp
  then show ?case
    using 1(1) Suc.hyps(1) [OF 1(2)] 1(2)
    by (subst queue_read.simps) (auto simp: keys_now_def push_keys_def option.map_comp o_def split: list.splits)
qed

lemma queue_read_length: "length acc \<le> len \<Longrightarrow> queue_read arr len acc q = Some (bs, q') \<Longrightarrow> length bs \<le> len"
proof (induction arr len acc q arbitrary: bs q' rule: queue_read.induct)
  case (1 arr len acc q)
  then show ?case
    unfolding queue_read.simps [of arr len acc q] by (fastforce split: if_splits list.splits)
qed

section \<open>Delivery to the user\<close>

lemma store_bytes_at: "length bs < 2 ^ 64 \<Longrightarrow> i < length bs \<Longrightarrow> store_bytes a bs m (a + of_nat i) = bs ! i"
  by (simp add: store_bytes_def unat_of_nat)

lemma store_bytes_other: "length bs \<le> unat (x - a) \<Longrightarrow> store_bytes a bs m x = m x"
  by (simp add: store_bytes_def)

text \<open>
  A line that is in the ring goes to the reader at once: \<open>l\<close> is at the user's address, and the ring has
  lost it. The local array must not lie in a page table, nor behind the user's range.
\<close>

lemma console_read_spec:
  assumes k: "cons_ready k" "cpu_proc (hart k) = Some i" and len: "0 < unat len" "unat len < 2 ^ 31"
    and l: "line_of (min (unat len) 128) (cons_queue (cons k)) = Some l"
    and wf: "pt_wf (ram (mem k)) root" "root = pagetable (procs k ! i)"
    and buf: "\<And>x. unat (x - buf) < 128 \<Longrightarrow> pageno x \<notin> pageno ` tables (ram (mem k)) root"
    and safe: "copyout_safe (ram (mem k)) root dst buf 128" and map: "wmapped (ram (mem k)) root dst 128"
  shows "\<exists>k'. console_read [] buf dst len k = Inr (of_nat (length l), k') \<and>
    cons_queue (cons k') = drop (length l) (cons_queue (cons k)) \<and>
    (\<forall>j < length l. \<exists>a. user_waddr (ram (mem k)) root (dst + of_nat j) = Some a \<and> ram (mem k') a = l ! j)"
proof -
  define n where "n = (if (ucast len :: u64) > 128 then 128 else len)"
  have n: "unat n = min (unat len) 128" by (auto simp: n_def word_less_nat_alt unat_ucast64)
  define k0 where "k0 = k\<lparr>hart := settled (hart k)\<rparr>"
  have my: "myproc k = Inr (Some i, k0)" using k by (simp add: myproc_eq cons_ready_def k0_def)
  have k0: "cons_ready k0" "cons_queue (cons k0) = cons_queue (cons k)" "mem k0 = mem k" "procs k0 = procs k"
    using k(1) by (simp_all add: cons_ready_def k0_def)
  have "queue_read [] (unat n) [] (cons_queue (cons k0)) = Some (l, drop (length l) (cons_queue (cons k)))"
    using queue_read_line [of "[]" "unat n"] l n k0(2) by simp
  with console_read_loop_refines [OF k0(1), of "[]" "unat n" "[]"] obtain k1 where
    k1: "console_read_loop [] (unat n) [] k0 = Inr (l, k1)" "cons_step k0 (drop (length l) (cons_queue (cons k))) k1" by auto
  from k1(2) have "k1 = k0\<lparr>cons := cons k1, hart := hart k1, uart_tx := uart_tx k1\<rparr>" unfolding cons_step_def by blast
  then have "mem k1 = mem (k0\<lparr>cons := cons k1, hart := hart k1, uart_tx := uart_tx k1\<rparr>)"
    "procs k1 = procs (k0\<lparr>cons := cons k1, hart := hart k1, uart_tx := uart_tx k1\<rparr>)" by metis+
  then have mem: "mem k1 = mem k" "procs k1 = procs k" using k0 by simp_all
  let ?m = "ram (mem k)" and ?m1 = "store_bytes buf l (ram (mem k))"
  have ll: "length l \<le> 128" using line_of_facts [OF l] by simp
  have lu: "unat (of_nat (length l) :: u64) = length l" using ll by (simp add: unat_of_nat)
  have "agree_on (pageno ` tables ?m root) ?m ?m1"
    unfolding agree_on_def
  proof (intro allI impI)
    fix x assume "pageno x \<in> pageno ` tables ?m root"
    then have "\<not> unat (x - buf) < 128" using buf by blast
    then show "?m1 x = ?m x" using ll by (intro store_bytes_other) simp
  qed
  note ag = this pt_wf_agree [OF wf(1) this]
  have u: "user_waddr ?m1 root a = user_waddr ?m root a" for a
    using user_addr_agree(2) [OF ag(1)] wf(1) by (simp add: pt_wf_def)
  have safe1: "copyout_safe ?m1 root dst buf (length l)"
    unfolding copyout_safe_def
  proof (intro allI impI)
    fix j a assume j: "j < length l" "user_waddr ?m1 root (dst + of_nat j) = Some a"
    then have "j < 128" "user_waddr ?m root (dst + of_nat j) = Some a" using ll u by simp_all
    then have "pageno a \<notin> pageno ` tables ?m root \<and> \<not> unat (a - buf) < 128 \<and>
        (\<forall>j' < 128. user_waddr ?m root (dst + of_nat j') = Some a \<longrightarrow> j' = j)"
      using safe unfolding copyout_safe_def by blast
    then show "pageno a \<notin> pageno ` tables ?m1 root \<and> \<not> unat (a - buf) < length l \<and>
        (\<forall>j' < length l. user_waddr ?m1 root (dst + of_nat j') = Some a \<longrightarrow> j' = j)"
      using ag(3) ll by (auto simp: u)
  qed
  have map1: "wmapped ?m1 root dst (length l)" using map ll by (simp add: wmapped_def u)
  define ph where "ph = (mem k)\<lparr>ram := ?m1\<rparr>"
  have "pt_wf (ram ph) root" "copyout_safe (ram ph) root dst buf (unat (of_nat (length l) :: u64))"
    using ag(2) safe1 by (simp_all add: ph_def lu)
  from copyout_spec [OF this] map1 obtain m2 where
    c: "copyout root dst buf (of_nat (length l)) ph = Inr (0, ph\<lparr>ram := m2\<rparr>)" "stored ?m1 root dst buf (length l) m2"
    unfolding lu by (auto simp: ph_def)
  define k' where "k' = k1\<lparr>mem := ph\<lparr>ram := m2\<rparr>\<rparr>"
  have "sint len = int (unat len)" by (simp only: sint_small [OF len(2)] uint_nat)
  then have pos: "\<not> len \<le>s 0" using len(1) by (simp only: word_sle_eq sint_0)
  have "console_read [] buf dst len k = Inr (of_nat (length l), k')"
    using pos my k1(1) c(1) mem wf(2)
    by (simp add: console_read_def n_def [symmetric] Let_def on_mem_def ph_def k'_def)
  moreover have "\<exists>a. user_waddr ?m root (dst + of_nat j) = Some a \<and> ram (mem k') a = l ! j" if "j < length l" for j
    using c(2) that store_bytes_at [of l j buf ?m] ll unfolding stored_def by (auto simp: k'_def u)
  ultimately show ?thesis using cons_step_queue [OF k1(2)] by (simp add: k'_def)
qed

end
