(* ===== verification/File_Pipe.thy ===== *)
theory File_Pipe
  imports Console Copy_User
begin

text \<open>
  The open-file table and pipes: \<open>kernel/fs/file.c\<close>, \<open>pipe.c\<close> and the structures of \<open>file.h\<close>. A
  \<open>struct file *\<close> is an index of the table, a \<open>struct pipe *\<close> the address of the page that holds it.
\<close>

section \<open>file.c: slots\<close>

definition filealloc :: "kernel \<Rightarrow> nat option \<times> kernel" where
  "filealloc k =
     (case List.find (\<lambda>i. ref (files k ! i) = 0) [0..<NFILE] of
        Some i \<Rightarrow> (Some i, k\<lparr>files := (files k)[i := (files k ! i)\<lparr>ref := 1\<rparr>]\<rparr>)
      | None \<Rightarrow> (None, k))"

definition filedup :: "nat \<Rightarrow> kernel \<Rightarrow> (nat \<times> kernel) outcome" where
  "filedup f k =
     (if ref (files k ! f) <s 1 then Inl (Panic ''filedup'')
      else Inr (f, k\<lparr>files := (files k)[f := (files k ! f)\<lparr>ref := ref (files k ! f) + 1\<rparr>]\<rparr>))"

text \<open>The body of \<open>fileclose\<close> is commented out.\<close>

definition fileclose :: "nat \<Rightarrow> kernel \<Rightarrow> kernel" where
  "fileclose f k = k"

definition fdalloc :: "nat \<Rightarrow> kernel \<Rightarrow> (u32 \<times> kernel) outcome" where
  "fdalloc f k =
     bindE (myproc k) (\<lambda>(p, k).
     case p of None \<Rightarrow> Inl (NullDeref ''fdalloc: p->ofile'')
     | Some i \<Rightarrow>
       case List.find (\<lambda>fd. ofile (procs k ! i) ! fd = None) [0..<NOFILE] of
         Some fd \<Rightarrow> Inr (of_nat fd, k\<lparr>procs := (procs k)[i := (procs k ! i)\<lparr>ofile := (ofile (procs k ! i))[fd := Some f]\<rparr>]\<rparr>)
       | None \<Rightarrow> Inr (- 1, k))"

section \<open>pipe.c\<close>

text \<open>The fields of \<open>struct pipe\<close> at their offsets.\<close>

definition pipe_nread :: "u64 \<Rightarrow> u64" where "pipe_nread pi = pi + 512"
definition pipe_nwrite :: "u64 \<Rightarrow> u64" where "pipe_nwrite pi = pi + 516"
definition pipe_readopen :: "u64 \<Rightarrow> u64" where "pipe_readopen pi = pi + 520"
definition pipe_writeopen :: "u64 \<Rightarrow> u64" where "pipe_writeopen pi = pi + 524"

definition on_ram :: "(memory \<Rightarrow> memory) \<Rightarrow> phys \<Rightarrow> phys" where
  "on_ram f ph = ph\<lparr>ram := f (ram ph)\<rparr>"

definition pipealloc_bad :: "u64 \<Rightarrow> nat option \<Rightarrow> nat option \<Rightarrow> kernel \<Rightarrow> ((u32 \<times> nat option \<times> nat option) \<times> kernel) outcome" where
  "pipealloc_bad pi f0 f1 k =
     bindE (if pi \<noteq> 0 then bindE (kfree pi (mem k)) (\<lambda>ph. Inr (k\<lparr>mem := ph\<rparr>)) else Inr k) (\<lambda>k.
     let k = (case f0 of Some f \<Rightarrow> fileclose f k | None \<Rightarrow> k);
         k = (case f1 of Some f \<Rightarrow> fileclose f k | None \<Rightarrow> k)
     in Inr ((- 1, f0, f1), k))"

definition pipealloc :: "kernel \<Rightarrow> ((u32 \<times> nat option \<times> nat option) \<times> kernel) outcome" where
  "pipealloc k =
     (let (f0, k) = filealloc k in
      case f0 of None \<Rightarrow> pipealloc_bad 0 None None k
      | Some i \<Rightarrow>
        let (f1, k) = filealloc k in
        case f1 of None \<Rightarrow> pipealloc_bad 0 f0 None k
        | Some j \<Rightarrow>
          let (pi, ph) = kalloc (mem k); k = k\<lparr>mem := ph\<rparr> in
          if pi = 0 then pipealloc_bad pi f0 f1 k
          else
            let k = k\<lparr>mem := on_ram (store32 (pipe_nread pi) 0) (mem k)\<rparr>;
                k = k\<lparr>mem := on_ram (store32 (pipe_nwrite pi) 0) (mem k)\<rparr>;
                k = k\<lparr>mem := on_ram (store32 (pipe_readopen pi) 1) (mem k)\<rparr>;
                k = k\<lparr>mem := on_ram (store32 (pipe_writeopen pi) 1) (mem k)\<rparr>;
                k = k\<lparr>files := (files k)[i := (files k ! i)\<lparr>ftype := FD_PIPE, fpipe := pi, readable := 1, writable := 0\<rparr>]\<rparr>;
                k = k\<lparr>files := (files k)[j := (files k ! j)\<lparr>ftype := FD_PIPE, fpipe := pi, readable := 0, writable := 1\<rparr>]\<rparr>
            in Inr ((0, f0, f1), k))"

definition pipe_size :: u32 where [simp]: "pipe_size = 512"

text \<open>\<open>chunk = pipe_size - pos; if(chunk > (uint)(n - done)) chunk = n - done;\<close>\<close>

definition pipe_chunk :: "u32 \<Rightarrow> u32 \<Rightarrow> u32" where
  "pipe_chunk pos rest = (let chunk = pipe_size - pos in if chunk > rest then rest else chunk)"

lemma unat_pipe_chunk:
  "unat pos < 512 \<Longrightarrow> unat (pipe_chunk pos rest) = min (512 - unat pos) (unat rest)"
  by (auto simp: pipe_chunk_def Let_def word_less_nat_alt unat_sub_if_size word_size min_def)

lemma pipe_chunk_less:
  assumes "rest \<noteq> 0"
  shows "unat (rest - pipe_chunk (w mod pipe_size) rest) < unat rest"
proof -
  have "unat (w mod 512) < 512" by (simp add: unat_mod)
  from unat_pipe_chunk [OF this, of rest] this assms have
    "unat (pipe_chunk (w mod 512) rest) \<le> unat rest" "0 < unat (pipe_chunk (w mod 512) rest)"
    by (simp_all add: unat_gt_0)
  then show ?thesis by (simp add: unat_sub word_le_nat_alt)
qed

function pipewrite_loop :: "u64 \<Rightarrow> u64 \<Rightarrow> u64 \<Rightarrow> u32 \<Rightarrow> u32 \<Rightarrow> phys \<Rightarrow> (u32 \<times> phys) outcome" where
  "pipewrite_loop root pi src n written ph =
     (if written <s n then
        let write_pos = load32 (ram ph) (pipe_nwrite pi) mod pipe_size;
            chunk = pipe_chunk write_pos (n - written)
        in bindE (copyin root (pi + ucast write_pos) (src + scast written) (ucast chunk) ph) (\<lambda>(rc, ph).
           if rc <s 0 then Inr (- 1, ph)
           else
             let ph = on_ram (\<lambda>m. store32 (pipe_nwrite pi) (load32 m (pipe_nwrite pi) + chunk) m) ph
             in pipewrite_loop root pi src n (written + chunk) ph)
      else Inr (written, ph))"
  by pat_completeness auto
termination
proof (relation "measure (\<lambda>(root, pi, src, n, written, ph). unat (n - written))", simp, goal_cases)
  case (1 root pi src n written ph)
  then have "n - written \<noteq> 0" by auto
  from pipe_chunk_less [OF this] 1 show ?case by (simp add: diff_diff_eq)
qed

declare pipewrite_loop.simps [simp del]

definition pipewrite :: "u64 \<Rightarrow> u64 \<Rightarrow> u32 \<Rightarrow> kernel \<Rightarrow> (u32 \<times> kernel) outcome" where
  "pipewrite pi src n k =
     bindE (myproc k) (\<lambda>(p, k).
     if n <s 0 then Inr (- 1, k)
     else
       let used = load32 (ram (mem k)) (pipe_nwrite pi) - load32 (ram (mem k)) (pipe_nread pi);
           free_space = pipe_size - used
       in if n > free_space then Inr (- 1, k)
          else if n = 0 then Inr (0, k)
          else case p of None \<Rightarrow> Inl (NullDeref ''pipewrite: p->pagetable'')
          | Some i \<Rightarrow> on_mem (pipewrite_loop (pagetable (procs k ! i)) pi src n 0) k)"

text \<open>
  The reader waits with interrupts on: \<open>env\<close> lists what the other processes do to memory between two
  turns. When they have stopped and the guard still holds the loop does not end.
\<close>

primrec piperead_wait :: "(phys \<Rightarrow> phys) list \<Rightarrow> u64 \<Rightarrow> u32 \<Rightarrow> u32 \<Rightarrow> phys \<Rightarrow> (u32 \<times> phys) outcome" where
  "piperead_wait [] pi n available ph =
     (let now = load32 (ram ph) (pipe_nwrite pi) - load32 (ram ph) (pipe_nread pi) in
      if n > available \<and> load32 (ram ph) (pipe_writeopen pi) \<noteq> 0
      then if n > now then Inl (Hang ''piperead'') else Inr (now, ph)
      else Inr (available, ph))"
| "piperead_wait (e # env) pi n available ph =
     (if n > available \<and> load32 (ram ph) (pipe_writeopen pi) \<noteq> 0
      then
        let ph = e ph in
        piperead_wait env pi n (load32 (ram ph) (pipe_nwrite pi) - load32 (ram ph) (pipe_nread pi)) ph
      else Inr (available, ph))"

function piperead_loop :: "u64 \<Rightarrow> u64 \<Rightarrow> u64 \<Rightarrow> u32 \<Rightarrow> u32 \<Rightarrow> phys \<Rightarrow> (u32 \<times> phys) outcome" where
  "piperead_loop root pi dst n readn ph =
     (if readn <s n then
        let read_pos = load32 (ram ph) (pipe_nread pi) mod pipe_size;
            chunk = pipe_chunk read_pos (n - readn)
        in bindE (copyout root (dst + scast readn) (pi + ucast read_pos) (ucast chunk) ph) (\<lambda>(rc, ph).
           if rc <s 0 then Inr (- 1, ph)
           else
             let ph = on_ram (\<lambda>m. store32 (pipe_nread pi) (load32 m (pipe_nread pi) + chunk) m) ph
             in piperead_loop root pi dst n (readn + chunk) ph)
      else Inr (readn, ph))"
  by pat_completeness auto
termination
proof (relation "measure (\<lambda>(root, pi, dst, n, readn, ph). unat (n - readn))", simp, goal_cases)
  case (1 root pi dst n readn ph)
  then have "n - readn \<noteq> 0" by auto
  from pipe_chunk_less [OF this] 1 show ?case by (simp add: diff_diff_eq)
qed

declare piperead_loop.simps [simp del]

definition piperead :: "(phys \<Rightarrow> phys) list \<Rightarrow> u64 \<Rightarrow> u64 \<Rightarrow> u32 \<Rightarrow> kernel \<Rightarrow> (u32 \<times> kernel) outcome" where
  "piperead env pi dst n k =
     bindE (myproc k) (\<lambda>(p, k).
     if n <s 0 then Inr (- 1, k)
     else
       let available = load32 (ram (mem k)) (pipe_nwrite pi) - load32 (ram (mem k)) (pipe_nread pi) in
       bindE (on_mem (piperead_wait env pi n available) k) (\<lambda>(available, k).
       let n = (if n > available then available else n) in
       if \<not> 0 <s n then Inr (0, k)
       else case p of None \<Rightarrow> Inl (NullDeref ''piperead: p->pagetable'')
       | Some i \<Rightarrow> on_mem (piperead_loop (pagetable (procs k ! i)) pi dst n 0) k))"

section \<open>file.c: read and write\<close>

text \<open>\<open>buf\<close> is the address of the local array \<open>buffer[1024]\<close>.\<close>

definition filewrite :: "u64 \<Rightarrow> u32 \<Rightarrow> u64 \<Rightarrow> u32 \<Rightarrow> kernel \<Rightarrow> (u32 \<times> kernel) outcome" where
  "filewrite buf fd src len k =
     bindE (myproc k) (\<lambda>(p, k).
     if fd <s 0 \<or> of_nat NOFILE \<le>s fd then Inr (- 1, k)
     else case p of None \<Rightarrow> Inl (NullDeref ''filewrite: p->ofile'')
     | Some i \<Rightarrow>
       case ofile (procs k ! i) ! unat fd of None \<Rightarrow> Inr (- 1, k)
       | Some f \<Rightarrow>
         if writable (files k ! f) = 0 then Inr (- 1, k)
         else if ftype (files k ! f) = FD_PIPE then pipewrite (fpipe (files k ! f)) src len k
         else if fd = 1 then
           if len <s 0 \<or> 1024 \<le>s len then Inl (OutOfBounds ''filewrite: buffer'')
           else
             bindE (on_mem (copyin (pagetable (procs k ! i)) buf src (scast len)) k) (\<lambda>(rc, k).
             let k = k\<lparr>mem := on_ram (\<lambda>m. m(buf + scast len := 0)) (mem k)\<rparr> in
             case cstring_from (ram (mem k)) buf of
               None \<Rightarrow> Inl (Hang ''filewrite: printf'')
             | Some fmt \<Rightarrow> bindE (printf fmt [] k) (\<lambda>k. Inr (0, k)))
         else Inr (0, k))"

text \<open>
  \<open>arr\<close> and \<open>env\<close> are the environment of the two waiting loops, \<open>buf\<close> the local array of
  \<open>console_read\<close>.
\<close>

definition fileread ::
    "u32 list list \<Rightarrow> (phys \<Rightarrow> phys) list \<Rightarrow> u64 \<Rightarrow> u32 \<Rightarrow> u64 \<Rightarrow> u32 \<Rightarrow> kernel \<Rightarrow> (u32 \<times> kernel) outcome" where
  "fileread arr env buf fd dst len k =
     bindE (myproc k) (\<lambda>(p, k).
     if fd <s 0 \<or> of_nat NOFILE \<le>s fd then Inr (- 1, k)
     else case p of None \<Rightarrow> Inl (NullDeref ''fileread: p->ofile'')
     | Some i \<Rightarrow>
       case ofile (procs k ! i) ! unat fd of None \<Rightarrow> Inr (- 1, k)
       | Some f \<Rightarrow>
         if readable (files k ! f) = 0 then Inr (- 1, k)
         else if ftype (files k ! f) = FD_PIPE then piperead env (fpipe (files k ! f)) dst len k
         else if ftype (files k ! f) = FD_CONSOLE then console_read arr buf dst len k
         else Inr (0, k))"

end
