(* ===== verification/Pipe_Queue.thy ===== *)
theory Pipe_Queue
  imports File_Pipe
begin

text \<open>
  A pipe as a queue of at most 512 bytes: \<open>pipewrite\<close> appends the writer's bytes, \<open>piperead\<close> takes
  from the front, whatever the way the copies are cut at the end of the ring and at page boundaries.
\<close>

section \<open>The queue in its page\<close>

definition pipe_queue :: "memory \<Rightarrow> u64 \<Rightarrow> u8 list" where
  "pipe_queue m pi =
     pipe_ring.contents (\<lambda>i. m (pi + ucast i)) (load32 m (pipe_nread pi)) (load32 m (pipe_nwrite pi))"

definition pipe_used :: "memory \<Rightarrow> u64 \<Rightarrow> nat" where
  "pipe_used m pi = unat (load32 m (pipe_nwrite pi) - load32 m (pipe_nread pi))"

definition pipe_ok :: "memory \<Rightarrow> u64 \<Rightarrow> bool" where
  "pipe_ok m pi \<longleftrightarrow> page_aligned pi \<and> pipe_used m pi \<le> 512"

lemma length_pipe_queue [simp]: "length (pipe_queue m pi) = pipe_used m pi"
  by (simp add: pipe_queue_def pipe_used_def)

text \<open>The pages of the user range and of the page tables are not the page of the pipe.\<close>

definition pipe_apart :: "memory \<Rightarrow> u64 \<Rightarrow> u64 \<Rightarrow> u64 \<Rightarrow> nat \<Rightarrow> bool" where
  "pipe_apart m root pi va n \<longleftrightarrow>
     pageno pi \<notin> pageno ` tables m root \<and>
     (\<forall>i < n. \<forall>a. user_addr m root (va + of_nat i) = Some a \<longrightarrow> pageno a \<noteq> pageno pi)"

definition user_bytes :: "memory \<Rightarrow> u64 \<Rightarrow> u64 \<Rightarrow> nat \<Rightarrow> u8 list" where
  "user_bytes m root va n = map (\<lambda>i. user_byte m root (va + of_nat i)) [0..<n]"

lemma user_bytes_add: "user_bytes m root va (n + k) = user_bytes m root va n @ user_bytes m root (va + of_nat n) k"
  by (simp add: user_bytes_def upt_split_map add.assoc)

lemma length_user_bytes [simp]: "length (user_bytes m root va n) = n"
  by (simp add: user_bytes_def)

lemma pipe_field:
  "pipe_nread pi = pi + of_nat 512" "pipe_nwrite pi = pi + of_nat 516"
  by (simp_all add: pipe_nread_def pipe_nwrite_def)

text \<open>The data area holds the low 512 offsets of the page; the counters stand behind it.\<close>

lemma data_not_field:
  assumes "page_aligned pi" "512 \<le> off" "off + k \<le> 4096"
  shows "store_le k (pi + of_nat off) v m (pi + ucast (i mod (512 :: u32))) = m (pi + ucast (i mod (512 :: u32)))"
proof -
  define j where "j = unat (i mod 512)"
  have j: "j < 512" "(ucast (i mod 512) :: u64) = of_nat j"
    by (simp_all only: j_def ucast_unat) (simp add: unat_mod)
  have "unat (pi + of_nat j) = unat pi + j" "unat (pi + of_nat off) = unat pi + off" if "0 < k"
    using unat_page_offset [OF assms(1)] j that assms by simp_all
  moreover have "unat pi + off + k \<le> 2 ^ 64" if "0 < k"
    using pageno_bound [of pi] assms by (simp add: page_aligned_unat)
  ultimately have "\<not> unat (pi + of_nat j - (pi + of_nat off)) < k"
    using unat_sub_range [of "pi + of_nat off" k "pi + of_nat j"] j assms(2) by (cases "0 < k") auto
  then show ?thesis unfolding j(2) by (simp add: store_le_def)
qed

lemma field_not_field:
  assumes "page_aligned pi"
  shows "load32 (store32 (pipe_nwrite pi) v m) (pipe_nread pi) = load32 m (pipe_nread pi)"
    "load32 (store32 (pipe_nread pi) v m) (pipe_nwrite pi) = load32 m (pipe_nwrite pi)"
proof -
  have u: "unat (pi + of_nat k) = unat pi + k" if "k < 4096" for k
    using unat_page_offset [OF assms that] .
  have b: "unat pi + 4096 \<le> 2 ^ 64" using pageno_bound [of pi] by (simp add: page_aligned_unat [OF assms])
  have "\<not> unat (pi + of_nat (512 + i) - (pi + of_nat 516)) < 4" "\<not> unat (pi + of_nat (516 + i) - (pi + of_nat 512)) < 4"
    if "i < 4" for i
    using unat_sub_range [of "pi + of_nat 516" 4 "pi + of_nat (512 + i)"]
      unat_sub_range [of "pi + of_nat 512" 4 "pi + of_nat (516 + i)"] u [of 512] u [of 516] u [of "512 + i"] u [of "516 + i"] b that
    by simp_all
  then show "load32 (store32 (pipe_nwrite pi) v m) (pipe_nread pi) = load32 m (pipe_nread pi)"
    "load32 (store32 (pipe_nread pi) v m) (pipe_nwrite pi) = load32 m (pipe_nwrite pi)"
    unfolding pipe_field by (intro load_le_cong; simp add: store_le_def add.assoc)+
qed

lemma load_store32 [simp]: "load32 (store32 a v m) a = v"
  by (rule load_store_same) simp_all

lemma mapped_none [simp]: "mapped m root va 0"
  by (simp add: mapped_def)

lemma user_bytes_none [simp]: "user_bytes m root va 0 = []"
  by (simp add: user_bytes_def)

section \<open>Writing\<close>

text \<open>A copy into the data area at offset \<open>wp\<close>, seen byte by byte.\<close>

lemma fetched_page:
  assumes "page_aligned pi" "wp + k \<le> 512"
  shows "j < 4096 \<Longrightarrow> fetched m f (pi + of_nat wp) k (pi + of_nat j) =
           (if wp \<le> j \<and> j < wp + k then m (f (of_nat (j - wp))) else m (pi + of_nat j))"
    and "pageno x \<noteq> pageno pi \<Longrightarrow> fetched m f (pi + of_nat wp) k x = m x"
proof -
  have b: "unat pi + 4096 \<le> 2 ^ 64" using pageno_bound [of pi] by (simp add: page_aligned_unat [OF assms(1)])
  have u: "unat (pi + of_nat j) = unat pi + j" if "j < 4096" for j
    using unat_page_offset [OF assms(1) that] .
  have r: "unat (x - (pi + of_nat wp)) < k \<longleftrightarrow> unat pi + wp \<le> unat x \<and> unat x < unat pi + wp + k" for x
    using unat_sub_range [of "pi + of_nat wp" k x] u [of wp] b assms(2) by simp
  show "fetched m f (pi + of_nat wp) k (pi + of_nat j) =
           (if wp \<le> j \<and> j < wp + k then m (f (of_nat (j - wp))) else m (pi + of_nat j))" if "j < 4096"
  proof (cases "wp \<le> j \<and> j < wp + k")
    case True
    then have "pi + of_nat j - (pi + of_nat wp) = of_nat (j - wp)" by simp
    with True show ?thesis using r [of "pi + of_nat j"] u [OF that] by (simp add: fetched_def)
  next
    case False
    then show ?thesis using r [of "pi + of_nat j"] u [OF that] by (auto simp: fetched_def)
  qed
  show "fetched m f (pi + of_nat wp) k x = m x" if "pageno x \<noteq> pageno pi"
  proof -
    have "\<not> unat (x - (pi + of_nat wp)) < k"
    proof
      assume less: "unat (x - (pi + of_nat wp)) < k"
      define i where "i = unat (x - (pi + of_nat wp))"
      have "x = pi + of_nat (wp + i)" by (simp add: i_def)
      moreover have "wp + i < 4096" using less assms(2) by (simp add: i_def)
      ultimately show False using that pageno_page_offset [OF assms(1)] by metis
    qed
    then show ?thesis by (simp add: fetched_def)
  qed
qed

lemma fetched_fields:
  assumes "page_aligned pi" "wp + k \<le> 512"
  shows "load32 (fetched m f (pi + of_nat wp) k) (pipe_nread pi) = load32 m (pipe_nread pi)"
    "load32 (fetched m f (pi + of_nat wp) k) (pipe_nwrite pi) = load32 m (pipe_nwrite pi)"
proof -
  have "fetched m f (pi + of_nat wp) k (pi + of_nat (off + i)) = m (pi + of_nat (off + i))"
    if "512 \<le> off" "off + i < 4096" for off i
    using fetched_page(1) [OF assms that(2)] that(1) assms(2) by simp
  from this [of 512] this [of 516]
  show "load32 (fetched m f (pi + of_nat wp) k) (pipe_nread pi) = load32 m (pipe_nread pi)"
    "load32 (fetched m f (pi + of_nat wp) k) (pipe_nwrite pi) = load32 m (pipe_nwrite pi)"
    unfolding pipe_field by (intro load_le_cong; simp add: add.assoc)+
qed

text \<open>The slots at the write counter, as far as the end of the ring, are one stretch of memory.\<close>

lemma slot_at:
  "unat w mod 512 + i < 512 \<Longrightarrow> (ucast ((w + of_nat i) mod (512 :: u32)) :: u64) = of_nat (unat w mod 512 + i)"
proof -
  assume "unat w mod 512 + i < 512"
  then have "(unat w + i) mod 512 = unat w mod 512 + i" by (metis mod_add_left_eq mod_less)
  then have "unat ((w + of_nat i) mod (512 :: u32)) = unat w mod 512 + i" using pipe_ring.slot [of w i] by simp
  then show ?thesis by (simp only: ucast_unat)
qed

lemma slot_offset: "(ucast ((w + of_nat i) mod (512 :: u32)) :: u64) = of_nat ((unat w + i) mod 512)"
  using pipe_ring.slot [of w i] by (simp only: ucast_unat) simp

lemma ucast_inj: "(ucast x :: u64) = ucast y \<Longrightarrow> x = y" for x y :: u32
  by transfer simp

lemma queue_fetched:
  fixes f :: "u64 \<Rightarrow> u64"
  assumes al: "page_aligned pi" and w: "w = load32 m (pipe_nwrite pi)" and wp: "wp = unat w mod 512"
    and k: "wp + k \<le> 512" and used: "pipe_used m pi + k \<le> 512"
  defines "m1 \<equiv> fetched m f (pi + of_nat wp) k"
  shows "pipe_queue m1 pi = pipe_queue m pi"
    "pipe_queue (store32 (pipe_nwrite pi) (w + of_nat k) m1) pi = pipe_queue m pi @ map (\<lambda>i. m (f (of_nat i))) [0..<k]"
proof -
  define r where "r = load32 m (pipe_nread pi)"
  define q where "q = pipe_used m pi"
  have q: "q = unat (w - r)" "q + k \<le> 512" using used by (simp_all add: q_def pipe_used_def r_def w)
  have w_r: "w = r + of_nat q" using q(1) by simp
  have data: "m1 (pi + ucast ((r + of_nat i) mod (512 :: u32))) = m (pi + ucast ((r + of_nat i) mod (512 :: u32)))" if "i < q" for i
  proof -
    define j where "j = (unat r + i) mod 512"
    have "j < 512" by (simp add: j_def)
    have "\<not> (wp \<le> j \<and> j < wp + k)"
    proof
      assume a: "wp \<le> j \<and> j < wp + k"
      define i' where "i' = j - wp"
      have i': "i' < k" "wp + i' = j" using a by (auto simp: i'_def)
      have "unat w mod 512 + i' < 512" using i' k wp by linarith
      then have "(ucast ((w + of_nat i') mod 512) :: u64) = of_nat j"
        using slot_at [of w i'] i'(2) [unfolded wp] by (simp only: simp_thms)
      moreover have "(ucast ((r + of_nat i) mod 512) :: u64) = of_nat j" by (simp only: slot_offset j_def)
      ultimately have "(ucast ((r + of_nat i) mod 512) :: u64) = ucast ((r + of_nat (q + i')) mod 512)"
        by (simp add: w_r add.assoc)
      then have "(r + of_nat i) mod 512 = (r + of_nat (q + i')) mod 512"
        by (rule ucast_inj)
      then have "i = q + i'" using pipe_ring.slot_inj [of i "q + i'" r] that q(2) i'(1) by simp
      with that show False by simp
    qed
    then show ?thesis using fetched_page(1) [OF al k, of j m f] \<open>j < 512\<close>
      unfolding m1_def slot_offset j_def [symmetric] by auto
  qed
  have new: "m1 (pi + ucast ((w + of_nat i) mod (512 :: u32))) = m (f (of_nat i))" if "i < k" for i
  proof -
    have "unat w mod 512 + i < 512" using that k wp by linarith
    then show ?thesis unfolding m1_def slot_at [OF \<open>unat w mod 512 + i < 512\<close>] wp [symmetric]
      using fetched_page(1) [OF al k, of "wp + i" m f] that by simp
  qed
  note f1 = fetched_fields [OF al k, of m f, folded m1_def]
  show "pipe_queue m1 pi = pipe_queue m pi"
    unfolding pipe_queue_def f1 w [symmetric] r_def [symmetric]
    by (rule pipe_ring.contents_cong) (use data q in simp)
  let ?m2 = "store32 (pipe_nwrite pi) (w + of_nat k) m1"
  have f2: "load32 ?m2 (pipe_nread pi) = r" "load32 ?m2 (pipe_nwrite pi) = w + of_nat k"
    using f1(1) field_not_field(1) [OF al] by (simp_all add: r_def)
  have same: "?m2 (pi + ucast (i mod (512 :: u32))) = m1 (pi + ucast (i mod (512 :: u32)))" for i
    unfolding pipe_field by (rule data_not_field [OF al]) simp_all
  have "pipe_ring.contents (\<lambda>i. ?m2 (pi + ucast i)) r (w + of_nat (length (map (\<lambda>i. m (f (of_nat i))) [0..<k]))) =
        pipe_ring.contents (\<lambda>i. m (pi + ucast i)) r w @ map (\<lambda>i. m (f (of_nat i))) [0..<k]"
    by (rule pipe_ring.contents_store_many) (use q same new data in simp_all)
  then show "pipe_queue ?m2 pi = pipe_queue m pi @ map (\<lambda>i. m (f (of_nat i))) [0..<k]"
    unfolding pipe_queue_def f2 by (simp add: w r_def)
qed

text \<open>What a change of the pipe's page alone leaves to the writer.\<close>

lemma apart_frame:
  assumes wf: "pt_wf m root" and apart: "pipe_apart m root pi va n" and ag: "agree_on (- {pageno pi}) m m'"
  shows "pt_wf m' root" "user_addr m' root a = user_addr m root a" "pipe_apart m' root pi va n"
    "k \<le> n \<Longrightarrow> mapped m root va k \<Longrightarrow> user_bytes m' root va k = user_bytes m root va k"
proof -
  have ag': "agree_on (pageno ` tables m root) m m'"
    by (rule agree_on_subset [OF ag]) (use apart in \<open>auto simp: pipe_apart_def\<close>)
  note wf' = pt_wf_agree [OF wf ag']
  have al: "page_aligned root" using wf by (simp add: pt_wf_def)
  have u: "user_addr m' root a = user_addr m root a" for a using user_addr_agree(1) [OF ag' al] .
  show "pt_wf m' root" "user_addr m' root a = user_addr m root a" using wf' u by simp_all
  show "pipe_apart m' root pi va n" using apart wf' u by (simp add: pipe_apart_def)
  show "user_bytes m' root va k = user_bytes m root va k" if "k \<le> n" "mapped m root va k"
    unfolding user_bytes_def
  proof (intro map_cong refl)
    fix i assume "i \<in> set [0..<k]"
    with that obtain a where a: "i < n" "user_addr m root (va + of_nat i) = Some a"
      by (auto simp: mapped_def)
    with apart have "pageno a \<noteq> pageno pi" unfolding pipe_apart_def by blast
    with ag a(2) show "user_byte m' root (va + of_nat i) = user_byte m root (va + of_nat i)"
      by (simp add: user_byte_def u agree_on_def)
  qed
qed

lemma pipe_apart_add: "pipe_apart m root pi va (n + k) \<Longrightarrow> pipe_apart m root pi va n \<and> pipe_apart m root pi (va + of_nat n) k"
  by (simp add: pipe_apart_def all_less_add add.assoc)

lemma copyin_safe_pipe:
  assumes "pipe_apart m root pi va k" "page_aligned pi" "wp + k \<le> 512"
  shows "copyin_safe m root (pi + of_nat wp) va k"
proof -
  have "pageno x = pageno pi" if "unat (x - (pi + of_nat wp)) < k" for x
  proof -
    define i where "i = unat (x - (pi + of_nat wp))"
    have "x = pi + of_nat (wp + i)" by (simp add: i_def)
    moreover have "wp + i < 4096" using that assms(3) by (simp add: i_def)
    ultimately show ?thesis using pageno_page_offset [OF assms(2)] by metis
  qed
  then show ?thesis using assms(1) unfolding pipe_apart_def copyin_safe_def by metis
qed

text \<open>One turn of the loop.\<close>

lemma pipewrite_turn:
  assumes wf: "pt_wf (ram ph) root" and al: "page_aligned pi"
    and w: "w = load32 (ram ph) (pipe_nwrite pi)"
    and ch: "unat w mod 512 + ch \<le> 512" "pipe_used (ram ph) pi + ch \<le> 512"
    and apart: "pipe_apart (ram ph) root pi va ch"
  shows "\<exists>rc m. copyin root (pi + of_nat (unat w mod 512)) va (of_nat ch) ph = Inr (rc, ph\<lparr>ram := m\<rparr>) \<and>
      agree_on (- {pageno pi}) (ram ph) m \<and>
      pipe_queue m pi = pipe_queue (ram ph) pi \<and> load32 m (pipe_nwrite pi) = w \<and>
      load32 m (pipe_nread pi) = load32 (ram ph) (pipe_nread pi) \<and>
      (if mapped (ram ph) root va ch
       then rc = 0 \<and> pipe_queue (store32 (pipe_nwrite pi) (w + of_nat ch) m) pi =
              pipe_queue (ram ph) pi @ user_bytes (ram ph) root va ch
       else rc = - 1)"
proof -
  let ?f = "\<lambda>i. the (user_addr (ram ph) root (va + i))" and ?wp = "unat w mod 512"
  have u: "unat (of_nat ch :: u64) = ch" using ch(2) by (simp add: unat_of_nat)
  have safe: "copyin_safe (ram ph) root (pi + of_nat ?wp) va (unat (of_nat ch :: u64))"
    unfolding u by (rule copyin_safe_pipe [OF apart al ch(1)])
  from copyin_spec [OF wf safe] obtain rc k where
    c: "copyin root (pi + of_nat ?wp) va (of_nat ch) ph = Inr (rc, ph\<lparr>ram := fetched (ram ph) ?f (pi + of_nat ?wp) k\<rparr>)"
    "k \<le> ch" "if mapped (ram ph) root va ch then rc = 0 \<and> k = ch else rc = - 1"
    unfolding u by blast
  have k: "?wp + k \<le> 512" "pipe_used (ram ph) pi + k \<le> 512" using c(2) ch by linarith+
  note q = queue_fetched [OF al w refl k, of ?f]
  have bytes: "map (\<lambda>i. ram ph (?f (of_nat i))) [0..<ch] = user_bytes (ram ph) root va ch"
    by (simp add: user_bytes_def user_byte_def)
  have "agree_on (- {pageno pi}) (ram ph) (fetched (ram ph) ?f (pi + of_nat ?wp) k)"
    using fetched_page(2) [OF al k(1)] by (simp add: agree_on_def)
  with c q fetched_fields [OF al k(1)] bytes show ?thesis
    by (intro exI [of _ rc] exI [of _ "fetched (ram ph) ?f (pi + of_nat ?wp) k"]) (auto simp: w split: if_splits)
qed

text \<open>\<open>d\<close> bytes of the user at \<open>va\<close> stand at the end of the queue, and no other page has changed.\<close>

definition appended :: "memory \<Rightarrow> u64 \<Rightarrow> u64 \<Rightarrow> u64 \<Rightarrow> nat \<Rightarrow> memory \<Rightarrow> bool" where
  "appended m root pi va d m' \<longleftrightarrow> agree_on (- {pageno pi}) m m' \<and> mapped m root va d \<and>
     pipe_queue m' pi = pipe_queue m pi @ user_bytes m root va d \<and> load32 m' (pipe_nread pi) = load32 m (pipe_nread pi)"

lemma appended_none:
  "agree_on (- {pageno pi}) m m' \<Longrightarrow> pipe_queue m' pi = pipe_queue m pi \<Longrightarrow>
    load32 m' (pipe_nread pi) = load32 m (pipe_nread pi) \<Longrightarrow> appended m root pi va 0 m'"
  by (simp add: appended_def)

lemma appended_trans:
  assumes wf: "pt_wf m root" and ap: "pipe_apart m root pi (va + of_nat c) k" and d: "d \<le> k"
    and s: "appended m root pi va c m1" "appended m1 root pi (va + of_nat c) d m2"
  shows "appended m root pi va (c + d) m2"
proof -
  note fr = apart_frame [OF wf ap, of m1]
  have ag: "agree_on (- {pageno pi}) m m1" using s(1) by (simp add: appended_def)
  then have md: "mapped m root (va + of_nat c) d" using s(2) fr(2) by (simp add: appended_def mapped_def)
  have "agree_on (- {pageno pi}) m m2" using s agree_on_trans by (auto simp: appended_def)
  then show ?thesis using s md fr(4) [OF ag d md] by (simp add: appended_def mapped_add user_bytes_add)
qed

lemma appended_chunk:
  assumes al: "page_aligned pi" and ag: "agree_on (- {pageno pi}) m m1" and mp: "mapped m root va ch"
    and r: "load32 m1 (pipe_nread pi) = load32 m (pipe_nread pi)"
    and q: "pipe_queue (store32 (pipe_nwrite pi) v m1) pi = pipe_queue m pi @ user_bytes m root va ch"
  shows "appended m root pi va ch (store32 (pipe_nwrite pi) v m1)"
proof -
  have "agree_on (- {pageno pi}) m1 (store32 (pipe_nwrite pi) v m1)"
    unfolding pipe_field by (rule agree_on_store [OF al]) simp_all
  with ag have "agree_on (- {pageno pi}) m (store32 (pipe_nwrite pi) v m1)" by (rule agree_on_trans)
  then show ?thesis using mp q r field_not_field(1) [OF al] by (simp add: appended_def)
qed

text \<open>The chunk of a turn, and the turn of the loop as an equation.\<close>

lemma pipe_chunk_facts:
  assumes n: "unat n < 2 ^ 31" "unat i < unat n" and ch: "ch = min (512 - unat c mod 512) (unat n - unat i)"
  shows "pipe_chunk (c mod pipe_size) (n - i) = of_nat ch" "(ucast (c mod pipe_size) :: u64) = of_nat (unat c mod 512)"
    "(ucast (of_nat ch :: u32) :: u64) = of_nat ch" "unat (i + of_nat ch) = unat i + ch" "unat i < 2 ^ 31"
proof -
  have rest: "unat (n - i) = unat n - unat i" using n(2) by (simp add: unat_sub word_le_nat_alt)
  have wp: "unat (c mod pipe_size) = unat c mod 512" by (simp add: unat_mod)
  then have chunk: "unat (pipe_chunk (c mod pipe_size) (n - i)) = ch"
    using unat_pipe_chunk [of "c mod pipe_size" "n - i"] by (simp add: ch rest)
  then show eq: "pipe_chunk (c mod pipe_size) (n - i) = of_nat ch" by (rule unat_eqD)
  show "(ucast (c mod pipe_size) :: u64) = of_nat (unat c mod 512)" by (simp only: ucast_unat wp)
  show "(ucast (of_nat ch :: u32) :: u64) = of_nat ch" using chunk unfolding eq by (simp only: ucast_unat)
  have "unat i + ch < 2 ^ 32" using n by (simp add: ch)
  then show "unat (i + of_nat ch) = unat i + ch" using chunk unfolding eq by (simp add: unat_word_ariths)
  show "unat i < 2 ^ 31" using n by linarith
qed

lemma pipewrite_chunk:
  assumes n: "unat n < 2 ^ 31" "unat written < unat n" and w: "w = load32 (ram ph) (pipe_nwrite pi)"
    and ch: "ch = min (512 - unat w mod 512) (unat n - unat written)"
    and c: "copyin root (pi + of_nat (unat w mod 512)) (src + of_nat (unat written)) (of_nat ch) ph = Inr (rc, ph\<lparr>ram := m\<rparr>)"
    and nw: "load32 m (pipe_nwrite pi) = w"
  shows "pipewrite_loop root pi src n written ph =
    (if rc <s 0 then Inr (- 1, ph\<lparr>ram := m\<rparr>)
     else pipewrite_loop root pi src n (written + of_nat ch) (ph\<lparr>ram := store32 (pipe_nwrite pi) (w + of_nat ch) m\<rparr>))"
  using n(2) c nw pipe_chunk_facts [OF n ch]
  by (subst pipewrite_loop.simps)
    (simp add: sless_small [OF _ n(1)] Let_def w [symmetric] scast_small on_ram_def del: pipe_size_def)

lemma piperead_chunk:
  assumes n: "unat n < 2 ^ 31" "unat readn < unat n" and r: "r = load32 (ram ph) (pipe_nread pi)"
    and ch: "ch = min (512 - unat r mod 512) (unat n - unat readn)"
    and c: "copyout root (dst + of_nat (unat readn)) (pi + of_nat (unat r mod 512)) (of_nat ch) ph = Inr (rc, ph\<lparr>ram := m\<rparr>)"
    and nr: "load32 m (pipe_nread pi) = r"
  shows "piperead_loop root pi dst n readn ph =
    (if rc <s 0 then Inr (- 1, ph\<lparr>ram := m\<rparr>)
     else piperead_loop root pi dst n (readn + of_nat ch) (ph\<lparr>ram := store32 (pipe_nread pi) (r + of_nat ch) m\<rparr>))"
  using n(2) c nr pipe_chunk_facts [OF n ch]
  by (subst piperead_loop.simps)
    (simp add: sless_small [OF _ n(1)] Let_def r [symmetric] scast_small on_ram_def del: pipe_size_def)

lemma pipewrite_loop_spec:
  assumes "pt_wf (ram ph) root" "page_aligned pi" "unat n < 2 ^ 31" "unat written \<le> unat n"
    and "pipe_used (ram ph) pi + (unat n - unat written) \<le> 512"
    and "pipe_apart (ram ph) root pi (src + of_nat (unat written)) (unat n - unat written)"
  shows "\<exists>rc m d. pipewrite_loop root pi src n written ph = Inr (rc, ph\<lparr>ram := m\<rparr>) \<and>
    appended (ram ph) root pi (src + of_nat (unat written)) d m \<and> d \<le> unat n - unat written \<and>
    (if mapped (ram ph) root (src + of_nat (unat written)) (unat n - unat written)
     then rc = n \<and> d = unat n - unat written else rc = - 1)"
  using assms
proof (induction "unat n - unat written" arbitrary: written ph rule: less_induct)
  case less
  let ?m = "ram ph" and ?va = "src + of_nat (unat written)" and ?k = "unat n - unat written"
  note wf = less.prems(1) and al = less.prems(2) and small = less.prems(3) and le = less.prems(4)
  show ?case
  proof (cases "unat written < unat n")
    case False
    have "unat written < 2 ^ 31" using small le by linarith
    then have "pipewrite_loop root pi src n written ph = Inr (n, ph\<lparr>ram := ram ph\<rparr>)"
      using le False by (subst pipewrite_loop.simps) (simp add: sless_small [OF _ small] word_unat_eq_iff)
    with False show ?thesis by (intro exI [of _ n] exI [of _ ?m] exI [of _ 0]) (simp add: appended_none)
  next
    case True
    define w where "w = load32 ?m (pipe_nwrite pi)"
    define ch where "ch = min (512 - unat w mod 512) ?k"
    have ch: "0 < ch" "ch \<le> ?k" "unat w mod 512 + ch \<le> 512" "pipe_used ?m pi + ch \<le> 512"
      using True less.prems(5) by (auto simp: ch_def min_def)
    have k: "?k = ch + (?k - ch)" using ch(2) by simp
    then have apart: "pipe_apart ?m root pi ?va ch" "pipe_apart ?m root pi (?va + of_nat ch) (?k - ch)"
      using less.prems(6) pipe_apart_add [of ?m root pi ?va ch "?k - ch"] by simp_all
    have mp: "mapped ?m root ?va ?k \<longleftrightarrow> mapped ?m root ?va ch \<and> mapped ?m root (?va + of_nat ch) (?k - ch)"
      using mapped_add [of ?m root ?va ch "?k - ch"] k by simp
    from pipewrite_turn [OF wf al w_def ch(3,4) apart(1)] obtain rc m where
      t: "copyin root (pi + of_nat (unat w mod 512)) ?va (of_nat ch) ph = Inr (rc, ph\<lparr>ram := m\<rparr>)"
      "agree_on (- {pageno pi}) ?m m" "pipe_queue m pi = pipe_queue ?m pi" "load32 m (pipe_nwrite pi) = w"
      "load32 m (pipe_nread pi) = load32 ?m (pipe_nread pi)"
      "if mapped ?m root ?va ch
       then rc = 0 \<and> pipe_queue (store32 (pipe_nwrite pi) (w + of_nat ch) m) pi = pipe_queue ?m pi @ user_bytes ?m root ?va ch
       else rc = - 1" by blast
    note loop = pipewrite_chunk [OF small True w_def ch_def t(1,4)] and step = pipe_chunk_facts(4) [OF small True ch_def]
    show ?thesis
    proof (cases "mapped ?m root ?va ch")
      case False
      then show ?thesis using t(6) loop appended_none [OF t(2,3,5)] mp
        by (intro exI [of _ "- 1"] exI [of _ m] exI [of _ 0]) simp
    next
      case map: True
      define ph2 where "ph2 = ph\<lparr>ram := store32 (pipe_nwrite pi) (w + of_nat ch) m\<rparr>"
      have one: "appended ?m root pi ?va ch (ram ph2)"
        using appended_chunk [OF al t(2) map t(5)] t(6) map by (simp add: ph2_def)
      then have ag: "agree_on (- {pageno pi}) ?m (ram ph2)" and u2: "pipe_used (ram ph2) pi = pipe_used ?m pi + ch"
        unfolding appended_def by (blast, metis length_append length_pipe_queue length_user_bytes)
      have va2: "src + of_nat (unat (written + of_nat ch)) = ?va + of_nat ch" unfolding step by (simp add: add.assoc)
      have k2: "unat n - unat (written + of_nat ch) = ?k - ch" using step by simp
      note fr = apart_frame [OF wf apart(2) ag]
      have "unat n - unat (written + of_nat ch) < ?k" "unat (written + of_nat ch) \<le> unat n"
        "pipe_used (ram ph2) pi + (unat n - unat (written + of_nat ch)) \<le> 512"
        unfolding k2 u2 step using ch True less.prems(5) by linarith+
      then obtain rc' m' d where i: "pipewrite_loop root pi src n (written + of_nat ch) ph2 = Inr (rc', ph2\<lparr>ram := m'\<rparr>)"
        "appended (ram ph2) root pi (?va + of_nat ch) d m'" "d \<le> ?k - ch"
        "if mapped (ram ph2) root (?va + of_nat ch) (?k - ch) then rc' = n \<and> d = ?k - ch else rc' = - 1"
        using less.hyps [of "written + of_nat ch" ph2] fr(1,3) al small unfolding va2 k2 by metis
      have mp2: "mapped (ram ph2) root (?va + of_nat ch) (?k - ch) = mapped ?m root (?va + of_nat ch) (?k - ch)"
        by (simp add: mapped_def fr(2))
      have "pipewrite_loop root pi src n written ph = Inr (rc', ph\<lparr>ram := m'\<rparr>)"
        using loop t(6) map i(1) by (simp add: ph2_def)
      moreover have "ch + d \<le> ?k" "d = ?k - ch \<Longrightarrow> ch + d = ?k" using i(3) ch(2) by linarith+
      moreover have "appended ?m root pi ?va (ch + d) m'" by (rule appended_trans [OF wf apart(2) i(3) one i(2)])
      ultimately show ?thesis
        using i(4) map mp unfolding mp2 by (intro exI [of _ rc'] exI [of _ m'] exI [of _ "ch + d"]) (auto split: if_splits)
    qed
  qed
qed

section \<open>Reading\<close>

text \<open>The front of the queue is one stretch of memory, and moving the read counter drops it.\<close>

lemma queue_front:
  assumes r: "r = load32 m (pipe_nread pi)" and ch: "unat r mod 512 + ch \<le> 512" "ch \<le> pipe_used m pi" "pipe_used m pi \<le> 512"
  shows "i < ch \<Longrightarrow> pipe_queue m pi ! i = m (pi + of_nat (unat r mod 512 + i))"
proof -
  assume i: "i < ch"
  have "unat r mod 512 + i < 512" using i ch(1) by linarith
  note slot = slot_at [OF this]
  have "i < unat (load32 m (pipe_nwrite pi) - r)" using i ch(2) by (simp add: pipe_used_def r)
  then show ?thesis unfolding pipe_queue_def pipe_ring.contents_def r [symmetric] by (simp add: slot)
qed

lemma queue_drop:
  assumes al: "page_aligned pi" and r: "r = load32 m (pipe_nread pi)" and ch: "ch \<le> pipe_used m pi" "pipe_used m pi \<le> 512"
    and ag: "agree_on {pageno pi} m m1"
  shows "pipe_queue (store32 (pipe_nread pi) (r + of_nat ch) m1) pi = drop ch (pipe_queue m pi)"
proof -
  let ?m2 = "store32 (pipe_nread pi) (r + of_nat ch) m1"
  define w where "w = load32 m (pipe_nwrite pi)"
  have page: "m1 (pi + of_nat j) = m (pi + of_nat j)" if "j < 4096" for j
    using ag pageno_page_offset [OF al that] by (simp add: agree_on_def)
  have w1: "load32 m1 (pipe_nwrite pi) = w" unfolding w_def pipe_field
  proof (rule load_le_cong)
    fix i :: nat assume "i < 4"
    then show "m1 (pi + of_nat 516 + of_nat i) = m (pi + of_nat 516 + of_nat i)"
      using page [of "516 + i"] by (simp add: add.assoc)
  qed
  have f: "load32 ?m2 (pipe_nread pi) = r + of_nat ch" "load32 ?m2 (pipe_nwrite pi) = w"
    using field_not_field(2) [OF al] w1 by simp_all
  have data: "?m2 (pi + ucast (j mod (512 :: u32))) = m (pi + ucast (j mod (512 :: u32)))" for j
  proof -
    have "unat (j mod 512) < 4096" by (simp add: unat_mod order_less_trans [of _ 512])
    then have "m1 (pi + ucast (j mod 512)) = m (pi + ucast (j mod 512))" using page by (simp only: ucast_unat)
    moreover have "?m2 (pi + ucast (j mod (512 :: u32))) = m1 (pi + ucast (j mod (512 :: u32)))"
      unfolding pipe_field by (rule data_not_field [OF al]) simp_all
    ultimately show ?thesis by simp
  qed
  have used: "ch \<le> unat (w - r)" "unat (w - r) \<le> unat (512 :: u32)" using ch by (simp_all add: pipe_used_def w_def r)
  note d = pipe_ring.contents_drop_many [OF used]
  have "pipe_queue ?m2 pi = pipe_ring.contents (\<lambda>i. m (pi + ucast i)) (r + of_nat ch) w"
    unfolding pipe_queue_def f by (rule pipe_ring.contents_cong) (simp add: data)
  moreover have "pipe_queue m pi = pipe_ring.contents (\<lambda>i. m (pi + ucast i)) r w" by (simp add: pipe_queue_def r w_def)
  ultimately show ?thesis using d(1) [of "\<lambda>i. m (pi + ucast i)"] by simp
qed

text \<open>The frames the reader's range writes: its own, each mapped once, no table and not the pipe.\<close>

definition pipe_wapart :: "memory \<Rightarrow> u64 \<Rightarrow> u64 \<Rightarrow> u64 \<Rightarrow> nat \<Rightarrow> bool" where
  "pipe_wapart m root pi va n \<longleftrightarrow>
     pageno pi \<notin> pageno ` tables m root \<and>
     (\<forall>i < n. \<forall>a. user_waddr m root (va + of_nat i) = Some a \<longrightarrow>
        pageno a \<notin> pageno ` tables m root \<and> pageno a \<noteq> pageno pi \<and>
        (\<forall>j < n. user_waddr m root (va + of_nat j) = Some a \<longrightarrow> j = i))"

lemma pipe_wapart_add:
  assumes "pipe_wapart m root pi va (n + k)"
  shows "pipe_wapart m root pi va n" "pipe_wapart m root pi (va + of_nat n) k"
proof -
  show "pipe_wapart m root pi va n"
    unfolding pipe_wapart_def
  proof (intro conjI allI impI)
    show "pageno pi \<notin> pageno ` tables m root" using assms by (simp add: pipe_wapart_def)
    fix i a assume i: "i < n" "user_waddr m root (va + of_nat i) = Some a"
    then have "i < n + k" by simp
    with i(2) assms show "pageno a \<notin> pageno ` tables m root" "pageno a \<noteq> pageno pi"
      unfolding pipe_wapart_def by blast+
    fix j assume "j < n" "user_waddr m root (va + of_nat j) = Some a"
    with i(2) \<open>i < n + k\<close> assms show "j = i" unfolding pipe_wapart_def by (meson trans_less_add1)
  qed
  show "pipe_wapart m root pi (va + of_nat n) k"
    unfolding pipe_wapart_def
  proof (intro conjI allI impI)
    show "pageno pi \<notin> pageno ` tables m root" using assms by (simp add: pipe_wapart_def)
    fix i a assume "i < k" "user_waddr m root (va + of_nat n + of_nat i) = Some a"
    then have i: "n + i < n + k" "user_waddr m root (va + of_nat (n + i)) = Some a" by (simp_all add: add.assoc)
    with assms show "pageno a \<notin> pageno ` tables m root" "pageno a \<noteq> pageno pi"
      unfolding pipe_wapart_def by blast+
    fix j assume "j < k" "user_waddr m root (va + of_nat n + of_nat j) = Some a"
    then have "n + j < n + k" "user_waddr m root (va + of_nat (n + j)) = Some a" by (simp_all add: add.assoc)
    with i assms have "n + j = n + i" unfolding pipe_wapart_def by blast
    then show "j = i" by simp
  qed
qed

lemma in_pipe_page:
  assumes "page_aligned pi" "wp + k \<le> 512" "unat (x - (pi + of_nat wp)) < k"
  shows "pageno x = pageno pi"
proof -
  define i where "i = unat (x - (pi + of_nat wp))"
  have "x = pi + of_nat (wp + i)" by (simp add: i_def)
  moreover have "wp + i < 4096" using assms(2,3) by (simp add: i_def)
  ultimately show ?thesis using pageno_page_offset [OF assms(1)] by metis
qed

lemma copyout_safe_pipe:
  assumes "pipe_wapart m root pi va k" "page_aligned pi" "wp + k \<le> 512"
  shows "copyout_safe m root va (pi + of_nat wp) k"
  using assms(1) in_pipe_page [OF assms(2,3)] unfolding pipe_wapart_def copyout_safe_def by metis

text \<open>One turn of the loop.\<close>

lemma piperead_turn:
  assumes wf: "pt_wf (ram ph) root" and al: "page_aligned pi"
    and r: "r = load32 (ram ph) (pipe_nread pi)"
    and ch: "unat r mod 512 + ch \<le> 512" "ch \<le> pipe_used (ram ph) pi" "pipe_used (ram ph) pi \<le> 512"
    and apart: "pipe_wapart (ram ph) root pi va ch"
  shows "\<exists>rc m k. copyout root va (pi + of_nat (unat r mod 512)) (of_nat ch) ph = Inr (rc, ph\<lparr>ram := m\<rparr>) \<and>
      stored (ram ph) root va (pi + of_nat (unat r mod 512)) k m \<and> k \<le> ch \<and>
      agree_on {pageno pi} (ram ph) m \<and> agree_on (pageno ` tables (ram ph) root) (ram ph) m \<and>
      (if wmapped (ram ph) root va ch then rc = 0 \<and> k = ch else rc = - 1)"
proof -
  let ?src = "pi + of_nat (unat r mod 512)"
  have u: "unat (of_nat ch :: u64) = ch" using ch by (simp add: unat_of_nat)
  have safe: "copyout_safe (ram ph) root va ?src ch" by (rule copyout_safe_pipe [OF apart al ch(1)])
  then have safe': "copyout_safe (ram ph) root va ?src (unat (of_nat ch :: u64))" unfolding u .
  from copyout_spec [OF wf safe'] obtain rc k m where
    c: "copyout root va ?src (of_nat ch) ph = Inr (rc, ph\<lparr>ram := m\<rparr>)" "stored (ram ph) root va ?src k m" "k \<le> ch"
    "if wmapped (ram ph) root va ch then rc = 0 \<and> k = ch else rc = - 1"
    unfolding u by blast
  have "user_waddr (ram ph) root (va + of_nat i) \<noteq> Some x" if "i < k" "pageno x = pageno pi" for i x
    using apart order_less_le_trans [OF that(1) c(3)] that(2) unfolding pipe_wapart_def by blast
  then have "agree_on {pageno pi} (ram ph) m" using c(2) by (simp add: agree_on_def stored_def)
  moreover have "agree_on (pageno ` tables (ram ph) root) (ram ph) m" by (rule stored_agree [OF safe c(3,2)])
  ultimately show ?thesis using c by blast
qed

lemma waddr_frame:
  assumes wf: "pt_wf m root" and ag: "agree_on (pageno ` tables m root) m m'"
  shows "pt_wf m' root" "user_waddr m' root a = user_waddr m root a"
    "pipe_wapart m' root pi va n = pipe_wapart m root pi va n" "wmapped m' root va n = wmapped m root va n"
proof -
  note wf' = pt_wf_agree [OF wf ag]
  have u: "user_waddr m' root a = user_waddr m root a" for a
    using user_addr_agree(2) [OF ag] wf by (simp add: pt_wf_def)
  show "pt_wf m' root" "user_waddr m' root a = user_waddr m root a"
    "pipe_wapart m' root pi va n = pipe_wapart m root pi va n" "wmapped m' root va n = wmapped m root va n"
    using wf' u by (simp_all add: pipe_wapart_def wmapped_def)
qed

text \<open>What the reader gets: \<open>d\<close> bytes from the front, and nothing else changes but the pipe's page.\<close>

definition delivered :: "memory \<Rightarrow> u64 \<Rightarrow> u64 \<Rightarrow> u64 \<Rightarrow> nat \<Rightarrow> nat \<Rightarrow> memory \<Rightarrow> bool" where
  "delivered m root pi va k d m' \<longleftrightarrow>
     d \<le> k \<and> pipe_queue m' pi = drop d (pipe_queue m pi) \<and>
     (\<forall>i < d. \<exists>a. user_waddr m root (va + of_nat i) = Some a \<and> m' a = pipe_queue m pi ! i) \<and>
     (\<forall>x. pageno x \<noteq> pageno pi \<longrightarrow> (\<forall>i < k. user_waddr m root (va + of_nat i) \<noteq> Some x) \<longrightarrow> m' x = m x)"

lemma delivered_0: "agree_on {pageno pi} m m' \<Longrightarrow> page_aligned pi \<Longrightarrow> pipe_used m pi \<le> 512 \<Longrightarrow>
  stored m root va src j m' \<Longrightarrow> j \<le> k \<Longrightarrow> delivered m root pi va k 0 m'"
proof -
  assume a: "agree_on {pageno pi} m m'" "page_aligned pi" "stored m root va src j m'" "j \<le> k"
  have page: "m' (pi + of_nat i) = m (pi + of_nat i)" if "i < 4096" for i
    using a(1) pageno_page_offset [OF a(2) that] by (simp add: agree_on_def)
  have f: "load32 m' (pipe_nread pi) = load32 m (pipe_nread pi)" "load32 m' (pipe_nwrite pi) = load32 m (pipe_nwrite pi)"
    unfolding pipe_field by (rule load_le_agree [OF a(1,2)]; simp)+
  have "pipe_queue m' pi = pipe_queue m pi"
    unfolding pipe_queue_def f
  proof (rule pipe_ring.contents_cong)
    fix i
    have "(unat (load32 m (pipe_nread pi)) + i) mod 512 < 4096"
      using mod_less_divisor [of 512 "unat (load32 m (pipe_nread pi)) + i"] by linarith
    then show "m' (pi + ucast ((load32 m (pipe_nread pi) + of_nat i) mod 512)) = m (pi + ucast ((load32 m (pipe_nread pi) + of_nat i) mod 512))"
      unfolding slot_offset by (rule page)
  qed
  with a show "delivered m root pi va k 0 m'" by (simp add: delivered_def stored_def)
qed

lemma delivered_step:
  assumes al: "page_aligned pi" and r: "r = load32 m (pipe_nread pi)"
    and ch: "unat r mod 512 + ch \<le> 512" "ch \<le> pipe_used m pi" "pipe_used m pi \<le> 512"
    and st: "stored m root va (pi + of_nat (unat r mod 512)) ch m1" and ag: "agree_on {pageno pi} m m1"
    and apart: "pipe_wapart m root pi va (ch + k)" and u: "\<And>a. user_waddr m2 root a = user_waddr m root a"
    and m2: "m2 = store32 (pipe_nread pi) (r + of_nat ch) m1"
    and rest: "delivered m2 root pi (va + of_nat ch) k d m'"
  shows "delivered m root pi va (ch + k) (ch + d) m'"
proof -
  have q2: "pipe_queue m2 pi = drop ch (pipe_queue m pi)" unfolding m2 by (rule queue_drop [OF al r ch(2,3) ag])
  have m2_out: "m2 x = m1 x" if "pageno x \<noteq> pageno pi" for x
    using that unfolding m2 pipe_field by (intro store_le_page [OF al]) simp_all
  have first: "\<exists>a. user_waddr m root (va + of_nat i) = Some a \<and> m' a = pipe_queue m pi ! i" if i: "i < ch" for i
  proof -
    from st have "\<forall>i < ch. \<exists>a. user_waddr m root (va + of_nat i) = Some a \<and> m1 a = m (pi + of_nat (unat r mod 512) + of_nat i)"
      unfolding stored_def by (rule conjunct1)
    with i obtain a where a: "user_waddr m root (va + of_nat i) = Some a" "m1 a = m (pi + of_nat (unat r mod 512) + of_nat i)"
      by blast
    have ik: "i < ch + k" using i by simp
    with apart a(1) have pn: "pageno a \<noteq> pageno pi" unfolding pipe_wapart_def by blast
    have "user_waddr m2 root (va + of_nat ch + of_nat j) \<noteq> Some a" if "j < k" for j
    proof
      assume "user_waddr m2 root (va + of_nat ch + of_nat j) = Some a"
      then have "user_waddr m root (va + of_nat (ch + j)) = Some a" by (simp add: u add.assoc)
      moreover have "ch + j < ch + k" using that by simp
      ultimately have "ch + j = i" using apart a(1) ik unfolding pipe_wapart_def by blast
      with i show False by simp
    qed
    then have "m' a = m2 a" using rest pn unfolding delivered_def by blast
    also have "\<dots> = pipe_queue m pi ! i"
      using m2_out [OF pn] a(2) queue_front [OF r ch i] by (simp add: add.assoc)
    finally show ?thesis using a(1) by blast
  qed
  have second: "\<exists>a. user_waddr m root (va + of_nat (ch + i)) = Some a \<and> m' a = pipe_queue m pi ! (ch + i)" if "i < d" for i
    using rest that ch(2) unfolding delivered_def q2 by (auto simp: u add.assoc)
  have "m' x = m x" if x: "pageno x \<noteq> pageno pi" "\<forall>i < ch + k. user_waddr m root (va + of_nat i) \<noteq> Some x" for x
  proof -
    have x': "(\<forall>i < ch. user_waddr m root (va + of_nat i) \<noteq> Some x) \<and> (\<forall>i < k. user_waddr m root (va + of_nat (ch + i)) \<noteq> Some x)"
      using x(2) unfolding all_less_add .
    then have "\<forall>i < k. user_waddr m2 root (va + of_nat ch + of_nat i) \<noteq> Some x" by (simp add: u add.assoc)
    then have "m' x = m2 x" using rest x(1) unfolding delivered_def by blast
    also have "\<dots> = m x" using m2_out [OF x(1)] st x' unfolding stored_def by simp
    finally show ?thesis .
  qed
  moreover have "ch + d \<le> ch + k" "pipe_queue m' pi = drop (ch + d) (pipe_queue m pi)"
    using rest q2 by (simp_all add: delivered_def add.commute)
  moreover have "\<forall>i < ch + d. \<exists>a. user_waddr m root (va + of_nat i) = Some a \<and> m' a = pipe_queue m pi ! i"
    unfolding all_less_add using first second by blast
  ultimately show ?thesis unfolding delivered_def by blast
qed

lemma piperead_loop_spec:
  assumes "pt_wf (ram ph) root" "page_aligned pi" "unat n < 2 ^ 31" "unat readn \<le> unat n"
    and "unat n - unat readn \<le> pipe_used (ram ph) pi" "pipe_used (ram ph) pi \<le> 512"
    and "pipe_wapart (ram ph) root pi (dst + of_nat (unat readn)) (unat n - unat readn)"
  shows "\<exists>rc m d. piperead_loop root pi dst n readn ph = Inr (rc, ph\<lparr>ram := m\<rparr>) \<and>
    delivered (ram ph) root pi (dst + of_nat (unat readn)) (unat n - unat readn) d m \<and>
    (if wmapped (ram ph) root (dst + of_nat (unat readn)) (unat n - unat readn)
     then rc = n \<and> d = unat n - unat readn else rc = - 1)"
  using assms
proof (induction "unat n - unat readn" arbitrary: readn ph rule: less_induct)
  case less
  let ?m = "ram ph" and ?va = "dst + of_nat (unat readn)" and ?k = "unat n - unat readn"
  note wf = less.prems(1) and al = less.prems(2) and small = less.prems(3) and le = less.prems(4) and used = less.prems(6)
  show ?case
  proof (cases "unat readn < unat n")
    case False
    have "unat readn < 2 ^ 31" using small le by linarith
    then have "piperead_loop root pi dst n readn ph = Inr (n, ph\<lparr>ram := ram ph\<rparr>)"
      using le False by (subst piperead_loop.simps) (simp add: sless_small [OF _ small] word_unat_eq_iff)
    with False show ?thesis
      by (intro exI [of _ n] exI [of _ ?m] exI [of _ 0]) (simp add: delivered_def wmapped_def)
  next
    case True
    define r where "r = load32 ?m (pipe_nread pi)"
    define ch where "ch = min (512 - unat r mod 512) ?k"
    have ch: "0 < ch" "ch \<le> ?k" "unat r mod 512 + ch \<le> 512" "ch \<le> pipe_used ?m pi"
      using True less.prems(5) by (auto simp: ch_def min_def)
    have k: "?k = ch + (?k - ch)" using ch(2) by simp
    have all: "pipe_wapart ?m root pi ?va (ch + (?k - ch))" using less.prems(7) k by simp
    note apart = pipe_wapart_add [OF all]
    have mp: "wmapped ?m root ?va ?k \<longleftrightarrow> wmapped ?m root ?va ch \<and> wmapped ?m root (?va + of_nat ch) (?k - ch)"
      using wmapped_add [of ?m root ?va ch "?k - ch"] k by simp
    from piperead_turn [OF wf al r_def ch(3,4) used apart(1)] obtain rc m j where
      t: "copyout root ?va (pi + of_nat (unat r mod 512)) (of_nat ch) ph = Inr (rc, ph\<lparr>ram := m\<rparr>)"
      "stored ?m root ?va (pi + of_nat (unat r mod 512)) j m" "j \<le> ch" "agree_on {pageno pi} ?m m"
      "agree_on (pageno ` tables ?m root) ?m m"
      "if wmapped ?m root ?va ch then rc = 0 \<and> j = ch else rc = - 1" by blast
    have "load32 m (pi + of_nat 512) = load32 ?m (pi + of_nat 512)" by (rule load_le_agree [OF t(4) al]) simp_all
    then have r1: "load32 m (pipe_nread pi) = r" by (simp add: r_def pipe_field)
    note loop = piperead_chunk [OF small True r_def ch_def t(1) r1] and step = pipe_chunk_facts(4) [OF small True ch_def]
    show ?thesis
    proof (cases "wmapped ?m root ?va ch")
      case False
      then have "rc <s 0" using t(6) by simp
      with False loop mp delivered_0 [OF t(4) al used t(2)] t(3) ch(2) show ?thesis
        by (intro exI [of _ "- 1"] exI [of _ m] exI [of _ 0]) simp
    next
      case map: True
      define m2 where "m2 = store32 (pipe_nread pi) (r + of_nat ch) m"
      have rc: "\<not> rc <s 0" and st: "stored ?m root ?va (pi + of_nat (unat r mod 512)) ch m" using t(2,6) map by simp_all
      have q2: "pipe_queue m2 pi = drop ch (pipe_queue ?m pi)"
        unfolding m2_def by (rule queue_drop [OF al r_def ch(4) used t(4)])
      have u2: "pipe_used m2 pi = pipe_used ?m pi - ch" using arg_cong [OF q2, of length] by simp
      have "pageno pi \<notin> pageno ` tables ?m root" using apart(1) by (simp add: pipe_wapart_def)
      then have "agree_on (pageno ` tables ?m root) m m2" unfolding m2_def pipe_field
        by (intro agree_on_store [OF al]) simp_all
      then have ag: "agree_on (pageno ` tables ?m root) ?m m2" by (rule agree_on_trans [OF t(5)])
      note fr = waddr_frame [OF wf ag]
      have va2: "dst + of_nat (unat (readn + of_nat ch)) = ?va + of_nat ch" unfolding step by (simp add: add.assoc)
      have k2: "unat n - unat (readn + of_nat ch) = ?k - ch" using step by simp
      define ph2 where "ph2 = ph\<lparr>ram := m2\<rparr>"
      have ph2: "ram ph2 = m2" by (simp add: ph2_def)
      have "unat n - unat (readn + of_nat ch) < ?k" "unat (readn + of_nat ch) \<le> unat n"
        "unat n - unat (readn + of_nat ch) \<le> pipe_used (ram ph2) pi" "pipe_used (ram ph2) pi \<le> 512"
        unfolding k2 ph2 u2 step using ch True less.prems(5) used by linarith+
      moreover have "pt_wf (ram ph2) root"
        "pipe_wapart (ram ph2) root pi (dst + of_nat (unat (readn + of_nat ch))) (unat n - unat (readn + of_nat ch))"
        unfolding ph2 va2 k2 fr(3) by (rule fr(1), rule apart(2))
      ultimately obtain rc' m' d where i: "piperead_loop root pi dst n (readn + of_nat ch) ph2 = Inr (rc', ph2\<lparr>ram := m'\<rparr>)"
        "delivered m2 root pi (?va + of_nat ch) (?k - ch) d m'"
        "if wmapped m2 root (?va + of_nat ch) (?k - ch) then rc' = n \<and> d = ?k - ch else rc' = - 1"
        using less.hyps [of "readn + of_nat ch" ph2] al small unfolding va2 k2 ph2 by metis
      have "piperead_loop root pi dst n readn ph = Inr (rc', ph\<lparr>ram := m'\<rparr>)"
        using loop rc i(1) by (simp add: ph2_def m2_def)
      moreover have "delivered ?m root pi ?va (ch + (?k - ch)) (ch + d) m'"
        by (rule delivered_step [OF al r_def ch(3,4) used st t(4) all fr(2) m2_def i(2)])
      ultimately show ?thesis
        using i(3) map mp ch(2) unfolding fr(4) k [symmetric]
        by (intro exI [of _ rc'] exI [of _ m'] exI [of _ "ch + d"]) (simp split: if_splits)
    qed
  qed
qed

end
