(* ===== verification/Machine.thy ===== *)
theory Machine
  imports Kernel_State
begin

text \<open>
  The register accessors of \<open>riscv.h\<close> and the machine-mode start of \<open>kernel/boot/start.c\<close>. Interrupts
  of the supervisor (\<open>intr_on\<close>, \<open>intr_off\<close>, \<open>intr_get\<close>) are in \<open>Spinlock\<close>.
\<close>

section \<open>riscv.h\<close>

definition MSTATUS_MPP_MASK :: u64 where "MSTATUS_MPP_MASK = push_bit 11 3"
definition MSTATUS_MPP_M :: u64 where "MSTATUS_MPP_M = push_bit 11 3"
definition MSTATUS_MPP_S :: u64 where "MSTATUS_MPP_S = push_bit 11 1"
definition MSTATUS_MPP_U :: u64 where "MSTATUS_MPP_U = push_bit 11 0"
definition MSTATUS_MIE :: u64 where "MSTATUS_MIE = push_bit 3 1"
definition SSTATUS_SPP :: u64 where "SSTATUS_SPP = push_bit 8 1"
definition SSTATUS_SPIE :: u64 where "SSTATUS_SPIE = push_bit 5 1"
definition SSTATUS_UPIE :: u64 where "SSTATUS_UPIE = push_bit 4 1"
definition SSTATUS_UIE :: u64 where "SSTATUS_UIE = push_bit 0 1"
definition SIE_SEIE :: u64 where "SIE_SEIE = push_bit 9 1"
definition SIE_STIE :: u64 where "SIE_STIE = push_bit 5 1"
definition SIE_SSIE :: u64 where "SIE_SSIE = push_bit 1 1"
definition MIE_MEIE :: u64 where "MIE_MEIE = push_bit 11 1"
definition MIE_MTIE :: u64 where "MIE_MTIE = push_bit 7 1"
definition MIE_MSIE :: u64 where "MIE_MSIE = push_bit 3 1"

definition on_csr :: "(csr \<Rightarrow> csr) \<Rightarrow> kernel \<Rightarrow> kernel" where
  "on_csr f k = k\<lparr>csrs := f (csrs k)\<rparr>"

definition r_mstatus :: "kernel \<Rightarrow> u64" where "r_mstatus k = mstatus (csrs k)"
definition w_mstatus :: "u64 \<Rightarrow> kernel \<Rightarrow> kernel" where "w_mstatus x = on_csr (mstatus_update (\<lambda>_. x))"
definition w_mepc :: "u64 \<Rightarrow> kernel \<Rightarrow> kernel" where "w_mepc x = on_csr (mepc_update (\<lambda>_. x))"
definition r_sstatus :: "kernel \<Rightarrow> u64" where "r_sstatus k = sstatus (hart k)"
definition w_sstatus :: "u64 \<Rightarrow> kernel \<Rightarrow> kernel" where "w_sstatus x = on_hart (sstatus_update (\<lambda>_. x))"
definition r_sip :: "kernel \<Rightarrow> u64" where "r_sip k = sip (csrs k)"
definition w_sip :: "u64 \<Rightarrow> kernel \<Rightarrow> kernel" where "w_sip x = on_csr (sip_update (\<lambda>_. x))"
definition r_sie :: "kernel \<Rightarrow> u64" where "r_sie k = sie (csrs k)"
definition w_sie :: "u64 \<Rightarrow> kernel \<Rightarrow> kernel" where "w_sie x = on_csr (sie_update (\<lambda>_. x))"
definition r_mie :: "kernel \<Rightarrow> u64" where "r_mie k = mie (csrs k)"
definition w_mie :: "u64 \<Rightarrow> kernel \<Rightarrow> kernel" where "w_mie x = on_csr (mie_update (\<lambda>_. x))"
definition r_sepc :: "kernel \<Rightarrow> u64" where "r_sepc k = sepc (csrs k)"
definition w_sepc :: "u64 \<Rightarrow> kernel \<Rightarrow> kernel" where "w_sepc x = on_csr (sepc_update (\<lambda>_. x))"
definition r_medeleg :: "kernel \<Rightarrow> u64" where "r_medeleg k = medeleg (csrs k)"
definition w_medeleg :: "u64 \<Rightarrow> kernel \<Rightarrow> kernel" where "w_medeleg x = on_csr (medeleg_update (\<lambda>_. x))"
definition r_mideleg :: "kernel \<Rightarrow> u64" where "r_mideleg k = mideleg (csrs k)"
definition w_mideleg :: "u64 \<Rightarrow> kernel \<Rightarrow> kernel" where "w_mideleg x = on_csr (mideleg_update (\<lambda>_. x))"
definition r_stvec :: "kernel \<Rightarrow> u64" where "r_stvec k = stvec (csrs k)"
definition w_stvec :: "u64 \<Rightarrow> kernel \<Rightarrow> kernel" where "w_stvec x = on_csr (stvec_update (\<lambda>_. x))"
definition w_mtvec :: "u64 \<Rightarrow> kernel \<Rightarrow> kernel" where "w_mtvec x = on_csr (mtvec_update (\<lambda>_. x))"
definition r_satp :: "kernel \<Rightarrow> u64" where "r_satp k = satp (csrs k)"
definition w_satp :: "u64 \<Rightarrow> kernel \<Rightarrow> kernel" where "w_satp x = on_csr (satp_update (\<lambda>_. x))"
definition r_scause :: "kernel \<Rightarrow> u64" where "r_scause k = scause (csrs k)"
definition r_stval :: "kernel \<Rightarrow> u64" where "r_stval k = stval (csrs k)"
definition r_mhartid :: "kernel \<Rightarrow> u64" where "r_mhartid k = mhartid (csrs k)"
definition r_tp :: "kernel \<Rightarrow> u64" where "r_tp k = tp (hart k)"
definition w_tp :: "u64 \<Rightarrow> kernel \<Rightarrow> kernel" where "w_tp x = on_hart (tp_update (\<lambda>_. x))"
definition w_mscratch :: "u64 \<Rightarrow> kernel \<Rightarrow> kernel" where "w_mscratch x = on_csr (mscratch_update (\<lambda>_. x))"
definition w_pmpaddr0 :: "u64 \<Rightarrow> kernel \<Rightarrow> kernel" where "w_pmpaddr0 x = on_csr (pmpaddr0_update (\<lambda>_. x))"
definition w_pmpcfg0 :: "u64 \<Rightarrow> kernel \<Rightarrow> kernel" where "w_pmpcfg0 x = on_csr (pmpcfg0_update (\<lambda>_. x))"

lemmas csr_defs = on_csr_def on_hart_def r_mstatus_def w_mstatus_def w_mepc_def r_sstatus_def w_sstatus_def
  r_sip_def w_sip_def r_sie_def w_sie_def r_mie_def w_mie_def r_sepc_def w_sepc_def w_medeleg_def
  w_mideleg_def w_stvec_def w_mtvec_def r_satp_def w_satp_def r_scause_def r_stval_def r_mhartid_def
  r_tp_def w_tp_def w_mscratch_def r_medeleg_def r_mideleg_def r_stvec_def w_pmpaddr0_def w_pmpcfg0_def

section \<open>start.c\<close>

definition CLINT :: u64 where "CLINT = 0x2000000"
definition CLINT_MTIMECMP :: "u64 \<Rightarrow> u64" where "CLINT_MTIMECMP hartid = CLINT + 0x4000 + 8 * hartid"

text \<open>
  \<open>hartid\<close> is an \<open>int\<close>, so the value read is cut to 32 bits and sign-extended where it enters an
  address. \<open>timer_scratch\<close> is the address of the array, \<open>timervec\<close> that of the assembly entry.
\<close>

definition hart_int :: "u64 \<Rightarrow> u64" where
  "hart_int x = scast (ucast x :: u32)"

definition timerinit :: "u64 \<Rightarrow> u64 \<Rightarrow> kernel \<Rightarrow> kernel" where
  "timerinit timer_scratch timervec k =
     (let hartid = hart_int (r_mhartid k);
          interval = 1000000 :: u64;
          k = on_csr (\<lambda>c. c\<lparr>mtimecmp := mtime c + interval\<rparr>) k;
          scratch = timer_scratch + 40 * hartid;
          k = k\<lparr>mem := (mem k)\<lparr>ram := store64 (scratch + 24) (CLINT_MTIMECMP hartid) (ram (mem k))\<rparr>\<rparr>;
          k = k\<lparr>mem := (mem k)\<lparr>ram := store64 (scratch + 32) interval (ram (mem k))\<rparr>\<rparr>;
          k = w_mscratch scratch k;
          k = w_mtvec timervec k;
          k = w_mie (r_mie k OR MIE_MTIE OR MIE_MEIE) k
      in w_mstatus (r_mstatus k OR MSTATUS_MIE) k)"

text \<open>The state before \<open>mret\<close>; \<open>start_main\<close> is the address of the function.\<close>

definition start :: "u64 \<Rightarrow> u64 \<Rightarrow> u64 \<Rightarrow> kernel \<Rightarrow> kernel" where
  "start start_main timer_scratch timervec k =
     (let x = r_mstatus k;
          x = x AND NOT MSTATUS_MPP_MASK;
          x = x OR MSTATUS_MPP_S;
          k = w_mstatus x k;
          k = w_mepc start_main k;
          k = w_medeleg 0xffff k;
          k = w_mideleg 0xffff k;
          k = w_sie (r_sie k OR SIE_SEIE OR SIE_STIE OR SIE_SSIE) k;
          k = on_csr (\<lambda>c. c\<lparr>pmpaddr0 := 0x3fffffffffffff\<rparr>) k;
          k = on_csr (\<lambda>c. c\<lparr>pmpcfg0 := 0xf\<rparr>) k;
          k = timerinit timer_scratch timervec k
      in w_tp (r_mhartid k) k)"

section \<open>kvminithart\<close>

text \<open>\<open>sfence.vma\<close> empties the translation cache, which the model does not have.\<close>

definition kvminithart :: "kernel \<Rightarrow> kernel" where
  "kvminithart k = w_satp (MAKE_SATP (kernel_pagetable k)) k"

section \<open>What the start establishes\<close>

lemma bits:
  "bit MSTATUS_MPP_MASK n \<longleftrightarrow> n = 11 \<or> n = 12" "bit MSTATUS_MPP_S n \<longleftrightarrow> n = 11" "bit MSTATUS_MIE n \<longleftrightarrow> n = 3"
  "bit SSTATUS_SPP n \<longleftrightarrow> n = 8" "bit SSTATUS_SPIE n \<longleftrightarrow> n = 5"
  "bit SIE_SEIE n \<longleftrightarrow> n = 9" "bit SIE_STIE n \<longleftrightarrow> n = 5" "bit SIE_SSIE n \<longleftrightarrow> n = 1"
  "bit MIE_MEIE n \<longleftrightarrow> n = 11" "bit MIE_MTIE n \<longleftrightarrow> n = 7" "bit SSTATUS_SIE n \<longleftrightarrow> n = 1"
proof -
  have three: "bit (3 :: u64) i \<longleftrightarrow> i = 0 \<or> i = 1" for i
  proof -
    have "(3 :: u64) = mask 2" by (simp add: mask_eq_exp_minus_1)
    then show ?thesis by (simp only: bit_mask_iff) auto
  qed
  have one: "bit (push_bit k 1 :: u64) n \<longleftrightarrow> n = k" if "k < 64" for k
    using that by (auto simp: bit_simps)
  show "bit MSTATUS_MPP_MASK n \<longleftrightarrow> n = 11 \<or> n = 12"
    unfolding MSTATUS_MPP_MASK_def bit_push_bit_iff three by auto
  show "bit MSTATUS_MPP_S n \<longleftrightarrow> n = 11" "bit MSTATUS_MIE n \<longleftrightarrow> n = 3"
    "bit SSTATUS_SPP n \<longleftrightarrow> n = 8" "bit SSTATUS_SPIE n \<longleftrightarrow> n = 5"
    "bit SIE_SEIE n \<longleftrightarrow> n = 9" "bit SIE_STIE n \<longleftrightarrow> n = 5" "bit SIE_SSIE n \<longleftrightarrow> n = 1"
    "bit MIE_MEIE n \<longleftrightarrow> n = 11" "bit MIE_MTIE n \<longleftrightarrow> n = 7" "bit SSTATUS_SIE n \<longleftrightarrow> n = 1"
    unfolding MSTATUS_MPP_S_def MSTATUS_MIE_def SSTATUS_SPP_def SSTATUS_SPIE_def SIE_SEIE_def SIE_STIE_def
      SIE_SSIE_def MIE_MEIE_def MIE_MTIE_def SSTATUS_SIE_def by (rule one, simp)+
qed

text \<open>
  After \<open>start\<close> the machine returns into \<open>start_main\<close> in supervisor mode with everything delegated,
  the timer armed, and nothing else changed.
\<close>

lemma start_state:
  assumes "k' = start start_main timer_scratch timervec k"
  shows "mepc (csrs k') = start_main" "medeleg (csrs k') = 0xffff" "mideleg (csrs k') = 0xffff"
    "mtvec (csrs k') = timervec" "mtimecmp (csrs k') = mtime (csrs k) + 1000000"
    "bit (mstatus (csrs k')) n \<longleftrightarrow> (if n = 11 \<or> n = 3 then True else if n = 12 then False else bit (mstatus (csrs k)) n)"
    "bit (sie (csrs k')) n \<longleftrightarrow> n \<in> {1, 5, 9} \<or> bit (sie (csrs k)) n"
    "bit (mie (csrs k')) n \<longleftrightarrow> n \<in> {7, 11} \<or> bit (mie (csrs k)) n"
    "tp (hart k') = mhartid (csrs k)" "sstatus (hart k') = sstatus (hart k)"
  unfolding assms
  by (auto simp: start_def timerinit_def Let_def csr_defs bit_or_iff bit_and_iff bit_not_iff bits dest: bit_imp_le_length)

end
