(* ===== verification/Process.thy ===== *)
theory Process
  imports Machine File_Pipe Uvm
begin

text \<open>
  Processes: \<open>kernel/proc/proc.c\<close>. A \<open>struct proc *\<close> is an index of the process table, a trap frame the
  address of its page. The context switch is the parameter \<^const>\<open>swtch\<close> of the world.
\<close>

section \<open>Trap frames\<close>

text \<open>
  The fields of \<open>struct trapframe\<close> in order, eight bytes each, and the offsets of those that C code
  touches.
\<close>

definition trapframe_layout :: "string list" where
  "trapframe_layout =
     [''kernel_satp'', ''kernel_sp'', ''kernel_trap'', ''epc'', ''kernel_hartid'',
      ''ra'', ''sp'', ''gp'', ''tp'', ''t0'', ''t1'', ''t2'', ''s0'', ''s1'',
      ''a0'', ''a1'', ''a2'', ''a3'', ''a4'', ''a5'', ''a6'', ''a7'',
      ''s2'', ''s3'', ''s4'', ''s5'', ''s6'', ''s7'', ''s8'', ''s9'', ''s10'', ''s11'',
      ''t3'', ''t4'', ''t5'', ''t6'']"

definition TF_kernel_satp :: u64 where "TF_kernel_satp = 0"
definition TF_kernel_sp :: u64 where "TF_kernel_sp = 8"
definition TF_kernel_trap :: u64 where "TF_kernel_trap = 16"
definition TF_epc :: u64 where "TF_epc = 24"
definition TF_kernel_hartid :: u64 where "TF_kernel_hartid = 32"
definition TF_sp :: u64 where "TF_sp = 48"
definition TF_a :: "nat \<Rightarrow> u64" where "TF_a n = 112 + 8 * of_nat n"
definition TF_size :: u64 where "TF_size = 288"

definition tf_get :: "u64 \<Rightarrow> u64 \<Rightarrow> kernel \<Rightarrow> u64" where
  "tf_get tf field k = load64 (ram (mem k)) (tf + field)"

definition tf_set :: "u64 \<Rightarrow> u64 \<Rightarrow> u64 \<Rightarrow> kernel \<Rightarrow> kernel" where
  "tf_set tf field v k = k\<lparr>mem := on_ram (store64 (tf + field) v) (mem k)\<rparr>"

definition set_proc :: "nat \<Rightarrow> (proc \<Rightarrow> proc) \<Rightarrow> kernel \<Rightarrow> kernel" where
  "set_proc i f k = k\<lparr>procs := (procs k)[i := f (procs k ! i)]\<rparr>"

definition do_kalloc :: "kernel \<Rightarrow> u64 \<times> kernel" where
  "do_kalloc k = (let (pa, ph) = kalloc (mem k) in (pa, k\<lparr>mem := ph\<rparr>))"

definition do_mem :: "(phys \<Rightarrow> phys outcome) \<Rightarrow> kernel \<Rightarrow> kernel outcome" where
  "do_mem f k = bindE (f (mem k)) (\<lambda>ph. Inr (k\<lparr>mem := ph\<rparr>))"

definition do_ram :: "(memory \<Rightarrow> memory) \<Rightarrow> kernel \<Rightarrow> kernel" where
  "do_ram f k = k\<lparr>mem := on_ram f (mem k)\<rparr>"

section \<open>Identifiers and the table\<close>

definition allocpid :: "kernel \<Rightarrow> (u32 \<times> kernel) outcome" where
  "allocpid k =
     bindE (on_pidlock acquire k) (\<lambda>k.
     let k = k\<lparr>nextpid := nextpid k + 1\<rparr>; n = nextpid k in
     bindE (on_pidlock release k) (\<lambda>k. Inr (n, k)))"

definition procinit :: "kernel \<Rightarrow> kernel" where
  "procinit k =
     (let k = k\<lparr>pidlock := initlock ''pidlock'' (pidlock k)\<rparr> in
      fold (\<lambda>i. set_proc i (\<lambda>p. p\<lparr>plock := initlock ''plock'' (plock p), status := TASK_FREE, kstack := KSTACK i\<rparr>))
        [0..<NPROC] k)"

primrec find_free_proc :: "nat list \<Rightarrow> kernel \<Rightarrow> (nat option \<times> kernel) outcome" where
  "find_free_proc [] k = Inr (None, k)"
| "find_free_proc (i # is) k =
     bindE (on_plock acquire i k) (\<lambda>k.
     if status (procs k ! i) = TASK_FREE then Inr (Some i, k)
     else bindE (on_plock release i k) (find_free_proc is))"

text \<open>The two standard descriptors: \<open>f = filealloc(); f->type = FD_CONSOLE; ...; p->ofile[fd] = f;\<close>\<close>

definition open_console :: "nat \<Rightarrow> nat \<Rightarrow> (kfile \<Rightarrow> kfile) \<Rightarrow> kernel \<Rightarrow> kernel outcome" where
  "open_console i fd mode k =
     (case filealloc k of
        (None, _) \<Rightarrow> Inl (NullDeref ''allocproc: f->type'')
      | (Some f, k) \<Rightarrow>
          let k = k\<lparr>files := (files k)[f := mode ((files k ! f)\<lparr>ftype := FD_CONSOLE\<rparr>)]\<rparr>
          in Inr (set_proc i (\<lambda>p. p\<lparr>ofile := (ofile p)[fd := Some f]\<rparr>) k))"

definition allocproc :: "world \<Rightarrow> kernel \<Rightarrow> (nat option \<times> kernel) outcome" where
  "allocproc W k =
     bindE (find_free_proc [0..<NPROC] k) (\<lambda>(found, k).
     case found of None \<Rightarrow> Inr (None, k)
     | Some i \<Rightarrow>
       bindE (allocpid k) (\<lambda>(n, k).
       let k = set_proc i (\<lambda>p. p\<lparr>pid := n\<rparr>) k;
           (tf, k) = do_kalloc k;
           k = set_proc i (\<lambda>p. p\<lparr>trapframe := tf\<rparr>) k
       in if tf = 0 then
            let k = set_proc i (\<lambda>p. p\<lparr>status := TASK_FREE\<rparr>) k in
            bindE (on_plock release i k) (\<lambda>k. Inr (None, k))
          else
            let (pt, ph) = uvmcreate (mem k); k = k\<lparr>mem := ph\<rparr> in
            if pt = 0 then Inr (None, k)
            else
              bindE (on_mem (mappages pt (a_trampoline W) TRAMPOLINE PGSIZE PTE_RX) k) (\<lambda>(rc, k).
              if rc <s 0 then bindE (on_plock release i k) (\<lambda>k. Inr (None, k))
              else
                bindE (on_mem (mappages pt tf TRAPFRAME PGSIZE PTE_RW) k) (\<lambda>(rc, k).
                if rc <s 0 then bindE (on_plock release i k) (\<lambda>k. Inr (None, k))
                else
                  let k = set_proc i (\<lambda>p. p\<lparr>pagetable := pt,
                            pcontext := \<lparr>ctx_s = replicate 12 0, ctx_ra = a_forkret W, ctx_sp = kstack p + PGSIZE\<rparr>\<rparr>) k;
                      (phy_kstack, k) = do_kalloc k
                  in bindE (on_mem (mappages (kernel_pagetable k) phy_kstack (kstack (procs k ! i)) PGSIZE PTE_RW) k) (\<lambda>(rc, k).
                     if rc <s 0 then bindE (on_plock release i k) (\<lambda>k. Inr (None, k))
                     else
                       bindE (open_console i 1 (\<lambda>f. f\<lparr>writable := 1\<rparr>) k) (\<lambda>k.
                       bindE (open_console i 0 (\<lambda>f. f\<lparr>readable := 1\<rparr>) k) (\<lambda>k.
                       Inr (Some i, set_proc i (\<lambda>p. p\<lparr>status := TASK_ALLOCATED\<rparr>) k))))))))"

definition freeproc :: "nat \<Rightarrow> kernel \<Rightarrow> kernel outcome" where
  "freeproc i k =
     bindE (if trapframe (procs k ! i) \<noteq> 0 then do_mem (kfree (trapframe (procs k ! i))) k else Inr k) (\<lambda>k.
     let k = set_proc i (\<lambda>p. p\<lparr>trapframe := 0\<rparr>) k; p = procs k ! i in
     bindE (if pagetable p \<noteq> 0 then
              bindE (do_mem (uvmunmap (pagetable p) TRAMPOLINE PGSIZE False) k) (\<lambda>k.
              bindE (do_mem (uvmunmap (pagetable p) TRAPFRAME PGSIZE False) k) (\<lambda>k.
              bindE (if sz p > 0 then do_mem (uvmunmap (pagetable p) 0 (PGROUNDUP (sz p)) True) k else Inr k) (\<lambda>k.
              do_mem (freewalk 3 (pagetable p)) k)))
            else Inr k) (\<lambda>k.
     bindE (do_mem (uvmunmap (kernel_pagetable k) (kstack p) PGSIZE True) k) (\<lambda>k.
     Inr (set_proc i (\<lambda>p. p\<lparr>pagetable := 0, sz := 0, pid := 0, parent := None, pname := (pname p)[0 := 0],
       status := TASK_FREE\<rparr>) k))))"

section \<open>The scheduler\<close>

text \<open>One turn of the scheduler's inner loop.\<close>

definition scheduler_turn :: "world \<Rightarrow> nat \<Rightarrow> kernel \<Rightarrow> kernel outcome" where
  "scheduler_turn W i k =
     bindE (on_plock acquire i k) (\<lambda>k.
     if status (procs k ! i) \<noteq> TASK_READY then on_plock release i k
     else
       let k = set_proc i (\<lambda>p. p\<lparr>status := TASK_RUNNING\<rparr>) k;
           k = on_hart (\<lambda>h. h\<lparr>cpu_proc := Some i\<rparr>) k
       in bindE (swtch W k) (\<lambda>k.
          let k = on_hart (\<lambda>h. h\<lparr>cpu_proc := None\<rparr>) k in
          on_plock release i k))"

definition scheduler_pass :: "world \<Rightarrow> kernel \<Rightarrow> kernel outcome" where
  "scheduler_pass W k = forE (scheduler_turn W) [0..<NPROC] (on_hart intr_on k)"

text \<open>The endless outer loop, cut after \<open>n\<close> passes.\<close>

primrec scheduler_loop :: "world \<Rightarrow> nat \<Rightarrow> kernel \<Rightarrow> kernel outcome" where
  "scheduler_loop W 0 k = Inr k"
| "scheduler_loop W (Suc n) k = bindE (scheduler_pass W k) (scheduler_loop W n)"

definition scheduler :: "world \<Rightarrow> nat \<Rightarrow> kernel \<Rightarrow> kernel outcome" where
  "scheduler W n k = scheduler_loop W n (on_hart (\<lambda>h. h\<lparr>cpu_proc := None\<rparr>) k)"

text \<open>\<open>yield\<close> up to its context switch, and from there to its end.\<close>

definition yield_out :: "nat \<Rightarrow> kernel \<Rightarrow> kernel outcome" where
  "yield_out i k =
     bindE (on_plock acquire i k) (\<lambda>k. Inr (set_proc i (\<lambda>p. p\<lparr>status := TASK_READY\<rparr>) k))"

definition yield :: "world \<Rightarrow> kernel \<Rightarrow> kernel outcome" where
  "yield W k =
     bindE (myproc k) (\<lambda>(p, k).
     case p of None \<Rightarrow> Inl (NullDeref ''yield: p->lock'')
     | Some i \<Rightarrow> bindE (yield_out i k) (\<lambda>k. bindE (swtch W k) (on_plock release i)))"

section \<open>Programs\<close>

text \<open>
  The search through \<open>user_programs\<close> that \<open>userinit\<close> and \<open>kexec\<close> share; names are compared in memory.
\<close>

primrec find_program :: "memory \<Rightarrow> u64 \<Rightarrow> user_program list \<Rightarrow> user_program option outcome" where
  "find_program m name [] = Inr None"
| "find_program m name (up # ups) =
     (case streq m (up_name up) name of
        None \<Rightarrow> Inl (Hang ''streq'')
      | Some eq \<Rightarrow> if eq \<noteq> 0 then Inr (Some up) else find_program m name ups)"

definition PTE_URWX :: u32 where "PTE_URWX = ucast (PTE_R OR PTE_W OR PTE_U OR PTE_X)"

definition userinit :: "world \<Rightarrow> kernel \<Rightarrow> (u32 \<times> kernel) outcome" where
  "userinit W k =
     bindE (allocproc W k) (\<lambda>(p, k).
     let k = k\<lparr>initproc := p\<rparr> in
     case p of None \<Rightarrow> Inr (- 1, k)
     | Some i \<Rightarrow>
       let (page, k) = do_kalloc k in
       if page = 0 then Inr (- 1, k)
       else
         let k = do_ram (memset page 0 PGSIZE) k in
         bindE (on_mem (mappages (pagetable (procs k ! i)) page 0 PGSIZE PTE_URWX) k) (\<lambda>(rc, k).
         if rc <s 0 then Inr (- 1, k)
         else
           bindE (find_program (ram (mem k)) (a_sh W) (programs W)) (\<lambda>found.
           case found of None \<Rightarrow> Inr (- 1, k)
           | Some up \<Rightarrow>
             let k = do_ram (memmove page (up_func up) (up_size up)) k;
                 tf = trapframe (procs k ! i);
                 k = tf_set tf TF_epc 0 k;
                 k = tf_set tf TF_sp PGSIZE k;
                 k = tf_set tf (TF_a 0) 0 k;
                 k = tf_set tf (TF_a 1) 0 k;
                 k = set_proc i (\<lambda>p. p\<lparr>sz := PGSIZE, status := TASK_READY\<rparr>) k
             in bindE (on_plock release i k) (\<lambda>k. Inr (0, k)))))"

section \<open>fork\<close>

text \<open>One turn of the loop that hands the open files to the child.\<close>

definition inherit_file :: "nat \<Rightarrow> nat \<Rightarrow> nat \<Rightarrow> kernel \<Rightarrow> kernel" where
  "inherit_file i c fd k =
     (case ofile (procs k ! i) ! fd of None \<Rightarrow> k
      | Some f \<Rightarrow>
        if ref (files k ! f) \<noteq> 0 then
          let k = k\<lparr>files := (files k)[f := (files k ! f)\<lparr>ref := ref (files k ! f) + 1\<rparr>]\<rparr>
          in set_proc c (\<lambda>p. p\<lparr>ofile := (ofile p)[fd := Some f]\<rparr>) k
        else k)"

definition kfork :: "world \<Rightarrow> kernel \<Rightarrow> (u32 \<times> kernel) outcome" where
  "kfork W k =
     bindE (myproc k) (\<lambda>(me, k).
     case me of None \<Rightarrow> Inr (- 1, k)
     | Some i \<Rightarrow>
       bindE (allocproc W k) (\<lambda>(child, k).
       case child of None \<Rightarrow> Inr (- 1, k)
       | Some c \<Rightarrow>
         bindE (on_mem (uvmcopy (pagetable (procs k ! i)) (pagetable (procs k ! c)) (sz (procs k ! i))) k) (\<lambda>(rc, k).
         if rc \<noteq> 0 then bindE (on_plock release c k) (\<lambda>k. Inr (- 1, k))
         else
           let k = set_proc c (\<lambda>p. p\<lparr>sz := sz (procs k ! i)\<rparr>) k;
               tf = trapframe (procs k ! c);
               k = do_ram (memmove tf (trapframe (procs k ! i)) TF_size) k;
               k = tf_set tf (TF_a 0) 0 k;
               k = set_proc c (\<lambda>p. p\<lparr>parent := Some i\<rparr>) k;
               k = fold (inherit_file i c) [0..<NOFILE] k;
               n = pid (procs k ! c);
               k = set_proc c (\<lambda>p. p\<lparr>status := TASK_READY\<rparr>) k
           in bindE (on_plock release c k) (\<lambda>k. Inr (n, k)))))"

section \<open>wait\<close>

text \<open>
  One scan of the table: the child reaped, if any, and whether there is a child at all. The caller is
  \<open>me\<close>, the value of \<open>myproc()\<close>.
\<close>

primrec kwait_scan :: "nat option \<Rightarrow> nat list \<Rightarrow> bool \<Rightarrow> kernel \<Rightarrow> ((u32 option \<times> bool) \<times> kernel) outcome" where
  "kwait_scan me [] havekids k = Inr ((None, havekids), k)"
| "kwait_scan me (i # is) havekids k =
     bindE (on_plock acquire i k) (\<lambda>k.
     let pp = procs k ! i in
     if parent pp = me \<and> status pp = TASK_ZOMBIE then
       bindE (freeproc i k) (\<lambda>k.
       bindE (on_plock release i k) (\<lambda>k. Inr ((Some (pid pp), True), k)))
     else
       bindE (on_plock release i k) (kwait_scan me is (havekids \<or> parent pp = me)))"

text \<open>
  The scans repeat until a child has exited. Between two of them the timer may run other processes:
  \<open>env\<close> lists what they do; when they have stopped the loop does not end.
\<close>

primrec kwait_loop :: "(kernel \<Rightarrow> kernel) list \<Rightarrow> nat option \<Rightarrow> kernel \<Rightarrow> (u32 \<times> kernel) outcome" where
  "kwait_loop [] me k =
     bindE (kwait_scan me [0..<NPROC] False k) (\<lambda>((reaped, havekids), k).
     case reaped of Some n \<Rightarrow> Inr (n, k)
     | None \<Rightarrow> if \<not> havekids then Inr (- 1, k) else Inl (Hang ''kwait''))"
| "kwait_loop (e # env) me k =
     bindE (kwait_scan me [0..<NPROC] False k) (\<lambda>((reaped, havekids), k).
     case reaped of Some n \<Rightarrow> Inr (n, k)
     | None \<Rightarrow> if \<not> havekids then Inr (- 1, k) else kwait_loop env me (e k))"

definition kwait :: "world \<Rightarrow> u64 \<Rightarrow> kernel \<Rightarrow> (u32 \<times> kernel) outcome" where
  "kwait W addr k = bindE (myproc k) (\<lambda>(me, k). kwait_loop (wait_env W) me k)"

section \<open>exec\<close>

text \<open>
  The loop that copies the arguments to the new stack. \<open>argv\<close> and \<open>ustack\<close> are addresses of kernel
  arrays. The result is \<^const>\<open>None\<close> where the code returns -1, otherwise \<open>argc\<close> and \<open>sp\<close>.
\<close>

function kexec_args :: "u64 \<Rightarrow> user_program \<Rightarrow> u64 \<Rightarrow> u64 \<Rightarrow> nat \<Rightarrow> u64 \<Rightarrow> kernel \<Rightarrow> ((nat \<times> u64) option \<times> kernel) outcome" where
  "kexec_args pt up argv ustack argc sp k =
     (let arg = load64 (ram (mem k)) (argv + 8 * of_nat argc) in
      if arg \<noteq> 0 then
        if argc \<ge> MAXARG then Inr (None, k)
        else
          case strlen (ram (mem k)) arg of None \<Rightarrow> Inl (Hang ''strlen'')
          | Some n \<Rightarrow>
            let len = n + 1;
                sp = (sp - scast len) AND NOT 7
            in if sp < up_size up then Inr (None, k)
               else
                 bindE (on_mem (copyout pt sp arg (scast len)) k) (\<lambda>(rc, k).
                 if rc <s 0 then Inr (None, k)
                 else
                   let k = do_ram (store64 (ustack + 8 * of_nat argc) sp) k
                   in kexec_args pt up argv ustack (argc + 1) sp k)
      else Inr (Some (argc, sp), k))"
  by pat_completeness auto
termination
  by (relation "measure (\<lambda>(pt, up, argv, ustack, argc, sp, k). MAXARG - argc)") auto

declare kexec_args.simps [simp del]

definition kexec :: "world \<Rightarrow> u64 \<Rightarrow> u64 \<Rightarrow> kernel \<Rightarrow> (u32 \<times> kernel) outcome" where
  "kexec W program_name argv k =
     bindE (myproc k) (\<lambda>(me, k).
     if ram (mem k) program_name = 0 then Inr (- 1, k)
     else
       bindE (find_program (ram (mem k)) program_name (programs W)) (\<lambda>found.
       case found of None \<Rightarrow> Inr (- 1, k)
       | Some up \<Rightarrow>
         if up_size up > PGSIZE then Inr (- 1, k)
         else
           let (page, k) = do_kalloc k in
           if page = 0 then Inr (- 1, k)
           else
             let k = do_ram (memset page 0 PGSIZE) k;
                 k = do_ram (memmove page (up_func up) (up_size up)) k
             in case me of None \<Rightarrow> Inl (NullDeref ''kexec: p->pagetable'')
             | Some i \<Rightarrow>
               let pt = pagetable (procs k ! i) in
               bindE (if pt \<noteq> 0 \<and> sz (procs k ! i) > 0 then do_mem (uvmunmap pt 0 (sz (procs k ! i)) True) k else Inr k) (\<lambda>k.
               bindE (on_mem (mappages pt page 0 PGSIZE PTE_URWX) k) (\<lambda>(rc, k).
               if rc \<noteq> 0 then bindE (do_mem (kfree page) k) (\<lambda>k. Inr (- 1, k))
               else
                 let k = do_ram (memset (l_ustack W) 0 (8 * (of_nat MAXARG + 1))) k in
                 bindE (if argv \<noteq> 0 then kexec_args pt up argv (l_ustack W) 0 PGSIZE k else Inr (Some (0, PGSIZE), k)) (\<lambda>(args, k).
                 case args of None \<Rightarrow> Inr (- 1, k)
                 | Some (argc, sp) \<Rightarrow>
                   let k = do_ram (store64 (l_ustack W + 8 * of_nat argc) 0) k;
                       sp = (sp - 8 * (of_nat argc + 1)) AND NOT 15
                   in if sp < up_size up then Inr (- 1, k)
                      else
                        bindE (on_mem (copyout pt sp (l_ustack W) (8 * (of_nat argc + 1))) k) (\<lambda>(rc, k).
                        if rc <s 0 then Inr (- 1, k)
                        else
                          let tf = trapframe (procs k ! i);
                              k = tf_set tf TF_epc 0 k;
                              k = tf_set tf TF_sp sp k;
                              k = tf_set tf (TF_a 1) sp k;
                              k = set_proc i (\<lambda>p. p\<lparr>sz := PGSIZE\<rparr>) k
                          in Inr (of_nat argc, k)))))))"

end
