(* ===== verification/Example_Kernel.thy ===== *)
theory Example_Kernel
  imports Example_Space Console_Queue Pipe_Queue Process
begin

text \<open>
  A kernel state around \<open>ex_phys\<close>: process 0 runs on the address space \<open>exR\<close>, the console ring holds the
  line \<open>hi\<close>, and an empty pipe stands in the page \<open>exK\<close>.
\<close>

definition ex_lock :: spinlock where
  "ex_lock = \<lparr>locked = 0, lk_name = '''', lk_cpu = None\<rparr>"

definition ex_hart :: hart where
  "ex_hart = \<lparr>sstatus = 2, tp = 0, noff = 0, intena = False, cpu_proc = Some 0\<rparr>"

definition ex_cons :: console where
  "ex_cons = \<lparr>cons_lock = ex_lock, cons_buf = (replicate 128 0)[0 := 104, 1 := 105, 2 := 10],
    cons_r = 0, cons_w = 3, cons_e = 3\<rparr>"

definition ex_proc :: "task_status \<Rightarrow> u32 \<Rightarrow> proc" where
  "ex_proc st n = \<lparr>plock = ex_lock, status = st, pid = n, pagetable = exR, trapframe = exK,
    pcontext = \<lparr>ctx_s = replicate 12 0, ctx_ra = 0, ctx_sp = 0\<rparr>, kstack = KSTACK 0, sz = 4096,
    pname = replicate 16 0, parent = None, xstate = 0, killed = 0, chan = 0, ofile = replicate NOFILE None\<rparr>"

definition ex_file :: kfile where
  "ex_file = \<lparr>ftype = FD_NONE, ref = 0, readable = 0, writable = 0, fpipe = 0, finode = 0, foff = 0\<rparr>"

definition ex_csr :: csr where
  "ex_csr = \<lparr>mstatus = 0, mepc = 0, medeleg = 0, mideleg = 0, mtvec = 0, mie = 0, mscratch = 0, mhartid = 0,
    pmpaddr0 = 0, pmpcfg0 = 0, sip = 2, sie = 0, sepc = 0x100, stvec = 0, scause = 8, stval = 0, satp = 0,
    mtime = 0, mtimecmp = 0\<rparr>"

definition ex_kernel :: kernel where
  "ex_kernel = \<lparr>mem = ex_phys, hart = ex_hart,
    procs = [ex_proc TASK_RUNNING 2, ex_proc TASK_READY 3, ex_proc TASK_FREE 0, ex_proc TASK_FREE 0],
    nextpid = 3, pidlock = ex_lock, initproc = Some 0, files = replicate NFILE ex_file, kernel_pagetable = exC,
    cons = ex_cons, uart_tx = [], uart_rx = [], plic_irq = 0, mmio = [], csrs = ex_csr, times = 0\<rparr>"

lemma ex_kernel_simps [simp]:
  "mem ex_kernel = ex_phys" "hart ex_kernel = ex_hart" "cons ex_kernel = ex_cons"
  "procs ex_kernel ! 0 = ex_proc TASK_RUNNING 2" "length (procs ex_kernel) = 4" "nextpid ex_kernel = 3"
  "pidlock ex_kernel = ex_lock" "files ex_kernel = replicate NFILE ex_file" "csrs ex_kernel = ex_csr"
  "pagetable (ex_proc st n) = exR" "status (ex_proc st n) = st" "plock (ex_proc st n) = ex_lock"
  "trapframe (ex_proc st n) = exK" "ofile (ex_proc st n) = replicate NOFILE None"
  by (simp_all add: ex_kernel_def ex_proc_def)

lemma ex_hart_ok [simp]: "hart_ok ex_hart" "cpu_proc ex_hart = Some 0" "tp ex_hart = 0" "noff ex_hart = 0"
  by (simp_all add: hart_ok_def ex_hart_def)

lemma ex_idle [simp]: "idle ex_lock" "locked ex_lock = 0"
  by (simp_all add: idle_def ex_lock_def)

lemma ex_cons_ready: "cons_ready ex_kernel"
  by (simp add: cons_ready_def cons_ok_def) (simp add: ex_cons_def)

lemma ex_cons_queue: "cons_queue ex_cons = [104, 105, 10]"
proof -
  have "[0..<3] = [0, 1, 2 :: nat]" by (simp add: upt_rec)
  then show ?thesis by (simp add: cons_queue_def console_ring.contents_def ex_cons_def)
qed

text \<open>The pipe in \<open>exK\<close>: the page is zero, so the queue is empty.\<close>

lemma ex_pipe_zero: "k < 4096 \<Longrightarrow> ex_ram (exK + of_nat k) = 0"
proof -
  assume k: "k < 4096"
  have neq: "exK \<noteq> p" "pageno exK \<noteq> pageno p" if "p \<in> {exR, exT1, exT0, exX1, exX2, exX3}" for p
    using that by (auto simp: ex_pages pageno_def)
  have "store64 (pte_addr p 0) v m (exK + of_nat k) = m (exK + of_nat k)" if "p \<in> {exR, exT1, exT0, exX1, exX2, exX3}" for p v m
  proof -
    have "page_aligned p" using that by auto
    moreover have "pageno (exK + of_nat k) \<noteq> pageno p" using neq(2) [OF that] pageno_page_offset [of exK k] k by simp
    ultimately show ?thesis using store_le_page [of p 0 8 "exK + of_nat k" v m] by (simp add: pte_addr_def)
  qed
  then show ?thesis by (simp add: ex_ram_def)
qed

lemma ex_pipe_field: "k + 4 \<le> 4096 \<Longrightarrow> load32 ex_ram (exK + of_nat k) = 0"
proof -
  assume k: "k + 4 \<le> 4096"
  have "load32 ex_ram (exK + of_nat k) = load32 (\<lambda>_. 0) (exK + of_nat k)"
  proof (rule load_le_cong)
    fix i :: nat assume "i < 4"
    then show "ex_ram (exK + of_nat k + of_nat i) = 0" using ex_pipe_zero [of "k + i"] k by (simp add: add.assoc)
  qed
  also have "\<dots> = 0" by (rule load_le_zero) simp
  finally show ?thesis .
qed

lemma ex_pipe: "pipe_used ex_ram exK = 0" "pipe_queue ex_ram exK = []"
proof -
  have f: "load32 ex_ram (pipe_nread exK) = 0" "load32 ex_ram (pipe_nwrite exK) = 0"
    unfolding pipe_field by (rule ex_pipe_field, simp)+
  then show "pipe_used ex_ram exK = 0" by (simp add: pipe_used_def)
  then show "pipe_queue ex_ram exK = []" by (metis length_0_conv length_pipe_queue)
qed

lemma ex_pipe_apart:
  assumes "k + n \<le> 4096"
  shows "pipe_apart ex_ram exR exK (of_nat k) n" "pipe_wapart ex_ram exR exK (of_nat k) n"
proof -
  have t: "pageno exK \<notin> pageno ` tables ex_ram exR" by (simp add: ex_tables) (simp add: ex_pages pageno_def)
  have F: "pageno (exF + of_nat (k + i)) = pageno exF" if "i < n" for i
    using that assms by (intro pageno_page_offset) simp_all
  have neq: "pageno exF \<noteq> pageno exK" "pageno exF \<notin> pageno ` tables ex_ram exR"
    by (simp add: ex_pages pageno_def) (simp add: ex_tables, simp add: ex_pages pageno_def)
  show "pipe_apart ex_ram exR exK (of_nat k) n"
    using t ex_user_range(1) [OF assms] F neq(1) by (auto simp: pipe_apart_def simp del: of_nat_add)
  show "pipe_wapart ex_ram exR exK (of_nat k) n"
    unfolding pipe_wapart_def
  proof (intro conjI allI impI)
    show "pageno exK \<notin> pageno ` tables ex_ram exR" by (rule t)
    fix i a assume i: "i < n" "user_waddr ex_ram exR (of_nat k + of_nat i) = Some a"
    then have a: "a = exF + of_nat (k + i)" using ex_user_range(2) [OF assms i(1)] by simp
    then show "pageno a \<notin> pageno ` tables ex_ram exR" "pageno a \<noteq> pageno exK" using F [OF i(1)] neq by simp_all
    fix j assume "j < n" "user_waddr ex_ram exR (of_nat k + of_nat j) = Some a"
    then show "j = i" using i ex_copyout_safe [OF assms] unfolding copyout_safe_def by blast
  qed
qed

end
