(* ===== verification/Pipe_Calls.thy ===== *)
theory Pipe_Calls
  imports Pipe_Queue
begin

text \<open>
  The calls of \<open>pipe.c\<close> as a whole on the state of the kernel: \<open>pipewrite\<close>, \<open>piperead\<close> with its wait,
  and \<open>pipealloc\<close>.
\<close>

section \<open>pipewrite\<close>

text \<open>What both calls rely on: a process runs, its page table is well formed and the pipe has its page.\<close>

definition pipe_call :: "kernel \<Rightarrow> nat \<Rightarrow> u64 \<Rightarrow> u32 \<Rightarrow> bool" where
  "pipe_call k i pi n \<longleftrightarrow>
     hart_ok (hart k) \<and> cpu_proc (hart k) = Some i \<and> pt_wf (ram (mem k)) (pagetable (procs k ! i)) \<and>
     pipe_ok (ram (mem k)) pi \<and> unat n < 2 ^ 31"

abbreviation with_ram :: "kernel \<Rightarrow> memory \<Rightarrow> kernel" where
  "with_ram k m \<equiv> k\<lparr>mem := (mem k)\<lparr>ram := m\<rparr>, hart := settled (hart k)\<rparr>"

lemma not_neg: "unat n < 2 ^ 31 \<Longrightarrow> \<not> n <s (0 :: u32)"
  using sless_small [of n 0] by simp

lemma free_space_less:
  assumes "pipe_used m pi \<le> 512"
  shows "pipe_size - (load32 m (pipe_nwrite pi) - load32 m (pipe_nread pi)) < n \<longleftrightarrow> 512 < pipe_used m pi + unat n"
  using assms by (auto simp: word_less_nat_alt unat_sub word_le_nat_alt pipe_used_def)

lemma pipewrite_full:
  assumes "pipe_call k i pi n" "512 < pipe_used (ram (mem k)) pi + unat n"
  shows "pipewrite pi src n k = Inr (- 1, k\<lparr>hart := settled (hart k)\<rparr>)"
  using assms not_neg [of n] free_space_less [of "ram (mem k)" pi n]
  by (simp add: pipewrite_def myproc_eq pipe_call_def pipe_ok_def Let_def del: pipe_size_def)

lemma pipewrite_fits:
  assumes c: "pipe_call k i pi n" and fits: "pipe_used (ram (mem k)) pi + unat n \<le> 512"
    and a: "pipe_apart (ram (mem k)) (pagetable (procs k ! i)) pi src (unat n)"
  shows "\<exists>m d. pipewrite pi src n k =
      Inr (if mapped (ram (mem k)) (pagetable (procs k ! i)) src (unat n) then n else - 1, with_ram k m) \<and>
    agree_on (- {pageno pi}) (ram (mem k)) m \<and> load32 m (pipe_nread pi) = load32 (ram (mem k)) (pipe_nread pi) \<and>
    pipe_queue m pi = pipe_queue (ram (mem k)) pi @ user_bytes (ram (mem k)) (pagetable (procs k ! i)) src d \<and>
    d \<le> unat n \<and> mapped (ram (mem k)) (pagetable (procs k ! i)) src d \<and>
    (mapped (ram (mem k)) (pagetable (procs k ! i)) src (unat n) \<longrightarrow> d = unat n)"
proof -
  let ?root = "pagetable (procs k ! i)" and ?m = "ram (mem k)"
  have loop: "pipewrite pi src n k =
      (if n = 0 then Inr (0, k\<lparr>hart := settled (hart k)\<rparr>)
       else on_mem (pipewrite_loop ?root pi src n 0) (k\<lparr>hart := settled (hart k)\<rparr>))"
    using c fits not_neg [of n] free_space_less [of ?m pi n]
    by (simp add: pipewrite_def myproc_eq pipe_call_def pipe_ok_def Let_def del: pipe_size_def)
  from pipewrite_loop_spec [of "mem k" ?root pi n 0 src] c fits a obtain rc m d where
    l: "pipewrite_loop ?root pi src n 0 (mem k) = Inr (rc, (mem k)\<lparr>ram := m\<rparr>)"
    "agree_on (- {pageno pi}) ?m m" "d \<le> unat n" "mapped ?m ?root src d"
    "pipe_queue m pi = pipe_queue ?m pi @ user_bytes ?m ?root src d" "load32 m (pipe_nread pi) = load32 ?m (pipe_nread pi)"
    "if mapped ?m ?root src (unat n) then rc = n \<and> d = unat n else rc = - 1"
    by (auto simp: pipe_call_def pipe_ok_def appended_def)
  show ?thesis
  proof (cases "n = 0")
    case True
    then have "pipewrite pi src n k = Inr (0, with_ram k ?m)" using loop by simp
    with True show ?thesis
      by (intro exI [of _ ?m] exI [of _ 0]) (simp add: mapped_def user_bytes_def)
  next
    case False
    then have "pipewrite pi src n k = Inr (rc, with_ram k m)" using loop l(1) by (simp add: on_mem_def)
    with l show ?thesis by (intro exI [of _ m] exI [of _ d]) auto
  qed
qed

section \<open>piperead\<close>

lemma piperead_wait_ready:
  assumes "unat n \<le> unat available"
  shows "piperead_wait env pi n available ph = Inr (available, ph)"
  using assms by (cases env) (auto simp: word_less_nat_alt Let_def)

lemma not_pos_zero: "unat n < 2 ^ 31 \<Longrightarrow> \<not> 0 <s (n :: u32) \<Longrightarrow> n = 0"
  using sless_small [of 0 n] by (simp add: unat_eq_zero)

lemma piperead_available:
  assumes c: "pipe_call k i pi n" and avail: "unat n \<le> pipe_used (ram (mem k)) pi"
    and a: "pipe_wapart (ram (mem k)) (pagetable (procs k ! i)) pi dst (unat n)"
  shows "\<exists>m d. piperead env pi dst n k =
      Inr (if wmapped (ram (mem k)) (pagetable (procs k ! i)) dst (unat n) then n else - 1, with_ram k m) \<and>
    delivered (ram (mem k)) (pagetable (procs k ! i)) pi dst (unat n) d m \<and>
    (wmapped (ram (mem k)) (pagetable (procs k ! i)) dst (unat n) \<longrightarrow> d = unat n)"
proof -
  let ?root = "pagetable (procs k ! i)" and ?m = "ram (mem k)"
  let ?av = "load32 ?m (pipe_nwrite pi) - load32 ?m (pipe_nread pi)"
  have av: "unat n \<le> unat ?av" using avail by (simp add: pipe_used_def)
  then have cut: "(if n > ?av then ?av else n) = n" by (simp add: word_less_nat_alt)
  have loop: "piperead env pi dst n k =
      (if \<not> 0 <s n then Inr (0, k\<lparr>hart := settled (hart k)\<rparr>)
       else on_mem (piperead_loop ?root pi dst n 0) (k\<lparr>hart := settled (hart k)\<rparr>))"
    using c not_neg [of n] cut
    by (simp add: piperead_def myproc_eq pipe_call_def Let_def on_mem_def piperead_wait_ready [OF av])
  from piperead_loop_spec [of "mem k" ?root pi n 0 dst] c avail a obtain rc m d where
    l: "piperead_loop ?root pi dst n 0 (mem k) = Inr (rc, (mem k)\<lparr>ram := m\<rparr>)"
    "delivered ?m ?root pi dst (unat n) d m"
    "if wmapped ?m ?root dst (unat n) then rc = n \<and> d = unat n else rc = - 1"
    by (auto simp: pipe_call_def pipe_ok_def)
  show ?thesis
  proof (cases "0 <s n")
    case False
    then have "n = 0" using c not_pos_zero by (simp add: pipe_call_def)
    moreover have "piperead env pi dst n k = Inr (0, with_ram k ?m)" using loop False by simp
    ultimately show ?thesis
      by (intro exI [of _ ?m] exI [of _ 0]) (simp add: wmapped_def delivered_def)
  next
    case True
    then have "piperead env pi dst n k = Inr (rc, with_ram k m)" using loop l(1) by (simp add: on_mem_def)
    with l show ?thesis by (intro exI [of _ m] exI [of _ d]) auto
  qed
qed

text \<open>After a write that fits, the reader finds its own pages where they were.\<close>

lemma pipewrite_then:
  assumes "pipe_call k i pi n" "pipe_used (ram (mem k)) pi + unat n \<le> 512"
    and "pipe_apart (ram (mem k)) (pagetable (procs k ! i)) pi src (unat n)"
    and "mapped (ram (mem k)) (pagetable (procs k ! i)) src (unat n)"
    and "pipe_wapart (ram (mem k)) (pagetable (procs k ! i)) pi dst (unat n)"
  obtains m where "pipewrite pi src n k = Inr (n, with_ram k m)" "pipe_call (with_ram k m) i pi n"
    "pipe_queue m pi = pipe_queue (ram (mem k)) pi @ user_bytes (ram (mem k)) (pagetable (procs k ! i)) src (unat n)"
    "\<And>a. user_waddr m (pagetable (procs k ! i)) a = user_waddr (ram (mem k)) (pagetable (procs k ! i)) a"
    "pipe_wapart m (pagetable (procs k ! i)) pi dst (unat n)"
    "wmapped m (pagetable (procs k ! i)) dst (unat n) = wmapped (ram (mem k)) (pagetable (procs k ! i)) dst (unat n)"
proof -
  let ?m = "ram (mem k)" and ?root = "pagetable (procs k ! i)"
  from pipewrite_fits [OF assms(1-3)] assms(4) obtain m where
    w: "pipewrite pi src n k = Inr (n, with_ram k m)" "agree_on (- {pageno pi}) ?m m"
      "pipe_queue m pi = pipe_queue ?m pi @ user_bytes ?m ?root src (unat n)" by auto
  have wf: "pt_wf ?m ?root" and al: "page_aligned pi" using assms(1) by (simp_all add: pipe_call_def pipe_ok_def)
  have "pageno ` tables ?m ?root \<subseteq> - {pageno pi}" using assms(5) by (auto simp: pipe_wapart_def)
  with w(2) have ag: "agree_on (pageno ` tables ?m ?root) ?m m" by (rule agree_on_subset)
  note t = pt_wf_agree [OF wf ag]
  have u: "user_waddr m ?root a = user_waddr ?m ?root a" for a
    using user_addr_agree(2) [OF ag] wf by (simp add: pt_wf_def)
  have "pipe_used m pi = pipe_used ?m pi + unat n" using length_pipe_queue [of m pi] w(3) by simp
  then have "pipe_call (with_ram k m) i pi n" using assms(1,2) t(1) al by (simp add: pipe_call_def pipe_ok_def)
  moreover have "pipe_wapart m ?root pi dst (unat n)"
    using assms(5) by (simp add: pipe_wapart_def u t(2))
  moreover have "wmapped m ?root dst (unat n) = wmapped ?m ?root dst (unat n)"
    by (simp add: wmapped_def u)
  ultimately show thesis using that w(1,3) u by blast
qed

text \<open>
  The writer's end is never closed, so a reader that asks for more than ever gets into the pipe waits
  for ever.
\<close>

lemma piperead_wait_hangs:
  assumes "\<And>e ph. e \<in> set env \<Longrightarrow> Q ph \<Longrightarrow> Q (e ph)"
    and "\<And>ph. Q ph \<Longrightarrow> load32 (ram ph) (pipe_writeopen pi) \<noteq> 0 \<and> pipe_used (ram ph) pi < unat n"
    and "Q ph" "unat available < unat n"
  shows "piperead_wait env pi n available ph = Inl (Hang ''piperead'')"
  using assms
proof (induction env arbitrary: available ph)
  case Nil
  then show ?case by (simp add: word_less_nat_alt pipe_used_def)
next
  case (Cons e env)
  have e: "Q (e ph)" using Cons.prems(1,3) by simp
  have "piperead_wait env pi n (load32 (ram (e ph)) (pipe_nwrite pi) - load32 (ram (e ph)) (pipe_nread pi)) (e ph) = Inl (Hang ''piperead'')"
  proof (rule Cons.IH [OF _ Cons.prems(2) e])
    show "unat (load32 (ram (e ph)) (pipe_nwrite pi) - load32 (ram (e ph)) (pipe_nread pi)) < unat n"
      using Cons.prems(2) [OF e] by (simp add: pipe_used_def)
  qed (use Cons.prems(1) in auto)
  moreover have "available < n" using Cons.prems(4) by (simp add: word_less_nat_alt)
  ultimately show ?case using Cons.prems(2) [OF Cons.prems(3)] by (simp add: Let_def)
qed

section \<open>pipealloc\<close>

text \<open>A slot that \<open>filealloc\<close> hands out was unused, and is the first such.\<close>

lemma filealloc_cases:
  obtains (slot) i where "i < NFILE" "ref (files k ! i) = 0" "\<forall>j < i. ref (files k ! j) \<noteq> 0"
      "filealloc k = (Some i, k\<lparr>files := (files k)[i := (files k ! i)\<lparr>ref := 1\<rparr>]\<rparr>)"
    | (none) "\<forall>i < NFILE. ref (files k ! i) \<noteq> 0" "filealloc k = (None, k)"
proof (cases "List.find (\<lambda>i. ref (files k ! i) = 0) [0..<NFILE]")
  case None
  then have "\<forall>i < NFILE. ref (files k ! i) \<noteq> 0" by (auto simp: find_None_iff)
  moreover have "filealloc k = (None, k)" using None by (simp add: filealloc_def)
  ultimately show ?thesis by (rule none)
next
  case (Some i)
  then have "i < NFILE \<and> ref (files k ! i) = 0 \<and> (\<forall>j < i. ref (files k ! j) \<noteq> 0)"
    by (auto simp: find_Some_iff)
  with Some slot show ?thesis by (simp add: filealloc_def)
qed

lemma field_store:
  assumes "page_aligned pi" "a + 4 \<le> 4096" "b + 4 \<le> 4096" "a + 4 \<le> b \<or> b + 4 \<le> a"
  shows "load32 (store32 (pi + of_nat b) v m) (pi + of_nat a) = load32 m (pi + of_nat a)"
proof (rule load_le_cong)
  fix i :: nat assume i: "i < 4"
  have u: "unat (pi + of_nat k) = unat pi + k" if "k < 4096" for k
    using unat_page_offset [OF assms(1) that] .
  have "unat pi + 4096 \<le> 2 ^ 64" using pageno_bound [of pi] by (simp add: page_aligned_unat [OF assms(1)])
  then have "\<not> unat (pi + of_nat (a + i) - (pi + of_nat b)) < 4"
    using unat_sub_range [of "pi + of_nat b" 4 "pi + of_nat (a + i)"] u [of b] u [of "a + i"] assms i by auto
  then show "store32 (pi + of_nat b) v m (pi + of_nat a + of_nat i) = m (pi + of_nat a + of_nat i)"
    by (simp add: store_le_def add.assoc)
qed

definition pipe_header :: "u64 \<Rightarrow> memory \<Rightarrow> memory" where
  "pipe_header pi m = store32 (pipe_writeopen pi) 1 (store32 (pipe_readopen pi) 1
     (store32 (pipe_nwrite pi) 0 (store32 (pipe_nread pi) 0 m)))"

lemma pipe_header_fields:
  assumes "page_aligned pi"
  shows "load32 (pipe_header pi m) (pipe_nread pi) = 0" "load32 (pipe_header pi m) (pipe_nwrite pi) = 0"
    "load32 (pipe_header pi m) (pipe_readopen pi) = 1" "load32 (pipe_header pi m) (pipe_writeopen pi) = 1"
    "agree_on (- {pageno pi}) m (pipe_header pi m)"
proof -
  have o: "pipe_nread pi = pi + of_nat 512" "pipe_nwrite pi = pi + of_nat 516"
    "pipe_readopen pi = pi + of_nat 520" "pipe_writeopen pi = pi + of_nat 524"
    by (simp_all add: pipe_nread_def pipe_nwrite_def pipe_readopen_def pipe_writeopen_def)
  note skip = field_store [OF assms]
  show "load32 (pipe_header pi m) (pipe_nread pi) = 0" "load32 (pipe_header pi m) (pipe_nwrite pi) = 0"
    "load32 (pipe_header pi m) (pipe_readopen pi) = 1" "load32 (pipe_header pi m) (pipe_writeopen pi) = 1"
    unfolding pipe_header_def o by (simp_all del: of_nat_numeral add: skip)
  have st: "agree_on (- {pageno pi}) m' (store32 (pi + of_nat b) v m')" if "b + 4 \<le> 4096" for b v m'
    by (rule agree_on_store [OF assms that]) simp
  show "agree_on (- {pageno pi}) m (pipe_header pi m)"
    unfolding pipe_header_def o by (intro agree_on_trans [OF st agree_on_trans [OF st agree_on_trans [OF st st]]]) simp_all
qed

lemma pipealloc_ok:
  assumes "length (files k) = NFILE" "free_inv (mem k) (p # xs)"
    and "i < NFILE" "j < NFILE" "i \<noteq> j" "ref (files k ! i) = 0" "ref (files k ! j) = 0"
  shows "\<exists>f g ph. pipealloc k = Inr ((0, Some f, Some g), k\<lparr>mem := ph, files := (files k)
        [f := (files k ! f)\<lparr>ref := 1, ftype := FD_PIPE, fpipe := p, readable := 1, writable := 0\<rparr>,
         g := (files k ! g)\<lparr>ref := 1, ftype := FD_PIPE, fpipe := p, readable := 0, writable := 1\<rparr>]\<rparr>) \<and>
    f \<noteq> g \<and> f < NFILE \<and> g < NFILE \<and> ref (files k ! f) = 0 \<and> ref (files k ! g) = 0 \<and>
    free_inv ph xs \<and> pipe_ok (ram ph) p \<and> pipe_queue (ram ph) p = [] \<and>
    load32 (ram ph) (pipe_writeopen p) = 1 \<and> agree_on (- {pageno p}) (ram (mem k)) (ram ph)"
proof -
  obtain f where f: "f < NFILE" "ref (files k ! f) = 0"
      "filealloc k = (Some f, k\<lparr>files := (files k)[f := (files k ! f)\<lparr>ref := 1\<rparr>]\<rparr>)"
    by (cases rule: filealloc_cases [of k]) (use assms(3,6) in auto)
  let ?k1 = "k\<lparr>files := (files k)[f := (files k ! f)\<lparr>ref := 1\<rparr>]\<rparr>"
  obtain g where g: "g < NFILE" "ref (files ?k1 ! g) = 0"
      "filealloc ?k1 = (Some g, ?k1\<lparr>files := (files ?k1)[g := (files ?k1 ! g)\<lparr>ref := 1\<rparr>]\<rparr>)"
  proof (cases rule: filealloc_cases [of ?k1])
    case none
    have "x = f" if "x < NFILE" "ref (files k ! x) = 0" for x
    proof (rule ccontr)
      assume "x \<noteq> f"
      then have "ref (files ?k1 ! x) = 0" using that by simp
      with none(1) that(1) show False by blast
    qed
    then have "i = f" "j = f" using assms(3,4,6,7) by blast+
    with assms(5) show ?thesis by simp
  qed
  have neq: "f \<noteq> g" using g(2) f(1) assms(1) by auto
  then have g2: "ref (files k ! g) = 0" "files ?k1 ! g = files k ! g" using g(2) by simp_all
  from kalloc_free_inv [OF assms(2)] obtain ph where
    p: "kalloc (mem k) = (p, ph)" "free_inv ph xs" "agree_on (- {pageno p}) (ram (mem k)) (ram ph)"
      "end_address ph = end_address (mem k)" by metis
  have pm: "managed (mem k) p" "p \<notin> set xs" "\<forall>x \<in> set xs. managed (mem k) x" and e0: "0 < end_address (mem k)"
    using assms(2) by (auto simp: free_inv_def)
  then have p0: "p \<noteq> 0" "page_aligned p" using managed_nonzero managed_bounds by blast+
  define m where "m = pipe_header p (ram ph)"
  note h = pipe_header_fields [OF p0(2), of "ram ph", folded m_def]
  have "pageno p \<notin> pageno ` set xs" using pm pageno_inj_managed by blast
  then have "agree_on (pageno ` set xs) (ram ph) m" using h(5) by (auto intro: agree_on_subset)
  then have "chain m (free_mem_list ph) xs = chain (ram ph) (free_mem_list ph) xs"
    using pm(3) managed_bounds by (intro chain_agree) auto
  then have inv: "free_inv (ph\<lparr>ram := m\<rparr>) xs"
    using p(2) pm(3) unfolding free_inv_def by (simp add: managed_def)
  have used: "pipe_used m p = 0" using h by (simp add: pipe_used_def)
  then have "length (pipe_queue m p) = 0" by simp
  then have "pipe_queue m p = []" by (simp only: length_0_conv)
  moreover have "pipe_ok m p" using p0(2) used by (simp add: pipe_ok_def)
  ultimately have q: "pipe_ok m p" "pipe_queue m p = []" by simp_all
  have bounds: "f < length (files k)" "g < length (files k)" using f(1) g(1) assms(1) by simp_all
  have "pipealloc k = Inr ((0, Some f, Some g), k\<lparr>mem := ph\<lparr>ram := m\<rparr>, files := (files k)
        [f := (files k ! f)\<lparr>ref := 1, ftype := FD_PIPE, fpipe := p, readable := 1, writable := 0\<rparr>,
         g := (files k ! g)\<lparr>ref := 1, ftype := FD_PIPE, fpipe := p, readable := 0, writable := 1\<rparr>]\<rparr>)"
    using f(3) g(3) g2 p(1) p0(1) neq bounds
    by (simp add: pipealloc_def Let_def on_ram_def m_def pipe_header_def list_update_swap [of g f])
  moreover have "agree_on (- {pageno p}) (ram (mem k)) m" using p(3) h(5) by (rule agree_on_trans)
  ultimately show ?thesis
    using neq f g(1) g2 inv q h(4)
    by (intro exI [of _ f] exI [of _ g] exI [of _ "ph\<lparr>ram := m\<rparr>"]) simp
qed

end
