(* ===== verification/Device_Props.thy ===== *)
theory Device_Props
  imports Example_Kernel Pipe_Calls
begin

text \<open>
  The properties of interrupt nesting and locks, of the console and of pipes, each with an instance on
  \<open>ex_kernel\<close>.
\<close>

section \<open>Interrupt nesting\<close>

text \<open>
  A run of \<open>push_off\<close> (\<^const>\<open>True\<close>) and \<open>pop_off\<close> (\<^const>\<open>False\<close>), and the depth it ends at; it has none
  when a \<open>pop_off\<close> comes without its \<open>push_off\<close>.
\<close>

primrec nest :: "bool list \<Rightarrow> hart \<Rightarrow> hart outcome" where
  "nest [] h = Inr h"
| "nest (b # bs) h = bindE (if b then Inr (push_off h) else pop_off h) (nest bs)"

fun depth :: "nat \<Rightarrow> bool list \<Rightarrow> nat option" where
  "depth d [] = Some d"
| "depth d (True # bs) = depth (Suc d) bs"
| "depth 0 (False # bs) = None"
| "depth (Suc d) (False # bs) = depth d bs"

text \<open>The hart \<open>d\<close> levels below \<open>h0\<close>.\<close>

definition below :: "hart \<Rightarrow> nat \<Rightarrow> hart \<Rightarrow> bool" where
  "below h0 d h \<longleftrightarrow>
     noff h = noff h0 + int d \<and> tp h = tp h0 \<and> cpu_proc h = cpu_proc h0 \<and>
     sstatus h = (if d = 0 then sstatus h0 else sstatus h0 AND NOT SSTATUS_SIE) \<and>
     (0 < d \<and> noff h0 = 0 \<longrightarrow> intena h = intr_get h0)"

lemma sie_cleared: "sstatus h = s AND NOT SSTATUS_SIE \<Longrightarrow> \<not> intr_get h"
  unfolding intr_get_iff by (simp add: SSTATUS_SIE_def bit_simps)

lemma below_push: "below h0 d h \<Longrightarrow> below h0 (Suc d) (push_off h)"
  by (auto simp: below_def and.assoc intr_get_def)

lemma below_pop:
  assumes "hart_ok h0" "below h0 (Suc d) h"
  shows "\<exists>h'. pop_off h = Inr h' \<and> below h0 d h'"
proof -
  have b: "noff h = noff h0 + int (Suc d)" "tp h = tp h0" "cpu_proc h = cpu_proc h0"
    "sstatus h = sstatus h0 AND NOT SSTATUS_SIE" "noff h0 = 0 \<Longrightarrow> intena h = intr_get h0"
    using assms(2) by (simp_all add: below_def)
  have "0 \<le> noff h0" using assms(1) by (simp add: hart_ok_def)
  then have pop: "pop_off h = Inr (if noff h - 1 = 0 \<and> intena h then intr_on (h\<lparr>noff := noff h - 1\<rparr>) else h\<lparr>noff := noff h - 1\<rparr>)"
    using b(1) sie_cleared [OF b(4)] by (simp add: pop_off_def Let_def)
  have off: "\<not> intr_get h0 \<Longrightarrow> sstatus h = sstatus h0" using b(4) SIE_mask(2) by simp
  have on: "intr_get h0 \<Longrightarrow> sstatus h OR SSTATUS_SIE = sstatus h0" using b(4) SIE_mask(1) by simp
  show ?thesis
  proof (cases "d = 0 \<and> noff h0 = 0")
    case True
    then show ?thesis using pop b on off by (auto simp: below_def intr_on_def)
  next
    case False
    then have "noff h - 1 \<noteq> 0" using b(1) \<open>0 \<le> noff h0\<close> by auto
    moreover have "d = 0 \<Longrightarrow> \<not> intr_get h0" using False assms(1) by (auto simp: hart_ok_def)
    ultimately show ?thesis using pop b off by (auto simp: below_def)
  qed
qed

lemma below_nest:
  "hart_ok h0 \<Longrightarrow> below h0 d h \<Longrightarrow> depth d bs = Some e \<Longrightarrow> \<exists>h'. nest bs h = Inr h' \<and> below h0 e h'"
proof (induction bs arbitrary: d h)
  case (Cons b bs)
  show ?case
  proof (cases b)
    case True
    with Cons.prems(3) have "depth (Suc d) bs = Some e" by simp
    from Cons.IH [OF Cons.prems(1) below_push [OF Cons.prems(2)] this] True show ?thesis by simp
  next
    case False
    with Cons.prems(3) obtain d' where d: "d = Suc d'" by (cases d) auto
    from below_pop [OF Cons.prems(1)] Cons.prems(2) d obtain h1 where "pop_off h = Inr h1" "below h0 d' h1" by blast
    with Cons False d show ?thesis by simp
  qed
qed simp

text \<open>
  C32: calls of \<open>push_off\<close> and \<open>pop_off\<close> in which no \<open>pop_off\<close> comes before its \<open>push_off\<close> never panic.
  Interrupts are off at every depth but the first, the nesting level counts the depth, and when the
  last section is left \<open>sstatus\<close> is what it was before the first.
\<close>

theorem interrupts_nest:
  assumes "hart_ok h" "depth 0 bs = Some d"
  shows "\<exists>h'. nest bs h = Inr h' \<and> noff h' = noff h + int d \<and> (0 < d \<longrightarrow> \<not> intr_get h') \<and>
    (d = 0 \<longrightarrow> sstatus h' = sstatus h) \<and> cpu_proc h' = cpu_proc h"
proof -
  have "below h 0 h" by (simp add: below_def)
  from below_nest [OF assms(1) this assms(2)] obtain h' where "nest bs h = Inr h'" "below h d h'" by blast
  then show ?thesis using sie_cleared by (auto simp: below_def)
qed

theorem interrupts_nest_ex:
  "\<exists>h'. nest [True, True, False, True, False, False] ex_hart = Inr h' \<and> noff h' = noff ex_hart + int 0 \<and>
    ((0 :: nat) < 0 \<longrightarrow> \<not> intr_get h') \<and> ((0 :: nat) = 0 \<longrightarrow> sstatus h' = sstatus ex_hart) \<and> cpu_proc h' = cpu_proc ex_hart"
  by (rule interrupts_nest) simp_all

section \<open>Locks\<close>

text \<open>
  C33: whoever gets a lock has it: interrupts are off, asking for it again panics, another hart would
  spin, and \<open>release\<close> gives it back free with the interrupt state of the start. A lock that is not
  held cannot be released.
\<close>

theorem lock_excludes:
  assumes "hart_ok h" "acquire (lk, h) = Inr (lk', h')"
  shows "locked lk = 0 \<and> \<not> intr_get h' \<and> acquire (lk', h') = Inl (Panic ''acquire when holding'') \<and>
    (\<forall>g. mycpu g \<noteq> mycpu h \<longrightarrow> acquire (lk', g) = Inl (Hang ''acquire'')) \<and>
    (\<exists>lk2 h2. release (lk', h') = Inr (lk2, h2) \<and> locked lk2 = 0 \<and> sstatus h2 = sstatus h \<and> noff h2 = noff h \<and>
      (\<exists>e. release (lk2, h2) = Inl e))"
proof -
  have free: "locked lk = 0" using assms(2) by (auto simp: acquire_def Let_def split: if_splits)
  then have eq: "lk' = lk\<lparr>locked := 1, lk_cpu := Some (mycpu h)\<rparr>" "h' = push_off h"
    using assms(2) by (simp_all add: acquire_free)
  have "bindE (acquire (lk, h)) release = Inr (lk\<lparr>locked := 0, lk_cpu := None\<rparr>, settled h)"
    by (rule release_acquired [OF free assms(1)])
  then have rel: "release (lk', h') = Inr (lk\<lparr>locked := 0, lk_cpu := None\<rparr>, settled h)" using assms(2) by simp
  have "lock_free (lk\<lparr>locked := 0, lk_cpu := None\<rparr>, settled h)" using assms(1) by (simp add: lock_free_def)
  from spin.leave_twice [OF this] rel have
    "\<exists>lk2 h2. release (lk', h') = Inr (lk2, h2) \<and> locked lk2 = 0 \<and> sstatus h2 = sstatus h \<and> noff h2 = noff h \<and>
      (\<exists>e. release (lk2, h2) = Inl e)" by simp
  moreover have "acquire (lk', h') = Inl (Panic ''acquire when holding'')"
    by (rule acquire_held) (simp add: eq holding_def)
  moreover have "acquire (lk', g) = Inl (Hang ''acquire'')" if "mycpu g \<noteq> mycpu h" for g
    by (rule acquire_other) (use that in \<open>auto simp: eq\<close>)
  ultimately show ?thesis using free by (simp add: eq(2))
qed

theorem lock_excludes_ex:
  "\<exists>lk' h'. acquire (ex_lock, ex_hart) = Inr (lk', h') \<and>
    locked ex_lock = 0 \<and> \<not> intr_get h' \<and> acquire (lk', h') = Inl (Panic ''acquire when holding'') \<and>
    (\<forall>g. mycpu g \<noteq> mycpu ex_hart \<longrightarrow> acquire (lk', g) = Inl (Hang ''acquire'')) \<and>
    (\<exists>lk2 h2. release (lk', h') = Inr (lk2, h2) \<and> locked lk2 = 0 \<and> sstatus h2 = sstatus ex_hart \<and> noff h2 = noff ex_hart \<and>
      (\<exists>e. release (lk2, h2) = Inl e))"
  using lock_excludes [of ex_hart ex_lock] acquire_free [of ex_lock ex_hart] by auto

section \<open>Console\<close>

text \<open>
  C39: \<open>printint\<close> never leaves its buffer of sixteen bytes. In base ten it prints the signed value, in
  base sixteen the unsigned one: the digits read back give the number and have no leading zero.
\<close>

theorem printint_prints_the_number:
  "(\<exists>ds. printint x 10 True = Inr ((if sint x < 0 then [45] else []) @ ds) \<and> length ds \<le> 10 \<and>
      ds \<noteq> [] \<and> radix_value 10 ds = nat \<bar>sint x\<bar> \<and> (hd ds = 48 \<longrightarrow> ds = [48]) \<and> set ds \<subseteq> {48..57}) \<and>
   (\<exists>ds. printint x 16 False = Inr ds \<and> length ds \<le> 8 \<and>
      ds \<noteq> [] \<and> radix_value 16 ds = unat x \<and> (hd ds = 48 \<longrightarrow> ds = [48]))"
  using printint_signed [of x] printint_hex [of x] unfolding numeral_text_def by fastforce

theorem printint_prints_the_number_ex:
  "(\<exists>ds. printint (- 1024) 10 True = Inr ((if sint (- 1024 :: u32) < 0 then [45] else []) @ ds) \<and> length ds \<le> 10 \<and>
      ds \<noteq> [] \<and> radix_value 10 ds = nat \<bar>sint (- 1024 :: u32)\<bar> \<and> (hd ds = 48 \<longrightarrow> ds = [48]) \<and> set ds \<subseteq> {48..57}) \<and>
   (\<exists>ds. printint (- 1024) 16 False = Inr ds \<and> length ds \<le> 8 \<and>
      ds \<noteq> [] \<and> radix_value 16 ds = unat (- 1024 :: u32) \<and> (hd ds = 48 \<longrightarrow> ds = [48]))"
  by (rule printint_prints_the_number)

text \<open>
  \<open>printf\<close> sends the text before a \<open>%d\<close> as it is, then the decimal of the argument, cut to an
  \<open>int\<close>, then the rest; nothing but the output changes.
\<close>

theorem printf_prints_decimals:
  assumes "37 \<notin> set pre" "37 \<notin> set post"
  shows "\<exists>ds. printf (pre @ [37, 100] @ post) [a] k =
      Inr (k\<lparr>uart_tx := uart_tx k @ pre @ (if sint (ucast a :: u32) < 0 then [45] else []) @ ds @ post\<rparr>) \<and>
    numeral_text 10 ds (nat \<bar>sint (ucast a :: u32)\<bar>)"
proof -
  from printint_signed [of "ucast a"] obtain ds where
    d: "printint (ucast a) 10 True = Inr ((if sint (ucast a :: u32) < 0 then [45] else []) @ ds)"
    "numeral_text 10 ds (nat \<bar>sint (ucast a :: u32)\<bar>)" by blast
  show ?thesis
    by (rule exI [of _ ds])
      (use assms d in \<open>simp add: printf_def printf_loop_prefix printf_loop_verbatim va_arg_def fold_uart_putc\<close>)
qed

theorem printf_prints_decimals_ex:
  "\<exists>ds. printf ([112, 58] @ [37, 100] @ [10]) [- 3] ex_kernel =
      Inr (ex_kernel\<lparr>uart_tx := uart_tx ex_kernel @ [112, 58] @ (if sint (ucast (- 3 :: u64) :: u32) < 0 then [45] else []) @ ds @ [10]\<rparr>) \<and>
    numeral_text 10 ds (nat \<bar>sint (ucast (- 3 :: u64) :: u32)\<bar>)"
  by (rule printf_prints_decimals) simp_all

text \<open>
  C37: a key press puts its byte, newline for carriage return, at the end of the ring and echoes it.
  On a full ring the byte is dropped, still echoed, and what was typed before stays. A negative code,
  the answer of an idle UART, changes nothing.
\<close>

theorem console_intr_appends:
  assumes "cons_ready k"
  shows "\<exists>k'. console_intr c k = Inr k' \<and> cons_ready k' \<and>
    (if c <s 0 then k' = k
     else uart_tx k' = uart_tx k @ [key_byte c] \<and>
       cons_queue (cons k') = (if length (cons_queue (cons k)) < 128 then cons_queue (cons k) @ [key_byte c] else cons_queue (cons k)) \<and>
       k' = k\<lparr>cons := cons k', hart := settled (hart k), uart_tx := uart_tx k'\<rparr>)"
proof -
  from console_intr_spec [OF assms, of c] obtain c' where
    "console_intr c k = Inr (if c <s 0 then k
       else k\<lparr>cons := c', hart := settled (hart k), uart_tx := uart_tx k @ [key_byte c]\<rparr>)"
    "cons_ok c'" "cons_queue c' = push_key c (cons_queue (cons k))" by blast
  then show ?thesis using assms by (cases "c <s 0") (auto simp: push_key_def cons_ready_def)
qed

theorem console_intr_appends_ex:
  "\<exists>k'. console_intr 13 ex_kernel = Inr k' \<and> cons_ready k' \<and>
    (if 13 <s (0 :: u32) then k' = ex_kernel
     else uart_tx k' = uart_tx ex_kernel @ [key_byte 13] \<and>
       cons_queue (cons k') = (if length (cons_queue (cons ex_kernel)) < 128
          then cons_queue (cons ex_kernel) @ [key_byte 13] else cons_queue (cons ex_kernel)) \<and>
       k' = ex_kernel\<lparr>cons := cons k', hart := settled (hart ex_kernel), uart_tx := uart_tx k'\<rparr>)"
  by (rule console_intr_appends [OF ex_cons_ready])

text \<open>
  C14: whatever is typed while it waits, the reader of the ring does what a reader of a queue does:
  it returns the bytes in the order they were typed, up to a newline or \<open>len\<close> of them, and what it
  returns and what it leaves together are what was in the ring and what was accepted since. It waits
  for ever exactly when the queue's reader does.
\<close>

theorem console_read_is_fifo:
  assumes "cons_ready k"
  shows "case queue_read arr len [] (cons_queue (cons k)) of
      None \<Rightarrow> console_read_loop arr len [] k = Inl (Hang ''console_read'')
    | Some (bs, q) \<Rightarrow>
        (\<exists>k'. console_read_loop arr len [] k = Inr (bs, k') \<and> cons_ready k' \<and> cons_queue (cons k') = q) \<and>
        length bs \<le> len \<and> (\<exists>got. subseq got (typed (concat arr)) \<and> bs @ q = cons_queue (cons k) @ got)"
proof (cases "queue_read arr len [] (cons_queue (cons k))")
  case None
  then show ?thesis using console_read_loop_refines [OF assms, of arr len "[]"] by simp
next
  case (Some r)
  obtain bs q where r: "r = (bs, q)" by fastforce
  from console_read_loop_refines [OF assms, of arr len "[]"] Some r obtain k' where
    "console_read_loop arr len [] k = Inr (bs, k')" "cons_step k q k'" by auto
  then show ?thesis
    using Some r cons_step_ready [OF assms] cons_step_queue queue_read_fifo queue_read_length [of "[]" len] by fastforce
qed

theorem console_read_is_fifo_ex:
  "case queue_read [[120], [13]] 5 [] (cons_queue (cons ex_kernel)) of
      None \<Rightarrow> console_read_loop [[120], [13]] 5 [] ex_kernel = Inl (Hang ''console_read'')
    | Some (bs, q) \<Rightarrow>
        (\<exists>k'. console_read_loop [[120], [13]] 5 [] ex_kernel = Inr (bs, k') \<and> cons_ready k' \<and> cons_queue (cons k') = q) \<and>
        length bs \<le> 5 \<and> (\<exists>got. subseq got (typed (concat [[120], [13]])) \<and> bs @ q = cons_queue (cons ex_kernel) @ got)"
  by (rule console_read_is_fifo [OF ex_cons_ready])

text \<open>
  C29: a line that stands in the ring is delivered at once: \<open>console_read\<close> returns its length, the user
  finds its bytes at \<open>dst\<close>, and the ring has lost exactly them.
\<close>

theorem console_read_delivers_the_line:
  assumes "cons_ready k" "cpu_proc (hart k) = Some i" "0 < unat len" "unat len < 2 ^ 31"
    and "line_of (min (unat len) 128) (cons_queue (cons k)) = Some l"
    and "pt_wf (ram (mem k)) (pagetable (procs k ! i))"
    and "\<forall>x. unat (x - buf) < 128 \<longrightarrow> pageno x \<notin> pageno ` tables (ram (mem k)) (pagetable (procs k ! i))"
    and "copyout_safe (ram (mem k)) (pagetable (procs k ! i)) dst buf 128"
    and "wmapped (ram (mem k)) (pagetable (procs k ! i)) dst 128"
  shows "\<exists>k'. console_read [] buf dst len k = Inr (of_nat (length l), k') \<and>
    cons_queue (cons k) = l @ cons_queue (cons k') \<and>
    (\<forall>j < length l. \<exists>a. user_waddr (ram (mem k)) (pagetable (procs k ! i)) (dst + of_nat j) = Some a \<and> ram (mem k') a = l ! j)"
proof -
  from line_of_prefix [OF assms(5)] obtain r where r: "cons_queue (cons k) = l @ r" by blast
  from console_read_spec [OF assms(1-6) refl _ assms(8,9)] assms(7) obtain k' where
    "console_read [] buf dst len k = Inr (of_nat (length l), k')"
    "cons_queue (cons k') = drop (length l) (cons_queue (cons k))"
    "\<forall>j < length l. \<exists>a. user_waddr (ram (mem k)) (pagetable (procs k ! i)) (dst + of_nat j) = Some a \<and> ram (mem k') a = l ! j"
    by blast
  with r show ?thesis by simp
qed

theorem console_read_delivers_the_line_ex:
  "\<exists>k'. console_read [] exK 64 100 ex_kernel = Inr (of_nat (length [104, 105, 10 :: u8]), k') \<and>
    cons_queue (cons ex_kernel) = [104, 105, 10] @ cons_queue (cons k') \<and>
    (\<forall>j < length [104, 105, 10 :: u8]. \<exists>a.
      user_waddr (ram (mem ex_kernel)) (pagetable (procs ex_kernel ! 0)) (64 + of_nat j) = Some a \<and>
      ram (mem k') a = [104, 105, 10] ! j)"
proof (rule console_read_delivers_the_line [OF ex_cons_ready])
  have "min (unat (100 :: u32)) 128 = Suc (Suc (Suc 97))" by simp
  then show "line_of (min (unat (100 :: u32)) 128) (cons_queue (cons ex_kernel)) = Some [104, 105, 10]"
    by (simp only: ex_cons_queue ex_kernel_simps line_of.simps) simp
  show "\<forall>x. unat (x - exK) < 128 \<longrightarrow> pageno x \<notin> pageno ` tables (ram (mem ex_kernel)) (pagetable (procs ex_kernel ! 0))"
    using ex_copyin_safe [of 0 128] by (simp add: copyin_safe_def)
  show "copyout_safe (ram (mem ex_kernel)) (pagetable (procs ex_kernel ! 0)) 64 exK 128"
    using ex_copyout_safe [of 64 128] by simp
  show "wmapped (ram (mem ex_kernel)) (pagetable (procs ex_kernel ! 0)) 64 128"
    using ex_mapped(2) [of 64 128] by simp
qed (simp_all add: ex_wf)

section \<open>Pipes\<close>

text \<open>
  C24: \<open>pipewrite\<close> appends. A request that does not fit is refused whole with -1; one that fits puts the
  user's bytes at the end of the queue and returns their number, unless part of the range is not
  mapped: then it returns -1 and a mapped prefix of the bytes is in the queue. Nothing outside the
  pipe's page changes.
\<close>

theorem pipewrite_appends:
  assumes "pipe_call k i pi n" "pipe_apart (ram (mem k)) (pagetable (procs k ! i)) pi src (unat n)"
  shows "\<exists>k' rc d. pipewrite pi src n k = Inr (rc, k') \<and> agree_on (- {pageno pi}) (ram (mem k)) (ram (mem k')) \<and>
    pipe_queue (ram (mem k')) pi = pipe_queue (ram (mem k)) pi @ user_bytes (ram (mem k)) (pagetable (procs k ! i)) src d \<and>
    (if 512 < length (pipe_queue (ram (mem k)) pi) + unat n then rc = - 1 \<and> d = 0
     else if mapped (ram (mem k)) (pagetable (procs k ! i)) src (unat n) then rc = n \<and> d = unat n
     else rc = - 1 \<and> d \<le> unat n \<and> mapped (ram (mem k)) (pagetable (procs k ! i)) src d)"
proof (cases "512 < pipe_used (ram (mem k)) pi + unat n")
  case True
  then show ?thesis using pipewrite_full [OF assms(1) True, of src] by (intro exI [of _ "k\<lparr>hart := settled (hart k)\<rparr>"]) simp
next
  case False
  then have "pipe_used (ram (mem k)) pi + unat n \<le> 512" by simp
  from pipewrite_fits [OF assms(1) this assms(2)] obtain m d where
    "pipewrite pi src n k = Inr (if mapped (ram (mem k)) (pagetable (procs k ! i)) src (unat n) then n else - 1, with_ram k m)"
    "agree_on (- {pageno pi}) (ram (mem k)) m"
    "pipe_queue m pi = pipe_queue (ram (mem k)) pi @ user_bytes (ram (mem k)) (pagetable (procs k ! i)) src d"
    "d \<le> unat n" "mapped (ram (mem k)) (pagetable (procs k ! i)) src d"
    "mapped (ram (mem k)) (pagetable (procs k ! i)) src (unat n) \<longrightarrow> d = unat n" by blast
  with False show ?thesis by (intro exI [of _ "with_ram k m"]) auto
qed

lemma ex_pipe_call: "unat n < 2 ^ 31 \<Longrightarrow> pipe_call ex_kernel 0 exK n"
  by (simp add: pipe_call_def ex_wf pipe_ok_def ex_pipe)

theorem pipewrite_appends_ex:
  "\<exists>k' rc d. pipewrite exK 16 100 ex_kernel = Inr (rc, k') \<and> agree_on (- {pageno exK}) (ram (mem ex_kernel)) (ram (mem k')) \<and>
    pipe_queue (ram (mem k')) exK = pipe_queue (ram (mem ex_kernel)) exK @
      user_bytes (ram (mem ex_kernel)) (pagetable (procs ex_kernel ! 0)) 16 d \<and>
    (if 512 < length (pipe_queue (ram (mem ex_kernel)) exK) + unat (100 :: u32) then rc = - 1 \<and> d = 0
     else if mapped (ram (mem ex_kernel)) (pagetable (procs ex_kernel ! 0)) 16 (unat (100 :: u32)) then rc = 100 \<and> d = unat (100 :: u32)
     else rc = - 1 \<and> d \<le> unat (100 :: u32) \<and> mapped (ram (mem ex_kernel)) (pagetable (procs ex_kernel ! 0)) 16 d)"
  by (rule pipewrite_appends) (use ex_pipe_call ex_pipe_apart(1) [of 16 100] in simp_all)

text \<open>
  C25: \<open>piperead\<close> of at most what is in the pipe returns at once, whatever other processes do: byte \<open>j\<close>
  of the queue is behind the user's address \<open>dst + j\<close> and the queue has lost as many bytes as were
  read, or -1 is returned because part of the range is not mapped for writing, and a part is lost.
\<close>

theorem piperead_takes_from_the_front:
  assumes "pipe_call k i pi n" "unat n \<le> length (pipe_queue (ram (mem k)) pi)"
    and "pipe_wapart (ram (mem k)) (pagetable (procs k ! i)) pi dst (unat n)"
  shows "\<exists>k' d. piperead env pi dst n k =
      Inr (if wmapped (ram (mem k)) (pagetable (procs k ! i)) dst (unat n) then n else - 1, k') \<and>
    d \<le> unat n \<and> (wmapped (ram (mem k)) (pagetable (procs k ! i)) dst (unat n) \<longrightarrow> d = unat n) \<and>
    pipe_queue (ram (mem k)) pi = take d (pipe_queue (ram (mem k)) pi) @ pipe_queue (ram (mem k')) pi \<and>
    (\<forall>j < d. \<exists>a. user_waddr (ram (mem k)) (pagetable (procs k ! i)) (dst + of_nat j) = Some a \<and>
      ram (mem k') a = pipe_queue (ram (mem k)) pi ! j)"
proof -
  from piperead_available [OF assms(1) _ assms(3), of env] assms(2) obtain m d where
    "piperead env pi dst n k = Inr (if wmapped (ram (mem k)) (pagetable (procs k ! i)) dst (unat n) then n else - 1, with_ram k m)"
    "delivered (ram (mem k)) (pagetable (procs k ! i)) pi dst (unat n) d m"
    "wmapped (ram (mem k)) (pagetable (procs k ! i)) dst (unat n) \<longrightarrow> d = unat n" by auto
  then show ?thesis
    by (intro exI [of _ "with_ram k m"] exI [of _ d]) (auto simp: delivered_def)
qed

theorem piperead_takes_from_the_front_ex:
  "\<exists>k1. pipewrite exK 16 100 ex_kernel = Inr (100, k1) \<and>
    (\<exists>k' d. piperead [id] exK 1000 100 k1 =
      Inr (if wmapped (ram (mem k1)) (pagetable (procs k1 ! 0)) 1000 (unat (100 :: u32)) then 100 else - 1, k') \<and>
    d \<le> unat (100 :: u32) \<and> (wmapped (ram (mem k1)) (pagetable (procs k1 ! 0)) 1000 (unat (100 :: u32)) \<longrightarrow> d = unat (100 :: u32)) \<and>
    pipe_queue (ram (mem k1)) exK = take d (pipe_queue (ram (mem k1)) exK) @ pipe_queue (ram (mem k')) exK \<and>
    (\<forall>j < d. \<exists>a. user_waddr (ram (mem k1)) (pagetable (procs k1 ! 0)) (1000 + of_nat j) = Some a \<and>
      ram (mem k') a = pipe_queue (ram (mem k1)) exK ! j))"
proof -
  let ?m = "ram (mem ex_kernel)" and ?root = "pagetable (procs ex_kernel ! 0)"
  have a: "pipe_call ex_kernel 0 exK 100" "pipe_used ?m exK + unat (100 :: u32) \<le> 512"
    "pipe_apart ?m ?root exK 16 (unat (100 :: u32))" "mapped ?m ?root 16 (unat (100 :: u32))"
    "pipe_wapart ?m ?root exK 1000 (unat (100 :: u32))"
    using ex_pipe_call ex_pipe ex_pipe_apart(1) [of 16 100] ex_pipe_apart(2) [of 1000 100] ex_mapped(1) [of 16 100] by simp_all
  obtain m where
    w: "pipewrite exK 16 100 ex_kernel = Inr (100, with_ram ex_kernel m)" "pipe_call (with_ram ex_kernel m) 0 exK 100"
      "pipe_queue m exK = pipe_queue ?m exK @ user_bytes ?m ?root 16 (unat (100 :: u32))"
      "pipe_wapart m ?root exK 1000 (unat (100 :: u32))"
    by (rule pipewrite_then [OF a])
  have "unat (100 :: u32) \<le> length (pipe_queue (ram (mem (with_ram ex_kernel m))) exK)"
    using w(3) ex_pipe(2) by (simp del: length_pipe_queue)
  then show ?thesis
    by (intro exI [of _ "with_ram ex_kernel m"] conjI w(1) piperead_takes_from_the_front [OF w(2)]) (use w(4) in simp_all)
qed

text \<open>
  C9: a write into an empty pipe and a read of as many bytes, the writer's bytes arrive in the reader's
  buffer unchanged and the pipe is empty again.
\<close>

theorem pipe_roundtrip:
  assumes "pipe_call k i pi n" "pipe_queue (ram (mem k)) pi = []" "unat n \<le> 512"
    and "pipe_apart (ram (mem k)) (pagetable (procs k ! i)) pi src (unat n)"
    and "pipe_wapart (ram (mem k)) (pagetable (procs k ! i)) pi dst (unat n)"
    and "mapped (ram (mem k)) (pagetable (procs k ! i)) src (unat n)"
    and "wmapped (ram (mem k)) (pagetable (procs k ! i)) dst (unat n)"
  shows "\<exists>k1 k2. pipewrite pi src n k = Inr (n, k1) \<and> piperead env pi dst n k1 = Inr (n, k2) \<and>
    pipe_queue (ram (mem k2)) pi = [] \<and>
    (\<forall>j < unat n. \<exists>a. user_waddr (ram (mem k)) (pagetable (procs k ! i)) (dst + of_nat j) = Some a \<and>
      ram (mem k2) a = user_byte (ram (mem k)) (pagetable (procs k ! i)) (src + of_nat j))"
proof -
  let ?m = "ram (mem k)" and ?root = "pagetable (procs k ! i)"
  have "pipe_used ?m pi = 0" using assms(2) length_pipe_queue [of ?m pi] by simp
  then have "pipe_used ?m pi + unat n \<le> 512" using assms(3) by simp
  from pipewrite_then [OF assms(1) this assms(4,6,5)] assms(2) obtain m where
    w: "pipewrite pi src n k = Inr (n, with_ram k m)" "pipe_call (with_ram k m) i pi n"
      "pipe_queue m pi = user_bytes ?m ?root src (unat n)" "pipe_wapart m ?root pi dst (unat n)"
      "wmapped m ?root dst (unat n)" and u: "\<And>a. user_waddr m ?root a = user_waddr ?m ?root a"
    using assms(7) by auto
  have "unat n \<le> pipe_used m pi" using length_pipe_queue [of m pi] w(3) by simp
  with piperead_available [OF w(2), of dst env] w(4,5) obtain m2 where
    r: "piperead env pi dst n (with_ram k m) = Inr (n, with_ram (with_ram k m) m2)"
      "delivered m ?root pi dst (unat n) (unat n) m2" by auto
  have "pipe_queue m2 pi = []" using r(2) w(3) by (simp add: delivered_def)
  moreover have "\<exists>a. user_waddr ?m ?root (dst + of_nat j) = Some a \<and> m2 a = user_byte ?m ?root (src + of_nat j)" if "j < unat n" for j
    using r(2) that w(3) unfolding delivered_def by (auto simp: u user_bytes_def)
  ultimately show ?thesis
    using w(1) r(1) by (intro exI [of _ "with_ram k m"] exI [of _ "with_ram (with_ram k m) m2"]) simp
qed

theorem pipe_roundtrip_ex:
  "\<exists>k1 k2. pipewrite exK 16 100 ex_kernel = Inr (100, k1) \<and> piperead [id] exK 1000 100 k1 = Inr (100, k2) \<and>
    pipe_queue (ram (mem k2)) exK = [] \<and>
    (\<forall>j < unat (100 :: u32). \<exists>a. user_waddr (ram (mem ex_kernel)) (pagetable (procs ex_kernel ! 0)) (1000 + of_nat j) = Some a \<and>
      ram (mem k2) a = user_byte (ram (mem ex_kernel)) (pagetable (procs ex_kernel ! 0)) (16 + of_nat j))"
  by (rule pipe_roundtrip)
    (use ex_pipe_call ex_pipe ex_pipe_apart(1) [of 16 100] ex_pipe_apart(2) [of 1000 100] ex_mapped(1) [of 16 100]
      ex_mapped(2) [of 1000 100] in simp_all)

text \<open>
  C38: a reader that asks for more than the 512 bytes a pipe can hold never returns, whatever the writers
  do: the loop waits for the bytes or for the end of the writers, and nothing in the kernel clears
  \<open>writeopen\<close>.
\<close>

theorem piperead_large_request_waits_for_ever:
  assumes "hart_ok (hart k)" "512 < unat n" "unat n < 2 ^ 31"
    and "pipe_used (ram (mem k)) pi \<le> 512" "load32 (ram (mem k)) (pipe_writeopen pi) \<noteq> 0"
    and "\<forall>e \<in> set env. \<forall>ph. pipe_used (ram ph) pi \<le> 512 \<and> load32 (ram ph) (pipe_writeopen pi) \<noteq> 0 \<longrightarrow>
      pipe_used (ram (e ph)) pi \<le> 512 \<and> load32 (ram (e ph)) (pipe_writeopen pi) \<noteq> 0"
  shows "piperead env pi dst n k = Inl (Hang ''piperead'')"
proof -
  let ?Q = "\<lambda>ph. pipe_used (ram ph) pi \<le> 512 \<and> load32 (ram ph) (pipe_writeopen pi) \<noteq> 0"
  have "piperead_wait env pi n (load32 (ram (mem k)) (pipe_nwrite pi) - load32 (ram (mem k)) (pipe_nread pi)) (mem k) =
      Inl (Hang ''piperead'')"
    by (rule piperead_wait_hangs [where Q = ?Q]) (use assms in \<open>auto simp: pipe_used_def\<close>)
  then show ?thesis using assms(1,3) not_neg [of n] by (simp add: piperead_def myproc_eq Let_def on_mem_def)
qed

theorem piperead_large_request_waits_for_ever_ex:
  "piperead [id] exK 1000 513 (with_ram ex_kernel (pipe_header exK ex_ram)) = Inl (Hang ''piperead'')"
  by (rule piperead_large_request_waits_for_ever)
    (use pipe_header_fields [of exK ex_ram] in \<open>simp_all add: pipe_used_def\<close>)

text \<open>
  C35: with two free slots and a free page \<open>pipealloc\<close> returns 0, two different slots that nobody used,
  one open for reading and one for writing on the same pipe, and the pipe, in a page of its own taken
  from the allocator, is empty and has its writer.
\<close>

theorem pipealloc_opens_an_empty_pipe:
  assumes "length (files k) = NFILE" "free_inv (mem k) (p # xs)"
    and "i < NFILE" "j < NFILE" "i \<noteq> j" "ref (files k ! i) = 0" "ref (files k ! j) = 0"
  shows "\<exists>f g k'. pipealloc k = Inr ((0, Some f, Some g), k') \<and> f \<noteq> g \<and> ref (files k ! f) = 0 \<and> ref (files k ! g) = 0 \<and>
    (\<forall>h < NFILE. h \<noteq> f \<and> h \<noteq> g \<longrightarrow> files k' ! h = files k ! h) \<and>
    (\<forall>h \<in> {f, g}. ref (files k' ! h) = 1 \<and> ftype (files k' ! h) = FD_PIPE \<and> fpipe (files k' ! h) = p) \<and>
    readable (files k' ! f) = 1 \<and> writable (files k' ! f) = 0 \<and> readable (files k' ! g) = 0 \<and> writable (files k' ! g) = 1 \<and>
    free_inv (mem k') xs \<and> pipe_queue (ram (mem k')) p = [] \<and> load32 (ram (mem k')) (pipe_writeopen p) = 1 \<and>
    agree_on (- {pageno p}) (ram (mem k)) (ram (mem k'))"
proof -
  from pipealloc_ok [OF assms] obtain f g ph where
    *: "pipealloc k = Inr ((0, Some f, Some g), k\<lparr>mem := ph, files := (files k)
        [f := (files k ! f)\<lparr>ref := 1, ftype := FD_PIPE, fpipe := p, readable := 1, writable := 0\<rparr>,
         g := (files k ! g)\<lparr>ref := 1, ftype := FD_PIPE, fpipe := p, readable := 0, writable := 1\<rparr>]\<rparr>)"
    "f \<noteq> g" "f < NFILE" "g < NFILE" "ref (files k ! f) = 0" "ref (files k ! g) = 0" "free_inv ph xs"
    "pipe_queue (ram ph) p = []" "load32 (ram ph) (pipe_writeopen p) = 1" "agree_on (- {pageno p}) (ram (mem k)) (ram ph)"
    by blast
  show ?thesis
    by (rule exI [of _ f], rule exI [of _ g], rule exI, intro conjI, rule *(1)) (use * assms(1) in auto)
qed

theorem pipealloc_opens_an_empty_pipe_ex:
  "\<exists>f g k'. pipealloc ex_kernel = Inr ((0, Some f, Some g), k') \<and> f \<noteq> g \<and>
    ref (files ex_kernel ! f) = 0 \<and> ref (files ex_kernel ! g) = 0 \<and>
    (\<forall>h < NFILE. h \<noteq> f \<and> h \<noteq> g \<longrightarrow> files k' ! h = files ex_kernel ! h) \<and>
    (\<forall>h \<in> {f, g}. ref (files k' ! h) = 1 \<and> ftype (files k' ! h) = FD_PIPE \<and> fpipe (files k' ! h) = exX1) \<and>
    readable (files k' ! f) = 1 \<and> writable (files k' ! f) = 0 \<and> readable (files k' ! g) = 0 \<and> writable (files k' ! g) = 1 \<and>
    free_inv (mem k') [exX2, exX3, exX4] \<and> pipe_queue (ram (mem k')) exX1 = [] \<and>
    load32 (ram (mem k')) (pipe_writeopen exX1) = 1 \<and> agree_on (- {pageno exX1}) (ram (mem ex_kernel)) (ram (mem k'))"
  by (rule pipealloc_opens_an_empty_pipe [of _ _ _ 0 1]) (use ex_free in \<open>simp_all add: ex_file_def\<close>)

end
