(* ===== verification/Buffer_Cache.thy ===== *)
theory Buffer_Cache
  imports Memlayout
begin

text \<open>
  The block cache of \<open>kernel/fs/bio.c\<close>: \<open>NBUF\<close> buffers in a doubly linked circular list, most recently
  released first. A \<open>struct buf *\<close> is an index; index \<open>NBUF\<close> is the sentinel \<open>bcache.head\<close>. The disk
  driver is a parameter.
\<close>

section \<open>State\<close>

record buf =
  valid :: u32
  on_disk :: u32
  dev :: u32
  blockno :: u32
  refcnt :: u32
  prev :: nat
  nxt :: nat
  data :: "u8 list"

type_synonym bcache = "buf list"

abbreviation head :: nat where "head \<equiv> NBUF"

section \<open>Operations\<close>

definition set_next :: "nat \<Rightarrow> nat \<Rightarrow> bcache \<Rightarrow> bcache" where
  "set_next b x bs = bs[b := (bs ! b)\<lparr>nxt := x\<rparr>]"

definition set_prev :: "nat \<Rightarrow> nat \<Rightarrow> bcache \<Rightarrow> bcache" where
  "set_prev b x bs = bs[b := (bs ! b)\<lparr>prev := x\<rparr>]"

text \<open>The four assignments that put \<open>b\<close> behind the sentinel.\<close>

definition push_front :: "nat \<Rightarrow> bcache \<Rightarrow> bcache" where
  "push_front b bs =
     (let bs = set_next b (nxt (bs ! head)) bs;
          bs = set_prev b head bs;
          bs = set_prev (nxt (bs ! head)) b bs
      in set_next head b bs)"

definition binit :: "bcache \<Rightarrow> bcache" where
  "binit bs =
     (let bs = set_prev head head bs;
          bs = set_next head head bs
      in fold push_front [0..<NBUF] bs)"

text \<open>A walk through the list from \<open>b\<close> to the first buffer that satisfies \<open>P\<close> or the sentinel.\<close>

partial_function (option) scan :: "(buf \<Rightarrow> nat) \<Rightarrow> (buf \<Rightarrow> bool) \<Rightarrow> bcache \<Rightarrow> nat \<Rightarrow> nat option" where
  "scan dir P bs b =
     (if b = head then Some b else if P (bs ! b) then Some b else scan dir P bs (dir (bs ! b)))"

definition bget :: "u32 \<Rightarrow> u32 \<Rightarrow> bcache \<Rightarrow> (nat \<times> bcache) outcome" where
  "bget d n bs =
     (case scan nxt (\<lambda>b. dev b = d \<and> blockno b = n) bs (nxt (bs ! head)) of
        None \<Rightarrow> Inl (Hang ''bget'')
      | Some b \<Rightarrow>
          if b \<noteq> head then Inr (b, bs[b := (bs ! b)\<lparr>refcnt := refcnt (bs ! b) + 1\<rparr>])
          else
            case scan prev (\<lambda>b. refcnt b = 0) bs (prev (bs ! head)) of
              None \<Rightarrow> Inl (Hang ''bget'')
            | Some b \<Rightarrow>
                if b \<noteq> head then Inr (b, bs[b := (bs ! b)\<lparr>dev := d, blockno := n, valid := 0, refcnt := 1\<rparr>])
                else Inl (Panic ''bget: no buffers''))"

text \<open>\<open>rw b write\<close> is \<open>virtio_disk_rw\<close>: it moves one block between the buffer and the disk.\<close>

definition bread :: "(buf \<Rightarrow> bool \<Rightarrow> 'd \<Rightarrow> buf \<times> 'd) \<Rightarrow> u32 \<Rightarrow> u32 \<Rightarrow> bcache \<times> 'd \<Rightarrow> (nat \<times> bcache \<times> 'd) outcome" where
  "bread rw d n = (\<lambda>(bs, disk).
     bindE (bget d n bs) (\<lambda>(b, bs).
     if valid (bs ! b) = 0 then
       let (x, disk) = rw (bs ! b) False disk
       in Inr (b, bs[b := x\<lparr>valid := 1\<rparr>], disk)
     else Inr (b, bs, disk)))"

definition bwrite :: "(buf \<Rightarrow> bool \<Rightarrow> 'd \<Rightarrow> buf \<times> 'd) \<Rightarrow> nat \<Rightarrow> bcache \<times> 'd \<Rightarrow> bcache \<times> 'd" where
  "bwrite rw b = (\<lambda>(bs, disk). let (x, disk) = rw (bs ! b) True disk in (bs[b := x], disk))"

definition brelse :: "nat \<Rightarrow> bcache \<Rightarrow> bcache" where
  "brelse b bs =
     (let bs = bs[b := (bs ! b)\<lparr>refcnt := refcnt (bs ! b) - 1\<rparr>] in
      if refcnt (bs ! b) = 0 then
        let bs = set_prev (nxt (bs ! b)) (prev (bs ! b)) bs;
            bs = set_next (prev (bs ! b)) (nxt (bs ! b)) bs
        in push_front b bs
      else bs)"

section \<open>The list behind the links\<close>

text \<open>\<open>linked bs ys\<close>: following \<open>nxt\<close> from the first of \<open>ys\<close> visits \<open>ys\<close>, and \<open>prev\<close> goes back.\<close>

definition linked :: "bcache \<Rightarrow> nat list \<Rightarrow> bool" where
  "linked bs ys \<longleftrightarrow> (\<forall>i. Suc i < length ys \<longrightarrow> nxt (bs ! (ys ! i)) = ys ! Suc i \<and> prev (bs ! (ys ! Suc i)) = ys ! i)"

lemma linked_Nil [simp]: "linked bs []" and linked_single [simp]: "linked bs [x]"
  by (simp_all add: linked_def)

lemma linked_Cons [simp]:
  "linked bs (x # y # ys) \<longleftrightarrow> nxt (bs ! x) = y \<and> prev (bs ! y) = x \<and> linked bs (y # ys)"
  unfolding linked_def by (auto simp: nth_Cons less_Suc_eq_0_disj split: nat.splits)

lemma linked_append:
  "linked bs (xs @ x # ys) \<longleftrightarrow> linked bs (xs @ [x]) \<and> linked bs (x # ys)"
proof (induction xs)
  case Nil
  then show ?case by simp
next
  case (Cons z xs)
  then show ?case by (cases xs) auto
qed

text \<open>\<open>lru_list bs xs\<close>: the cache is the circular list \<open>xs\<close>, most recently released first.\<close>

definition lru_list :: "bcache \<Rightarrow> nat list \<Rightarrow> bool" where
  "lru_list bs xs \<longleftrightarrow> length bs = Suc NBUF \<and> distinct xs \<and> (\<forall>x \<in> set xs. x < NBUF) \<and> linked bs (head # xs @ [head])"

lemma linked_cong:
  "(\<And>x. x \<in> set ys \<Longrightarrow> nxt (bs' ! x) = nxt (bs ! x) \<and> prev (bs' ! x) = prev (bs ! x)) \<Longrightarrow> linked bs' ys = linked bs ys"
  unfolding linked_def by (metis Suc_lessD nth_mem)

lemma scan_next:
  assumes "linked bs (b # xs @ [head])" "b \<noteq> head" "head \<notin> set xs"
  shows "scan nxt P bs b = Some (case List.find (\<lambda>b. P (bs ! b)) (b # xs) of Some b \<Rightarrow> b | None \<Rightarrow> head)"
  using assms
proof (induction xs arbitrary: b)
  case Nil
  then show ?case by (subst scan.simps) (auto simp: scan.simps)
next
  case (Cons x xs)
  then have "nxt (bs ! b) = x" by simp
  with Cons show ?case by (subst scan.simps) auto
qed

lemma scan_prev:
  assumes "linked bs (head # rev (b # xs))" "b \<noteq> head" "head \<notin> set xs"
  shows "scan prev P bs b = Some (case List.find (\<lambda>b. P (bs ! b)) (b # xs) of Some b \<Rightarrow> b | None \<Rightarrow> head)"
  using assms
proof (induction xs arbitrary: b)
  case Nil
  then show ?case by (subst scan.simps) (auto simp: scan.simps)
next
  case (Cons x xs)
  then have "linked bs ((head # rev xs) @ x # [b])" by simp
  then have "prev (bs ! b) = x" "linked bs (head # rev (x # xs))"
    using linked_append [of bs "head # rev xs" x "[b]"] by simp_all
  with Cons show ?case by (subst scan.simps) auto
qed

lemma scan_ring:
  assumes "lru_list bs xs"
  shows "scan nxt P bs (nxt (bs ! head)) = Some (case List.find (\<lambda>b. P (bs ! b)) xs of Some b \<Rightarrow> b | None \<Rightarrow> head)"
    "scan prev P bs (prev (bs ! head)) = Some (case List.find (\<lambda>b. P (bs ! b)) (rev xs) of Some b \<Rightarrow> b | None \<Rightarrow> head)"
proof -
  have l: "linked bs (head # xs @ [head])" and h: "head \<notin> set xs" using assms by (auto simp: lru_list_def)
  show "scan nxt P bs (nxt (bs ! head)) = Some (case List.find (\<lambda>b. P (bs ! b)) xs of Some b \<Rightarrow> b | None \<Rightarrow> head)"
  proof (cases xs)
    case Nil
    then show ?thesis using l by (subst scan.simps) simp
  next
    case (Cons x ys)
    then show ?thesis using l h scan_next [of bs x ys P] by simp
  qed
  show "scan prev P bs (prev (bs ! head)) = Some (case List.find (\<lambda>b. P (bs ! b)) (rev xs) of Some b \<Rightarrow> b | None \<Rightarrow> head)"
  proof (cases xs rule: rev_cases)
    case Nil
    then show ?thesis using l by (subst scan.simps) simp
  next
    case (snoc ys x)
    have "linked bs ((head # ys) @ x # [head])" using l snoc by simp
    then have "linked bs (head # ys @ [x])" "prev (bs ! head) = x"
      using linked_append [of bs "head # ys" x "[head]"] by simp_all
    then show ?thesis using h snoc scan_prev [of bs x "rev ys" P] by simp
  qed
qed

text \<open>The effect of the pointer assignments, link by link.\<close>

lemma linked_upd:
  assumes "\<And>x. x \<in> set (butlast ys) \<Longrightarrow> nxt (bs' ! x) = nxt (bs ! x)" "\<And>x. x \<in> set (tl ys) \<Longrightarrow> prev (bs' ! x) = prev (bs ! x)"
  shows "linked bs' ys = linked bs ys"
proof -
  have "nxt (bs' ! (ys ! i)) = nxt (bs ! (ys ! i)) \<and> prev (bs' ! (ys ! Suc i)) = prev (bs ! (ys ! Suc i))"
    if "Suc i < length ys" for i
  proof -
    have "ys ! i = butlast ys ! i" "i < length (butlast ys)" using that by (simp_all add: nth_butlast)
    moreover have "ys ! Suc i = tl ys ! i" "i < length (tl ys)" using that by (simp_all add: nth_tl)
    ultimately show ?thesis using assms by (metis nth_mem)
  qed
  then show ?thesis unfolding linked_def by simp
qed

lemma linked_join:
  assumes "us \<noteq> []" "vs \<noteq> []"
  shows "linked bs (us @ vs) \<longleftrightarrow> linked bs us \<and> linked bs vs \<and> nxt (bs ! last us) = hd vs \<and> prev (bs ! hd vs) = last us"
proof -
  obtain us' u where u: "us = us' @ [u]" using assms(1) by (cases us rule: rev_cases) auto
  obtain v vs' where v: "vs = v # vs'" using assms(2) by (cases vs) auto
  show ?thesis unfolding u v using linked_append [of bs us' u "v # vs'"] by auto
qed

lemma length_links [simp]:
  "length (set_next b x bs) = length bs" "length (set_prev b x bs) = length bs" "length (push_front b bs) = length bs"
  by (simp_all add: set_next_def set_prev_def push_front_def Let_def)

definition payload :: "buf \<Rightarrow> u32 \<times> u32 \<times> u32 \<times> u32 \<times> u32 \<times> u8 list" where
  "payload b = (valid b, on_disk b, dev b, blockno b, refcnt b, data b)"

lemma payload_links [simp]:
  "payload (set_next b x bs ! c) = payload (bs ! c)" "payload (set_prev b x bs ! c) = payload (bs ! c)"
  by (cases "b < length bs"; cases "b = c"; simp add: set_next_def set_prev_def payload_def list_update_beyond)+

lemma payload_push_front [simp]: "payload (push_front b bs ! c) = payload (bs ! c)"
  by (simp add: push_front_def Let_def)

lemma nth_links:
  "b < length bs \<Longrightarrow> set_next b x bs ! z = (if z = b then (bs ! z)\<lparr>nxt := x\<rparr> else bs ! z)"
  "b < length bs \<Longrightarrow> set_prev b x bs ! z = (if z = b then (bs ! z)\<lparr>prev := x\<rparr> else bs ! z)"
  by (auto simp: set_next_def set_prev_def nth_list_update)

lemma push_front_links:
  assumes "length bs = Suc NBUF" "b < NBUF" "nxt (bs ! head) \<noteq> b" "nxt (bs ! head) < Suc NBUF"
  shows "push_front b bs ! z =
    (bs ! z)\<lparr>nxt := (if z = head then b else if z = b then nxt (bs ! head) else nxt (bs ! z)),
            prev := (if z = nxt (bs ! head) then b else if z = b then head else prev (bs ! z))\<rparr>"
  using assms by (auto simp: push_front_def Let_def nth_links simp del: NBUF_def)

lemma push_front_linked:
  assumes len: "length bs = Suc NBUF" and l: "linked bs (head # xs @ [head])" and b: "b < NBUF" "b \<notin> set xs"
    and d: "distinct xs" "\<forall>x \<in> set xs. x < NBUF"
  shows "linked (push_front b bs) (head # (b # xs) @ [head])"
proof -
  define y ys where "y = hd (xs @ [head])" and "ys = tl (xs @ [head])"
  have yys: "xs @ [head] = y # ys" by (simp add: y_def ys_def)
  have y: "nxt (bs ! head) = y" "y < Suc NBUF" "y \<noteq> b" and rest: "linked bs (y # ys)"
    using l b d yys by (auto simp: Cons_eq_append_conv append_eq_Cons_conv yys)
  note p = push_front_links [OF len b(1) y(3,2) [folded y(1)], unfolded y(1)]
  have set_ys: "set (butlast (y # ys)) = set xs" using arg_cong [OF yys, of butlast] by simp
  have dist: "y \<notin> set ys"
  proof (cases xs)
    case Nil
    then show ?thesis using yys by simp
  next
    case (Cons x zs)
    then show ?thesis using yys d by auto
  qed
  have "set ys \<subseteq> set xs \<union> {head}" using yys by (metis Un_insert_right list.set_intros(2) set_append set_simps subsetI sup_bot.right_neutral)
  then have nb: "b \<notin> set ys" using b by auto
  have "linked (push_front b bs) (y # ys) = linked bs (y # ys)"
  proof (rule linked_upd)
    fix x assume "x \<in> set (butlast (y # ys))"
    then have "x \<noteq> head" "x \<noteq> b" using set_ys d b by auto
    then show "nxt (push_front b bs ! x) = nxt (bs ! x)" by (simp add: p)
  next
    fix x assume "x \<in> set (tl (y # ys))"
    then have "x \<noteq> y" "x \<noteq> b" using dist nb by auto
    then show "prev (push_front b bs ! x) = prev (bs ! x)" by (simp add: p)
  qed
  moreover have "nxt (push_front b bs ! head) = b" "prev (push_front b bs ! b) = head"
    "nxt (push_front b bs ! b) = y" "prev (push_front b bs ! y) = b"
    using b y by (auto simp: p)
  ultimately show ?thesis using rest yys by simp
qed

lemma push_front_lru:
  assumes "lru_list bs xs" "b < NBUF" "b \<notin> set xs"
  shows "lru_list (push_front b bs) (b # xs)"
  using assms push_front_linked [of bs xs b] by (simp add: lru_list_def del: NBUF_def)

lemma binit_lru:
  assumes "length bs = Suc NBUF"
  shows "lru_list (binit bs) (rev [0..<NBUF])"
proof -
  define bs0 where "bs0 = set_next head head (set_prev head head bs)"
  have "lru_list bs0 []" using assms by (simp add: lru_list_def bs0_def nth_links del: NBUF_def)
  then have "lru_list (fold push_front [0..<n] bs0) (rev [0..<n])" if "n \<le> NBUF" for n
    using that by (induction n) (auto intro!: push_front_lru simp del: NBUF_def)
  then show ?thesis by (simp add: binit_def Let_def bs0_def del: NBUF_def)
qed

section \<open>Finding and releasing buffers\<close>

text \<open>Changing the payload of a buffer leaves the list alone.\<close>

lemma lru_list_update:
  assumes "lru_list bs xs" "nxt x = nxt (bs ! b)" "prev x = prev (bs ! b)"
  shows "lru_list (bs[b := x]) xs"
proof -
  have "linked (bs[b := x]) ys = linked bs ys" for ys
    by (rule linked_cong) (use assms(2,3) in \<open>cases "b < length bs"; auto simp: nth_list_update list_update_beyond\<close>)
  with assms(1) show ?thesis by (simp add: lru_list_def)
qed

text \<open>
  Over the list, \<open>bget\<close> takes the first buffer that holds the block, else the last one nobody uses.
\<close>

definition holds :: "bcache \<Rightarrow> u32 \<Rightarrow> u32 \<Rightarrow> nat \<Rightarrow> bool" where
  "holds bs d n b \<longleftrightarrow> dev (bs ! b) = d \<and> blockno (bs ! b) = n"

lemma find_in:
  assumes "List.find P xs = Some b" shows "b \<in> set xs" "P b"
  using assms by (auto simp: find_Some_iff)

lemma bget_eq:
  assumes "lru_list bs xs"
  shows "bget d n bs =
    (case List.find (holds bs d n) xs of
       Some b \<Rightarrow> Inr (b, bs[b := (bs ! b)\<lparr>refcnt := refcnt (bs ! b) + 1\<rparr>])
     | None \<Rightarrow>
       case List.find (\<lambda>b. refcnt (bs ! b) = 0) (rev xs) of
         Some b \<Rightarrow> Inr (b, bs[b := (bs ! b)\<lparr>dev := d, blockno := n, valid := 0, refcnt := 1\<rparr>])
       | None \<Rightarrow> Inl (Panic ''bget: no buffers''))"
proof -
  have h: "b \<noteq> head" if "b \<in> set xs" for b using assms that by (auto simp: lru_list_def)
  have eq: "(\<lambda>b. dev (bs ! b) = d \<and> blockno (bs ! b) = n) = holds bs d n" by (rule ext) (simp add: holds_def)
  show ?thesis
    using h find_in(1) [of _ xs] find_in(1) [of _ "rev xs"]
    by (fastforce simp: bget_def scan_ring [OF assms] eq simp del: NBUF_def split: option.splits)
qed

lemma bget_facts:
  assumes "lru_list bs xs" "bget d n bs = Inr (b, bs')"
  shows "b \<in> set xs \<and> lru_list bs' xs \<and> holds bs' d n b \<and>
    (\<exists>x. bs' = bs[b := x] \<and> refcnt x = refcnt (bs ! b) + 1 \<and> data x = data (bs ! b)) \<and> (\<forall>c. c \<noteq> b \<longrightarrow> bs' ! c = bs ! c)"
proof -
  consider (hit) "List.find (holds bs d n) xs = Some b" "bs' = bs[b := (bs ! b)\<lparr>refcnt := refcnt (bs ! b) + 1\<rparr>]"
    | (miss) "List.find (holds bs d n) xs = None" "List.find (\<lambda>b. refcnt (bs ! b) = 0) (rev xs) = Some b"
        "bs' = bs[b := (bs ! b)\<lparr>dev := d, blockno := n, valid := 0, refcnt := 1\<rparr>]"
    using assms(2) unfolding bget_eq [OF assms(1)] by (auto split: option.splits)
  then show ?thesis
  proof cases
    case hit
    then have b: "b \<in> set xs" "holds bs d n b" using find_in by metis+
    then have "b < length bs" using assms(1) by (auto simp: lru_list_def)
    with hit b assms(1) show ?thesis by (auto simp: holds_def intro!: lru_list_update)
  next
    case miss
    then have b: "b \<in> set xs" "refcnt (bs ! b) = 0" using find_in [OF miss(2)] by simp_all
    then have "b < length bs" using assms(1) by (auto simp: lru_list_def)
    with miss b assms(1) show ?thesis by (auto simp: holds_def intro!: lru_list_update)
  qed
qed

text \<open>No block has two buffers. All buffers start as block 0 of device 0, which is left out.\<close>

definition coherent :: "bcache \<Rightarrow> nat list \<Rightarrow> bool" where
  "coherent bs xs \<longleftrightarrow>
     (\<forall>a \<in> set xs. \<forall>b \<in> set xs. dev (bs ! a) = dev (bs ! b) \<and> blockno (bs ! a) = blockno (bs ! b) \<and>
        (dev (bs ! a), blockno (bs ! a)) \<noteq> (0, 0) \<longrightarrow> a = b)"

lemma bget_coherent:
  assumes l: "lru_list bs xs" and c: "coherent bs xs" and g: "bget d n bs = Inr (b, bs')"
  shows "coherent bs' xs"
proof (cases "List.find (holds bs d n) xs")
  case None
  then have none: "\<not> holds bs d n a" if "a \<in> set xs" for a using that by (auto simp: find_None_iff)
  note f = bget_facts [OF l g]
  then have b: "holds bs' d n b" by blast
  have other: "dev (bs' ! a) = dev (bs ! a) \<and> blockno (bs' ! a) = blockno (bs ! a)" if "a \<noteq> b" for a
    using f that by metis
  show ?thesis
    unfolding coherent_def
  proof (intro ballI impI)
    fix a a' assume a: "a \<in> set xs" "a' \<in> set xs"
      and eq: "dev (bs' ! a) = dev (bs' ! a') \<and> blockno (bs' ! a) = blockno (bs' ! a') \<and> (dev (bs' ! a), blockno (bs' ! a)) \<noteq> (0, 0)"
    show "a = a'"
    proof (cases "a = b \<or> a' = b")
      case True
      then show ?thesis using eq b other [of a] other [of a'] none a unfolding holds_def by metis
    next
      case False
      then show ?thesis using c a eq other [of a] other [of a'] unfolding coherent_def by metis
    qed
  qed
next
  case (Some b0)
  then have "bs' = bs[b := (bs ! b)\<lparr>refcnt := refcnt (bs ! b) + 1\<rparr>]" using g by (auto simp: bget_eq [OF l])
  then have "dev (bs' ! a) = dev (bs ! a) \<and> blockno (bs' ! a) = blockno (bs ! a)" for a
    by (cases "b < length bs") (auto simp: nth_list_update list_update_beyond)
  with c show ?thesis by (simp add: coherent_def)
qed

text \<open>\<open>brelse\<close> gives up one use; the last one moves the buffer to the front.\<close>

lemma neighbours:
  assumes "linked bs (head # (us @ b # vs) @ [head])"
  shows "prev (bs ! b) = last (head # us)" "nxt (bs ! b) = hd (vs @ [head])"
    "linked bs (head # us)" "linked bs (vs @ [head])"
proof -
  have "linked bs ((head # us) @ (b # vs @ [head]))" using assms by simp
  from iffD1 [OF linked_join this] have us: "linked bs (head # us)" "prev (bs ! b) = last (head # us)"
    and bvs: "linked bs ([b] @ (vs @ [head]))"
    unfolding list.sel append_Cons append_Nil by blast+
  show "prev (bs ! b) = last (head # us)" "linked bs (head # us)" using us by simp_all
  from iffD1 [OF linked_join bvs] show "linked bs (vs @ [head])" "nxt (bs ! b) = hd (vs @ [head])"
    by simp_all
qed

lemma unlink_linked:
  assumes len: "length bs = Suc NBUF" and l: "linked bs (head # (us @ b # vs) @ [head])"
    and d: "distinct (us @ b # vs)" "\<forall>x \<in> set (us @ b # vs). x < NBUF"
  shows "linked (set_next (prev (bs ! b)) (nxt (bs ! b)) (set_prev (nxt (bs ! b)) (prev (bs ! b)) bs)) (head # (us @ vs) @ [head])"
proof -
  let ?p = "last (head # us)" and ?n = "hd (vs @ [head])"
  note nb = neighbours [OF l]
  define bs' where "bs' = set_next ?p ?n (set_prev ?n ?p bs)"
  have p: "?p < Suc NBUF" and n: "?n < Suc NBUF"
    using d(2) by (cases us rule: rev_cases, simp_all del: NBUF_def) (cases vs, simp_all del: NBUF_def)
  have at: "bs' ! z = (bs ! z)\<lparr>nxt := (if z = ?p then ?n else nxt (bs ! z)), prev := (if z = ?n then ?p else prev (bs ! z))\<rparr>" for z
    using len p n by (simp add: bs'_def nth_links del: NBUF_def last.simps)
  have "linked bs' (head # us) = linked bs (head # us)"
  proof (rule linked_upd)
    fix x assume x: "x \<in> set (butlast (head # us))"
    have "distinct (head # us)" using d by auto
    then have "x \<noteq> ?p" using x by (metis append_butlast_last_id distinct_append insert_iff list.distinct(1) list.set(2) disjoint_iff)
    then show "nxt (bs' ! x) = nxt (bs ! x)" by (simp add: at)
  next
    fix x assume "x \<in> set (tl (head # us))"
    then have "x \<noteq> ?n" using d hd_in_set [of vs] by (cases vs) auto
    then show "prev (bs' ! x) = prev (bs ! x)" by (simp add: at)
  qed
  moreover have "linked bs' (vs @ [head]) = linked bs (vs @ [head])"
  proof (rule linked_upd)
    fix x assume "x \<in> set (butlast (vs @ [head]))"
    then have "x \<in> set vs" by simp
    then have "x \<noteq> ?p" using d by (cases us rule: rev_cases) auto
    then show "nxt (bs' ! x) = nxt (bs ! x)" by (simp add: at)
  next
    fix x assume "x \<in> set (tl (vs @ [head]))"
    moreover have "distinct (vs @ [head])" using d by auto
    ultimately have "x \<noteq> ?n" by (cases vs) auto
    then show "prev (bs' ! x) = prev (bs ! x)" by (simp add: at)
  qed
  moreover have "nxt (bs' ! ?p) = ?n" "prev (bs' ! ?n) = ?p" by (simp_all add: at)
  ultimately have "linked bs' ((head # us) @ (vs @ [head]))"
    using nb(3,4) linked_join [of "head # us" "vs @ [head]" bs'] by simp
  then show ?thesis by (simp add: bs'_def nb(1,2))
qed

text \<open>Move to front, as \<open>brelse\<close> does it on the list.\<close>

definition to_front :: "nat \<Rightarrow> nat list \<Rightarrow> nat list" where
  "to_front b xs = b # filter (\<lambda>x. x \<noteq> b) xs"

lemma to_front_split: "distinct (us @ b # vs) \<Longrightarrow> to_front b (us @ b # vs) = b # us @ vs"
  by (simp add: to_front_def) (metis (mono_tags, lifting) filter_True)

lemma brelse_spec:
  assumes l: "lru_list bs xs" and b: "b \<in> set xs"
  shows "lru_list (brelse b bs) (if refcnt (bs ! b) = 1 then to_front b xs else xs)"
    "refcnt (brelse b bs ! b) = refcnt (bs ! b) - 1"
    "dev (brelse b bs ! c) = dev (bs ! c)" "blockno (brelse b bs ! c) = blockno (bs ! c)"
    "valid (brelse b bs ! c) = valid (bs ! c)" "data (brelse b bs ! c) = data (bs ! c)"
    "c \<noteq> b \<Longrightarrow> refcnt (brelse b bs ! c) = refcnt (bs ! c)"
proof -
  obtain us vs where xs: "xs = us @ b # vs" using b by (meson split_list)
  have len: "length bs = Suc NBUF" and d: "distinct (us @ b # vs)" "\<forall>x \<in> set (us @ b # vs). x < NBUF"
    and lk: "linked bs (head # (us @ b # vs) @ [head])" using l by (auto simp: lru_list_def xs)
  have bl: "b < NBUF" using d by simp
  define bs1 where "bs1 = bs[b := (bs ! b)\<lparr>refcnt := refcnt (bs ! b) - 1\<rparr>]"
  have at1: "bs1 ! c = (if c = b then (bs ! b)\<lparr>refcnt := refcnt (bs ! b) - 1\<rparr> else bs ! c)" for c
    using bl len by (auto simp: bs1_def nth_list_update simp del: NBUF_def)
  have l1: "lru_list bs1 xs" unfolding bs1_def by (rule lru_list_update [OF l]) simp_all
  then have lk1: "linked bs1 (head # (us @ b # vs) @ [head])" "length bs1 = Suc NBUF" by (simp_all add: lru_list_def xs)
  define bs2 where "bs2 = set_next (prev (bs1 ! b)) (nxt (bs1 ! b)) (set_prev (nxt (bs1 ! b)) (prev (bs1 ! b)) bs1)"
  have l2: "lru_list bs2 (us @ vs)"
    using unlink_linked [OF lk1(2,1) d] lk1(2) d unfolding bs2_def [symmetric]
    by (auto simp: lru_list_def bs2_def simp del: NBUF_def)
  note nb = neighbours [OF lk1(1)]
  have neq: "b \<noteq> nxt (bs1 ! b)" "b \<noteq> prev (bs1 ! b)"
  proof -
    show "b \<noteq> nxt (bs1 ! b)" using nb(2) d bl by (cases vs) auto
    show "b \<noteq> prev (bs1 ! b)" using nb(1) d bl by (cases us rule: rev_cases) auto
  qed
  have front: "lru_list (push_front b bs2) (b # us @ vs)" by (rule push_front_lru [OF l2 bl]) (use d in auto)
  have eq: "brelse b bs = (if refcnt (bs ! b) = 1 then push_front b bs2 else bs1)"
  proof -
    have "refcnt (bs ! b) - 1 = 0 \<longleftrightarrow> refcnt (bs ! b) = 1" by simp
    moreover have "prev (set_prev (nxt (bs1 ! b)) (prev (bs1 ! b)) bs1 ! b) = prev (bs1 ! b)"
      "nxt (set_prev (nxt (bs1 ! b)) (prev (bs1 ! b)) bs1 ! b) = nxt (bs1 ! b)"
      using neq by (simp_all add: set_prev_def)
    ultimately show ?thesis
      unfolding brelse_def Let_def bs1_def [symmetric] by (simp add: at1 bs2_def)
  qed
  show "lru_list (brelse b bs) (if refcnt (bs ! b) = 1 then to_front b xs else xs)"
    unfolding eq xs using front l1 to_front_split [OF d(1)] by (simp add: xs)
  have "payload (brelse b bs ! c) = payload (bs1 ! c)" for c by (simp add: eq bs2_def)
  then have "dev (brelse b bs ! c) = dev (bs ! c) \<and> blockno (brelse b bs ! c) = blockno (bs ! c) \<and> valid (brelse b bs ! c) = valid (bs ! c) \<and>
    data (brelse b bs ! c) = data (bs ! c) \<and> refcnt (brelse b bs ! c) = (if c = b then refcnt (bs ! b) - 1 else refcnt (bs ! c))" for c
    using at1 [of c] by (auto simp: payload_def split: if_splits)
  then show "refcnt (brelse b bs ! b) = refcnt (bs ! b) - 1"
    "dev (brelse b bs ! c) = dev (bs ! c)" "blockno (brelse b bs ! c) = blockno (bs ! c)"
    "valid (brelse b bs ! c) = valid (bs ! c)" "data (brelse b bs ! c) = data (bs ! c)"
    "c \<noteq> b \<Longrightarrow> refcnt (brelse b bs ! c) = refcnt (bs ! c)"
    by simp_all
qed

section \<open>Reading through the cache\<close>

text \<open>
  What the cache needs of the driver: a read fills the buffer with the block \<open>rd disk dev blockno\<close> and
  changes nothing else. Every valid buffer then holds its block.
\<close>

definition driver_reads :: "(buf \<Rightarrow> bool \<Rightarrow> 'd \<Rightarrow> buf \<times> 'd) \<Rightarrow> ('d \<Rightarrow> u32 \<Rightarrow> u32 \<Rightarrow> u8 list) \<Rightarrow> bool" where
  "driver_reads rw rd \<longleftrightarrow> (\<forall>b disk. rw b False disk = (b\<lparr>data := rd disk (dev b) (blockno b)\<rparr>, disk))"

definition fresh_cache :: "('d \<Rightarrow> u32 \<Rightarrow> u32 \<Rightarrow> u8 list) \<Rightarrow> bcache \<Rightarrow> 'd \<Rightarrow> bool" where
  "fresh_cache rd bs disk \<longleftrightarrow> (\<forall>b < NBUF. valid (bs ! b) \<noteq> 0 \<longrightarrow> data (bs ! b) = rd disk (dev (bs ! b)) (blockno (bs ! b)))"

lemma bget_valid:
  assumes "lru_list bs xs" "bget d n bs = Inr (b, bs')" "valid (bs' ! b) \<noteq> 0"
  shows "holds bs d n b" "data (bs' ! b) = data (bs ! b)" "valid (bs ! b) \<noteq> 0"
proof -
  have b: "b < length bs" using bget_facts [OF assms(1,2)] assms(1) by (auto simp: lru_list_def)
  show "holds bs d n b" "data (bs' ! b) = data (bs ! b)" "valid (bs ! b) \<noteq> 0"
    using assms(2,3) find_in(2) [of "holds bs d n" xs b] b unfolding bget_eq [OF assms(1)]
    by (auto split: option.splits)
qed

lemma bread_spec:
  assumes l: "lru_list bs xs" and dr: "driver_reads rw rd" and fr: "fresh_cache rd bs disk"
    and r: "bread rw d n (bs, disk) = Inr (b, bs', disk')"
  shows "disk' = disk" "lru_list bs' xs" "fresh_cache rd bs' disk" "b \<in> set xs" "valid (bs' ! b) \<noteq> 0"
    "holds bs' d n b" "data (bs' ! b) = rd disk d n" "refcnt (bs' ! b) = refcnt (bs ! b) + 1"
proof -
  from r obtain bs1 where g: "bget d n bs = Inr (b, bs1)" 
    by (auto simp: bread_def bindE_Inr_iff split: if_splits prod.splits)
  note f = bget_facts [OF l g]
  then have b: "b \<in> set xs" "lru_list bs1 xs" "holds bs1 d n b" "\<And>c. c \<noteq> b \<Longrightarrow> bs1 ! c = bs ! c" by blast+
  have bl: "b < length bs1" "b < NBUF" "b < length bs" using b(1,2) l by (auto simp: lru_list_def)
  then have rc: "refcnt (bs1 ! b) = refcnt (bs ! b) + 1" using f by auto
  have eq: "disk' = disk \<and> bs' = (if valid (bs1 ! b) = 0 then bs1[b := (bs1 ! b)\<lparr>data := rd disk d n, valid := 1\<rparr>] else bs1)"
    using r dr b(3) unfolding bread_def driver_reads_def holds_def by (auto simp: g split: if_splits)
  show "disk' = disk" using eq by simp
  show "lru_list bs' xs" using eq b(2) by (auto intro: lru_list_update)
  show dt: "data (bs' ! b) = rd disk d n"
  proof (cases "valid (bs1 ! b) = 0")
    case True
    then show ?thesis using eq bl by simp
  next
    case False
    with bget_valid [OF l g] eq fr bl show ?thesis by (auto simp: fresh_cache_def holds_def)
  qed
  show v: "valid (bs' ! b) \<noteq> 0" and h: "holds bs' d n b" and "refcnt (bs' ! b) = refcnt (bs ! b) + 1"
    using eq bl b(3) rc by (auto simp: holds_def)
  show "b \<in> set xs" by (rule b(1))
  have "bs' ! c = bs ! c" if "c \<noteq> b" for c using eq b(4) [OF that] that by auto
  then show "fresh_cache rd bs' disk" using fr dt h unfolding fresh_cache_def holds_def by metis
qed

end
