(* ===== verification/File_System.thy ===== *)
theory File_System
  imports Buffer_Cache Kmem
begin

text \<open>
  The inode layer of \<open>kernel/fs/fs.c\<close> as the file has it: block allocation, the copy out of the buffer
  and the comparison of names are not written there. An unwritten branch does nothing here either.
\<close>

definition BSIZE :: u32 where [simp]: "BSIZE = 1024"
definition NDIRECT :: u32 where [simp]: "NDIRECT = 12"
definition NINDIRECT :: u32 where [simp]: "NINDIRECT = 256"
definition DIRSIZ :: u32 where [simp]: "DIRSIZ = 14"

text \<open>\<open>sizeof(struct dirent)\<close>: the number of an inode and a name.\<close>

definition dirent_size :: u32 where [simp]: "dirent_size = 2 + DIRSIZ"

record inode =
  i_dev :: u32
  i_inum :: u32
  i_ref :: u32
  i_valid :: u32
  i_type :: u16
  i_major :: u16
  i_minor :: u16
  i_nlink :: u16
  i_size :: u32
  i_addrs :: "u32 list"

type_synonym 'd driver = "buf \<Rightarrow> bool \<Rightarrow> 'd \<Rightarrow> buf \<times> 'd"
type_synonym 'd fs = "bcache \<times> 'd"

definition bmap :: "'d driver \<Rightarrow> inode \<Rightarrow> u32 \<Rightarrow> 'd fs \<Rightarrow> (u32 \<times> 'd fs) outcome" where
  "bmap rw ip bn s =
     (if bn < NDIRECT then Inr (i_addrs ip ! unat bn, s)
      else
        let bn = bn - NDIRECT in
        if bn < NINDIRECT then
          bindE (bread rw (i_dev ip) (i_addrs ip ! unat NDIRECT) s) (\<lambda>(bp, bs, d).
          let addr = load32 (\<lambda>i. data (bs ! bp) ! unat i) (4 * ucast bn)
          in Inr (addr, brelse bp bs, d))
        else Inl (Panic ''bmap: out of range''))"

definition read_chunk :: "u32 \<Rightarrow> u32 \<Rightarrow> u32" where
  "read_chunk off rest = (let m = BSIZE - off mod BSIZE in if m > rest then rest else m)"

lemma read_chunk_bounds:
  assumes "rest \<noteq> 0" shows "read_chunk off rest \<noteq> 0" "read_chunk off rest \<le> rest"
proof -
  have "unat (off mod 1024) < unat (1024 :: u32)" by (simp add: unat_mod)
  then have "1024 - off mod 1024 \<noteq> 0" by (metis eq_iff_diff_eq_0 less_irrefl)
  then show "read_chunk off rest \<noteq> 0" "read_chunk off rest \<le> rest" using assms by (auto simp: read_chunk_def Let_def)
qed

text \<open>The loop of \<open>readi\<close>: \<open>tot\<close> and \<open>off\<close> advance together; nothing is copied to \<open>dst\<close>.\<close>

function readi_loop :: "'d driver \<Rightarrow> inode \<Rightarrow> u32 \<Rightarrow> u32 \<Rightarrow> u32 \<Rightarrow> 'd fs \<Rightarrow> (u32 \<times> 'd fs) outcome" where
  "readi_loop rw ip tot off n s =
     (if tot < n then
        bindE (bmap rw ip (off div BSIZE) s) (\<lambda>(blk, s).
        bindE (bread rw (i_dev ip) blk s) (\<lambda>(bp, bs, d).
        let m = read_chunk off (n - tot) in
        readi_loop rw ip (tot + m) (off + m) n (brelse bp bs, d)))
      else Inr (tot, s))"
  by pat_completeness auto
termination
proof (relation "measure (\<lambda>(rw, ip, tot, off, n, s). unat (n - tot))", simp, goal_cases)
  case (1 rw ip tot off n)
  then have "n - tot \<noteq> 0" by auto
  from read_chunk_bounds [OF this, of off] have "0 < unat (read_chunk off (n - tot))"
    "read_chunk off (n - tot) \<le> n - tot" by (simp_all add: unat_gt_0)
  then have "unat (n - tot - read_chunk off (n - tot)) < unat (n - tot)"
    by (simp only: unat_sub) (simp add: word_le_nat_alt)
  with 1 show ?case by (simp add: diff_diff_eq)
qed

declare readi_loop.simps [simp del]

definition readi :: "'d driver \<Rightarrow> inode \<Rightarrow> bool \<Rightarrow> u64 \<Rightarrow> u32 \<Rightarrow> u32 \<Rightarrow> 'd fs \<Rightarrow> (u32 \<times> 'd fs) outcome" where
  "readi rw ip user_dst dst off n s =
     (if off > i_size ip \<or> off + n < off then Inr (0, s)
      else readi_loop rw ip 0 off (if off + n > i_size ip then i_size ip - off else n) s)"

lemma advance_le: "tot \<le> n \<Longrightarrow> m \<le> n - tot \<Longrightarrow> tot + m \<le> n" for tot n m :: u32
proof -
  assume a: "tot \<le> n" "m \<le> n - tot"
  then have "unat m \<le> unat n - unat tot" by (simp add: word_le_nat_alt unat_sub)
  then have s: "unat tot + unat m \<le> unat n" using a(1) by (simp add: word_le_nat_alt)
  moreover have "unat n < 2 ^ 32" using unsigned_less [of n] by simp
  ultimately show ?thesis by (simp add: word_le_nat_alt unat_word_ariths)
qed

lemma readi_loop_total:
  "tot \<le> n \<Longrightarrow> readi_loop rw ip tot off n s = Inr (r, s') \<Longrightarrow> r = n"
proof (induction rw ip tot off n s arbitrary: r s' rule: readi_loop.induct)
  case (1 rw ip tot off n s)
  show ?case
  proof (cases "tot < n")
    case False
    then show ?thesis using 1(2,3) by (subst (asm) readi_loop.simps) simp
  next
    case True
    then have "n - tot \<noteq> 0" by auto
    note m = read_chunk_bounds(2) [OF this, of off]
    have le: "tot + read_chunk off (n - tot) \<le> n" by (rule advance_le [OF 1(2) m])
    from 1(3) True obtain blk s1 bp bs d where
      "bmap rw ip (off div BSIZE) s = Inr (blk, s1)" "bread rw (i_dev ip) blk s1 = Inr (bp, bs, d)"
      "readi_loop rw ip (tot + read_chunk off (n - tot)) (off + read_chunk off (n - tot)) n (brelse bp bs, d) = Inr (r, s')"
      unfolding readi_loop.simps [of rw ip tot off n s] by (auto simp: bindE_Inr_iff Let_def)
    with 1(1) [OF True _ refl _ refl refl refl le] show ?thesis by blast
  qed
qed

text \<open>The count returned is the request cut at the end of the file.\<close>

lemma readi_count:
  assumes "readi rw ip user_dst dst off n s = Inr (r, s')"
  shows "unat r = (if unat off + unat n < 2 ^ 32 then min (unat n) (unat (i_size ip) - unat off) else 0)"
proof -
  have wrap: "off + n < off \<longleftrightarrow> 2 ^ 32 \<le> unat off + unat n"
  proof -
    have "unat off < 2 ^ 32" "unat n < 2 ^ 32" using unsigned_less [of off] unsigned_less [of n] by simp_all
    then show ?thesis by (auto simp: word_less_nat_alt unat_plus_if')
  qed
  consider (none) "off > i_size ip \<or> off + n < off" "r = 0"
    | (some) "\<not> off > i_size ip" "\<not> off + n < off" "r = (if off + n > i_size ip then i_size ip - off else n)"
    using assms unfolding readi_def by (auto split: if_splits dest: readi_loop_total [OF word_zero_le])
  then show ?thesis
  proof cases
    case none
    then show ?thesis using wrap by (auto simp: word_less_nat_alt)
  next
    case some
    then have s: "unat (off + n) = unat off + unat n" "unat off + unat n < 2 ^ 32" using wrap by (auto simp: unat_word_ariths)
    with some show ?thesis by (auto simp: word_less_nat_alt unat_sub word_le_nat_alt)
  qed
qed

text \<open>
  \<open>dirlookup\<close>: one record of 16 bytes per turn. The record read is never filled, so no name is compared;
  every turn goes on to the next record.
\<close>

function dirlookup :: "'d driver \<Rightarrow> inode \<Rightarrow> u64 \<Rightarrow> u32 \<Rightarrow> 'd fs \<Rightarrow> (nat option \<times> 'd fs) outcome" where
  "dirlookup rw dp de off s =
     (if off < i_size dp then
        case readi rw dp False de off dirent_size s of
          Inl e \<Rightarrow> Inl e
        | Inr (r, s) \<Rightarrow> if r \<noteq> dirent_size then Inl (Panic ''dirlookup: read error'') else dirlookup rw dp de (off + dirent_size) s
      else Inr (None, s))"
  by pat_completeness auto
termination
proof (relation "measure (\<lambda>(rw, dp, de, off, s). unat (i_size dp) - unat off)", simp, goal_cases)
  case (1 rw dp de off s b r s')
  then have "unat off + 16 < 2 ^ 32" "16 \<le> unat (i_size dp) - unat off"
    using readi_count [of rw dp False de off 16 s r s'] by (auto split: if_splits)
  then show ?case by (simp add: unat_word_ariths)
qed

declare dirlookup.simps [simp del]

lemma dirlookup_none: "dirlookup rw dp de off s = Inr (r, s') \<Longrightarrow> r = None"
proof (induction rw dp de off s arbitrary: r s' rule: dirlookup.induct)
  case (1 rw dp de off s)
  from 1(2) show ?case
    unfolding dirlookup.simps [of rw dp de off s] by (auto simp del: dirent_size_def split: if_splits sum.splits dest: 1(1) [rotated -1])
qed

end
