(* ===== verification/Cache_Steps.thy ===== *)
theory Cache_Steps
  imports File_System
begin

text \<open>
  The block cache in use: the clients of \<open>bio.c\<close> read blocks, write blocks they hold and release them, in
  any order. The reachable states and their invariant.
\<close>

section \<open>Steps\<close>

text \<open>
  The contract of \<open>virtio_disk_rw\<close>: \<open>rd disk d n\<close> is the block \<open>n\<close> of device \<open>d\<close>; a read brings it into
  the buffer, a write puts the buffer's bytes there and leaves the other blocks.
\<close>

definition driver_ok :: "'d driver \<Rightarrow> ('d \<Rightarrow> u32 \<Rightarrow> u32 \<Rightarrow> u8 list) \<Rightarrow> bool" where
  "driver_ok rw rd \<longleftrightarrow> driver_reads rw rd \<and>
     (\<forall>b disk. fst (rw b True disk) = b \<and>
        (\<forall>d n. rd (snd (rw b True disk)) d n = (if d = dev b \<and> n = blockno b then data b else rd disk d n)))"

inductive cache_step :: "'d driver \<Rightarrow> bcache \<times> 'd \<Rightarrow> bcache \<times> 'd \<Rightarrow> bool" for rw where
  reads: "bread rw d n (bs, disk) = Inr (b, bs', disk') \<Longrightarrow> cache_step rw (bs, disk) (bs', disk')"
| writes: "b < NBUF \<Longrightarrow> refcnt (bs ! b) \<noteq> 0 \<Longrightarrow> valid (bs ! b) \<noteq> 0 \<Longrightarrow>
    cache_step rw (bs, disk) (bwrite rw b (bs[b := (bs ! b)\<lparr>data := x\<rparr>], disk))"
| releases: "b < NBUF \<Longrightarrow> refcnt (bs ! b) \<noteq> 0 \<Longrightarrow> cache_step rw (bs, disk) (brelse b bs, disk)"

text \<open>The state after \<open>binit\<close> on the zeroed buffers of a program just loaded.\<close>

definition zero_buf :: buf where
  "zero_buf = \<lparr>valid = 0, on_disk = 0, dev = 0, blockno = 0, refcnt = 0, prev = 0, nxt = 0, data = replicate 1024 0\<rparr>"

inductive reachable :: "'d driver \<Rightarrow> 'd \<Rightarrow> bcache \<times> 'd \<Rightarrow> bool" for rw disk0 where
  booted: "reachable rw disk0 (binit (replicate (Suc NBUF) zero_buf), disk0)"
| steps: "reachable rw disk0 s \<Longrightarrow> cache_step rw s s' \<Longrightarrow> reachable rw disk0 s'"

section \<open>The invariant\<close>

definition used :: "buf \<Rightarrow> bool" where "used b \<longleftrightarrow> refcnt b \<noteq> 0 \<or> valid b \<noteq> 0"

text \<open>A buffer in use is the one that \<open>bget\<close> finds for its block.\<close>

definition found :: "bcache \<Rightarrow> nat list \<Rightarrow> nat \<Rightarrow> bool" where
  "found bs xs a \<longleftrightarrow> List.find (holds bs (dev (bs ! a)) (blockno (bs ! a))) xs = Some a"

definition cache_inv :: "('d \<Rightarrow> u32 \<Rightarrow> u32 \<Rightarrow> u8 list) \<Rightarrow> nat list \<Rightarrow> bcache \<times> 'd \<Rightarrow> bool" where
  "cache_inv rd xs s \<longleftrightarrow> lru_list (fst s) xs \<and> set xs = {..<NBUF} \<and>
     (\<forall>a < NBUF. used (fst s ! a) \<longrightarrow> found (fst s) xs a) \<and> fresh_cache rd (fst s) (snd s)"

lemma find_cong_mem: "(\<And>x. x \<in> set xs \<Longrightarrow> P x = Q x) \<Longrightarrow> List.find P xs = List.find Q xs"
  by (induction xs) auto

lemma find_shrink: "List.find P xs = Some a \<Longrightarrow> Q a \<Longrightarrow> (\<And>x. Q x \<Longrightarrow> P x) \<Longrightarrow> List.find Q xs = Some a"
  by (induction xs) (auto split: if_splits)

lemma found_unique:
  "found bs xs a \<Longrightarrow> found bs xs b \<Longrightarrow> dev (bs ! a) = dev (bs ! b) \<Longrightarrow> blockno (bs ! a) = blockno (bs ! b) \<Longrightarrow> a = b"
  by (simp add: found_def)

lemma found_holds: "found bs xs a \<longleftrightarrow> holds bs (dev (bs ! a)) (blockno (bs ! a)) a \<and>
    List.find (holds bs (dev (bs ! a)) (blockno (bs ! a))) xs = Some a"
  by (auto simp: found_def holds_def)

lemma found_labels:
  assumes "\<And>c. dev (bs' ! c) = dev (bs ! c) \<and> blockno (bs' ! c) = blockno (bs ! c)"
  shows "found bs' xs a = found bs xs a"
proof -
  have "holds bs' d n = holds bs d n" for d n using assms by (intro ext) (simp add: holds_def)
  then show ?thesis using assms by (simp add: found_def)
qed

lemma bget_found:
  assumes l: "lru_list bs xs" and s: "set xs = {..<NBUF}" and f: "\<forall>a < NBUF. used (bs ! a) \<longrightarrow> found bs xs a"
    and g: "bget d n bs = Inr (b, bs')"
  shows "found bs' xs b" "\<forall>a < NBUF. used (bs' ! a) \<longrightarrow> found bs' xs a"
proof -
  note facts = bget_facts [OF l g]
  then have b: "b \<in> set xs" "holds bs' d n b" "\<And>c. c \<noteq> b \<Longrightarrow> bs' ! c = bs ! c" by blast+
  show fb: "found bs' xs b"
  proof (cases "List.find (holds bs d n) xs")
    case None
    then have none: "\<not> holds bs d n x" if "x \<in> set xs" for x using that by (auto simp: find_None_iff)
    have "holds bs' d n x = (x = b)" if "x \<in> set xs" for x
      using none [OF that] b(2) b(3) [of x] by (cases "x = b") (simp_all add: holds_def)
    then have "List.find (holds bs' d n) xs = List.find (\<lambda>x. x = b) xs" by (rule find_cong_mem)
    also have "\<dots> = Some b" using b(1) by (induction xs) auto
    finally show ?thesis using b(2) by (simp add: found_def holds_def)
  next
    case (Some c)
    then have "c = b" and h: "holds bs d n b" using g find_in(2) [OF Some] by (auto simp: bget_eq [OF l])
    have "holds bs' d n x = holds bs d n x" for x
      using h b(2) b(3) [of x] by (cases "x = b") (simp_all add: holds_def)
    then have "List.find (holds bs' d n) xs = List.find (holds bs d n) xs" by (rule find_cong_mem)
    with Some \<open>c = b\<close> b(2) show ?thesis by (simp add: found_def holds_def)
  qed
  show "\<forall>a < NBUF. used (bs' ! a) \<longrightarrow> found bs' xs a"
  proof (intro allI impI)
    fix a assume a: "a < NBUF" "used (bs' ! a)"
    show "found bs' xs a"
    proof (cases "a = b")
      case True
      with fb show ?thesis by simp
    next
      case False
      then have fa: "found bs xs a" and same: "bs' ! a = bs ! a" using a f b(3) by auto
      show ?thesis
      proof (cases "dev (bs ! a) = d \<and> blockno (bs ! a) = n")
        case True
        then have hit: "List.find (holds bs d n) xs = Some a" using fa by (simp add: found_def)
        then have "b = a" using g by (auto simp: bget_eq [OF l])
        with False show ?thesis by simp
      next
        case other: False
        have "holds bs (dev (bs ! a)) (blockno (bs ! a)) x" if "holds bs' (dev (bs ! a)) (blockno (bs ! a)) x" for x
          using that other b(2) b(3) [of x] by (cases "x = b") (auto simp: holds_def)
        moreover have "holds bs' (dev (bs ! a)) (blockno (bs ! a)) a" using same by (simp add: holds_def)
        ultimately have "List.find (holds bs' (dev (bs ! a)) (blockno (bs ! a))) xs = Some a"
          using find_shrink [OF fa [unfolded found_def]] by blast
        then show ?thesis by (simp add: found_def same)
      qed
    qed
  qed
qed

section \<open>Every step keeps it\<close>

lemma cache_inv_read:
  assumes dr: "driver_reads rw rd" and inv: "cache_inv rd xs (bs, disk)"
    and r: "bread rw d n (bs, disk) = Inr (b, bs', disk')"
  shows "cache_inv rd xs (bs', disk')"
proof -
  have l: "lru_list bs xs" "set xs = {..<NBUF}" "\<forall>a < NBUF. used (bs ! a) \<longrightarrow> found bs xs a" "fresh_cache rd bs disk"
    using inv by (simp_all add: cache_inv_def)
  note s = bread_spec [OF l(1) dr l(4) r]
  from r obtain bs1 where g: "bget d n bs = Inr (b, bs1)"
    by (auto simp: bread_def bindE_Inr_iff split: if_splits prod.splits)
  note f = bget_found [OF l(1-3) g]
  have len: "b < length bs1" using bget_facts [OF l(1) g] by (auto simp: lru_list_def)
  then have eq: "bs' = (if valid (bs1 ! b) = 0 then bs1[b := (bs1 ! b)\<lparr>data := rd disk (dev (bs1 ! b)) (blockno (bs1 ! b)), valid := 1\<rparr>] else bs1)"
    using r g dr by (auto simp: bread_def driver_reads_def)
  have lab: "dev (bs' ! c) = dev (bs1 ! c) \<and> blockno (bs' ! c) = blockno (bs1 ! c)" for c
    using len by (cases "c = b") (simp_all add: eq)
  have "\<forall>a < NBUF. used (bs' ! a) \<longrightarrow> found bs' xs a"
  proof (intro allI impI)
    fix a assume a: "a < NBUF" "used (bs' ! a)"
    have "a \<noteq> b \<Longrightarrow> bs' ! a = bs1 ! a" by (simp add: eq)
    with a f show "found bs' xs a" by (cases "a = b") (auto simp: found_labels [OF lab])
  qed
  with s l(2) show ?thesis by (simp add: cache_inv_def)
qed

lemma cache_inv_write:
  assumes dr: "driver_ok rw rd" and inv: "cache_inv rd xs (bs, disk)"
    and b: "b < NBUF" "refcnt (bs ! b) \<noteq> 0"
  shows "cache_inv rd xs (bwrite rw b (bs[b := (bs ! b)\<lparr>data := x\<rparr>], disk))"
proof -
  have l: "lru_list bs xs" "set xs = {..<NBUF}" "\<forall>a < NBUF. used (bs ! a) \<longrightarrow> found bs xs a" "fresh_cache rd bs disk"
    using inv by (simp_all add: cache_inv_def)
  have len: "b < length bs" using l(1) b(1) by (simp add: lru_list_def)
  define bs1 where "bs1 = bs[b := (bs ! b)\<lparr>data := x\<rparr>]"
  define disk' where "disk' = snd (rw (bs1 ! b) True disk)"
  have "fst (rw (bs1 ! b) True disk) = bs1 ! b" using dr by (simp add: driver_ok_def)
  then have w: "bwrite rw b (bs1, disk) = (bs1, disk')"
    by (simp add: bwrite_def disk'_def split: prod.splits) (metis list_update_id fst_conv snd_conv)
  have rd: "rd disk' d n = (if d = dev (bs ! b) \<and> n = blockno (bs ! b) then x else rd disk d n)" for d n
    using dr len by (simp add: driver_ok_def disk'_def bs1_def)
  have lab: "dev (bs1 ! c) = dev (bs ! c) \<and> blockno (bs1 ! c) = blockno (bs ! c) \<and> used (bs1 ! c) = used (bs ! c) \<and>
      nxt (bs1 ! c) = nxt (bs ! c) \<and> prev (bs1 ! c) = prev (bs ! c) \<and> valid (bs1 ! c) = valid (bs ! c) \<and>
      data (bs1 ! c) = (if c = b then x else data (bs ! c))" for c
    using len by (cases "c = b") (simp_all add: bs1_def used_def)
  have "lru_list bs1 xs"
    using l(1) linked_cong [of "head # xs @ [head]" bs1 bs] lab by (simp add: lru_list_def bs1_def)
  moreover have "\<forall>a < NBUF. used (bs1 ! a) \<longrightarrow> found bs1 xs a"
    using l(3) lab found_labels [of bs1 bs] by auto
  moreover have "fresh_cache rd bs1 disk'"
    unfolding fresh_cache_def
  proof (intro allI impI)
    fix a assume a: "a < NBUF" "valid (bs1 ! a) \<noteq> 0"
    show "data (bs1 ! a) = rd disk' (dev (bs1 ! a)) (blockno (bs1 ! a))"
    proof (cases "a = b")
      case True
      then show ?thesis using lab rd by simp
    next
      case False
      have "found bs xs a" "found bs xs b" using l(3) a b lab by (auto simp: used_def)
      then have "\<not> (dev (bs ! a) = dev (bs ! b) \<and> blockno (bs ! a) = blockno (bs ! b))"
        using found_unique False by blast
      then show ?thesis using l(4) a False lab rd by (auto simp: fresh_cache_def)
    qed
  qed
  ultimately show ?thesis using w l(2) by (simp add: cache_inv_def bs1_def)
qed

lemma cache_inv_release:
  assumes inv: "cache_inv rd xs (bs, disk)" and b: "b < NBUF" "refcnt (bs ! b) \<noteq> 0"
  shows "\<exists>ys. cache_inv rd ys (brelse b bs, disk)"
proof -
  have l: "lru_list bs xs" "set xs = {..<NBUF}" "\<forall>a < NBUF. used (bs ! a) \<longrightarrow> found bs xs a" "fresh_cache rd bs disk"
    using inv by (simp_all add: cache_inv_def)
  have mem: "b \<in> set xs" using b(1) l(2) by simp
  note s = brelse_spec [OF l(1) mem]
  define ys where "ys = (if refcnt (bs ! b) = 1 then to_front b xs else xs)"
  have fb: "found bs xs b" using l(3) b by (simp add: used_def)
  have "found (brelse b bs) ys a" if a: "a < NBUF" "used (brelse b bs ! a)" for a
  proof -
    have "used (bs ! a)" using a(2) b(2) s(5,7) by (cases "a = b") (auto simp: used_def)
    then have fa: "found bs xs a" using l(3) a(1) by simp
    have "found bs ys a"
    proof (cases "refcnt (bs ! b) = 1")
      case False
      with fa show ?thesis by (simp add: ys_def)
    next
      case True
      show ?thesis
      proof (cases "a = b")
        case True
        with \<open>refcnt (bs ! b) = 1\<close> show ?thesis by (simp add: ys_def to_front_def found_def holds_def)
      next
        case False
        then have "\<not> holds bs (dev (bs ! a)) (blockno (bs ! a)) b"
          using found_unique [OF fa fb] by (auto simp: holds_def)
        moreover have "List.find P (filter (\<lambda>x. x \<noteq> b) xs) = List.find P xs" if "\<not> P b" for P
          using that by (induction xs) auto
        ultimately show ?thesis using fa True by (simp add: ys_def to_front_def found_def)
      qed
    qed
    then show ?thesis using found_labels [of "brelse b bs" bs] s(3,4) by simp
  qed
  moreover have "set ys = {..<NBUF}" using l(2) mem by (auto simp: ys_def to_front_def)
  moreover have "fresh_cache rd (brelse b bs) disk" using l(4) s(3-6) by (simp add: fresh_cache_def)
  ultimately show ?thesis using s(1) unfolding cache_inv_def ys_def by (intro exI [of _ ys]) (simp add: ys_def)
qed

lemma payload_fold_push_front [simp]: "payload (fold push_front is bs ! c) = payload (bs ! c)"
  by (induction "is" arbitrary: bs) simp_all

lemma cache_inv_init: "cache_inv rd (rev [0..<NBUF]) (binit (replicate (Suc NBUF) zero_buf), disk)"
proof -
  let ?z = "replicate (Suc NBUF) zero_buf"
  have "payload (binit ?z ! a) = payload zero_buf" if "a < NBUF" for a
  proof -
    have "payload (binit ?z ! a) = payload (?z ! a)"
      unfolding binit_def Let_def by (simp only: payload_fold_push_front payload_links)
    then show ?thesis using that by (simp del: NBUF_def replicate.simps)
  qed
  then have z: "valid (binit ?z ! a) = 0 \<and> refcnt (binit ?z ! a) = 0" if "a < NBUF" for a
    using that by (simp add: payload_def zero_buf_def del: NBUF_def replicate.simps)
  have "lru_list (binit ?z) (rev [0..<NBUF])" by (rule binit_lru) (simp del: NBUF_def)
  moreover have "set (rev [0..<NBUF]) = {..<NBUF}" by auto
  ultimately show ?thesis using z
    unfolding cache_inv_def fst_conv snd_conv used_def fresh_cache_def by (metis (no_types, lifting))
qed

lemma reachable_inv:
  assumes "reachable rw disk0 s" "driver_ok rw rd"
  shows "\<exists>xs. cache_inv rd xs s"
  using assms
proof (induction rule: reachable.induct)
  case booted
  show ?case by (rule exI, rule cache_inv_init)
next
  case (steps s s')
  then obtain xs where inv: "cache_inv rd xs s" by blast
  from steps(2) show ?case
  proof (cases rule: cache_step.cases)
    case (reads d n bs disk b bs' disk')
    then have i: "cache_inv rd xs (bs, disk)" using inv by simp
    have "driver_reads rw rd" using steps.prems by (simp add: driver_ok_def)
    from cache_inv_read [OF this i reads(3)] show ?thesis unfolding reads(2) by (rule exI)
  next
    case (writes b bs disk x)
    then have i: "cache_inv rd xs (bs, disk)" using inv by simp
    from cache_inv_write [OF steps.prems i writes(3,4)] show ?thesis unfolding writes(2) by (rule exI)
  next
    case (releases b bs disk)
    then have i: "cache_inv rd xs (bs, disk)" using inv by simp
    from cache_inv_release [OF i releases(3,4)] show ?thesis unfolding releases(2) .
  qed
qed

text \<open>What a read answers in a state with the invariant.\<close>

lemma bread_inv:
  assumes dr: "driver_ok rw rd" and inv: "cache_inv rd xs (bs, disk)"
  shows "case bread rw d n (bs, disk) of
      Inl e \<Rightarrow> e = Panic ''bget: no buffers'' \<and> (\<forall>b < NBUF. refcnt (bs ! b) \<noteq> 0)
    | Inr (b, bs', disk') \<Rightarrow> b < NBUF \<and> holds bs' d n b \<and> data (bs' ! b) = rd disk d n \<and> disk' = disk \<and>
        refcnt (bs' ! b) = refcnt (bs ! b) + 1"
proof -
  have l: "lru_list bs xs" "set xs = {..<NBUF}" "fresh_cache rd bs disk" and dr': "driver_reads rw rd"
    using inv dr by (simp_all add: cache_inv_def driver_ok_def)
  show ?thesis
  proof (cases "bread rw d n (bs, disk)")
    case (Inl e)
    then have "bget d n bs = Inl e" by (auto simp: bread_def bindE_def split: sum.splits prod.splits if_splits)
    then have "e = Panic ''bget: no buffers'' \<and> List.find (\<lambda>b. refcnt (bs ! b) = 0) (rev xs) = None"
      by (auto simp: bget_eq [OF l(1)] split: option.splits)
    then show ?thesis using Inl l(2) by (auto simp: find_None_iff)
  next
    case (Inr r)
    obtain b bs' disk' where r: "r = (b, bs', disk')" by (cases r)
    from bread_spec [OF l(1) dr' l(3) Inr [unfolded r]] show ?thesis using Inr r l(2) by simp
  qed
qed

end
