(* ===== verification/Inode_Read.thy ===== *)
theory Inode_Read
  imports Cache_Steps
begin

text \<open>
  The inode layer over the block cache: \<open>bmap\<close>, \<open>readi\<close> and \<open>dirlookup\<close> give back every buffer they take, do
  not touch the disk, and reach an end whenever one buffer is free.
\<close>

section \<open>A client that takes and gives back\<close>

text \<open>One buffer is free and no reference count is at its end.\<close>

definition cache_room :: "bcache \<Rightarrow> bool" where
  "cache_room bs \<longleftrightarrow> (\<exists>b < NBUF. refcnt (bs ! b) = 0) \<and> (\<forall>b < NBUF. refcnt (bs ! b) + 1 \<noteq> 0)"

definition refs_kept :: "bcache \<Rightarrow> bcache \<Rightarrow> bool" where
  "refs_kept bs bs' \<longleftrightarrow> (\<forall>b < NBUF. refcnt (bs' ! b) = refcnt (bs ! b))"

lemma refs_kept_refl [simp]: "refs_kept bs bs"
  by (simp add: refs_kept_def)

lemma refs_kept_trans: "refs_kept bs bs1 \<Longrightarrow> refs_kept bs1 bs2 \<Longrightarrow> refs_kept bs bs2"
  by (simp add: refs_kept_def)

lemma cache_room_kept: "refs_kept bs bs' \<Longrightarrow> cache_room bs' = cache_room bs"
  by (auto simp: refs_kept_def cache_room_def)

lemma bread_others:
  assumes l: "lru_list bs xs" and r: "bread rw d n (bs, disk) = Inr (b, bs', disk')" and c: "c \<noteq> b"
  shows "bs' ! c = bs ! c"
proof -
  from r obtain bs1 where g: "bget d n bs = Inr (b, bs1)" and "\<exists>x. bs' = bs1 \<or> bs' = bs1[b := x]"
    by (auto simp: bread_def bindE_Inr_iff split: if_splits prod.splits)
  then have "bs' ! c = bs1 ! c" using c by auto
  also have "\<dots> = bs ! c" using bget_facts [OF l g] c by blast
  finally show ?thesis .
qed

text \<open>A read and the release of its buffer.\<close>

lemma bread_brelse:
  assumes dr: "driver_ok rw rd" and re: "reachable rw disk0 (bs, disk)" and room: "cache_room bs"
  obtains b bs' where "bread rw d n (bs, disk) = Inr (b, bs', disk)" "data (bs' ! b) = rd disk d n"
    "reachable rw disk0 (brelse b bs', disk)" "refs_kept bs (brelse b bs')" "cache_room (brelse b bs')"
proof -
  from reachable_inv [OF re dr] obtain xs where inv: "cache_inv rd xs (bs, disk)" by blast
  then have l: "lru_list bs xs" "set xs = {..<NBUF}" by (simp_all add: cache_inv_def)
  have dr': "driver_reads rw rd" using dr by (simp add: driver_ok_def)
  note s = bread_inv [OF dr inv, of d n]
  obtain q where "bread rw d n (bs, disk) = Inr q" using s room by (cases "bread rw d n (bs, disk)") (auto simp: cache_room_def)
  moreover obtain b bs' disk' where "q = (b, bs', disk')" by (cases q)
  ultimately have r: "bread rw d n (bs, disk) = Inr (b, bs', disk)" using s by simp
  then have b: "b < NBUF" "data (bs' ! b) = rd disk d n" "refcnt (bs' ! b) = refcnt (bs ! b) + 1" using s by simp_all
  have r1: "reachable rw disk0 (bs', disk)" using re cache_step.reads [OF r] by (rule reachable.steps)
  have "refcnt (bs' ! b) \<noteq> 0" using b(1,3) room by (simp add: cache_room_def)
  with b(1) have r2: "reachable rw disk0 (brelse b bs', disk)" using r1 by (blast intro: reachable.steps cache_step.releases)
  have "lru_list bs' xs" "b \<in> set xs" using cache_inv_read [OF dr' inv r] b(1) l(2) by (simp_all add: cache_inv_def)
  note rel = brelse_spec [OF this]
  have kept: "refs_kept bs (brelse b bs')"
    unfolding refs_kept_def
  proof (intro allI impI)
    fix c assume "c < NBUF"
    show "refcnt (brelse b bs' ! c) = refcnt (bs ! c)"
      using rel(2) rel(7) b(3) bread_others [OF l(1) r, of c] by (cases "c = b") simp_all
  qed
  with room have "cache_room (brelse b bs')" by (simp add: cache_room_kept)
  with r b(2) r2 kept show thesis by (rule that)
qed

section \<open>bmap\<close>

text \<open>The block map of an inode on a disk: twelve direct blocks, then the words of the indirect block.\<close>

definition block_of :: "(u32 \<Rightarrow> u32 \<Rightarrow> u8 list) \<Rightarrow> inode \<Rightarrow> nat \<Rightarrow> u32" where
  "block_of blocks ip q =
     (if q < 12 then i_addrs ip ! q
      else load32 (\<lambda>a. blocks (i_dev ip) (i_addrs ip ! 12) ! unat a) (of_nat (4 * (q - 12))))"

lemma bmap_spec:
  assumes dr: "driver_ok rw rd" and re: "reachable rw disk0 (bs, disk)" and room: "cache_room bs" and bn: "unat bn < 268"
  obtains bs' where "bmap rw ip bn (bs, disk) = Inr (block_of (rd disk) ip (unat bn), bs', disk)"
    "reachable rw disk0 (bs', disk)" "refs_kept bs bs'" "cache_room bs'"
proof (cases "unat bn < 12")
  case True
  then have "bmap rw ip bn (bs, disk) = Inr (block_of (rd disk) ip (unat bn), bs, disk)"
    by (simp add: bmap_def block_of_def word_less_nat_alt)
  from that [OF this re] room show thesis by simp
next
  case False
  then have u: "unat (bn - 12) = unat bn - 12" by (simp add: unat_sub word_le_nat_alt)
  then have g: "\<not> bn < 12" "bn - 12 < 256" using False bn by (simp_all add: word_less_nat_alt)
  have ix: "(4 * ucast (bn - 12) :: u64) = of_nat (4 * (unat bn - 12))" 
    by (simp only: u [symmetric] of_nat_mult of_nat_unat of_nat_numeral)
  obtain b bs' where b: "bread rw (i_dev ip) (i_addrs ip ! 12) (bs, disk) = Inr (b, bs', disk)"
    "data (bs' ! b) = rd disk (i_dev ip) (i_addrs ip ! 12)" "reachable rw disk0 (brelse b bs', disk)"
    "refs_kept bs (brelse b bs')" "cache_room (brelse b bs')"
    using bread_brelse [OF dr re room] .
  have "bmap rw ip bn (bs, disk) = Inr (block_of (rd disk) ip (unat bn), brelse b bs', disk)"
    using g b(1,2) False ix by (simp add: bmap_def Let_def block_of_def)
  from that [OF this b(3-5)] show thesis .
qed

lemma bmap_out_of_range: "268 \<le> unat bn \<Longrightarrow> bmap rw ip bn s = Inl (Panic ''bmap: out of range'')"
proof -
  assume a: "268 \<le> unat bn"
  then have "unat (bn - 12) = unat bn - 12" by (simp add: unat_sub word_le_nat_alt)
  with a have "\<not> bn < 12" "\<not> bn - 12 < 256" by (simp_all add: word_less_nat_alt)
  then show ?thesis by (simp add: bmap_def)
qed

section \<open>readi\<close>

definition max_file :: nat where [simp]: "max_file = 268 * 1024"

lemma chunk_advance:
  fixes m n tot off :: u32
  assumes m: "m \<le> n - tot" and le: "tot \<le> n" and fit: "unat off + unat (n - tot) \<le> max_file"
  shows "tot + m \<le> n" "unat (n - (tot + m)) = unat (n - tot) - unat m" "unat (off + m) = unat off + unat m"
proof -
  show "tot + m \<le> n" using le m by (rule advance_le)
  have "n - (tot + m) = n - tot - m" by (simp add: diff_diff_eq)
  then show "unat (n - (tot + m)) = unat (n - tot) - unat m" using m by (simp only: unat_sub)
  have "unat m \<le> unat (n - tot)" using m by (simp add: word_le_nat_alt)
  then have "unat off + unat m < 2 ^ 32" using fit by simp
  then show "unat (off + m) = unat off + unat m" by (simp add: unat_word_ariths)
qed

lemma readi_loop_runs:
  assumes dr: "driver_ok rw rd" and re: "reachable rw disk0 (bs, disk)" and room: "cache_room bs"
    and le: "tot \<le> n" and fit: "unat off + unat (n - tot) \<le> max_file"
  shows "\<exists>bs'. readi_loop rw ip tot off n (bs, disk) = Inr (n, bs', disk) \<and> reachable rw disk0 (bs', disk) \<and> refs_kept bs bs'"
  using re room le fit
proof (induction "unat (n - tot)" arbitrary: tot off bs rule: less_induct)
  case less
  show ?case
  proof (cases "tot < n")
    case False
    then have "tot = n" using less.prems(3) by simp
    then have "readi_loop rw ip tot off n (bs, disk) = Inr (n, bs, disk)" by (subst readi_loop.simps) simp
    with less.prems(1) show ?thesis by (intro exI [of _ bs] conjI refs_kept_refl)
  next
    case True
    then have pos: "n - tot \<noteq> 0" by auto
    define m where "m = read_chunk off (n - tot)"
    have m: "m \<noteq> 0" "m \<le> n - tot" using read_chunk_bounds [OF pos] by (simp_all add: m_def)
    note adv = chunk_advance [OF m(2) less.prems(3,4)]
    have "unat m > 0" "unat m \<le> unat (n - tot)" using m by (simp_all add: unat_gt_0 word_le_nat_alt)
    then have smaller: "unat (n - (tot + m)) < unat (n - tot)" and fit': "unat (off + m) + unat (n - (tot + m)) \<le> max_file"
      using less.prems(4) unfolding adv(2,3) by linarith+
    have "0 < unat (n - tot)" using pos by (simp add: unat_gt_0)
    then have "unat off < 268 * 1024" using less.prems(4) unfolding max_file_def by linarith
    then have bn: "unat (off div 1024) < 268" by (simp add: unat_div less_mult_imp_div_less)
    obtain bs1 where b1: "bmap rw ip (off div 1024) (bs, disk) = Inr (block_of (rd disk) ip (unat (off div 1024)), bs1, disk)"
      "reachable rw disk0 (bs1, disk)" "refs_kept bs bs1" "cache_room bs1"
      using bmap_spec [OF dr less.prems(1,2) bn] .
    obtain b bs2 where b2: "bread rw (i_dev ip) (block_of (rd disk) ip (unat (off div 1024))) (bs1, disk) = Inr (b, bs2, disk)"
      "reachable rw disk0 (brelse b bs2, disk)" "refs_kept bs1 (brelse b bs2)" "cache_room (brelse b bs2)"
      using bread_brelse [OF dr b1(2,4)] .
    from less.hyps [OF smaller b2(2,4) adv(1) fit'] obtain bs' where
      "readi_loop rw ip (tot + m) (off + m) n (brelse b bs2, disk) = Inr (n, bs', disk)" "reachable rw disk0 (bs', disk)"
      "refs_kept (brelse b bs2) bs'" by blast
    moreover have "readi_loop rw ip tot off n (bs, disk) = readi_loop rw ip (tot + m) (off + m) n (brelse b bs2, disk)"
      using True b1(1) b2(1) by (subst readi_loop.simps) (simp add: m_def Let_def)
    moreover have "refs_kept bs (brelse b bs2)" using b1(3) b2(3) by (rule refs_kept_trans)
    ultimately show ?thesis by (auto dest: refs_kept_trans)
  qed
qed

lemma readi_runs:
  assumes dr: "driver_ok rw rd" and re: "reachable rw disk0 (bs, disk)" and room: "cache_room bs"
    and size: "unat (i_size ip) \<le> max_file"
  shows "\<exists>r bs'. readi rw ip user_dst dst off n (bs, disk) = Inr (r, bs', disk) \<and> reachable rw disk0 (bs', disk) \<and>
    refs_kept bs bs' \<and> unat r = (if unat off + unat n < 2 ^ 32 then min (unat n) (unat (i_size ip) - unat off) else 0)"
proof (cases "off > i_size ip \<or> off + n < off")
  case True
  then have "readi rw ip user_dst dst off n (bs, disk) = Inr (0, bs, disk)" by (simp add: readi_def)
  with readi_count [OF this] re show ?thesis by auto
next
  case False
  define n' where "n' = (if off + n > i_size ip then i_size ip - off else n)"
  have o: "off \<le> i_size ip" "off \<le> off + n" using False by (simp_all add: not_less)
  have "unat off + unat n' \<le> unat (i_size ip)"
  proof (cases "off + n > i_size ip")
    case True
    then show ?thesis using o(1) by (simp add: n'_def unat_sub word_le_nat_alt)
  next
    case False
    have "unat (off + n) = unat off + unat n" using o(2) by (simp add: unat_plus_simple)
    then show ?thesis using False by (simp add: n'_def word_less_nat_alt)
  qed
  then have "unat off + unat (n' - 0) \<le> max_file" using size by simp
  from readi_loop_runs [OF dr re room word_zero_le this] obtain bs' where
    l: "readi_loop rw ip 0 off n' (bs, disk) = Inr (n', bs', disk)" "reachable rw disk0 (bs', disk)" "refs_kept bs bs'" by blast
  then have "readi rw ip user_dst dst off n (bs, disk) = Inr (n', bs', disk)" using False by (simp add: readi_def n'_def)
  with readi_count [OF this] l show ?thesis by blast
qed

section \<open>dirlookup\<close>

text \<open>
  Records of 16 bytes: a directory of whole records is read to its end, any other one ends in the panic at
  the record cut short.
\<close>

lemma dirlookup_runs:
  assumes dr: "driver_ok rw rd" and re: "reachable rw disk0 (bs, disk)" and room: "cache_room bs"
    and size: "unat (i_size dp) \<le> max_file" and al: "16 dvd unat off" and off: "unat off \<le> max_file"
  shows "if 16 dvd unat (i_size dp) \<or> i_size dp < off
    then \<exists>bs'. dirlookup rw dp de off (bs, disk) = Inr (None, bs', disk) \<and> reachable rw disk0 (bs', disk) \<and> refs_kept bs bs'
    else dirlookup rw dp de off (bs, disk) = Inl (Panic ''dirlookup: read error'')"
  using re room al off
proof (induction "unat (i_size dp) - unat off" arbitrary: off bs rule: less_induct)
  case less
  show ?case
  proof (cases "off < i_size dp")
    case False
    then have "dirlookup rw dp de off (bs, disk) = Inr (None, bs, disk)" by (subst dirlookup.simps) simp
    moreover have "16 dvd unat (i_size dp) \<or> i_size dp < off"
      using False less.prems(3) by (cases "off = i_size dp") (auto simp: word_less_nat_alt)
    ultimately show ?thesis using less.prems by (auto intro!: exI [of _ bs])
  next
    case True
    then have lt: "unat off < unat (i_size dp)" by (simp add: word_less_nat_alt)
    have sum: "unat off + unat (16 :: u32) < 2 ^ 32" using less.prems(4) by simp
    from readi_runs [OF dr less.prems(1,2) size, of False de off 16] sum obtain r bs1 where
      r: "readi rw dp False de off 16 (bs, disk) = Inr (r, bs1, disk)" "reachable rw disk0 (bs1, disk)" "refs_kept bs bs1"
        "unat r = min 16 (unat (i_size dp) - unat off)" by auto
    show ?thesis
    proof (cases "unat off + 16 \<le> unat (i_size dp)")
      case True
      then have "unat r = unat (16 :: u32)" using r(4) by simp
      then have "r = 16" by (rule word_eq_unatI)
      then have eq: "dirlookup rw dp de off (bs, disk) = dirlookup rw dp de (off + 16) (bs1, disk)"
        using \<open>off < i_size dp\<close> r(1) by (subst dirlookup.simps) simp
      have next16: "unat (off + 16) = unat off + 16" using sum by (simp add: unat_word_ariths)
      have room1: "cache_room bs1" using less.prems(2) cache_room_kept [OF r(3)] by simp
      have nx: "unat (i_size dp) - unat (off + 16) < unat (i_size dp) - unat off" "16 dvd unat (off + 16)"
        "unat (off + 16) \<le> max_file" using next16 True size less.prems(3) by auto
      have no: "\<not> i_size dp < off + 16" "\<not> i_size dp < off" using next16 True lt by (simp_all add: word_less_nat_alt)
      note ih = less.hyps [OF nx(1) r(2) room1 nx(2,3)]
      show ?thesis
        using ih refs_kept_trans [OF r(3)] unfolding eq by (cases "16 dvd unat (i_size dp)") (simp_all only: no if_True if_False simp_thms, blast)
    next
      case False
      then have "unat r \<noteq> unat (16 :: u32)" using r(4) by simp
      then have "r \<noteq> 16" by auto
      then have "dirlookup rw dp de off (bs, disk) = Inl (Panic ''dirlookup: read error'')"
        using \<open>off < i_size dp\<close> r(1) by (subst dirlookup.simps) simp
      moreover have "\<not> 16 dvd unat (i_size dp)"
      proof
        assume "16 dvd unat (i_size dp)"
        with less.prems(3) obtain a b where "unat off = 16 * a" "unat (i_size dp) = 16 * b" by (auto elim!: dvdE)
        with lt False show False by simp
      qed
      moreover have "\<not> i_size dp < off" using lt by (simp add: word_less_nat_alt)
      ultimately show ?thesis by simp
    qed
  qed
qed

end
