(* ===== verification/Storage_Props.thy ===== *)
theory Storage_Props
  imports Inode_Read
begin

text \<open>
  The properties of the block cache and of the inode layer, with instances on a disk that is a function
  from device and block number to bytes.
\<close>

section \<open>A disk\<close>

definition ex_disk :: "u32 \<Rightarrow> u32 \<Rightarrow> u8 list" where
  "ex_disk d n = replicate 1024 (ucast d + ucast n)"

definition ex_rw :: "(u32 \<Rightarrow> u32 \<Rightarrow> u8 list) driver" where
  "ex_rw b write disk =
     (if write then (b, disk(dev b := (disk (dev b))(blockno b := data b)))
      else (b\<lparr>data := disk (dev b) (blockno b)\<rparr>, disk))"

lemma ex_driver_ok: "driver_ok ex_rw (\<lambda>disk. disk)"
  by (simp add: driver_ok_def driver_reads_def ex_rw_def)

abbreviation ex_cache :: bcache where "ex_cache \<equiv> binit (replicate (Suc NBUF) zero_buf)"

lemma ex_reachable: "reachable ex_rw ex_disk (ex_cache, ex_disk)"
  by (rule reachable.booted)

section \<open>The block cache\<close>

text \<open>
  C8: in every state that reads, writes of held buffers and releases can reach from the start, the
  thirty buffers form one circular list, no block is in use in two buffers, and a valid buffer holds
  what its block on the disk holds.
\<close>

theorem cache_stays_coherent:
  assumes "driver_ok rw rd" "reachable rw disk0 (bs, disk)"
  shows "\<exists>xs. lru_list bs xs \<and> set xs = {..<NBUF} \<and>
    (\<forall>a < NBUF. \<forall>b < NBUF. used (bs ! a) \<and> used (bs ! b) \<and> dev (bs ! a) = dev (bs ! b) \<and>
      blockno (bs ! a) = blockno (bs ! b) \<longrightarrow> a = b) \<and>
    (\<forall>b < NBUF. valid (bs ! b) \<noteq> 0 \<longrightarrow> data (bs ! b) = rd disk (dev (bs ! b)) (blockno (bs ! b)))"
proof -
  from reachable_inv [OF assms(2,1)] obtain xs where inv: "cache_inv rd xs (bs, disk)" by blast
  then show ?thesis
    using found_unique [of bs xs] by (intro exI [of _ xs]) (simp add: cache_inv_def fresh_cache_def del: NBUF_def)
qed

theorem cache_stays_coherent_ex:
  "\<exists>xs. lru_list ex_cache xs \<and> set xs = {..<NBUF} \<and>
    (\<forall>a < NBUF. \<forall>b < NBUF. used (ex_cache ! a) \<and> used (ex_cache ! b) \<and> dev (ex_cache ! a) = dev (ex_cache ! b) \<and>
      blockno (ex_cache ! a) = blockno (ex_cache ! b) \<longrightarrow> a = b) \<and>
    (\<forall>b < NBUF. valid (ex_cache ! b) \<noteq> 0 \<longrightarrow> data (ex_cache ! b) = ex_disk (dev (ex_cache ! b)) (blockno (ex_cache ! b)))"
  by (rule cache_stays_coherent [OF ex_driver_ok ex_reachable])

text \<open>
  C15: in a reachable state \<open>bread\<close> returns a buffer that holds the block as the disk has it now, so the
  last write to it, takes one more reference and leaves the disk alone. It panics only when every
  buffer is referenced.
\<close>

theorem bread_returns_the_block:
  assumes "driver_ok rw rd" "reachable rw disk0 (bs, disk)"
  shows "case bread rw d n (bs, disk) of
      Inl e \<Rightarrow> e = Panic ''bget: no buffers'' \<and> (\<forall>b < NBUF. refcnt (bs ! b) \<noteq> 0)
    | Inr (b, bs', disk') \<Rightarrow> b < NBUF \<and> holds bs' d n b \<and> data (bs' ! b) = rd disk d n \<and> disk' = disk \<and>
        refcnt (bs' ! b) = refcnt (bs ! b) + 1"
proof -
  from reachable_inv [OF assms(2,1)] obtain xs where "cache_inv rd xs (bs, disk)" by blast
  from bread_inv [OF assms(1) this] show ?thesis .
qed

theorem bread_returns_the_block_ex:
  "case bread ex_rw 1 7 (ex_cache, ex_disk) of
      Inl e \<Rightarrow> e = Panic ''bget: no buffers'' \<and> (\<forall>b < NBUF. refcnt (ex_cache ! b) \<noteq> 0)
    | Inr (b, bs', disk') \<Rightarrow> b < NBUF \<and> holds bs' 1 7 b \<and> data (bs' ! b) = ex_disk 1 7 \<and> disk' = ex_disk \<and>
        refcnt (bs' ! b) = refcnt (ex_cache ! b) + 1"
  by (rule bread_returns_the_block [OF ex_driver_ok ex_reachable])

text \<open>
  C30: the links implement a list in order of release. \<open>bget\<close> takes the first buffer that has the block;
  without one it takes over the last buffer nobody references, the one released longest ago; the
  order stays. \<open>brelse\<close> of the last reference moves the buffer to the front.
\<close>

theorem cache_is_lru:
  assumes "lru_list bs xs"
  shows "bget d n bs =
      (case List.find (holds bs d n) xs of
         Some b \<Rightarrow> Inr (b, bs[b := (bs ! b)\<lparr>refcnt := refcnt (bs ! b) + 1\<rparr>])
       | None \<Rightarrow>
         case List.find (\<lambda>b. refcnt (bs ! b) = 0) (rev xs) of
           Some b \<Rightarrow> Inr (b, bs[b := (bs ! b)\<lparr>dev := d, blockno := n, valid := 0, refcnt := 1\<rparr>])
         | None \<Rightarrow> Inl (Panic ''bget: no buffers'')) \<and>
    (\<forall>b bs'. bget d n bs = Inr (b, bs') \<longrightarrow> lru_list bs' xs) \<and>
    (\<forall>b \<in> set xs. lru_list (brelse b bs) (if refcnt (bs ! b) = 1 then b # filter (\<lambda>x. x \<noteq> b) xs else xs))"
  using bget_eq [OF assms] bget_facts [OF assms] brelse_spec(1) [OF assms] unfolding to_front_def by blast

theorem cache_is_lru_ex:
  "\<exists>xs. lru_list ex_cache xs \<and> bget 1 7 ex_cache =
      (case List.find (holds ex_cache 1 7) xs of
         Some b \<Rightarrow> Inr (b, ex_cache[b := (ex_cache ! b)\<lparr>refcnt := refcnt (ex_cache ! b) + 1\<rparr>])
       | None \<Rightarrow>
         case List.find (\<lambda>b. refcnt (ex_cache ! b) = 0) (rev xs) of
           Some b \<Rightarrow> Inr (b, ex_cache[b := (ex_cache ! b)\<lparr>dev := 1, blockno := 7, valid := 0, refcnt := 1\<rparr>])
         | None \<Rightarrow> Inl (Panic ''bget: no buffers'')) \<and>
    (\<forall>b bs'. bget 1 7 ex_cache = Inr (b, bs') \<longrightarrow> lru_list bs' xs) \<and>
    (\<forall>b \<in> set xs. lru_list (brelse b ex_cache) (if refcnt (ex_cache ! b) = 1 then b # filter (\<lambda>x. x \<noteq> b) xs else xs))"
proof -
  have "lru_list ex_cache (rev [0..<NBUF])" by (rule binit_lru) (simp del: NBUF_def)
  from conjI [OF this cache_is_lru [OF this, of 1 7]] show ?thesis by (rule exI)
qed

section \<open>Inodes\<close>

text \<open>
  \<open>readi\<close> never counts past the end of the file: what it returns is the request cut at the size of
  the inode, and 0 for an offset behind the end or a request whose end wraps around \<open>2 ^ 32\<close>.
\<close>

theorem readi_stops_at_the_end:
  "case readi rw ip user_dst dst off n s of Inl _ \<Rightarrow> True
   | Inr (r, _) \<Rightarrow>
       unat r = (if unat off + unat n < 2 ^ 32 then min (unat n) (unat (i_size ip) - unat off) else 0)"
proof (cases "readi rw ip user_dst dst off n s")
  case (Inr q)
  then show ?thesis using readi_count [of rw ip user_dst dst off n s "fst q" "snd q"] by (simp add: case_prod_beta)
qed simp

text \<open>
  \<open>dirlookup\<close> finds no name. It reads record after record, and since it does not compare names it
  ends at the end of the directory with null, or panics on the way.
\<close>

theorem dirlookup_finds_nothing:
  "case dirlookup rw dp de off s of Inl _ \<Rightarrow> True | Inr (r, _) \<Rightarrow> r = None"
proof (cases "dirlookup rw dp de off s")
  case (Inr q)
  then show ?thesis using dirlookup_none [of rw dp de off s "fst q" "snd q"] by (simp add: case_prod_beta)
qed simp

section \<open>The inode layer on the cache\<close>

text \<open>
  C17: \<open>bmap\<close> follows the block map of the inode. The first twelve blocks are those of the inode, the next 256
  the words of the indirect block as the disk has it now, and behind them is a panic; the buffer of the
  indirect block is given back and the disk is not touched. A block that is not allocated has the number 0 here: the
  branches in which the comment of \<open>bmap\<close> promises \<open>balloc\<close> are empty in the code, so 0 is the answer (for an
  indirect block that is not allocated, the words of block 0 are).
\<close>

theorem bmap_follows_the_block_map:
  assumes "driver_ok rw rd" "reachable rw disk0 (bs, disk)" "cache_room bs"
  shows "if unat bn < 268
    then \<exists>bs'. bmap rw ip bn (bs, disk) = Inr (block_of (rd disk) ip (unat bn), bs', disk) \<and>
      reachable rw disk0 (bs', disk) \<and> refs_kept bs bs'
    else bmap rw ip bn (bs, disk) = Inl (Panic ''bmap: out of range'')"
proof (cases "unat bn < 268")
  case True
  with bmap_spec [OF assms True] show ?thesis by auto
next
  case False
  then show ?thesis by (simp add: bmap_out_of_range)
qed

text \<open>An inode of three blocks, and the cache after \<open>binit\<close>.\<close>

definition ex_inode :: "u32 \<Rightarrow> inode" where
  "ex_inode n = \<lparr>i_dev = 1, i_inum = 2, i_ref = 1, i_valid = 1, i_type = 2, i_major = 0, i_minor = 0, i_nlink = 1,
    i_size = n, i_addrs = [5, 6, 7, 8, 9, 10, 11, 12, 13, 14, 15, 16, 17]\<rparr>"

lemma ex_room: "cache_room ex_cache"
proof -
  have "refcnt (ex_cache ! a) = 0" if "a < NBUF" for a
  proof -
    have "payload (ex_cache ! a) = payload (replicate (Suc NBUF) zero_buf ! a)"
      unfolding binit_def Let_def by (simp only: payload_fold_push_front payload_links)
    also have "\<dots> = payload zero_buf" using that by (simp del: NBUF_def replicate.simps)
    finally show ?thesis by (simp add: payload_def zero_buf_def)
  qed
  then show ?thesis unfolding cache_room_def by (intro conjI exI [of _ 0] allI impI) simp_all
qed

theorem bmap_follows_the_block_map_ex:
  "if unat (13 :: u32) < 268
    then \<exists>bs'. bmap ex_rw (ex_inode 48) 13 (ex_cache, ex_disk) =
        Inr (block_of ex_disk (ex_inode 48) (unat (13 :: u32)), bs', ex_disk) \<and>
      reachable ex_rw ex_disk (bs', ex_disk) \<and> refs_kept ex_cache bs'
    else bmap ex_rw (ex_inode 48) 13 (ex_cache, ex_disk) = Inl (Panic ''bmap: out of range'')"
  by (rule bmap_follows_the_block_map [OF ex_driver_ok ex_reachable ex_room])

text \<open>
  C16: \<open>readi\<close> of a file within the reach of the block map ends without a panic whenever one buffer is free. It
  answers with the request cut at the end of the file, every buffer it took is given back, and the disk is not touched.
\<close>

theorem readi_gives_back_its_buffers:
  assumes "driver_ok rw rd" "reachable rw disk0 (bs, disk)" "cache_room bs" "unat (i_size ip) \<le> 268 * 1024"
  shows "\<exists>r bs'. readi rw ip user_dst dst off n (bs, disk) = Inr (r, bs', disk) \<and>
    unat r = (if unat off + unat n < 2 ^ 32 then min (unat n) (unat (i_size ip) - unat off) else 0) \<and>
    reachable rw disk0 (bs', disk) \<and> refs_kept bs bs'"
  using readi_runs [OF assms(1-3)] assms(4) unfolding max_file_def by blast

theorem readi_gives_back_its_buffers_ex:
  "\<exists>r bs'. readi ex_rw (ex_inode 2500) False 0 1000 3000 (ex_cache, ex_disk) = Inr (r, bs', ex_disk) \<and>
    unat r = (if unat (1000 :: u32) + unat (3000 :: u32) < 2 ^ 32
      then min (unat (3000 :: u32)) (unat (i_size (ex_inode 2500)) - unat (1000 :: u32)) else 0) \<and>
    reachable ex_rw ex_disk (bs', ex_disk) \<and> refs_kept ex_cache bs'"
  by (rule readi_gives_back_its_buffers [OF ex_driver_ok ex_reachable ex_room]) (simp add: ex_inode_def)

text \<open>
  C40: \<open>dirlookup\<close> on a directory of whole records reads it to its end and answers null whatever the name, with
  every buffer given back; a directory whose size is no multiple of 16 ends in the panic.
\<close>

theorem dirlookup_reads_to_the_end:
  assumes "driver_ok rw rd" "reachable rw disk0 (bs, disk)" "cache_room bs" "unat (i_size dp) \<le> 268 * 1024"
  shows "if 16 dvd unat (i_size dp)
    then \<exists>bs'. dirlookup rw dp de 0 (bs, disk) = Inr (None, bs', disk) \<and> reachable rw disk0 (bs', disk) \<and> refs_kept bs bs'
    else dirlookup rw dp de 0 (bs, disk) = Inl (Panic ''dirlookup: read error'')"
  using dirlookup_runs [OF assms(1-3), of dp 0 de] assms(4) unfolding max_file_def by simp

theorem dirlookup_reads_to_the_end_ex:
  "if 16 dvd unat (i_size (ex_inode 40))
    then \<exists>bs'. dirlookup ex_rw (ex_inode 40) 0 0 (ex_cache, ex_disk) = Inr (None, bs', ex_disk) \<and>
      reachable ex_rw ex_disk (bs', ex_disk) \<and> refs_kept ex_cache bs'
    else dirlookup ex_rw (ex_inode 40) 0 0 (ex_cache, ex_disk) = Inl (Panic ''dirlookup: read error'')"
  by (rule dirlookup_reads_to_the_end [OF ex_driver_ok ex_reachable ex_room]) (simp add: ex_inode_def)

end
