(* ===== verification/Process_Table.thy ===== *)
theory Process_Table
  imports Process
begin

text \<open>
  The process table at rest and under a lock: what \<open>acquire\<close> and \<open>release\<close> of a slot do, the turns of
  the scheduler, and the scan of \<open>kwait\<close>.
\<close>

section \<open>Locks of the table\<close>

text \<open>At rest: every lock of the table is free and the interrupt nesting is sound.\<close>

definition at_rest :: "kernel \<Rightarrow> bool" where
  "at_rest k \<longleftrightarrow> length (procs k) = NPROC \<and> hart_ok (hart k) \<and> (\<forall>i < NPROC. idle (plock (procs k ! i)))"

text \<open>Slot \<open>i\<close> locked, the other slots not.\<close>

definition locked_slot :: "nat \<Rightarrow> kernel \<Rightarrow> bool" where
  "locked_slot i k \<longleftrightarrow> length (procs k) = NPROC \<and> i < NPROC \<and> hart_ok (hart k) \<and> 0 < noff (hart k) \<and>
     holding (plock (procs k ! i)) (hart k) \<and> (\<forall>j < NPROC. j \<noteq> i \<longrightarrow> idle (plock (procs k ! j)))"

definition lock_slot :: "nat \<Rightarrow> kernel \<Rightarrow> kernel" where
  "lock_slot i k = k\<lparr>procs := (procs k)[i := (procs k ! i)\<lparr>plock := held (plock (procs k ! i)) (hart k)\<rparr>], hart := push_off (hart k)\<rparr>"

lemma plock_acquire: "at_rest k \<Longrightarrow> i < NPROC \<Longrightarrow> on_plock acquire i k = Inr (lock_slot i k)"
  by (simp add: on_plock_def at_rest_def acquire_idle lock_slot_def)

lemma lock_slot_locked: "at_rest k \<Longrightarrow> i < NPROC \<Longrightarrow> locked_slot i (lock_slot i k)"
  by (auto simp: at_rest_def locked_slot_def lock_slot_def push_off_ok nth_list_update) (simp add: hart_ok_def)

lemma lock_slot_fields [simp]:
  assumes "at_rest k" "i < NPROC"
  shows "status (procs (lock_slot i k) ! j) = status (procs k ! j)" "parent (procs (lock_slot i k) ! j) = parent (procs k ! j)"
    "pid (procs (lock_slot i k) ! j) = pid (procs k ! j)" "j \<noteq> i \<Longrightarrow> procs (lock_slot i k) ! j = procs k ! j"
    "cpu_proc (hart (lock_slot i k)) = cpu_proc (hart k)" "mem (lock_slot i k) = mem k"
    "noff (hart (lock_slot i k)) = noff (hart k) + 1" "length (procs (lock_slot i k)) = length (procs k)"
  using assms by (simp_all add: lock_slot_def at_rest_def nth_list_update)

lemma plock_release:
  assumes "locked_slot i k"
  shows "\<exists>h. on_plock release i k = Inr (k\<lparr>procs := (procs k)[i := (procs k ! i)\<lparr>plock := (plock (procs k ! i))\<lparr>lk_cpu := None, locked := 0\<rparr>\<rparr>], hart := h\<rparr>) \<and>
    hart_ok h \<and> noff h = noff (hart k) - 1 \<and> cpu_proc h = cpu_proc (hart k) \<and> tp h = tp (hart k)"
proof -
  from pop_off_ok [of "hart k"] assms obtain h where
    "pop_off (hart k) = Inr h" "hart_ok h" "noff h = noff (hart k) - 1" "tp h = tp (hart k)" "cpu_proc h = cpu_proc (hart k)"
    by (auto simp: locked_slot_def)
  moreover have "holding (plock (procs k ! i)) (hart k)" using assms by (simp add: locked_slot_def)
  ultimately show ?thesis by (intro exI [of _ h]) (simp add: on_plock_def release_def)
qed

text \<open>The fields of a slot other than its lock.\<close>

definition same_slot :: "proc \<Rightarrow> proc \<Rightarrow> bool" where
  "same_slot p q \<longleftrightarrow> p\<lparr>plock := plock q\<rparr> = q"

lemma same_slot_refl [simp]: "same_slot p p"
  by (simp add: same_slot_def)

lemma same_slot_fields: "same_slot p q \<Longrightarrow>
    status p = status q \<and> parent p = parent q \<and> pid p = pid q \<and> pagetable p = pagetable q \<and> trapframe p = trapframe q"
  unfolding same_slot_def by (metis proc.select_convs proc.update_convs(1) proc.surjective)

lemma release_at_rest:
  assumes "locked_slot i k" "on_plock release i k = Inr k'"
  shows "at_rest k'" "\<And>j. j < NPROC \<Longrightarrow> same_slot (procs k ! j) (procs k' ! j)" "\<And>j. j \<noteq> i \<Longrightarrow> procs k' ! j = procs k ! j"
    "cpu_proc (hart k') = cpu_proc (hart k)" "noff (hart k') = noff (hart k) - 1" "k' = k\<lparr>procs := procs k', hart := hart k'\<rparr>"
proof -
  from plock_release [OF assms(1)] assms(2) obtain h where
    k': "k' = k\<lparr>procs := (procs k)[i := (procs k ! i)\<lparr>plock := (plock (procs k ! i))\<lparr>lk_cpu := None, locked := 0\<rparr>\<rparr>], hart := h\<rparr>"
      "hart_ok h" "noff h = noff (hart k) - 1" "cpu_proc h = cpu_proc (hart k)" by auto
  have l: "length (procs k) = NPROC" "i < NPROC" "\<forall>j < NPROC. j \<noteq> i \<longrightarrow> idle (plock (procs k ! j))"
    using assms(1) by (simp_all add: locked_slot_def)
  show "at_rest k'" using l k' by (simp add: at_rest_def nth_list_update idle_def)
  show "j < NPROC \<Longrightarrow> same_slot (procs k ! j) (procs k' ! j)" for j
    using l k'(1) by (simp add: nth_list_update same_slot_def)
  show "j \<noteq> i \<Longrightarrow> procs k' ! j = procs k ! j" for j using k'(1) by simp
  show "cpu_proc (hart k') = cpu_proc (hart k)" "noff (hart k') = noff (hart k) - 1" "k' = k\<lparr>procs := procs k', hart := hart k'\<rparr>"
    using k' by simp_all
qed

section \<open>The scheduler\<close>

text \<open>Between two turns: nothing runs, no lock is held, interrupts are not nested.\<close>

definition quiet :: "kernel \<Rightarrow> bool" where
  "quiet k \<longleftrightarrow> at_rest k \<and> noff (hart k) = 0 \<and> cpu_proc (hart k) = None \<and>
     (\<forall>i < NPROC. status (procs k ! i) \<noteq> TASK_RUNNING)"

text \<open>The state in which the scheduler switches to process \<open>i\<close>: \<open>i\<close> and nothing else runs.\<close>

definition dispatched :: "nat \<Rightarrow> kernel \<Rightarrow> bool" where
  "dispatched i k \<longleftrightarrow> locked_slot i k \<and> noff (hart k) = 1 \<and> cpu_proc (hart k) = Some i \<and>
     (\<forall>j < NPROC. status (procs k ! j) = TASK_RUNNING \<longleftrightarrow> j = i)"

text \<open>
  What the scheduler relies on when the processes hand the processor back: the slot is locked again, one
  level of interrupts is off and nothing runs. \<open>yield\<close> and \<open>sys_exit\<close> call \<open>swtch\<close> in such states.
\<close>

definition handed_back :: "nat \<Rightarrow> kernel \<Rightarrow> bool" where
  "handed_back i k \<longleftrightarrow> locked_slot i k \<and> noff (hart k) = 1 \<and> (\<forall>j < NPROC. status (procs k ! j) \<noteq> TASK_RUNNING)"

definition processes_return :: "world \<Rightarrow> bool" where
  "processes_return W \<longleftrightarrow> (\<forall>i k. dispatched i k \<longrightarrow> (\<exists>k'. swtch W k = Inr k' \<and> handed_back i k'))"

definition dispatch :: "nat \<Rightarrow> kernel \<Rightarrow> kernel" where
  "dispatch i k = on_hart (\<lambda>h. h\<lparr>cpu_proc := Some i\<rparr>) (set_proc i (\<lambda>p. p\<lparr>status := TASK_RUNNING\<rparr>) (lock_slot i k))"

lemma locked_slot_cong:
  assumes "locked_slot i k" "length (procs k') = length (procs k)" "hart_ok (hart k')" "noff (hart k') = noff (hart k)"
    "tp (hart k') = tp (hart k)" "\<And>j. j < NPROC \<Longrightarrow> plock (procs k' ! j) = plock (procs k ! j)"
  shows "locked_slot i k'"
  using assms by (simp add: locked_slot_def holding_def mycpu_def)

lemma dispatch_dispatched:
  assumes "quiet k" "i < NPROC"
  shows "dispatched i (dispatch i k)"
proof -
  have r: "at_rest k" "length (procs k) = NPROC" using assms(1) by (simp_all add: quiet_def at_rest_def)
  note l = lock_slot_locked [OF r(1) assms(2)]
  have "hart_ok (hart (lock_slot i k))" using l by (simp add: locked_slot_def)
  then have "locked_slot i (dispatch i k)"
    using r assms(2) by (intro locked_slot_cong [OF l])
      (auto simp: dispatch_def set_proc_def on_hart_def nth_list_update hart_ok_def)
  moreover have "status (procs (dispatch i k) ! j) = TASK_RUNNING \<longleftrightarrow> j = i" if "j < NPROC" for j
    using assms r that by (simp add: dispatch_def set_proc_def on_hart_def nth_list_update quiet_def)
  ultimately show ?thesis
    using assms r by (simp add: dispatched_def dispatch_def set_proc_def on_hart_def quiet_def)
qed

lemma turn_waiting:
  assumes "quiet k" "i < NPROC" "status (procs k ! i) \<noteq> TASK_READY"
  shows "\<exists>k'. scheduler_turn W i k = Inr k' \<and> quiet k' \<and> (\<forall>j < NPROC. same_slot (procs k ! j) (procs k' ! j))"
proof -
  have r: "at_rest k" using assms(1) by (simp add: quiet_def)
  note l = lock_slot_locked [OF r assms(2)]
  from plock_release [OF l] obtain k' where rel: "on_plock release i (lock_slot i k) = Inr k'" by blast
  note k' = release_at_rest [OF l rel]
  have "same_slot (procs k ! j) (procs (lock_slot i k) ! j)" if "j < NPROC" for j
    using r that assms(2) by (simp add: lock_slot_def same_slot_def nth_list_update at_rest_def)
  then have same: "same_slot (procs k ! j) (procs k' ! j)" if "j < NPROC" for j
    using k'(2) [OF that] that unfolding same_slot_def by (metis proc.surjective proc.update_convs(1))
  have "status (procs k' ! j) = status (procs k ! j)" if "j < NPROC" for j
    using same_slot_fields [OF same [OF that]] by simp
  then have "quiet k'"
    using k'(1,4,5) assms(1) lock_slot_fields [OF r assms(2)] by (simp add: quiet_def)
  then show ?thesis using rel same assms(3) r assms(2) by (simp add: scheduler_turn_def plock_acquire)
qed

lemma turn_ready:
  assumes "quiet k" "i < NPROC" "status (procs k ! i) = TASK_READY" "processes_return W"
  shows "\<exists>k1 k'. swtch W (dispatch i k) = Inr k1 \<and> handed_back i k1 \<and> scheduler_turn W i k = Inr k' \<and> quiet k' \<and>
    (\<forall>j < NPROC. same_slot (procs k1 ! j) (procs k' ! j))"
proof -
  have r: "at_rest k" using assms(1) by (simp add: quiet_def)
  from assms(4) dispatch_dispatched [OF assms(1,2)] obtain k1 where
    k1: "swtch W (dispatch i k) = Inr k1" "handed_back i k1" unfolding processes_return_def by blast
  define k2 where "k2 = on_hart (\<lambda>h. h\<lparr>cpu_proc := None\<rparr>) k1"
  have l1: "locked_slot i k1" "noff (hart k1) = 1" using k1(2) by (simp_all add: handed_back_def)
  then have "hart_ok (hart k1)" by (simp add: locked_slot_def)
  then have l2: "locked_slot i k2"
    by (intro locked_slot_cong [OF l1(1)]) (simp_all add: k2_def on_hart_def hart_ok_def)
  from plock_release [OF this] obtain k' where rel: "on_plock release i k2 = Inr k'" by blast
  note k' = release_at_rest [OF l2 rel]
  have same: "same_slot (procs k1 ! j) (procs k' ! j)" if "j < NPROC" for j
    using k'(2) [OF that] by (simp add: k2_def on_hart_def)
  have "quiet k'"
    unfolding quiet_def
  proof (intro conjI allI impI)
    show "at_rest k'" by (rule k'(1))
    show "noff (hart k') = 0" "cpu_proc (hart k') = None" using k'(4,5) l1(2) by (simp_all add: k2_def on_hart_def)
    fix j assume "j < NPROC"
    then show "status (procs k' ! j) \<noteq> TASK_RUNNING"
      using same_slot_fields [OF same] k1(2) unfolding handed_back_def by metis
  qed
  moreover have "scheduler_turn W i k = Inr k'"
    using r assms(2,3) k1(1) rel
    by (simp add: scheduler_turn_def plock_acquire dispatch_def [symmetric] k2_def [symmetric])
  ultimately show ?thesis using k1 same by blast
qed

lemma scheduler_turn_quiet:
  "quiet k \<Longrightarrow> i < NPROC \<Longrightarrow> processes_return W \<Longrightarrow> \<exists>k'. scheduler_turn W i k = Inr k' \<and> quiet k'"
  using turn_ready [of k i W] turn_waiting [of k i W] by blast

lemma quiet_intr_on: "quiet k \<Longrightarrow> quiet (on_hart intr_on k)"
  by (simp add: quiet_def at_rest_def on_hart_def hart_ok_def)

lemma turns_quiet:
  "quiet k \<Longrightarrow> \<forall>i \<in> set is. i < NPROC \<Longrightarrow> processes_return W \<Longrightarrow> \<exists>k'. forE (scheduler_turn W) is k = Inr k' \<and> quiet k'"
proof (induction "is" arbitrary: k)
  case (Cons i "is")
  then obtain k1 where "scheduler_turn W i k = Inr k1" "quiet k1" using scheduler_turn_quiet [of k i W] by auto
  with Cons show ?case by auto
qed simp

lemma scheduler_pass_quiet: "quiet k \<Longrightarrow> processes_return W \<Longrightarrow> \<exists>k'. scheduler_pass W k = Inr k' \<and> quiet k'"
  unfolding scheduler_pass_def by (rule turns_quiet) (simp_all add: quiet_intr_on)

lemma scheduler_loop_quiet: "quiet k \<Longrightarrow> processes_return W \<Longrightarrow> \<exists>k'. scheduler_loop W n k = Inr k' \<and> quiet k'"
proof (induction n arbitrary: k)
  case (Suc n)
  then obtain k1 where "scheduler_pass W k = Inr k1" "quiet k1" using scheduler_pass_quiet by blast
  with Suc show ?case by simp
qed simp

text \<open>In a pass every slot has its turn.\<close>

lemma pass_reaches:
  assumes "quiet k" "processes_return W" "i < NPROC"
  shows "\<exists>ki k'. forE (scheduler_turn W) [0..<i] (on_hart intr_on k) = Inr ki \<and> quiet ki \<and>
    scheduler_turn W i ki = Inr k' \<and> forE (scheduler_turn W) [Suc i..<NPROC] k' = scheduler_pass W k"
proof -
  obtain ki where ki: "forE (scheduler_turn W) [0..<i] (on_hart intr_on k) = Inr ki" "quiet ki"
    using turns_quiet [of "on_hart intr_on k" "[0..<i]" W] quiet_intr_on assms by auto
  obtain k' where k': "scheduler_turn W i ki = Inr k'" using scheduler_turn_quiet [OF ki(2) assms(3,2)] by blast
  have "[0..<NPROC] = [0..<i] @ i # [Suc i..<NPROC]"
    using assms(3) by (metis upt_add_eq_append upt_conv_Cons le0 less_imp_le_nat le_add_diff_inverse)
  then have "scheduler_pass W k = forE (scheduler_turn W) [Suc i..<NPROC] k'"
    using ki(1) k' by (simp add: scheduler_pass_def forE_append)
  with ki k' show ?thesis by auto
qed

section \<open>Reaping\<close>

text \<open>What \<open>freeproc\<close> leaves of a slot.\<close>

definition freed :: "proc \<Rightarrow> proc" where
  "freed p = p\<lparr>trapframe := 0, pagetable := 0, sz := 0, pid := 0, parent := None, pname := (pname p)[0 := 0], status := TASK_FREE\<rparr>"

lemma do_mem_Inr: "do_mem f k = Inr k' \<Longrightarrow> \<exists>ph. k' = k\<lparr>mem := ph\<rparr>"
  by (auto simp: do_mem_def bindE_Inr_iff)

text \<open>The memory operations in sequence change the memory only.\<close>

definition only_mem :: "kernel outcome \<Rightarrow> kernel \<Rightarrow> bool" where
  "only_mem r k \<longleftrightarrow> (\<forall>k'. r = Inr k' \<longrightarrow> (\<exists>ph. k' = k\<lparr>mem := ph\<rparr>))"

lemma only_mem_Inr [intro]: "only_mem (Inr k) k"
  unfolding only_mem_def by (auto intro: exI [of _ "mem k"])

lemma only_mem_do_mem [intro]: "only_mem (do_mem f k) k"
  unfolding only_mem_def using do_mem_Inr by blast

lemma only_mem_bind:
  assumes "only_mem r k" "\<And>ph. only_mem (f (k\<lparr>mem := ph\<rparr>)) (k\<lparr>mem := ph\<rparr>)"
  shows "only_mem (bindE r f) k"
  using assms unfolding only_mem_def by (fastforce simp: bindE_Inr_iff)

definition free_space :: "proc \<Rightarrow> kernel \<Rightarrow> kernel outcome" where
  "free_space p k =
     (if pagetable p \<noteq> 0 then
        bindE (do_mem (uvmunmap (pagetable p) TRAMPOLINE PGSIZE False) k) (\<lambda>k.
        bindE (do_mem (uvmunmap (pagetable p) TRAPFRAME PGSIZE False) k) (\<lambda>k.
        bindE (if sz p > 0 then do_mem (uvmunmap (pagetable p) 0 (PGROUNDUP (sz p)) True) k else Inr k) (\<lambda>k.
        do_mem (freewalk 3 (pagetable p)) k)))
      else Inr k)"

lemma freeproc_parts:
  "freeproc i k =
     bindE (if trapframe (procs k ! i) \<noteq> 0 then do_mem (kfree (trapframe (procs k ! i))) k else Inr k) (\<lambda>k.
     let k = set_proc i (\<lambda>p. p\<lparr>trapframe := 0\<rparr>) k; p = procs k ! i in
     bindE (free_space p k) (\<lambda>k.
     bindE (do_mem (uvmunmap (kernel_pagetable k) (kstack p) PGSIZE True) k) (\<lambda>k.
     Inr (set_proc i (\<lambda>p. p\<lparr>pagetable := 0, sz := 0, pid := 0, parent := None, pname := (pname p)[0 := 0],
       status := TASK_FREE\<rparr>) k))))"
  by (simp only: freeproc_def free_space_def)

lemma only_mem_free_space: "only_mem (free_space p k) k"
  unfolding free_space_def by (auto intro!: only_mem_bind)

lemma freeproc_frame:
  assumes "freeproc i k = Inr k'" "i < length (procs k)"
  shows "\<exists>ph. k' = k\<lparr>mem := ph, procs := (procs k)[i := freed (procs k ! i)]\<rparr>"
proof -
  let ?tf = "set_proc i (\<lambda>p. p\<lparr>trapframe := 0\<rparr>)"
  let ?fin = "set_proc i (\<lambda>p. p\<lparr>pagetable := 0, sz := 0, pid := 0, parent := None, pname := (pname p)[0 := 0], status := TASK_FREE\<rparr>)"
  from assms(1) obtain k1 k2 k3 where
    k: "(if trapframe (procs k ! i) \<noteq> 0 then do_mem (kfree (trapframe (procs k ! i))) k else Inr k) = Inr k1"
      "free_space (procs (?tf k1) ! i) (?tf k1) = Inr k2"
      "do_mem (uvmunmap (kernel_pagetable k2) (kstack (procs (?tf k1) ! i)) PGSIZE True) k2 = Inr k3" "k' = ?fin k3"
    unfolding freeproc_parts Let_def by (auto simp only: bindE_Inr_iff sum.inject)
  have "only_mem (if trapframe (procs k ! i) \<noteq> 0 then do_mem (kfree (trapframe (procs k ! i))) k else Inr k) k" by auto
  with k(1) obtain ph where k1: "k1 = k\<lparr>mem := ph\<rparr>" unfolding only_mem_def by blast
  from k(2) only_mem_free_space obtain ph2 where k2: "k2 = (?tf k1)\<lparr>mem := ph2\<rparr>" unfolding only_mem_def by blast
  from k(3) do_mem_Inr obtain ph3 where k3: "k3 = k2\<lparr>mem := ph3\<rparr>" by blast
  show ?thesis
    using assms(2) by (intro exI [of _ ph3]) (simp add: k(4) k3 k2 k1 set_proc_def freed_def)
qed

lemma lock_unlock:
  assumes "at_rest k" "i < NPROC"
  shows "on_plock release i (lock_slot i k) = Inr (k\<lparr>hart := settled (hart k)\<rparr>)"
  using assms by (simp add: on_plock_def lock_slot_def at_rest_def release_held)

definition zombie_child :: "kernel \<Rightarrow> nat option \<Rightarrow> nat \<Rightarrow> bool" where
  "zombie_child k me i \<longleftrightarrow> parent (procs k ! i) = me \<and> status (procs k ! i) = TASK_ZOMBIE"

definition reap :: "nat \<Rightarrow> kernel \<Rightarrow> kernel outcome" where
  "reap i k = bindE (freeproc i (lock_slot i k)) (on_plock release i)"

lemma kwait_scan_eq:
  assumes "at_rest k" "settled (hart k) = hart k" "\<forall>i \<in> set is. i < NPROC"
  shows "kwait_scan me is hk k =
    (case List.find (zombie_child k me) is of
       Some i \<Rightarrow> bindE (reap i k) (\<lambda>k'. Inr ((Some (pid (procs k ! i)), True), k'))
     | None \<Rightarrow> Inr ((None, hk \<or> (\<exists>i \<in> set is. parent (procs k ! i) = me)), k))"
  using assms(3)
proof (induction "is" arbitrary: hk)
  case (Cons i "is")
  then have i: "i < NPROC" by simp
  show ?case
  proof (cases "zombie_child k me i")
    case True
    then show ?thesis
      using i assms(1) by (simp add: plock_acquire Let_def zombie_child_def reap_def bindE_assoc)
  next
    case False
    have "kwait_scan me (i # is) hk k = kwait_scan me is (hk \<or> parent (procs k ! i) = me) k"
      using i assms(1,2) False lock_unlock [OF assms(1) i]
      by (auto simp: plock_acquire Let_def zombie_child_def)
    also have "\<dots> = (case List.find (zombie_child k me) is of
         Some j \<Rightarrow> bindE (reap j k) (\<lambda>k'. Inr ((Some (pid (procs k ! j)), True), k'))
       | None \<Rightarrow> Inr ((None, (hk \<or> parent (procs k ! i) = me) \<or> (\<exists>j \<in> set is. parent (procs k ! j) = me)), k))"
      using Cons by simp
    finally show ?thesis using False by (auto split: option.splits)
  qed
qed simp

lemma reap_frame:
  assumes "at_rest k" "i < NPROC" "reap i k = Inr k'"
  shows "\<exists>ph. k' = k\<lparr>mem := ph, procs := (procs k)[i := freed (procs k ! i)], hart := settled (hart k)\<rparr>"
proof -
  have len: "length (procs k) = NPROC" using assms(1) by (simp add: at_rest_def)
  from assms(3) obtain k1 where k1: "freeproc i (lock_slot i k) = Inr k1" "on_plock release i k1 = Inr k'"
    by (auto simp: reap_def bindE_Inr_iff)
  from freeproc_frame [OF k1(1)] assms(1,2) len obtain ph where
    eq: "k1 = (lock_slot i k)\<lparr>mem := ph, procs := (procs (lock_slot i k))[i := freed (procs (lock_slot i k) ! i)]\<rparr>" by auto
  have lk: "plock (freed p) = plock p" "(freed p)\<lparr>plock := l\<rparr> = freed (p\<lparr>plock := l\<rparr>)" for p l
    by (simp_all add: freed_def)
  have "release (held (plock (procs k ! i)) (hart k), push_off (hart k)) = Inr (plock (procs k ! i), settled (hart k))"
    using assms(1,2) by (intro release_held) (simp_all add: at_rest_def)
  then show ?thesis
    using k1(2) assms(2) len unfolding eq by (intro exI [of _ ph]) (simp add: on_plock_def lock_slot_def lk)
qed

section \<open>Identifiers\<close>

lemma allocpid_eq:
  assumes "idle (pidlock k)" "hart_ok (hart k)"
  shows "allocpid k = Inr (nextpid k + 1, k\<lparr>nextpid := nextpid k + 1, hart := settled (hart k)\<rparr>)"
  using assms by (simp add: allocpid_def on_pidlock_def acquire_idle release_held Let_def)

end
