(* ===== verification/Process_Space.thy ===== *)
theory Process_Space
  imports Process_Table
begin

text \<open>
  The memory of a process: its tables, the frames behind its user pages, the trap frame and the kernel
  stack. \<open>proc_space\<close> says that they belong to this process alone; \<open>freeproc\<close> gives all of them back.
\<close>

section \<open>Entries by page number\<close>

lemma pte_of_page:
  assumes "idx i" "idx j" "idx k"
  shows "pte_of m root i j k = pte_at m root (unat i * 2 ^ 18 + unat j * 2 ^ 9 + unat k)"
    "unat i * 2 ^ 18 + unat j * 2 ^ 9 + unat k < 2 ^ 27"
proof -
  let ?w = "unat i * 2 ^ 18 + unat j * 2 ^ 9 + unat k"
  show w: "?w < 2 ^ 27" using assms by simp
  then have u: "unat (vaddr ?w) = 4096 * ?w" by (rule unat_vaddr)
  define a where "a = unat i"
  define b where "b = unat j"
  define c where "c = unat k"
  have abc: "a < 512" "b < 512" "c < 512" using assms by (simp_all add: a_def b_def c_def)
  have "(4096 * (a * 2 ^ 18 + b * 2 ^ 9 + c)) div 2 ^ 12 = 512 * (512 * a + b) + c" by simp
  moreover have "(512 * (512 * a + b) + c) div 512 = 512 * a + b" "(512 * a + b) div 512 = a" using abc by simp_all
  moreover have "x div 2 ^ 21 = x div 2 ^ 12 div 512" "x div 2 ^ 30 = x div 2 ^ 12 div 512 div 512" for x :: nat
    by (simp_all flip: div_mult2_eq)
  ultimately have "4096 * ?w div 2 ^ 30 = a" "4096 * ?w div 2 ^ 21 = 512 * a + b" "4096 * ?w div 2 ^ 12 = 512 * (512 * a + b) + c"
    unfolding a_def b_def c_def by presburger+
  moreover have m: "(512 * x + y) mod 512 = y" if "y < 512" for x y :: nat using that by simp
  moreover have "a mod 512 = a" "(512 * a + b) mod 512 = b" "(512 * (512 * a + b) + c) mod 512 = c"
    using abc m [OF abc(2)] m [OF abc(3)] by (simp, blast, blast)
  ultimately have "unat (PX 2 (vaddr ?w)) = a" "unat (PX 1 (vaddr ?w)) = b" "unat (PX 0 (vaddr ?w)) = c"
    unfolding unat_PX u by simp_all
  then have "unat (PX 2 (vaddr ?w)) = unat i" "unat (PX 1 (vaddr ?w)) = unat j" "unat (PX 0 (vaddr ?w)) = unat k"
    by (simp_all add: a_def b_def c_def)
  then have "PX 2 (vaddr ?w) = i" "PX 1 (vaddr ?w) = j" "PX 0 (vaddr ?w) = k" by (simp_all add: word_eq_unatI)
  then show "pte_of m root i j k = pte_at m root ?w" by (simp add: pte_at_def leaf_def)
qed

section \<open>A tree that is not touched\<close>

lemma bystander_agree:
  assumes ok: "pt_ok ph root xs" and inv: "free_inv ph' ys" "end_address ph' = end_address ph"
    and at: "agree_on (pageno ` tables (ram ph) root) (ram ph) (ram ph')" and ys: "set ys \<inter> tables (ram ph) root = {}"
  shows "pt_ok ph' root ys" "tables (ram ph') root = tables (ram ph) root" "pte_at (ram ph') root w = pte_at (ram ph) root w"
    "inner_kept (ram ph) root (ram ph')"
proof -
  have wf: "pt_wf (ram ph) root" using ok by (simp add: pt_ok_def)
  note t = pt_wf_agree [OF wf at]
  show "tables (ram ph') root = tables (ram ph) root" by (rule t(2))
  show "pt_ok ph' root ys" using ok inv t ys managed_end [OF inv(2)] by (auto simp: pt_ok_def)
  show "pte_at (ram ph') root w = pte_at (ram ph) root w"
    unfolding pte_at_def leaf_def using wf by (intro tree_agree(3) [OF at]) (simp_all add: pt_wf_def)
  show "inner_kept (ram ph) root (ram ph')" using wf at by (rule inner_kept_agree)
qed

lemma bystander:
  assumes ok: "pt_ok ph root xs" and inv: "free_inv ph' ys" "end_address ph' = end_address ph"
    and ag: "agree_on (- pageno ` P) (ram ph) (ram ph')" and P: "\<forall>p \<in> P. managed ph p" "P \<inter> tables (ram ph) root = {}"
    and ys: "set ys \<inter> tables (ram ph) root = {}"
  shows "pt_ok ph' root ys" "tables (ram ph') root = tables (ram ph) root" "pte_at (ram ph') root w = pte_at (ram ph) root w"
proof -
  have "pageno ` tables (ram ph) root \<subseteq> - pageno ` P"
    using ok P by (intro pageno_disjoint [of _ _ ph]) (auto simp: pt_ok_def)
  with ag have "agree_on (pageno ` tables (ram ph) root) (ram ph) (ram ph')" by (rule agree_on_subset)
  from bystander_agree [OF ok inv this ys]
  show "pt_ok ph' root ys" "tables (ram ph') root = tables (ram ph) root" "pte_at (ram ph') root w = pte_at (ram ph) root w" by blast+
qed

section \<open>The address space of a process\<close>

text \<open>
  \<open>user_space\<close>: the table \<open>pt\<close> maps the user pages below \<open>brk\<close>, whose frames are distinct, in use and no
  tables, and besides them at most the trampoline and the trap frame.
\<close>

definition space_pages :: "u64 \<Rightarrow> nat" where
  "space_pages brk = (unat brk + 4095) div 4096"

definition user_frames :: "memory \<Rightarrow> u64 \<Rightarrow> u64 \<Rightarrow> u64 list" where
  "user_frames m pt brk = frames (pte_at m pt) 0 (space_pages brk)"

definition user_space :: "phys \<Rightarrow> u64 \<Rightarrow> u64 \<Rightarrow> u64 list \<Rightarrow> bool" where
  "user_space ph pt brk xs \<longleftrightarrow> pt_ok ph pt xs \<and> pure_tree (ram ph) pt \<and> unat brk \<le> unat TRAPFRAME \<and>
     distinct (user_frames (ram ph) pt brk) \<and>
     (\<forall>f \<in> set (user_frames (ram ph) pt brk). managed ph f \<and> f \<notin> set xs \<and> f \<notin> tables (ram ph) pt) \<and>
     (\<forall>w < 2 ^ 27. bit (pte_at (ram ph) pt w) 0 \<longrightarrow>
        w < space_pages brk \<or> w = pageno TRAMPOLINE \<or> w = pageno TRAPFRAME)"

lemma trap_pages: "pageno TRAMPOLINE = 0x3ffffff" "pageno TRAPFRAME = 0x3fffffe" "page_aligned TRAMPOLINE" "page_aligned TRAPFRAME"
  "unat TRAMPOLINE = 0x3ffffff000" "unat TRAPFRAME = 0x3fffffe000" "pageno 4096 = 1" "page_aligned 4096"
  by (simp_all add: pageno_def page_aligned_def TRAMPOLINE_def TRAPFRAME_def MAXVA_def)

lemma space_pages_le: "unat brk \<le> unat TRAPFRAME \<Longrightarrow> space_pages brk \<le> 0x3fffffe"
  using trap_pages by (simp add: space_pages_def)

lemma unmap_top:
  assumes "pt_ok ph pt xs" "va = TRAMPOLINE \<or> va = TRAPFRAME"
  shows "\<exists>ph'. uvmunmap pt va PGSIZE False ph = Inr ph' \<and> pt_unmap pt ph xs ph' [] {pageno va}"
  using uvmunmap_spec [of ph pt xs va PGSIZE False] assms trap_pages by auto

lemma space_pages_PGROUNDUP:
  assumes "unat brk \<le> unat TRAPFRAME"
  shows "page_aligned (PGROUNDUP brk)" "pageno (PGROUNDUP brk) = space_pages brk" "unat (PGROUNDUP brk) \<le> unat TRAPFRAME"
proof -
  have "(unat brk + 4095) div 4096 \<le> 0x3fffffe" using assms trap_pages by simp
  moreover from this have "unat (PGROUNDUP brk) = 4096 * ((unat brk + 4095) div 4096)"
    using assms trap_pages by (simp add: unat_PGROUNDUP)
  ultimately show "page_aligned (PGROUNDUP brk)" "pageno (PGROUNDUP brk) = space_pages brk" "unat (PGROUNDUP brk) \<le> unat TRAPFRAME"
    using trap_pages by (simp_all add: page_aligned_def pageno_def space_pages_def)
qed

text \<open>The four calls of \<open>proc_freepagetable\<close> that \<open>freeproc\<close> makes on the user table.\<close>

lemma space_unmapped:
  assumes sp: "user_space ph pt brk xs"
  defines "fs \<equiv> user_frames (ram ph) pt brk"
  shows "\<exists>ph1 ph2 ph3. uvmunmap pt TRAMPOLINE PGSIZE False ph = Inr ph1 \<and> uvmunmap pt TRAPFRAME PGSIZE False ph1 = Inr ph2 \<and>
    (if brk > 0 then uvmunmap pt 0 (PGROUNDUP brk) True ph2 else Inr ph2) = Inr ph3 \<and>
    pt_unmap pt ph xs ph3 fs ({pageno TRAMPOLINE} \<union> {pageno TRAPFRAME} \<union> {0..<space_pages brk})"
proof -
  note s = sp [unfolded user_space_def]
  have ok: "pt_ok ph pt xs" and le: "unat brk \<le> unat TRAPFRAME" using s by simp_all
  note up = space_pages_PGROUNDUP [OF le]
  from unmap_top [OF ok, of TRAMPOLINE] obtain ph1 where
    u1: "uvmunmap pt TRAMPOLINE PGSIZE False ph = Inr ph1" "pt_unmap pt ph xs ph1 [] {pageno TRAMPOLINE}" by blast
  then have ok1: "pt_ok ph1 pt xs" by (simp add: pt_unmap_def)
  from unmap_top [OF ok1, of TRAPFRAME] obtain ph2 where
    u2: "uvmunmap pt TRAPFRAME PGSIZE False ph1 = Inr ph2" "pt_unmap pt ph1 xs ph2 [] {pageno TRAPFRAME}" by blast
  have u12: "pt_unmap pt ph xs ph2 [] ({pageno TRAMPOLINE} \<union> {pageno TRAPFRAME})"
    using pt_unmap_trans [OF u1(2), of ph2 "[]" "{pageno TRAPFRAME}"] u2(2) by (simp del: insert_is_Un)
  then have ok2: "pt_ok ph2 pt xs" by (simp add: pt_unmap_def)
  note n = space_pages_le [OF le]
  have fs2: "frames (pte_at (ram ph2) pt) 0 (space_pages brk) = fs"
    unfolding fs_def user_frames_def using u12 n trap_pages by (intro frames_cong) (auto simp: pt_unmap_def)
  have mt: "managed ph2 = managed ph" "tables (ram ph2) pt = tables (ram ph) pt"
    using u12 managed_end [of ph2 ph] by (simp_all add: pt_unmap_def)
  have free: "distinct fs \<and> (\<forall>f \<in> set fs. managed ph2 f \<and> f \<notin> set xs \<and> f \<notin> tables (ram ph2) pt)"
    using s by (simp add: mt fs_def)
  have "\<exists>ph3. (if brk > 0 then uvmunmap pt 0 (PGROUNDUP brk) True ph2 else Inr ph2) = Inr ph3 \<and>
      pt_unmap pt ph2 xs ph3 fs {0..<space_pages brk}"
  proof (cases "brk > 0")
    case True
    have "pageno 0 = 0" "page_aligned 0" by (simp_all add: pageno_def page_aligned_def)
    then show ?thesis
      using uvmunmap_spec [OF ok2 _ up(1), of 0 True] up(2,3) free trap_pages True by (simp add: fs2)
  next
    case False
    then have "space_pages brk = 0" by (simp add: space_pages_def word_gt_0)
    then show ?thesis using False pt_unmap_refl [OF ok2] by (simp add: fs_def user_frames_def)
  qed
  then obtain ph3 where u3: "(if brk > 0 then uvmunmap pt 0 (PGROUNDUP brk) True ph2 else Inr ph2) = Inr ph3"
      "pt_unmap pt ph2 xs ph3 fs {0..<space_pages brk}" by blast
  have "pt_unmap pt ph xs ph3 fs ({pageno TRAMPOLINE} \<union> {pageno TRAPFRAME} \<union> {0..<space_pages brk})"
    using pt_unmap_trans [OF u12, of ph3 fs] u3(2) by simp
  with u1(1) u2(1) u3(1) show ?thesis by blast
qed

text \<open>With \<open>freewalk\<close>, the tables go back as well.\<close>

lemma space_freed:
  assumes sp: "user_space ph pt brk xs"
  defines "fs \<equiv> user_frames (ram ph) pt brk"
  obtains ph1 ph2 ph3 ph4 ps where "uvmunmap pt TRAMPOLINE PGSIZE False ph = Inr ph1" "uvmunmap pt TRAPFRAME PGSIZE False ph1 = Inr ph2"
    "(if brk > 0 then uvmunmap pt 0 (PGROUNDUP brk) True ph2 else Inr ph2) = Inr ph3" "freewalk 3 pt ph3 = Inr ph4"
    "set ps = set fs \<union> tables (ram ph) pt" "free_inv ph4 (ps @ xs)" "end_address ph4 = end_address ph"
    "agree_on (- pageno ` set ps) (ram ph) (ram ph4)"
proof -
  note s = sp [unfolded user_space_def]
  from space_unmapped [OF sp, folded fs_def] obtain ph1 ph2 ph3 where
    u: "uvmunmap pt TRAMPOLINE PGSIZE False ph = Inr ph1" "uvmunmap pt TRAPFRAME PGSIZE False ph1 = Inr ph2"
      "(if brk > 0 then uvmunmap pt 0 (PGROUNDUP brk) True ph2 else Inr ph2) = Inr ph3"
      "pt_unmap pt ph xs ph3 fs ({pageno TRAMPOLINE} \<union> {pageno TRAPFRAME} \<union> {0..<space_pages brk})"
    by (elim exE conjE) rule
  note p = u(4) [unfolded pt_unmap_def]
  have ok3: "pt_ok ph3 pt (rev fs @ xs)" using p by simp
  have pure: "pure_tree (ram ph3) pt" using p s pure_tree_kept by blast
  have "\<not> bit (pte_at (ram ph3) pt w) 0" if "w < 2 ^ 27" for w
  proof -
    let ?V = "{pageno TRAMPOLINE} \<union> {pageno TRAPFRAME} \<union> {0..<space_pages brk}"
    have "pte_at (ram ph3) pt w = (if w \<in> ?V \<and> bit (pte_at (ram ph) pt w) 0 then 0 else pte_at (ram ph) pt w)"
      using p that by blast
    moreover have "w < space_pages brk \<or> w = pageno TRAMPOLINE \<or> w = pageno TRAPFRAME" if "bit (pte_at (ram ph) pt w) 0"
      using s that \<open>w < 2 ^ 27\<close> by blast
    ultimately show ?thesis by (cases "bit (pte_at (ram ph) pt w) 0") auto
  qed
  then have empty: "\<not> bit (pte_of (ram ph3) pt i j k) 0" if "idx i" "idx j" "idx k" for i j k
    using pte_of_page [OF that] by simp
  obtain ph4 ps where f: "freewalk 3 pt ph3 = Inr ph4" "set ps = tables (ram ph3) pt" "pages_freed ph3 (rev fs @ xs) ps ph4"
    by (rule freewalk_spec [OF ok3 pure empty])
  note g = f(3) [unfolded pages_freed_def]
  have "agree_on (- pageno ` set (rev ps @ rev fs)) (ram ph) (ram ph4)"
  proof (rule agree_on_trans)
    show "agree_on (- pageno ` set (rev ps @ rev fs)) (ram ph) (ram ph3)"
      using p f(2) by (auto intro: agree_on_subset)
    show "agree_on (- pageno ` set (rev ps @ rev fs)) (ram ph3) (ram ph4)"
      using g by (auto intro: agree_on_subset)
  qed
  moreover have "set (rev ps @ rev fs) = set fs \<union> tables (ram ph) pt" using f(2) p by auto
  moreover have "free_inv ph4 ((rev ps @ rev fs) @ xs)" "end_address ph4 = end_address ph" using g p by simp_all
  ultimately show ?thesis using that u(1-3) f(1) by blast
qed

section \<open>What a process owns\<close>

definition stack_frames :: "memory \<Rightarrow> u64 \<Rightarrow> u64 \<Rightarrow> u64 list" where
  "stack_frames m root va = frames (pte_at m root) (pageno va) 1"

text \<open>The pages of process \<open>i\<close>, and that they are its own: no other part of the kernel's memory is among them.\<close>

definition owned :: "kernel \<Rightarrow> nat \<Rightarrow> u64 set" where
  "owned k i = {trapframe (procs k ! i)} \<union> set (user_frames (ram (mem k)) (pagetable (procs k ! i)) (sz (procs k ! i))) \<union>
     set (stack_frames (ram (mem k)) (kernel_pagetable k) (kstack (procs k ! i))) \<union> tables (ram (mem k)) (pagetable (procs k ! i))"

definition proc_space :: "kernel \<Rightarrow> nat \<Rightarrow> u64 list \<Rightarrow> bool" where
  "proc_space k i xs \<longleftrightarrow>
     (let m = ram (mem k); p = procs k ! i; root = kernel_pagetable k;
          fs = trapframe p # stack_frames m root (kstack p) @ user_frames m (pagetable p) (sz p)
      in pt_ok (mem k) root xs \<and> user_space (mem k) (pagetable p) (sz p) xs \<and>
         tables m root \<inter> tables m (pagetable p) = {} \<and> page_aligned (kstack p) \<and> unat (kstack p) + 4096 \<le> 0x4000000000 \<and>
         distinct fs \<and> (\<forall>f \<in> set fs. managed (mem k) f \<and> f \<notin> set xs \<union> tables m root \<union> tables m (pagetable p)))"

lemma user_space_kfree:
  assumes sp: "user_space ph pt brk xs" and f: "managed ph f" "f \<notin> set xs" "f \<notin> tables (ram ph) pt" "f \<notin> set (user_frames (ram ph) pt brk)"
  obtains ph' where "kfree f ph = Inr ph'" "user_space ph' pt brk (f # xs)" "tables (ram ph') pt = tables (ram ph) pt"
    "user_frames (ram ph') pt brk = user_frames (ram ph) pt brk" "agree_on (- {pageno f}) (ram ph) (ram ph')"
    "end_address ph' = end_address ph"
proof -
  have ok: "pt_ok ph pt xs" using sp by (simp add: user_space_def)
  obtain ph' where k: "kfree f ph = Inr ph'" "pt_unmap pt ph xs ph' [f] {}" by (rule free_frame [OF ok f(1-3)])
  have inv: "free_inv ph xs" using ok by (simp add: pt_ok_def)
  obtain ph2 where k2: "kfree f ph = Inr ph2" "agree_on (- {pageno f}) (ram ph) (ram ph2)"
    by (rule kfree_free_inv [OF inv f(1,2)])
  then have ag: "agree_on (- {pageno f}) (ram ph) (ram ph')" using k(1) by simp
  note u = k(2) [unfolded pt_unmap_def]
  have n: "space_pages brk \<le> 0x3fffffe" using sp unfolding user_space_def by (intro space_pages_le) simp
  have pte: "pte_at (ram ph') pt w = pte_at (ram ph) pt w" if "w < 2 ^ 27" for w using u that by simp
  have uf: "user_frames (ram ph') pt brk = user_frames (ram ph) pt brk"
    unfolding user_frames_def using n by (intro frames_cong pte) simp
  have "user_space ph' pt brk (f # xs)"
    unfolding user_space_def uf
  proof (intro conjI)
    show "pt_ok ph' pt (f # xs)" using u by simp
    show "pure_tree (ram ph') pt" using sp u pure_tree_kept by (auto simp: user_space_def)
    show "\<forall>w < 2 ^ 27. bit (pte_at (ram ph') pt w) 0 \<longrightarrow> w < space_pages brk \<or> w = pageno TRAMPOLINE \<or> w = pageno TRAPFRAME"
      using sp pte unfolding user_space_def by simp
    show "\<forall>g \<in> set (user_frames (ram ph) pt brk). managed ph' g \<and> g \<notin> set (f # xs) \<and> g \<notin> tables (ram ph') pt"
      using sp f(4) u managed_end [of ph' ph] unfolding user_space_def by auto
  qed (use sp in \<open>simp_all add: user_space_def\<close>)
  then show ?thesis using that k(1) uf ag u by simp
qed

lemma unmap_stack:
  assumes ok: "pt_ok ph root xs" and va: "page_aligned va" "unat va + 4096 \<le> 0x4000000000"
    and f: "distinct (stack_frames (ram ph) root va)"
      "\<forall>f \<in> set (stack_frames (ram ph) root va). managed ph f \<and> f \<notin> set xs \<and> f \<notin> tables (ram ph) root"
  shows "\<exists>ph'. uvmunmap root va PGSIZE True ph = Inr ph' \<and> pt_unmap root ph xs ph' (stack_frames (ram ph) root va) {pageno va}"
proof -
  have "{pageno va..<pageno va + 1} = {pageno va}" by auto
  moreover have "page_aligned PGSIZE" "pageno PGSIZE = 1" "unat PGSIZE = 4096" using trap_pages by simp_all
  ultimately show ?thesis
    using uvmunmap_spec [OF ok va(1), of PGSIZE True] va(2) f unfolding stack_frames_def by (simp del: PGSIZE_def)
qed

section \<open>freeproc\<close>

text \<open>
  What the kernel's table and the free list are afterwards: the free pages are the old ones and those the
  process owned, the entry of its kernel stack is cleared, and no other page has changed.
\<close>

definition reclaimed :: "kernel \<Rightarrow> nat \<Rightarrow> u64 list \<Rightarrow> phys \<Rightarrow> bool" where
  "reclaimed k i xs ph \<longleftrightarrow>
     (\<exists>ys. pt_ok ph (kernel_pagetable k) ys \<and> set ys = set xs \<union> owned k i) \<and> end_address ph = end_address (mem k) \<and>
     tables (ram ph) (kernel_pagetable k) = tables (ram (mem k)) (kernel_pagetable k) \<and>
     (\<forall>w < 2 ^ 27. pte_at (ram ph) (kernel_pagetable k) w =
        (if w = pageno (kstack (procs k ! i)) \<and> bit (pte_at (ram (mem k)) (kernel_pagetable k) w) 0 then 0
         else pte_at (ram (mem k)) (kernel_pagetable k) w)) \<and>
     agree_on (- pageno ` (owned k i \<union> tables (ram (mem k)) (kernel_pagetable k))) (ram (mem k)) (ram ph)"

lemma user_space_managed:
  "user_space ph pt brk xs \<Longrightarrow> p \<in> set (user_frames (ram ph) pt brk) \<union> tables (ram ph) pt \<Longrightarrow> managed ph p \<and> p \<notin> set xs"
  by (auto simp: user_space_def pt_ok_def)

lemma freeproc_user_part:
  assumes sp: "proc_space k i xs"
  defines "p \<equiv> procs k ! i" and "ufs \<equiv> user_frames (ram (mem k)) (pagetable (procs k ! i)) (sz (procs k ! i))"
  obtains ph0 ph1 ph2 ph3 ph4 ps where "kfree (trapframe p) (mem k) = Inr ph0"
    "uvmunmap (pagetable p) TRAMPOLINE PGSIZE False ph0 = Inr ph1" "uvmunmap (pagetable p) TRAPFRAME PGSIZE False ph1 = Inr ph2"
    "(if sz p > 0 then uvmunmap (pagetable p) 0 (PGROUNDUP (sz p)) True ph2 else Inr ph2) = Inr ph3" "freewalk 3 (pagetable p) ph3 = Inr ph4"
    "set ps = insert (trapframe p) (set ufs \<union> tables (ram (mem k)) (pagetable p))" "free_inv ph4 (ps @ xs)"
    "end_address ph4 = end_address (mem k)" "agree_on (- pageno ` set ps) (ram (mem k)) (ram ph4)"
proof -
  note s = sp [unfolded proc_space_def Let_def, folded p_def]
  have us: "user_space (mem k) (pagetable p) (sz p) xs" using s by simp
  have tf: "managed (mem k) (trapframe p)" "trapframe p \<notin> set xs" "trapframe p \<notin> tables (ram (mem k)) (pagetable p)"
      "trapframe p \<notin> set (user_frames (ram (mem k)) (pagetable p) (sz p))" using s by simp_all
  obtain ph0 where k: "kfree (trapframe p) (mem k) = Inr ph0" "user_space ph0 (pagetable p) (sz p) (trapframe p # xs)"
      "tables (ram ph0) (pagetable p) = tables (ram (mem k)) (pagetable p)"
      "user_frames (ram ph0) (pagetable p) (sz p) = ufs" "agree_on (- {pageno (trapframe p)}) (ram (mem k)) (ram ph0)"
      "end_address ph0 = end_address (mem k)"
    unfolding ufs_def p_def [symmetric] by (rule user_space_kfree [OF us tf])
  obtain ph1 ph2 ph3 ph4 ps where f: "uvmunmap (pagetable p) TRAMPOLINE PGSIZE False ph0 = Inr ph1"
      "uvmunmap (pagetable p) TRAPFRAME PGSIZE False ph1 = Inr ph2"
      "(if sz p > 0 then uvmunmap (pagetable p) 0 (PGROUNDUP (sz p)) True ph2 else Inr ph2) = Inr ph3" "freewalk 3 (pagetable p) ph3 = Inr ph4"
      "set ps = set ufs \<union> tables (ram (mem k)) (pagetable p)" "free_inv ph4 (ps @ trapframe p # xs)"
      "end_address ph4 = end_address ph0" "agree_on (- pageno ` set ps) (ram ph0) (ram ph4)"
    by (rule space_freed [OF k(2), unfolded k(3,4)])
  have "agree_on (- pageno ` set (ps @ [trapframe p])) (ram (mem k)) (ram ph4)"
  proof (rule agree_on_trans)
    show "agree_on (- pageno ` set (ps @ [trapframe p])) (ram (mem k)) (ram ph0)" by (rule agree_on_subset [OF k(5)]) auto
    show "agree_on (- pageno ` set (ps @ [trapframe p])) (ram ph0) (ram ph4)" by (rule agree_on_subset [OF f(8)]) auto
  qed
  moreover have "set (ps @ [trapframe p]) = insert (trapframe p) (set ufs \<union> tables (ram (mem k)) (pagetable p))" using f(5) by auto
  moreover have "free_inv ph4 ((ps @ [trapframe p]) @ xs)" "end_address ph4 = end_address (mem k)" using f(6,7) k(6) by simp_all
  ultimately show ?thesis using that k(1) f(1-4) by blast
qed

lemma free_space_eq:
  assumes "pagetable q \<noteq> 0" "uvmunmap (pagetable q) TRAMPOLINE PGSIZE False (mem k) = Inr ph1"
    "uvmunmap (pagetable q) TRAPFRAME PGSIZE False ph1 = Inr ph2"
    "(if sz q > 0 then uvmunmap (pagetable q) 0 (PGROUNDUP (sz q)) True ph2 else Inr ph2) = Inr ph3"
    "freewalk 3 (pagetable q) ph3 = Inr ph4"
  shows "free_space q k = Inr (k\<lparr>mem := ph4\<rparr>)"
  using assms by (cases "sz q > 0") (simp_all add: free_space_def do_mem_def)

lemma free_space_after_tf:
  assumes "pagetable p \<noteq> 0" "uvmunmap (pagetable p) TRAMPOLINE PGSIZE False ph0 = Inr ph1"
    "uvmunmap (pagetable p) TRAPFRAME PGSIZE False ph1 = Inr ph2"
    "(if sz p > 0 then uvmunmap (pagetable p) 0 (PGROUNDUP (sz p)) True ph2 else Inr ph2) = Inr ph3"
    "freewalk 3 (pagetable p) ph3 = Inr ph4"
  shows "free_space (p\<lparr>trapframe := 0\<rparr>) (k\<lparr>mem := ph0, procs := ps\<rparr>) = Inr (k\<lparr>mem := ph4, procs := ps\<rparr>)"
  using free_space_eq [of "p\<lparr>trapframe := 0\<rparr>" "k\<lparr>mem := ph0, procs := ps\<rparr>" ph1 ph2 ph3 ph4] assms
  by (cases "sz p > 0") (simp_all del: PGSIZE_def)

lemma freeproc_eq:
  assumes p: "p = procs k ! i" "trapframe p \<noteq> 0" "i < length (procs k)" and f: "kfree (trapframe p) (mem k) = Inr ph0"
    and s: "free_space (p\<lparr>trapframe := 0\<rparr>) (k\<lparr>mem := ph0, procs := (procs k)[i := p\<lparr>trapframe := 0\<rparr>]\<rparr>) =
      Inr (k\<lparr>mem := ph4, procs := (procs k)[i := p\<lparr>trapframe := 0\<rparr>]\<rparr>)"
    and u: "uvmunmap (kernel_pagetable k) (kstack p) PGSIZE True ph4 = Inr ph5"
  shows "freeproc i k = Inr (k\<lparr>mem := ph5, procs := (procs k)[i := freed p]\<rparr>)"
proof -
  let ?k = "k\<lparr>mem := ph0, procs := (procs k)[i := p\<lparr>trapframe := 0\<rparr>]\<rparr>"
  have "(if trapframe (procs k ! i) \<noteq> 0 then do_mem (kfree (trapframe (procs k ! i))) k else Inr k) = Inr (k\<lparr>mem := ph0\<rparr>)"
    using p f by (simp add: do_mem_def)
  moreover have "set_proc i (\<lambda>p. p\<lparr>trapframe := 0\<rparr>) (k\<lparr>mem := ph0\<rparr>) = ?k" using p(1) by (simp add: set_proc_def)
  moreover have "procs ?k ! i = p\<lparr>trapframe := 0\<rparr>" using p(3) by simp
  moreover have "do_mem (uvmunmap (kernel_pagetable k) (kstack p) PGSIZE True) (k\<lparr>mem := ph4, procs := (procs k)[i := p\<lparr>trapframe := 0\<rparr>]\<rparr>) =
      Inr (k\<lparr>mem := ph5, procs := (procs k)[i := p\<lparr>trapframe := 0\<rparr>]\<rparr>)" using u by (simp add: do_mem_def)
  ultimately show ?thesis
    unfolding freeproc_parts Let_def using p(3) s by (simp add: set_proc_def freed_def p(1) [symmetric] del: PGSIZE_def)
qed

lemma freeproc_reclaims:
  assumes sp: "proc_space k i xs" and i: "i < length (procs k)"
  shows "\<exists>ph. freeproc i k = Inr (k\<lparr>mem := ph, procs := (procs k)[i := freed (procs k ! i)]\<rparr>) \<and> reclaimed k i xs ph"
proof -
  define p where "p = procs k ! i"
  let ?m = "ram (mem k)" and ?root = "kernel_pagetable k"
  let ?st = "stack_frames ?m ?root (kstack p)"
  note s = sp [unfolded proc_space_def Let_def, folded p_def]
  have us: "user_space (mem k) (pagetable p) (sz p) xs" and okr: "pt_ok (mem k) ?root xs" using s by simp_all
  obtain ph0 ph1 ph2 ph3 ph4 ps where u: "kfree (trapframe p) (mem k) = Inr ph0"
      "uvmunmap (pagetable p) TRAMPOLINE PGSIZE False ph0 = Inr ph1" "uvmunmap (pagetable p) TRAPFRAME PGSIZE False ph1 = Inr ph2"
      "(if sz p > 0 then uvmunmap (pagetable p) 0 (PGROUNDUP (sz p)) True ph2 else Inr ph2) = Inr ph3" "freewalk 3 (pagetable p) ph3 = Inr ph4"
      "set ps = insert (trapframe p) (set (user_frames ?m (pagetable p) (sz p)) \<union> tables ?m (pagetable p))" "free_inv ph4 (ps @ xs)"
      "end_address ph4 = end_address (mem k)" "agree_on (- pageno ` set ps) ?m (ram ph4)"
    unfolding p_def by (rule freeproc_user_part [OF sp])
  have ps: "managed (mem k) q" "q \<notin> tables ?m ?root" if "q \<in> set ps" for q
    using that u(6) s user_space_managed [OF us, of q] by auto
  have "set (ps @ xs) \<inter> tables ?m ?root = {}" using ps(2) okr by (auto simp: pt_ok_def)
  then have b: "pt_ok ph4 ?root (ps @ xs)" "tables (ram ph4) ?root = tables ?m ?root" "pte_at (ram ph4) ?root w = pte_at ?m ?root w" for w
    using bystander [OF okr u(7,8,9)] ps by blast+
  then have st4: "stack_frames (ram ph4) ?root (kstack p) = ?st"
    unfolding stack_frames_def by (intro frames_cong)
  have stf: "managed ph4 f \<and> f \<notin> set (ps @ xs) \<and> f \<notin> tables (ram ph4) ?root" if "f \<in> set ?st" for f
    using that s u(6) managed_end [OF u(8)] b(2) by auto
  obtain ph5 where v: "uvmunmap ?root (kstack p) PGSIZE True ph4 = Inr ph5" "pt_unmap ?root ph4 (ps @ xs) ph5 ?st {pageno (kstack p)}"
    using unmap_stack [OF b(1), of "kstack p", unfolded st4] s stf by auto
  note w = v(2) [unfolded pt_unmap_def]
  have own: "owned k i = set ps \<union> set ?st" using u(6) by (auto simp: owned_def p_def)
  have "agree_on (- pageno ` (owned k i \<union> tables ?m ?root)) ?m (ram ph5)"
  proof (rule agree_on_trans)
    show "agree_on (- pageno ` (owned k i \<union> tables ?m ?root)) ?m (ram ph4)" by (rule agree_on_subset [OF u(9)]) (auto simp: own)
    show "agree_on (- pageno ` (owned k i \<union> tables ?m ?root)) (ram ph4) (ram ph5)"
      using w b(2) own by (auto intro: agree_on_subset)
  qed
  moreover have "\<exists>ys. pt_ok ph5 ?root ys \<and> set ys = set xs \<union> owned k i"
    using w own by (intro exI [of _ "rev ?st @ ps @ xs"]) auto
  moreover have "pte_at (ram ph5) ?root w =
      (if w = pageno (kstack p) \<and> bit (pte_at ?m ?root w) 0 then 0 else pte_at ?m ?root w)" if "w < 2 ^ 27" for w
  proof -
    have "pte_at (ram ph5) ?root w =
        (if w \<in> {pageno (kstack p)} \<and> bit (pte_at (ram ph4) ?root w) 0 then 0 else pte_at (ram ph4) ?root w)"
      using w that by blast
    then show ?thesis unfolding b(3) by simp
  qed
  ultimately have "reclaimed k i xs ph5" using w u(8) b(2) unfolding reclaimed_def p_def [symmetric] by simp
  moreover have nz: "trapframe p \<noteq> 0" "pagetable p \<noteq> 0"
  proof -
    have "managed (mem k) (trapframe p)" "0 < end_address (mem k)" using s by (simp_all add: pt_ok_def free_inv_def)
    then show "trapframe p \<noteq> 0" by (rule managed_nonzero)
    have "0 \<notin> tables ?m (pagetable p)" using us by (simp add: user_space_def pt_ok_def pt_wf_def)
    then show "pagetable p \<noteq> 0" by (auto simp: tables_def)
  qed
  note free = freeproc_eq [OF p_def nz(1) i u(1) free_space_after_tf [OF nz(2) u(2-5)] v(1)]
  ultimately show ?thesis using free unfolding p_def by blast
qed

section \<open>wait\<close>

lemma proc_space_cong:
  assumes "mem k' = mem k" "kernel_pagetable k' = kernel_pagetable k" "trapframe (procs k' ! i) = trapframe (procs k ! i)"
    "pagetable (procs k' ! i) = pagetable (procs k ! i)" "sz (procs k' ! i) = sz (procs k ! i)" "kstack (procs k' ! i) = kstack (procs k ! i)"
  shows "proc_space k' i = proc_space k i" "owned k' i = owned k i" "reclaimed k' i = reclaimed k i"
proof -
  show "proc_space k' i = proc_space k i" by (rule ext) (simp only: proc_space_def Let_def assms)
  show o: "owned k' i = owned k i" by (simp only: owned_def assms)
  show "reclaimed k' i = reclaimed k i" by (intro ext) (simp only: reclaimed_def o assms)
qed

text \<open>\<open>kwait\<close> finds the zombie child and reaps it, and the child's pages are free again.\<close>

lemma reap_reclaims:
  assumes r: "at_rest k" "i < NPROC" and sp: "proc_space k i xs"
  shows "\<exists>ph. reap i k = Inr (k\<lparr>mem := ph, procs := (procs k)[i := freed (procs k ! i)], hart := settled (hart k)\<rparr>) \<and>
    reclaimed k i xs ph"
proof -
  let ?l = "lock_slot i k"
  have len: "length (procs k) = NPROC" using r by (simp add: at_rest_def)
  have lp: "procs ?l ! i = (procs k ! i)\<lparr>plock := held (plock (procs k ! i)) (hart k)\<rparr>" "mem ?l = mem k"
      "kernel_pagetable ?l = kernel_pagetable k" "length (procs ?l) = NPROC"
    using r(2) len by (simp_all add: lock_slot_def)
  note c = proc_space_cong [of ?l k i, simplified lp, simplified]
  from freeproc_reclaims [of ?l i xs] sp c r(2) lp(4) obtain ph where
    f: "freeproc i ?l = Inr (?l\<lparr>mem := ph, procs := (procs ?l)[i := freed (procs ?l ! i)]\<rparr>)" "reclaimed k i xs ph" by auto
  have "locked_slot i (?l\<lparr>mem := ph, procs := (procs ?l)[i := freed (procs ?l ! i)]\<rparr>)"
    using lock_slot_locked [OF r] lp(4) r(2)
    by (auto simp: locked_slot_def nth_list_update freed_def)
  from plock_release [OF this] obtain k' where "reap i k = Inr k'" using f(1) by (auto simp: reap_def)
  moreover from reap_frame [OF r this] obtain ph' where
    "k' = k\<lparr>mem := ph', procs := (procs k)[i := freed (procs k ! i)], hart := settled (hart k)\<rparr>" by blast
  moreover have "mem k' = ph"
    using \<open>reap i k = Inr k'\<close> f(1) by (auto simp: reap_def on_plock_def bindE_Inr_iff)
  ultimately show ?thesis using f(2) by auto
qed

text \<open>
  The loop of \<open>kwait\<close>. In a waiting state the caller has children and none has exited; the environment then makes its
  next step.
\<close>

definition waiting :: "nat option \<Rightarrow> kernel \<Rightarrow> bool" where
  "waiting me k \<longleftrightarrow> at_rest k \<and> settled (hart k) = hart k \<and> List.find (zombie_child k me) [0..<NPROC] = None \<and>
     (\<exists>i < NPROC. parent (procs k ! i) = me)"

primrec run_env :: "(kernel \<Rightarrow> kernel) list \<Rightarrow> kernel \<Rightarrow> kernel" where
  "run_env [] k = k"
| "run_env (e # es) k = run_env es (e k)"

lemma kwait_loop_eq:
  assumes "at_rest k" "settled (hart k) = hart k"
  shows "kwait_loop es me k =
    (case List.find (zombie_child k me) [0..<NPROC] of
       Some i \<Rightarrow> bindE (reap i k) (\<lambda>k'. Inr (pid (procs k ! i), k'))
     | None \<Rightarrow> if \<exists>i < NPROC. parent (procs k ! i) = me
         then (case es of [] \<Rightarrow> Inl (Hang ''kwait'') | e # es \<Rightarrow> kwait_loop es me (e k)) else Inr (- 1, k))"
proof (cases "List.find (zombie_child k me) [0..<NPROC]")
  case None
  then have "kwait_scan me [0..<NPROC] False k = Inr ((None, \<exists>i < NPROC. parent (procs k ! i) = me), k)"
    using kwait_scan_eq [OF assms, of "[0..<NPROC]" me False] by auto
  then show ?thesis using None by (cases es) (auto simp del: NPROC_def)
next
  case (Some i)
  then have "kwait_scan me [0..<NPROC] False k = bindE (reap i k) (\<lambda>k'. Inr ((Some (pid (procs k ! i)), True), k'))"
    using kwait_scan_eq [OF assms, of "[0..<NPROC]" me False] by simp
  then show ?thesis using Some by (cases es; cases "reap i k") (simp_all del: NPROC_def)
qed

lemma kwait_loop_waits:
  "\<forall>j < length es. waiting me (run_env (take j es) k) \<Longrightarrow> kwait_loop (es @ rest) me k = kwait_loop rest me (run_env es k)"
proof (induction es arbitrary: k)
  case (Cons e es)
  have "waiting me k" using Cons.prems by fastforce
  then have "kwait_loop ((e # es) @ rest) me k = kwait_loop (es @ rest) me (e k)"
    by (simp add: kwait_loop_eq waiting_def del: kwait_loop.simps)
  moreover have "waiting me (run_env (take j es) (e k))" if "j < length es" for j
    using Cons.prems [rule_format, of "Suc j"] that by simp
  ultimately show ?case using Cons.IH [of "e k"] by (simp del: kwait_loop.simps)
qed simp

lemma kwait_reaps:
  assumes r: "at_rest k" "me = cpu_proc (hart k)" and z: "List.find (zombie_child k me) [0..<NPROC] = Some i"
    and reap: "reap i (k\<lparr>hart := settled (hart k)\<rparr>) = Inr k'"
  shows "kwait W addr k = Inr (pid (procs k ! i), k')"
proof -
  define k0 where "k0 = k\<lparr>hart := settled (hart k)\<rparr>"
  have k0: "at_rest k0" "settled (hart k0) = hart k0" "procs k0 = procs k" using r(1) by (simp_all add: at_rest_def k0_def)
  have my: "kwait W addr k = kwait_loop (wait_env W) me k0"
    using r by (simp add: kwait_def myproc_eq at_rest_def k0_def)
  have zc: "zombie_child k0 me = zombie_child k me" by (rule ext) (simp add: zombie_child_def k0(3))
  have "kwait_scan me [0..<NPROC] False k0 = Inr ((Some (pid (procs k ! i)), True), k')"
    using kwait_scan_eq [OF k0(1,2), of "[0..<NPROC]" me False, unfolded zc k0(3)] z reap
    by (simp add: k0_def [symmetric])
  then show ?thesis using my by (cases "wait_env W") simp_all
qed

end
