(* ===== verification/Process_Create.thy ===== *)
theory Process_Create
  imports Process_Space Pipe_Calls
begin

text \<open>
  How a process gets its memory: \<open>allocproc\<close> takes a trap frame, an empty table and a kernel stack and
  enters them in the table of the process and in that of the kernel.
\<close>

section \<open>Mapping one page\<close>

text \<open>
  A single page is mapped when two pages are free for tables, and at most two are used.
\<close>

lemma map_page:
  assumes ok: "pt_ok ph root xs" and va: "page_aligned va" "unat va < 0x4000000000"
    and free: "\<not> bit (pte_at (ram ph) root (pageno va)) 0" and two: "2 \<le> length xs"
  obtains ph' ys where "mappages root pa va PGSIZE perm ph = Inr (0, ph')"
    "pt_upd root ph xs ph' ys [pageno va \<mapsto> mk_pte pa perm]" "length xs \<le> length ys + 2"
proof -
  have fr: "\<not> bit (leaf (ram ph) root va) 0" using free pte_at_leaf [of va "ram ph" root] va(2) by simp
  show ?thesis
  proof (cases rule: mappages_page [OF ok va fr, of pa perm])
    case (1 ph')
    then show ?thesis using two by simp
  next
    case (2 ph' ys)
    then show ?thesis by (intro that)
  qed
qed

section \<open>Two trees beside each other\<close>

text \<open>Mapping a page in one tree leaves the other tree as it is.\<close>

lemma upd_bystander:
  assumes u: "pt_upd root ph xs ph' ys L" and ok: "pt_ok ph root xs" and other: "pt_ok ph other xs"
    and dis: "tables (ram ph) root \<inter> tables (ram ph) other = {}"
  shows "pt_ok ph' other ys" "tables (ram ph') other = tables (ram ph) other" "pte_at (ram ph') other w = pte_at (ram ph) other w"
    "tables (ram ph') root \<inter> tables (ram ph') other = {}" "inner_kept (ram ph) other (ram ph')"
proof -
  note p = u [unfolded pt_upd_def]
  obtain zs where zs: "xs = zs @ ys" "tables (ram ph') root = tables (ram ph) root \<union> set zs" using p by blast
  have inv: "free_inv ph' ys" using p by (simp add: pt_ok_def)
  have P: "\<forall>q \<in> tables (ram ph') root. managed ph q" "tables (ram ph') root \<inter> tables (ram ph) other = {}"
      "set ys \<inter> tables (ram ph) other = {}"
    using zs ok other dis by (auto simp: pt_ok_def free_inv_def)
  have ag: "agree_on (- pageno ` tables (ram ph') root) (ram ph) (ram ph')" using p by blast
  have e: "end_address ph' = end_address ph" using p by blast
  note b = bystander [OF other inv e ag P]
  show "pt_ok ph' other ys" "tables (ram ph') other = tables (ram ph) other" "pte_at (ram ph') other w = pte_at (ram ph) other w"
    by (rule b)+
  show "tables (ram ph') root \<inter> tables (ram ph') other = {}" using P(2) b(2) by simp
  have "pageno ` tables (ram ph) other \<subseteq> - pageno ` tables (ram ph') root"
    using P other by (intro pageno_disjoint [of _ _ ph]) (auto simp: pt_ok_def)
  then show "inner_kept (ram ph) other (ram ph')"
    using other agree_on_subset [OF ag] by (intro inner_kept_agree) (auto simp: pt_ok_def)
qed

lemma kalloc_bystander:
  assumes other: "pt_ok ph root (c # ys)" and k: "kalloc ph = (c, ph')"
  shows "pt_ok ph' root ys" "tables (ram ph') root = tables (ram ph) root" "pte_at (ram ph') root w = pte_at (ram ph) root w"
    "inner_kept (ram ph) root (ram ph')" "managed ph' c" "c \<notin> tables (ram ph') root" "c \<notin> set ys" "c \<noteq> 0"
    "end_address ph' = end_address ph"
proof -
  have inv: "free_inv ph (c # ys)" using other by (simp add: pt_ok_def)
  then obtain ph1 where k1: "kalloc ph = (c, ph1)" "free_inv ph1 ys" "end_address ph1 = end_address ph"
    and ag: "agree_on (- {pageno c}) (ram ph) (ram ph1)" by (rule kalloc_free_inv)
  have [simp]: "ph1 = ph'" using k k1(1) by simp
  have c: "managed ph c" "c \<notin> tables (ram ph) root" "c \<notin> set ys" "0 < end_address ph" using inv other by (auto simp: pt_ok_def free_inv_def)
  have dis: "set ys \<inter> tables (ram ph) root = {}" using other by (auto simp: pt_ok_def)
  have ag': "agree_on (- pageno ` {c}) (ram ph) (ram ph')" using ag by simp
  have b: "pt_ok ph' root ys" "tables (ram ph') root = tables (ram ph) root" "pte_at (ram ph') root w = pte_at (ram ph) root w" for w
    using bystander [OF other _ _ ag' _ _ dis] k1(2,3) c(1,2) by auto
  show "pt_ok ph' root ys" "tables (ram ph') root = tables (ram ph) root" "pte_at (ram ph') root w = pte_at (ram ph) root w" by (rule b)+
  have "pageno ` tables (ram ph) root \<subseteq> - pageno ` {c}"
    using c other by (intro pageno_disjoint [of _ _ ph]) (auto simp: pt_ok_def)
  then show "inner_kept (ram ph) root (ram ph')"
    using other agree_on_subset [OF ag'] by (intro inner_kept_agree) (auto simp: pt_ok_def)
  show "managed ph' c" using c(1) k1(3) by (simp add: managed_def)
  show "c \<notin> tables (ram ph') root" using b(2) c(2) by simp
  show "c \<notin> set ys" "c \<noteq> 0" using c managed_nonzero by simp_all
  show "end_address ph' = end_address ph" using k1(3) by simp
qed

section \<open>The memory of a new process\<close>

text \<open>The two pages at the top of a new table.\<close>

lemma top_pages_mapped:
  assumes ok: "pt_ok ph pt xs" and root: "pt_ok ph root xs" and dis: "tables (ram ph) pt \<inter> tables (ram ph) root = {}"
    and zero: "\<And>va. leaf (ram ph) pt va = 0" and pure: "pure_tree (ram ph) pt" and len: "4 \<le> length xs"
  obtains ph1 ph2 ys where "mappages pt tr TRAMPOLINE PGSIZE PTE_RX ph = Inr (0, ph1)" "mappages pt tf TRAPFRAME PGSIZE PTE_RW ph1 = Inr (0, ph2)"
    "pt_upd pt ph xs ph2 ys [pageno TRAMPOLINE \<mapsto> mk_pte tr PTE_RX, pageno TRAPFRAME \<mapsto> mk_pte tf PTE_RW]"
    "length xs \<le> length ys + 4" "pure_tree (ram ph2) pt"
proof -
  have z: "pte_at (ram ph) pt w = 0" for w by (simp add: pte_at_def zero)
  have tm: "page_aligned TRAMPOLINE" "unat TRAMPOLINE < 0x4000000000" "page_aligned TRAPFRAME" "unat TRAPFRAME < 0x4000000000"
    using trap_pages by simp_all
  obtain ph1 xs1 where m1: "mappages pt tr TRAMPOLINE PGSIZE PTE_RX ph = Inr (0, ph1)"
      "pt_upd pt ph xs ph1 xs1 [pageno TRAMPOLINE \<mapsto> mk_pte tr PTE_RX]" "length xs \<le> length xs1 + 2"
    by (rule map_page [OF ok tm(1,2), of tr PTE_RX]) (use z len in simp_all)
  have ok1: "pt_ok ph1 pt xs1" using m1(2) by (simp add: pt_upd_def)
  have "pte_at (ram ph1) pt (pageno TRAPFRAME) = 0"
    using pt_upd_pte_at [OF m1(2), of "pageno TRAPFRAME"] z trap_pages by simp
  then have "\<not> bit (pte_at (ram ph1) pt (pageno TRAPFRAME)) 0" "2 \<le> length xs1" using m1(3) len by simp_all
  then obtain ph2 xs2 where m2: "mappages pt tf TRAPFRAME PGSIZE PTE_RW ph1 = Inr (0, ph2)"
      "pt_upd pt ph1 xs1 ph2 xs2 [pageno TRAPFRAME \<mapsto> mk_pte tf PTE_RW]" "length xs1 \<le> length xs2 + 2"
    using map_page [OF ok1 tm(3,4), of tf PTE_RW] by blast
  have "pt_upd pt ph xs ph2 xs2 [pageno TRAMPOLINE \<mapsto> mk_pte tr PTE_RX, pageno TRAPFRAME \<mapsto> mk_pte tf PTE_RW]"
    by (rule pt_upd_cong [OF pt_upd_trans [OF m1(2) m2(2)]]) auto
  moreover have "pure_tree (ram ph1) pt" by (rule mappages_pure [OF ok tm(1,2) pure m1(1)])
  then have "pure_tree (ram ph2) pt" by (rule mappages_pure [OF ok1 tm(3,4) _ m2(1)])
  ultimately show ?thesis using that m1(1,3) m2(1,3) by simp
qed

definition new_ptes :: "u64 \<Rightarrow> u64 \<Rightarrow> nat \<Rightarrow> u64" where
  "new_ptes tr tf w = (if w = pageno TRAMPOLINE then mk_pte tr PTE_RX else if w = pageno TRAPFRAME then mk_pte tf PTE_RW else 0)"

lemma new_table:
  assumes root: "pt_ok ph root (tf # pt # xs)" and len: "4 \<le> length xs"
  obtains ph1 ph2 ph3 ph4 ys where "kalloc ph = (tf, ph1)" "uvmcreate ph1 = (pt, ph2)" "tf \<noteq> 0" "pt \<noteq> 0"
    "mappages pt tr TRAMPOLINE PGSIZE PTE_RX ph2 = Inr (0, ph3)" "mappages pt tf TRAPFRAME PGSIZE PTE_RW ph3 = Inr (0, ph4)"
    "pt_ok ph4 pt ys" "pt_ok ph4 root ys" "tables (ram ph4) pt \<inter> tables (ram ph4) root = {}" "pure_tree (ram ph4) pt"
    "\<forall>w < 2 ^ 27. pte_at (ram ph4) pt w = new_ptes tr tf w" "\<forall>w. pte_at (ram ph4) root w = pte_at (ram ph) root w"
    "tables (ram ph4) root = tables (ram ph) root" "tables (ram ph4) pt \<union> set ys = insert pt (set xs)" "set ys \<subseteq> set xs"
    "length xs \<le> length ys + 4" "end_address ph4 = end_address ph"
    "agree_on (- pageno ` set (tf # pt # xs)) (ram ph) (ram ph4)"
proof -
  have inv: "free_inv ph (tf # pt # xs)" using root by (simp add: pt_ok_def)
  obtain ph1 where k1: "kalloc ph = (tf, ph1)" "agree_on (- {pageno tf}) (ram ph) (ram ph1)"
    using inv by (rule kalloc_free_inv)
  note b1 = kalloc_bystander [OF root k1(1)]
  have inv1: "free_inv ph1 (pt # xs)" using b1(1) by (simp add: pt_ok_def)
  obtain ph2 where u: "uvmcreate ph1 = (pt, ph2)" "pt \<noteq> 0" "pt_ok ph2 pt xs" "tables (ram ph2) pt = {pt}"
      "\<forall>va. leaf (ram ph2) pt va = 0" "agree_on (- {pageno pt}) (ram ph1) (ram ph2)" "end_address ph2 = end_address ph1"
    by (rule uvmcreate_spec [OF inv1]) metis
  have inv2: "free_inv ph2 xs" using u(3) by (simp add: pt_ok_def)
  have ag2: "agree_on (- pageno ` {pt}) (ram ph1) (ram ph2)" using u(6) by simp
  have P2: "\<forall>q \<in> {pt}. managed ph1 q" "{pt} \<inter> tables (ram ph1) root = {}" "set xs \<inter> tables (ram ph1) root = {}"
    using inv1 b1(1) by (auto simp: pt_ok_def free_inv_def)
  note b2 = bystander [OF b1(1) inv2 u(7) ag2 P2]
  have dis2: "tables (ram ph2) pt \<inter> tables (ram ph2) root = {}" using u(4) b2(2) P2(2) by simp
  have pure: "pure_tree (ram ph2) pt"
  proof -
    have wf: "pt_wf (ram ph2) pt" using u(3) by (simp add: pt_ok_def)
    then have t1: "tables1 (ram ph2) pt = {}" using u(4) by (auto simp: pt_wf_def tables_def)
    then have none: "sub_table (ram ph2) pt i = None" if "idx i" for i
      using that tables1I [of i "ram ph2" pt] by (cases "sub_table (ram ph2) pt i") auto
    have "\<not> bit (pt_entry (ram ph2) pt i) 0" if "idx i" for i
      using none [OF that] by (simp add: sub_table_def split: if_splits)
    then show ?thesis using t1 by (simp add: pure_tree_def)
  qed
  obtain ph3 ph4 ys where m: "mappages pt tr TRAMPOLINE PGSIZE PTE_RX ph2 = Inr (0, ph3)" "mappages pt tf TRAPFRAME PGSIZE PTE_RW ph3 = Inr (0, ph4)"
      "pt_upd pt ph2 xs ph4 ys [pageno TRAMPOLINE \<mapsto> mk_pte tr PTE_RX, pageno TRAPFRAME \<mapsto> mk_pte tf PTE_RW]"
      "length xs \<le> length ys + 4" "pure_tree (ram ph4) pt"
    by (rule top_pages_mapped [OF u(3) b2(1) dis2 u(5) [rule_format] pure len])
  note b4 = upd_bystander [OF m(3) u(3) b2(1) dis2]
  note p = m(3) [unfolded pt_upd_def]
  obtain zs where zs: "xs = zs @ ys" "tables (ram ph4) pt = {pt} \<union> set zs" using p u(4) by auto
  have e: "end_address ph4 = end_address ph" using p u(7) b1(9) by simp
  have ag: "agree_on (- pageno ` set (tf # pt # xs)) (ram ph) (ram ph4)"
  proof (rule agree_on_trans, rule agree_on_trans)
    show "agree_on (- pageno ` set (tf # pt # xs)) (ram ph) (ram ph1)" by (rule agree_on_subset [OF k1(2)]) auto
    show "agree_on (- pageno ` set (tf # pt # xs)) (ram ph1) (ram ph2)" by (rule agree_on_subset [OF u(6)]) auto
    have a4: "agree_on (- pageno ` tables (ram ph4) pt) (ram ph2) (ram ph4)" using p by blast
    show "agree_on (- pageno ` set (tf # pt # xs)) (ram ph2) (ram ph4)"
      by (rule agree_on_subset [OF a4]) (auto simp: zs)
  qed
  have ptes: "\<forall>w < 2 ^ 27. pte_at (ram ph4) pt w = new_ptes tr tf w"
    using pt_upd_pte_at [OF m(3)] u(5) trap_pages by (simp add: new_ptes_def pte_at_def)
  have rptes: "\<forall>w. pte_at (ram ph4) root w = pte_at (ram ph) root w"
    using b1(3) b2(3) b4(3) by simp
  have t: "tables (ram ph4) root = tables (ram ph) root" "tables (ram ph4) pt \<union> set ys = insert pt (set xs)" "set ys \<subseteq> set xs"
    using b4(2) b2(2) b1(2) zs by auto
  have "pt_ok ph4 pt ys" using p by blast
  then show ?thesis
    by (rule that [OF k1(1) u(1) b1(8) u(2) m(1,2) _ b4(1,4) m(5) ptes rptes t m(4) e ag])
qed

lemma mk_pte_RW: "page_aligned c \<Longrightarrow> PTE2PA (mk_pte c PTE_RW) = c" "bit (mk_pte c PTE_RW) 0"
proof -
  have f: "scast PTE_RW OR PTE_V = (7 :: u64)" by (simp add: PTE_RW_def PTE_R_def PTE_W_def PTE_V_def)
  show "PTE2PA (mk_pte c PTE_RW) = c" if "page_aligned c"
    using PTE2PA_pack [of 7 c] that by (simp add: mk_pte_def or.assoc f PGROUNDDOWN_aligned)
  show "bit (mk_pte c PTE_RW) 0" by (simp add: mk_pte_def or.assoc f bit_simps)
qed

text \<open>
  \<open>fresh_space\<close>: the memory of a new process at its kernel stack \<open>va\<close>, made from the free pages \<open>xs\<close>: trap frame
  \<open>tf\<close>, table \<open>pt\<close> with nothing but trampoline and trap frame, stack page \<open>ks\<close>.
\<close>

definition fresh_space :: "phys \<Rightarrow> u64 \<Rightarrow> u64 \<Rightarrow> u64 \<Rightarrow> u64 list \<Rightarrow> phys \<Rightarrow> u64 \<Rightarrow> u64 \<Rightarrow> u64 \<Rightarrow> u64 list \<Rightarrow> bool" where
  "fresh_space ph root va tr xs ph' tf pt ks ys \<longleftrightarrow>
     pt_ok ph' root ys \<and> user_space ph' pt 0 ys \<and> tables (ram ph') root \<inter> tables (ram ph') pt = {} \<and> tf \<noteq> ks \<and>
     (\<forall>f \<in> {tf, ks}. managed ph' f \<and> f \<notin> set ys \<union> tables (ram ph') root \<union> tables (ram ph') pt) \<and>
     (\<forall>w < 2 ^ 27. pte_at (ram ph') pt w = new_ptes tr tf w) \<and>
     (\<forall>w < 2 ^ 27. pte_at (ram ph') root w = (if w = pageno va then mk_pte ks PTE_RW else pte_at (ram ph) root w)) \<and>
     set ys \<union> {tf, pt, ks} \<subseteq> set xs \<and> length xs \<le> length ys + 9 \<and> end_address ph' = end_address ph \<and>
     tables (ram ph') pt \<subseteq> set xs \<and> tables (ram ph') root \<subseteq> tables (ram ph) root \<union> set xs \<and>
     set xs \<union> tables (ram ph) root = {tf, ks} \<union> set ys \<union> tables (ram ph') pt \<union> tables (ram ph') root \<and>
     agree_on (- pageno ` (set xs \<union> tables (ram ph) root)) (ram ph) (ram ph')"

lemma new_space:
  assumes root: "pt_ok ph root xs" and len: "9 \<le> length xs" and va: "page_aligned va" "unat va < 0x4000000000"
    and free: "\<not> bit (pte_at (ram ph) root (pageno va)) 0"
  obtains tf ph1 pt ph2 ph3 ph4 ks ph5 ph6 ys where "kalloc ph = (tf, ph1)" "uvmcreate ph1 = (pt, ph2)" "tf \<noteq> 0" "pt \<noteq> 0"
    "mappages pt tr TRAMPOLINE PGSIZE PTE_RX ph2 = Inr (0, ph3)" "mappages pt tf TRAPFRAME PGSIZE PTE_RW ph3 = Inr (0, ph4)"
    "kalloc ph4 = (ks, ph5)" "mappages root ks va PGSIZE PTE_RW ph5 = Inr (0, ph6)" "fresh_space ph root va tr xs ph6 tf pt ks ys"
proof -
  obtain tf pt zs where xs: "xs = tf # pt # zs" "7 \<le> length zs"
    using len by (cases xs; cases "tl xs") auto
  obtain ph1 ph2 ph3 ph4 ys where n: "kalloc ph = (tf, ph1)" "uvmcreate ph1 = (pt, ph2)" "tf \<noteq> 0" "pt \<noteq> 0"
      "mappages pt tr TRAMPOLINE PGSIZE PTE_RX ph2 = Inr (0, ph3)" "mappages pt tf TRAPFRAME PGSIZE PTE_RW ph3 = Inr (0, ph4)"
      "pt_ok ph4 pt ys" "pt_ok ph4 root ys" "tables (ram ph4) pt \<inter> tables (ram ph4) root = {}" "pure_tree (ram ph4) pt"
      "\<forall>w < 2 ^ 27. pte_at (ram ph4) pt w = new_ptes tr tf w" "\<forall>w. pte_at (ram ph4) root w = pte_at (ram ph) root w"
      "tables (ram ph4) root = tables (ram ph) root" "tables (ram ph4) pt \<union> set ys = insert pt (set zs)" "set ys \<subseteq> set zs"
      "length zs \<le> length ys + 4" "end_address ph4 = end_address ph" "agree_on (- pageno ` set (tf # pt # zs)) (ram ph) (ram ph4)"
    using xs(2) by (rule new_table [OF root [unfolded xs(1)] le_trans [rotated]]) simp
  then obtain ks us where ys: "ys = ks # us" "2 \<le> length us" using xs(2) by (cases ys) auto
  have inv4: "free_inv ph4 (ks # us)" using n(8) ys by (simp add: pt_ok_def)
  obtain ph5 where k5: "kalloc ph4 = (ks, ph5)" "agree_on (- {pageno ks}) (ram ph4) (ram ph5)"
    using inv4 by (rule kalloc_free_inv)
  note br = kalloc_bystander [OF n(8) [unfolded ys(1)] k5(1)] and bp = kalloc_bystander [OF n(7) [unfolded ys(1)] k5(1)]
  have free5: "\<not> bit (pte_at (ram ph5) root (pageno va)) 0" using free n(12) br(3) by simp
  obtain ph6 vs where m: "mappages root ks va PGSIZE PTE_RW ph5 = Inr (0, ph6)"
      "pt_upd root ph5 us ph6 vs [pageno va \<mapsto> mk_pte ks PTE_RW]" "length us \<le> length vs + 2"
    by (rule map_page [OF br(1) va free5 ys(2)])
  have dis5: "tables (ram ph5) root \<inter> tables (ram ph5) pt = {}" using n(9) br(2) bp(2) by auto
  note b6 = upd_bystander [OF m(2) br(1) bp(1) dis5]
  note p6 = m(2) [unfolded pt_upd_def]
  obtain as where a: "us = as @ vs" "tables (ram ph6) root = tables (ram ph) root \<union> set as"
    using p6 br(2) n(13) by auto
  have tp: "tables (ram ph6) pt = tables (ram ph4) pt" using b6(2) bp(2) by simp
  have pp: "pte_at (ram ph6) pt w = new_ptes tr tf w" if "w < 2 ^ 27" for w using b6(3) bp(3) n(11) that by simp
  have inv: "free_inv ph (tf # pt # zs)" "set (tf # pt # zs) \<inter> tables (ram ph) root = {}"
    using root xs(1) by (auto simp: pt_ok_def)
  have n14: "tables (ram ph4) pt \<subseteq> insert pt (set zs)" using n(14) by blast
  have d: "tf \<notin> insert pt (set zs)" "set (ks # us) \<subseteq> set zs" "ks \<notin> set us" "managed ph tf" "managed ph ks"
    using inv(1) inv4 n(15) ys(1) by (auto simp: free_inv_def)
  have e: "end_address ph6 = end_address ph" using p6 br(9) n(17) by simp
  have man: "managed ph6 = managed ph" by (rule managed_end [OF e])
  have "fresh_space ph root va tr xs ph6 tf pt ks vs"
    unfolding fresh_space_def
  proof (intro conjI)
    show "pt_ok ph6 root vs" using p6 by blast
    show "user_space ph6 pt 0 vs"
      unfolding user_space_def
    proof (intro conjI)
      show "pt_ok ph6 pt vs" by (rule b6(1))
      show "pure_tree (ram ph6) pt" by (rule pure_tree_kept [OF b6(5) pure_tree_kept [OF bp(4) n(10)]])
      show "\<forall>w < 2 ^ 27. bit (pte_at (ram ph6) pt w) 0 \<longrightarrow> w < space_pages 0 \<or> w = pageno TRAMPOLINE \<or> w = pageno TRAPFRAME"
        using pp by (simp add: new_ptes_def)
    qed (simp_all add: user_frames_def space_pages_def)
    show "tables (ram ph6) root \<inter> tables (ram ph6) pt = {}" by (rule b6(4))
    show "tf \<noteq> ks" using d by auto
    have "ks \<notin> tables (ram ph) root" "tf \<notin> tables (ram ph) root" using inv(2) d(2) by auto
    moreover have "ks \<notin> tables (ram ph6) pt" using bp(6) b6(2) by simp
    moreover have "set as \<union> set vs = set us" using a(1) by auto
    ultimately show "\<forall>f \<in> {tf, ks}. managed ph6 f \<and> f \<notin> set vs \<union> tables (ram ph6) root \<union> tables (ram ph6) pt"
      using d a(2) tp n14 man by auto
    show "\<forall>w < 2 ^ 27. pte_at (ram ph6) root w = (if w = pageno va then mk_pte ks PTE_RW else pte_at (ram ph) root w)"
      using pt_upd_pte_at [OF m(2)] br(3) n(12) by simp
    show "set vs \<union> {tf, pt, ks} \<subseteq> set xs" "tables (ram ph6) pt \<subseteq> set xs" "tables (ram ph6) root \<subseteq> tables (ram ph) root \<union> set xs"
      using a d(2) xs(1) tp n14 by auto
    show "set xs \<union> tables (ram ph) root = {tf, ks} \<union> set vs \<union> tables (ram ph6) pt \<union> tables (ram ph6) root"
      using a n(14) unfolding xs(1) tp ys(1) by auto
    show "length xs \<le> length vs + 9" using m(3) n(16) ys(1) xs(1) by simp
    show "agree_on (- pageno ` (set xs \<union> tables (ram ph) root)) (ram ph) (ram ph6)"
    proof (rule agree_on_trans, rule agree_on_trans)
      show "agree_on (- pageno ` (set xs \<union> tables (ram ph) root)) (ram ph) (ram ph4)"
        by (rule agree_on_subset [OF n(18)]) (auto simp: xs(1))
      show "agree_on (- pageno ` (set xs \<union> tables (ram ph) root)) (ram ph4) (ram ph5)"
        by (rule agree_on_subset [OF k5(2)]) (use d(2) xs(1) in auto)
      have a6: "agree_on (- pageno ` tables (ram ph6) root) (ram ph5) (ram ph6)" using p6 by blast
      show "agree_on (- pageno ` (set xs \<union> tables (ram ph) root)) (ram ph5) (ram ph6)"
        by (rule agree_on_subset [OF a6]) (use a d(2) xs(1) in auto)
    qed
  qed (use pp e in simp_all)
  then show thesis by (rule that [OF n(1-6) k5(1) m(1)])
qed

section \<open>allocproc\<close>

lemma find_free_proc_eq:
  assumes "at_rest k" "settled (hart k) = hart k" "\<forall>i \<in> set is. i < NPROC"
  shows "find_free_proc is k = Inr (case List.find (\<lambda>i. status (procs k ! i) = TASK_FREE) is of
    Some i \<Rightarrow> (Some i, lock_slot i k) | None \<Rightarrow> (None, k))"
  using assms(3)
proof (induction "is")
  case (Cons i "is")
  then have i: "i < NPROC" by simp
  then show ?case
    using Cons assms(1,2) lock_unlock [OF assms(1) i] by (simp add: plock_acquire split: option.split)
qed simp

definition on_console :: "(kfile \<Rightarrow> kfile) \<Rightarrow> kfile \<Rightarrow> kfile" where
  "on_console mode f = mode (f\<lparr>ref := 1, ftype := FD_CONSOLE\<rparr>)"

lemma open_console_eq:
  assumes "ref (files k ! f) = 0" "\<forall>j < f. ref (files k ! j) \<noteq> 0" "f < NFILE" "length (files k) = NFILE"
  shows "open_console i fd mode k = Inr (set_proc i (\<lambda>p. p\<lparr>ofile := (ofile p)[fd := Some f]\<rparr>)
    (k\<lparr>files := (files k)[f := on_console mode (files k ! f)]\<rparr>))"
proof -
  have "List.find (\<lambda>i. ref (files k ! i) = 0) [0..<NFILE] = Some f"
    using assms by (auto simp: find_Some_iff simp del: NFILE_def)
  then show ?thesis using assms(3,4) by (simp add: open_console_def filealloc_def on_console_def)
qed

lemma allocproc_found:
  assumes f: "find_free_proc [0..<NPROC] k = Inr (Some i, k1)" and p: "allocpid k1 = Inr (n, k2)" "i < length (procs k2)"
    and m: "kalloc (mem k2) = (tf, ph1)" "tf \<noteq> 0" "uvmcreate ph1 = (pt, ph2)" "pt \<noteq> 0"
      "mappages pt (a_trampoline W) TRAMPOLINE PGSIZE PTE_RX ph2 = Inr (0, ph3)" "mappages pt tf TRAPFRAME PGSIZE PTE_RW ph3 = Inr (0, ph4)"
      "kalloc ph4 = (ks, ph5)" "mappages (kernel_pagetable k2) ks (kstack (procs k2 ! i)) PGSIZE PTE_RW ph5 = Inr (0, ph6)"
    and c: "open_console i 1 (\<lambda>f. f\<lparr>writable := 1\<rparr>) (k2\<lparr>procs := (procs k2)[i := (procs k2 ! i)\<lparr>pid := n, trapframe := tf,
        pagetable := pt, pcontext := \<lparr>ctx_s = replicate 12 0, ctx_ra = a_forkret W, ctx_sp = kstack (procs k2 ! i) + PGSIZE\<rparr>\<rparr>], mem := ph6\<rparr>) = Inr k8"
      "open_console i 0 (\<lambda>f. f\<lparr>readable := 1\<rparr>) k8 = Inr k9"
  shows "allocproc W k = Inr (Some i, set_proc i (\<lambda>p. p\<lparr>status := TASK_ALLOCATED\<rparr>) k9)"
  using assms by (simp add: allocproc_def do_kalloc_def on_mem_def set_proc_def Let_def del: PGSIZE_def)

text \<open>What \<open>allocproc\<close> writes into the slot it returns, beside taking its lock.\<close>

definition allocated_proc :: "world \<Rightarrow> u32 \<Rightarrow> u64 \<Rightarrow> u64 \<Rightarrow> nat \<Rightarrow> nat \<Rightarrow> proc \<Rightarrow> proc" where
  "allocated_proc W n tf pt f1 f0 p =
     p\<lparr>pid := n, trapframe := tf, pagetable := pt,
       pcontext := \<lparr>ctx_s = replicate 12 0, ctx_ra = a_forkret W, ctx_sp = kstack p + PGSIZE\<rparr>,
       ofile := (ofile p)[1 := Some f1, 0 := Some f0], status := TASK_ALLOCATED\<rparr>"

text \<open>The two first unused slots of the file table.\<close>

definition two_files :: "kernel \<Rightarrow> nat \<Rightarrow> nat \<Rightarrow> bool" where
  "two_files k f1 f0 \<longleftrightarrow> length (files k) = NFILE \<and> f1 < f0 \<and> f0 < NFILE \<and> ref (files k ! f1) = 0 \<and> ref (files k ! f0) = 0 \<and>
     (\<forall>j < f0. j \<noteq> f1 \<longrightarrow> ref (files k ! j) \<noteq> 0)"

definition alloc_ready :: "kernel \<Rightarrow> nat \<Rightarrow> u64 list \<Rightarrow> nat \<Rightarrow> nat \<Rightarrow> bool" where
  "alloc_ready k i xs f1 f0 \<longleftrightarrow>
     at_rest k \<and> settled (hart k) = hart k \<and> idle (pidlock k) \<and>
     List.find (\<lambda>i. status (procs k ! i) = TASK_FREE) [0..<NPROC] = Some i \<and> two_files k f1 f0 \<and>
     pt_ok (mem k) (kernel_pagetable k) xs \<and> 9 \<le> length xs \<and>
     page_aligned (kstack (procs k ! i)) \<and> unat (kstack (procs k ! i)) < 0x4000000000 \<and>
     \<not> bit (pte_at (ram (mem k)) (kernel_pagetable k) (pageno (kstack (procs k ! i)))) 0"

definition after_alloc :: "world \<Rightarrow> kernel \<Rightarrow> nat \<Rightarrow> nat \<Rightarrow> nat \<Rightarrow> phys \<Rightarrow> u64 \<Rightarrow> u64 \<Rightarrow> kernel" where
  "after_alloc W k i f1 f0 ph tf pt =
     k\<lparr>hart := push_off (hart k), nextpid := nextpid k + 1, mem := ph,
       files := (files k)[f1 := on_console (\<lambda>f. f\<lparr>writable := 1\<rparr>) (files k ! f1), f0 := on_console (\<lambda>f. f\<lparr>readable := 1\<rparr>) (files k ! f0)],
       procs := (procs k)[i := allocated_proc W (nextpid k + 1) tf pt f1 f0 ((procs k ! i)\<lparr>plock := held (plock (procs k ! i)) (hart k)\<rparr>)]\<rparr>"

lemma allocproc_spec:
  assumes r: "alloc_ready k i xs f1 f0"
  obtains tf pt ks ph ys where "allocproc W k = Inr (Some i, after_alloc W k i f1 f0 ph tf pt)"
    "fresh_space (mem k) (kernel_pagetable k) (kstack (procs k ! i)) (a_trampoline W) xs ph tf pt ks ys"
proof -
  note r = r [unfolded alloc_ready_def]
  have rest: "at_rest k" and len: "length (procs k) = NPROC" and i: "i < NPROC"
    using r by (auto simp: at_rest_def find_Some_iff)
  define k1 where "k1 = lock_slot i k"
  have f: "find_free_proc [0..<NPROC] k = Inr (Some i, k1)"
    using r find_free_proc_eq [OF rest, of "[0..<NPROC]"] by (simp add: k1_def del: NPROC_def)
  have h1: "hart_ok (hart k1)" "hart k1 = push_off (hart k)" "settled (hart k1) = hart k1"
    using rest push_off_ok [of "hart k"] settled_push_off [of "hart k"] by (simp_all add: k1_def lock_slot_def at_rest_def hart_ok_def)
  define k2 where "k2 = k1\<lparr>nextpid := nextpid k + 1\<rparr>"
  have "idle (pidlock k1)" "nextpid k1 = nextpid k" using r by (simp_all add: k1_def lock_slot_def)
  then have p: "allocpid k1 = Inr (nextpid k + 1, k2)" using allocpid_eq [of k1] h1 by (simp add: k2_def)
  let ?p = "(procs k ! i)\<lparr>plock := held (plock (procs k ! i)) (hart k)\<rparr>"
  have k2: "mem k2 = mem k" "kernel_pagetable k2 = kernel_pagetable k" "procs k2 ! i = ?p" "i < length (procs k2)" "files k2 = files k"
    using i len by (simp_all add: k2_def k1_def lock_slot_def)
  obtain tf ph1 pt ph2 ph3 ph4 ks ph5 ph6 ys where
    m: "kalloc (mem k) = (tf, ph1)" "uvmcreate ph1 = (pt, ph2)" "tf \<noteq> 0" "pt \<noteq> 0"
      "mappages pt (a_trampoline W) TRAMPOLINE PGSIZE PTE_RX ph2 = Inr (0, ph3)" "mappages pt tf TRAPFRAME PGSIZE PTE_RW ph3 = Inr (0, ph4)"
      "kalloc ph4 = (ks, ph5)" "mappages (kernel_pagetable k) ks (kstack (procs k ! i)) PGSIZE PTE_RW ph5 = Inr (0, ph6)"
      "fresh_space (mem k) (kernel_pagetable k) (kstack (procs k ! i)) (a_trampoline W) xs ph6 tf pt ks ys"
    using r by (elim conjE) (rule new_space)
  define k7 where "k7 = k2\<lparr>procs := (procs k2)[i := (procs k2 ! i)\<lparr>pid := nextpid k + 1, trapframe := tf,
        pagetable := pt, pcontext := \<lparr>ctx_s = replicate 12 0, ctx_ra = a_forkret W, ctx_sp = kstack (procs k2 ! i) + PGSIZE\<rparr>\<rparr>], mem := ph6\<rparr>"
  note tw = r [THEN conjunct2, THEN conjunct2, THEN conjunct2, THEN conjunct2, THEN conjunct1, unfolded two_files_def]
  define k8 where "k8 = set_proc i (\<lambda>p. p\<lparr>ofile := (ofile p)[1 := Some f1]\<rparr>)
      (k7\<lparr>files := (files k7)[f1 := on_console (\<lambda>f. f\<lparr>writable := 1\<rparr>) (files k7 ! f1)]\<rparr>)"
  define k9 where "k9 = set_proc i (\<lambda>p. p\<lparr>ofile := (ofile p)[0 := Some f0]\<rparr>)
      (k8\<lparr>files := (files k8)[f0 := on_console (\<lambda>f. f\<lparr>readable := 1\<rparr>) (files k8 ! f0)]\<rparr>)"
  have o1: "open_console i 1 (\<lambda>f. f\<lparr>writable := 1\<rparr>) k7 = Inr k8"
    unfolding k8_def using tw k2(5) by (intro open_console_eq) (auto simp: k7_def)
  have o0: "open_console i 0 (\<lambda>f. f\<lparr>readable := 1\<rparr>) k8 = Inr k9"
    unfolding k9_def using tw k2(5)
    by (intro open_console_eq) (auto simp: k8_def k7_def set_proc_def on_console_def nth_list_update)
  have al: "allocproc W k = Inr (Some i, set_proc i (\<lambda>p. p\<lparr>status := TASK_ALLOCATED\<rparr>) k9)"
    using m(1-8) o1 o0 k2 by (intro allocproc_found [OF f p k2(4), of tf ph1 pt ph2 W ph3 ph4 ks ph5 ph6]) (simp_all add: k7_def)
  have "set_proc i (\<lambda>p. p\<lparr>status := TASK_ALLOCATED\<rparr>) k9 = after_alloc W k i f1 f0 ph6 tf pt"
    using tw i len
    by (simp add: k9_def k8_def k7_def k2_def k1_def lock_slot_def set_proc_def after_alloc_def allocated_proc_def)
  with al m(9) show ?thesis using that by simp
qed

text \<open>The new process owns its memory.\<close>

lemma after_alloc_space:
  assumes r: "alloc_ready k i xs f1 f0" and sz: "sz (procs k ! i) = 0"
    and f: "fresh_space (mem k) (kernel_pagetable k) (kstack (procs k ! i)) (a_trampoline W) xs ph tf pt ks ys"
  shows "proc_space (after_alloc W k i f1 f0 ph tf pt) i ys"
    "owned (after_alloc W k i f1 f0 ph tf pt) i = {tf, ks} \<union> tables (ram ph) pt"
proof -
  let ?k = "after_alloc W k i f1 f0 ph tf pt" and ?va = "kstack (procs k ! i)" and ?root = "kernel_pagetable k"
  note f = f [unfolded fresh_space_def] and r = r [unfolded alloc_ready_def]
  have i: "i < length (procs k)" using r by (auto simp: at_rest_def find_Some_iff)
  have fields: "mem ?k = ph" "kernel_pagetable ?k = ?root" "trapframe (procs ?k ! i) = tf" "pagetable (procs ?k ! i) = pt"
      "sz (procs ?k ! i) = 0" "kstack (procs ?k ! i) = ?va"
    using i sz by (simp_all add: after_alloc_def allocated_proc_def)
  have va: "page_aligned ?va" "unat ?va < 0x4000000000" using r by simp_all
  then have va': "unat ?va + 4096 \<le> 0x4000000000" "pageno ?va < 2 ^ 27" using page_aligned_unat [OF va(1)] by simp_all
  have "page_aligned ks" using f by (simp add: managed_def)
  then have st: "stack_frames (ram ph) ?root ?va = [ks]"
    using f va'(2) mk_pte_RW unfolding stack_frames_def frames_1 by simp
  have uf: "user_frames (ram ph) pt 0 = []" by (simp add: user_frames_def space_pages_def)
  show "owned ?k i = {tf, ks} \<union> tables (ram ph) pt" unfolding owned_def fields st uf by auto
  show "proc_space ?k i ys"
    unfolding proc_space_def Let_def fields st uf using f va(1) va'(1) by simp
qed

end
