(* ===== verification/Syscall.thy ===== *)
theory Syscall
  imports Process
begin

text \<open>
  System calls: argument fetching and dispatch (\<open>kernel/syscall/syscall.c\<close>) and the calls themselves
  (\<open>sysproc.c\<close>, \<open>sysfile.c\<close>).
\<close>

section \<open>Arguments\<close>

definition current :: "string \<Rightarrow> kernel \<Rightarrow> (nat \<times> kernel) outcome" where
  "current what k =
     bindE (myproc k) (\<lambda>(p, k). case p of None \<Rightarrow> Inl (NullDeref what) | Some i \<Rightarrow> Inr (i, k))"

definition argraw :: "nat \<Rightarrow> kernel \<Rightarrow> (u64 \<times> kernel) outcome" where
  "argraw n k =
     bindE (myproc k) (\<lambda>(p, k).
     if n \<le> 5 then
       case p of None \<Rightarrow> Inl (NullDeref ''argraw: p->trapframe'')
       | Some i \<Rightarrow> Inr (tf_get (trapframe (procs k ! i)) (TF_a n) k, k)
     else Inl (Panic ''argraw''))"

definition argint :: "nat \<Rightarrow> kernel \<Rightarrow> (u32 \<times> kernel) outcome" where
  "argint n k = bindE (argraw n k) (\<lambda>(x, k). Inr (ucast x, k))"

definition argaddr :: "nat \<Rightarrow> kernel \<Rightarrow> (u64 \<times> kernel) outcome" where
  "argaddr n k = argraw n k"

text \<open>
  \<open>argstr\<close> copies page by page. The inner loop yields \<open>got_null\<close>, the advanced \<open>buf\<close> and the memory.
\<close>

primrec argstr_page :: "nat \<Rightarrow> u64 \<Rightarrow> u64 \<Rightarrow> memory \<Rightarrow> bool \<times> u64 \<times> memory" where
  "argstr_page 0 p buf m = (False, buf, m)"
| "argstr_page (Suc slice_size) p buf m =
     (let m = m(buf := m p) in
      if m p = 0 then (True, buf, m) else argstr_page slice_size (p + 1) (buf + 1) m)"

function argstr_loop :: "u64 \<Rightarrow> u64 \<Rightarrow> u64 \<Rightarrow> nat \<Rightarrow> phys \<Rightarrow> (bool \<times> u64 \<times> phys) outcome" where
  "argstr_loop root srcva buf mx ph =
     (if mx > 0 then
        let va0 = PGROUNDDOWN srcva in
        bindE (walkaddr root va0 ph) (\<lambda>pa0.
        if pa0 = 0 then Inr (False, buf, ph)
        else
          let slice_size = min (unat (PGSIZE - (srcva - va0))) mx;
              (got_null, buf, m) = argstr_page slice_size (pa0 + (srcva - va0)) buf (ram ph);
              ph = ph\<lparr>ram := m\<rparr>
          in if got_null then Inr (True, buf, ph)
             else argstr_loop root (va0 + PGSIZE) buf (mx - slice_size) ph)
      else Inr (False, buf, ph))"
  by pat_completeness auto
termination
proof (relation "measure (\<lambda>(root, srcva, buf, mx, ph). mx)", simp, goal_cases)
  case (1 root srcva buf mx ph)
  have "0 < unat (PGSIZE - (srcva - PGROUNDDOWN srcva))" by (simp add: page_remainder del: PGSIZE_def)
  with 1 show ?case by simp
qed

declare argstr_loop.simps [simp del]

definition argstr :: "nat \<Rightarrow> u64 \<Rightarrow> u32 \<Rightarrow> kernel \<Rightarrow> kernel outcome" where
  "argstr n buf mx k =
     bindE (current ''argstr: p->pagetable'' k) (\<lambda>(i, k).
     bindE (argaddr n k) (\<lambda>(srcva, k).
     if mx \<le>s 0 then Inr k
     else
       bindE (argstr_loop (pagetable (procs k ! i)) srcva buf (unat mx) (mem k)) (\<lambda>(got_null, buf, ph).
       let k = k\<lparr>mem := ph\<rparr> in
       Inr (if got_null then k else do_ram (\<lambda>m. m(buf := 0)) k))))"

section \<open>sysproc.c\<close>

definition bytes :: "string \<Rightarrow> u8 list" where "bytes s = map of_char s"

definition sys_getpid :: "kernel \<Rightarrow> (u64 \<times> kernel) outcome" where
  "sys_getpid k = bindE (current ''sys_getpid: p->pid'' k) (\<lambda>(i, k). Inr (scast (pid (procs k ! i)), k))"

definition sys_exit :: "world \<Rightarrow> kernel \<Rightarrow> (u64 \<times> kernel) outcome" where
  "sys_exit W k =
     bindE (current ''sys_exit: p->lock'' k) (\<lambda>(i, k).
     bindE (on_plock acquire i k) (\<lambda>k.
     let k = set_proc i (\<lambda>p. p\<lparr>status := TASK_ZOMBIE\<rparr>) k in
     bindE (current ''sys_exit: p->pid'' k) (\<lambda>(j, k).
     bindE (printf (bytes ''process %d exit'' @ [10]) [scast (pid (procs k ! j))] k) (\<lambda>k.
     bindE (swtch W k) (\<lambda>k. Inr (0, k))))))"

definition sys_yield :: "world \<Rightarrow> kernel \<Rightarrow> (u64 \<times> kernel) outcome" where
  "sys_yield W k = bindE (yield W k) (\<lambda>k. Inr (0, k))"

definition sys_fork :: "world \<Rightarrow> kernel \<Rightarrow> (u64 \<times> kernel) outcome" where
  "sys_fork W k = bindE (kfork W k) (\<lambda>(n, k). Inr (scast n, k))"

definition sys_wait :: "world \<Rightarrow> kernel \<Rightarrow> (u64 \<times> kernel) outcome" where
  "sys_wait W k = bindE (argaddr 0 k) (\<lambda>(p, k). bindE (kwait W p k) (\<lambda>(n, k). Inr (scast n, k)))"

text \<open>
  The loop of \<open>sys_exec\<close> that fetches the argument strings into the page \<open>argbuf\<close>, 128 bytes each.
  The result says whether it ended without \<open>goto bad\<close>.
\<close>

function sys_exec_args :: "world \<Rightarrow> u64 \<Rightarrow> u64 \<Rightarrow> nat \<Rightarrow> kernel \<Rightarrow> (bool \<times> kernel) outcome" where
  "sys_exec_args W argbuf uargv i k =
     (if i \<ge> MAXARG then Inr (False, k)
      else
        bindE (current ''sys_exec: p->pagetable'' k) (\<lambda>(p, k).
        bindE (on_mem (copyin (pagetable (procs k ! p)) (l_uarg W) (uargv + of_nat i * 8) 8) k) (\<lambda>(rc, k).
        if rc <s 0 then Inr (False, k)
        else
          let uarg = load64 (ram (mem k)) (l_uarg W) in
          if uarg = 0 then Inr (True, do_ram (store64 (l_argv W + 8 * of_nat i) 0) k)
          else
            let arg = argbuf + of_nat (MAXPATH * i) in
            bindE (current ''sys_exec: p->pagetable'' k) (\<lambda>(p, k).
            bindE (on_mem (copyinstr (pagetable (procs k ! p)) arg uarg (of_nat MAXPATH)) k) (\<lambda>(rc, k).
            if rc <s 0 then Inr (False, k)
            else sys_exec_args W argbuf uargv (i + 1) (do_ram (store64 (l_argv W + 8 * of_nat i) arg) k))))))"
  by pat_completeness auto
termination
  by (relation "measure (\<lambda>(W, argbuf, uargv, i, k). MAXARG - i)") auto

declare sys_exec_args.simps [simp del]

definition sys_exec :: "world \<Rightarrow> kernel \<Rightarrow> (u64 \<times> kernel) outcome" where
  "sys_exec W k =
     (let (argbuf, k) = do_kalloc k in
      if argbuf = 0 then Inr (- 1, k)
      else
        bindE (argaddr 1 k) (\<lambda>(uargv, k).
        bindE (argstr 0 (l_path W) (of_nat MAXPATH) k) (\<lambda>k.
        let k = do_ram (memset (l_argv W) 0 (8 * of_nat MAXARG)) k in
        bindE (sys_exec_args W argbuf uargv 0 k) (\<lambda>(ok, k).
        if ok then
          bindE (kexec W (l_path W) (l_argv W) k) (\<lambda>(i, k).
          bindE (do_mem (kfree argbuf) k) (\<lambda>k. Inr (scast i, k)))
        else bindE (do_mem (kfree argbuf) k) (\<lambda>k. Inr (- 1, k))))))"

definition sys_print0 :: "kernel \<Rightarrow> (u64 \<times> kernel) outcome" where
  "sys_print0 k = bindE (printf (bytes ''sys_print0 called'' @ [10]) [] k) (\<lambda>k. Inr (0, k))"

section \<open>sysfile.c\<close>

definition sys_write :: "world \<Rightarrow> kernel \<Rightarrow> (u64 \<times> kernel) outcome" where
  "sys_write W k =
     bindE (argaddr 1 k) (\<lambda>(srcva, k).
     bindE (argint 2 k) (\<lambda>(len, k).
     bindE (argint 0 k) (\<lambda>(fd, k).
     bindE (filewrite (l_write_buf W) fd srcva len k) (\<lambda>(n, k). Inr (scast n, k)))))"

definition sys_read :: "world \<Rightarrow> kernel \<Rightarrow> (u64 \<times> kernel) outcome" where
  "sys_read W k =
     bindE (argint 0 k) (\<lambda>(fd, k).
     bindE (argaddr 1 k) (\<lambda>(dstva, k).
     bindE (argint 2 k) (\<lambda>(len, k).
     bindE (fileread (keys W) (pipe_env W) (l_console_buf W) fd dstva len k) (\<lambda>(n, k). Inr (scast n, k)))))"

text \<open>The label \<open>bad\<close>: the descriptors taken so far are cleared and the files closed.\<close>

definition sys_pipe_bad :: "nat \<Rightarrow> u32 \<Rightarrow> u32 \<Rightarrow> nat option \<Rightarrow> nat option \<Rightarrow> kernel \<Rightarrow> (u64 \<times> kernel) outcome" where
  "sys_pipe_bad i fd0 fd1 rf wr k =
     (let clear = (\<lambda>fd. if \<not> fd <s 0 then set_proc i (\<lambda>p. p\<lparr>ofile := (ofile p)[unat fd := None]\<rparr>) else id);
          k = clear fd1 (clear fd0 k);
          k = (case rf of Some f \<Rightarrow> fileclose f k | None \<Rightarrow> k);
          k = (case wr of Some f \<Rightarrow> fileclose f k | None \<Rightarrow> k)
      in Inr (- 1, k))"

definition sys_pipe :: "world \<Rightarrow> kernel \<Rightarrow> (u64 \<times> kernel) outcome" where
  "sys_pipe W k =
     bindE (current ''sys_pipe: p->pagetable'' k) (\<lambda>(i, k).
     bindE (argaddr 0 k) (\<lambda>(fdarray, k).
     bindE (pipealloc k) (\<lambda>((rc, rf, wr), k).
     case (rf, wr) of
       (Some r, Some w) \<Rightarrow>
         if rc <s 0 then sys_pipe_bad i (- 1) (- 1) rf wr k
         else
           bindE (fdalloc r k) (\<lambda>(fd0, k).
           if fd0 <s 0 then sys_pipe_bad i fd0 (- 1) rf wr k
           else
             bindE (fdalloc w k) (\<lambda>(fd1, k).
             if fd1 <s 0 then sys_pipe_bad i fd0 fd1 rf wr k
             else
               let k = do_ram (store32 (l_fd W) fd0) k;
                   k = do_ram (store32 (l_fd W + 4) fd1) k
               in bindE (on_mem (copyout (pagetable (procs k ! i)) fdarray (l_fd W) 8) k) (\<lambda>(rc, k).
                  if rc <s 0 then sys_pipe_bad i fd0 fd1 rf wr k else Inr (0, k))))
     | _ \<Rightarrow> sys_pipe_bad i (- 1) (- 1) rf wr k)))"

section \<open>Dispatch\<close>

definition SYS_print0 :: nat where [simp]: "SYS_print0 = 0"
definition SYS_fork :: nat where [simp]: "SYS_fork = 1"
definition SYS_exit :: nat where [simp]: "SYS_exit = 2"
definition SYS_wait :: nat where [simp]: "SYS_wait = 3"
definition SYS_getpid :: nat where [simp]: "SYS_getpid = 11"
definition SYS_sbrk :: nat where [simp]: "SYS_sbrk = 12"
definition SYS_yield :: nat where [simp]: "SYS_yield = 13"
definition SYS_exec :: nat where [simp]: "SYS_exec = 14"
definition SYS_pipe :: nat where [simp]: "SYS_pipe = 15"
definition SYS_write :: nat where [simp]: "SYS_write = 16"
definition SYS_read :: nat where [simp]: "SYS_read = 17"
definition NSYSCALLS :: u32 where [simp]: "NSYSCALLS = 20"

definition syscalls :: "world \<Rightarrow> nat \<Rightarrow> (kernel \<Rightarrow> (u64 \<times> kernel) outcome) option" where
  "syscalls W num =
     (if num = SYS_getpid then Some sys_getpid
      else if num = SYS_exit then Some (sys_exit W)
      else if num = SYS_print0 then Some sys_print0
      else if num = SYS_write then Some (sys_write W)
      else if num = SYS_yield then Some (sys_yield W)
      else if num = SYS_fork then Some (sys_fork W)
      else if num = SYS_wait then Some (sys_wait W)
      else if num = SYS_exec then Some (sys_exec W)
      else if num = SYS_pipe then Some (sys_pipe W)
      else if num = SYS_read then Some (sys_read W)
      else None)"

definition syscall :: "world \<Rightarrow> kernel \<Rightarrow> kernel outcome" where
  "syscall W k =
     bindE (current ''syscall: p->trapframe'' k) (\<lambda>(i, k).
     let num = ucast (tf_get (trapframe (procs k ! i)) (TF_a 7) k) :: u32 in
     case (if \<not> num <s 0 \<and> num < NSYSCALLS then syscalls W (unat num) else None) of
       Some call \<Rightarrow> bindE (call k) (\<lambda>(r, k). Inr (tf_set (trapframe (procs k ! i)) (TF_a 0) r k))
     | None \<Rightarrow>
         bindE (printf (bytes ''syscall: unknown num %d'' @ [10]) [scast num] k) (\<lambda>k.
         Inr (tf_set (trapframe (procs k ! i)) (TF_a 0) (- 1) k)))"

end
