(* ===== verification/Trap.thy ===== *)
theory Trap
  imports Syscall
begin

text \<open>
  Traps: \<open>kernel/trap/trap.c\<close>, with \<open>forkret\<close> of \<open>proc.c\<close>, which ends in \<open>usertrapret\<close>.
\<close>

section \<open>Devices\<close>

definition PLIC_PRIORITY :: u64 where "PLIC_PRIORITY = PLIC + 0x0"
definition PLIC_PENDING :: u64 where "PLIC_PENDING = PLIC + 0x1000"
definition PLIC_MENABLE :: "u64 \<Rightarrow> u64" where "PLIC_MENABLE h = PLIC + 0x2000 + h * 0x100"
definition PLIC_MPRIORITY :: "u64 \<Rightarrow> u64" where "PLIC_MPRIORITY h = PLIC + 0x200000 + h * 0x2000"
definition PLIC_MCLAIM :: "u64 \<Rightarrow> u64" where "PLIC_MCLAIM h = PLIC + 0x200004 + h * 0x2000"
definition PLIC_SENABLE :: "u64 \<Rightarrow> u64" where "PLIC_SENABLE h = PLIC + 0x2080 + h * 0x100"
definition PLIC_SPRIORITY :: "u64 \<Rightarrow> u64" where "PLIC_SPRIORITY h = PLIC + 0x201000 + h * 0x2000"
definition PLIC_SCLAIM :: "u64 \<Rightarrow> u64" where "PLIC_SCLAIM h = PLIC + 0x201004 + h * 0x2000"

definition mmio_write :: "u64 \<Rightarrow> u64 \<Rightarrow> kernel \<Rightarrow> kernel" where
  "mmio_write a v k = k\<lparr>mmio := mmio k @ [(a, v)]\<rparr>"

definition trapinithart :: "world \<Rightarrow> kernel \<Rightarrow> kernel" where
  "trapinithart W k =
     (let k = w_stvec (a_sys_trap_vector W) k;
          k = mmio_write (PLIC + ucast UART0_IRQ * 4) 1 k;
          k = mmio_write (UART0 + 1) 1 k;
          k = mmio_write (PLIC_SENABLE (r_tp k)) (push_bit (unat UART0_IRQ) 1) k
      in mmio_write (PLIC_SPRIORITY (r_tp k)) 0 k)"

section \<open>Interrupts\<close>

definition handle_timer_interrupt :: "world \<Rightarrow> kernel \<Rightarrow> kernel outcome" where
  "handle_timer_interrupt W k =
     (let k = w_sip (r_sip k AND NOT 2) k;
          k = k\<lparr>times := times k + 1\<rparr>
      in if times k = 10 then
           let k = k\<lparr>times := 0\<rparr> in
           bindE (myproc k) (\<lambda>(p, k).
           case p of None \<Rightarrow> Inr k
           | Some _ \<Rightarrow>
             bindE (current ''handle_timer_interrupt: p->status'' k) (\<lambda>(i, k).
             if status (procs k ! i) = TASK_RUNNING then yield W k else Inr k))
         else Inr k)"

text \<open>
  \<open>while(LSR & 1) console_intr(uart_getc());\<close>: the device holds \<open>n\<close> bytes, so the loop takes \<open>n\<close>
  turns.
\<close>

primrec drain_uart :: "nat \<Rightarrow> kernel \<Rightarrow> kernel outcome" where
  "drain_uart 0 k = Inr k"
| "drain_uart (Suc n) k = (let (c, k) = uart_getc k in bindE (console_intr c k) (drain_uart n))"

text \<open>Case 9 of both handlers. Reading the claim register takes the pending request.\<close>

definition external_interrupt :: "kernel \<Rightarrow> kernel outcome" where
  "external_interrupt k =
     (let hartid = hart_int (r_tp k);
          irq = plic_irq k;
          k = k\<lparr>plic_irq := 0\<rparr>
      in bindE (if irq = UART0_IRQ then drain_uart (length (uart_rx k)) k else Inr k) (\<lambda>k.
         Inr (if irq \<noteq> 0 then mmio_write (PLIC_SCLAIM hartid) (ucast irq) k else k)))"

definition interrupt :: "world \<Rightarrow> u64 \<Rightarrow> kernel \<Rightarrow> kernel outcome" where
  "interrupt W cause k =
     (let irq = cause AND 0xff in
      if irq = 1 then handle_timer_interrupt W k
      else if irq = 9 then external_interrupt k
      else printf (bytes ''sys_trap_handler: unknown interrupt irq=%ld'' @ [10]) [irq] k)"

definition sys_trap_handler :: "world \<Rightarrow> kernel \<Rightarrow> kernel outcome" where
  "sys_trap_handler W k =
     (let sepc = r_sepc k; sstatus = r_sstatus k; scause = r_scause k in
      if sstatus AND SSTATUS_SPP = 0 then Inl (Panic ''sys_trap_handler: not from supervisor mode'')
      else if intr_get (hart k) then Inl (Panic ''sys_trap_handler: entered with interrupts enabled'')
      else if bit scause 63 then
        bindE (interrupt W scause k) (\<lambda>k. Inr (w_sstatus sstatus (w_sepc sepc k)))
      else
        bindE (printf (bytes ''sys_trap_handler: exception! scause=%ld, sepc=%p, stval=%p'' @ [10])
                 [scause, sepc, r_stval k] k) (\<lambda>k.
        Inl (Panic ''sys_trap_handler: unexpected exception'')))"

section \<open>User traps\<close>

text \<open>
  \<open>usertrapret\<close> ends by jumping to \<open>userret\<close> in the trampoline with \<open>satp\<close> as its argument: the
  result is the target, the argument and the state.
\<close>

definition usertrapret :: "world \<Rightarrow> kernel \<Rightarrow> ((u64 \<times> u64) \<times> kernel) outcome" where
  "usertrapret W k =
     bindE (myproc k) (\<lambda>(me, k).
     let k = on_hart intr_off k;
         k = w_stvec (TRAMPOLINE + (a_uservec W - a_trampoline W)) k
     in case me of None \<Rightarrow> Inl (NullDeref ''usertrapret: p->trapframe'')
     | Some i \<Rightarrow>
       let p = procs k ! i; tf = trapframe p;
           k = tf_set tf TF_kernel_satp (r_satp k) k;
           k = tf_set tf TF_kernel_sp (kstack p + PGSIZE) k;
           k = tf_set tf TF_kernel_trap (a_usertrap W) k;
           k = tf_set tf TF_kernel_hartid (r_tp k) k;
           k = w_sepc (tf_get tf TF_epc k) k;
           x = r_sstatus k;
           x = x AND NOT SSTATUS_SPP;
           x = x OR SSTATUS_SPIE;
           k = w_sstatus x k
       in Inr ((TRAMPOLINE + (a_userret W - a_trampoline W), MAKE_SATP (pagetable p)), k))"

definition usertrap :: "world \<Rightarrow> kernel \<Rightarrow> ((u64 \<times> u64) \<times> kernel) outcome" where
  "usertrap W k =
     bindE (myproc k) (\<lambda>(me, k).
     let k = w_stvec (a_sys_trap_vector W) k;
         cause = r_scause k
     in case me of None \<Rightarrow> Inl (NullDeref ''usertrap: p->trapframe'')
     | Some i \<Rightarrow>
       let tf = trapframe (procs k ! i);
           k = tf_set tf TF_epc (r_sepc k) k
       in bindE
            (if cause = 8 then
               let k = on_hart intr_on k;
                   k = tf_set tf TF_epc (tf_get tf TF_epc k + 4) k
               in syscall W k
             else if bit cause 63 then interrupt W cause k
             else
               bindE (printf (bytes ''usertrap: unexpected scause=%x sepc=%p stval=%p'' @ [10])
                        [cause, tf_get tf TF_epc k, r_stval k] k) (\<lambda>k.
               Inl (Panic ''usertrap'')))
            (usertrapret W))"

definition forkret :: "world \<Rightarrow> kernel \<Rightarrow> ((u64 \<times> u64) \<times> kernel) outcome" where
  "forkret W k =
     bindE (current ''forkret: p->lock'' k) (\<lambda>(i, k).
     bindE (on_plock release i k) (usertrapret W))"

end
