(* ===== verification/Trap_Frame.thy ===== *)
theory Trap_Frame
  imports Trap Process_Table
begin

text \<open>
  The saved registers of a process as slots of its trap frame, and the way back to user mode.
\<close>

section \<open>Slots\<close>

lemma tf_get_set:
  assumes "page_aligned tf" "idx a" "idx b"
  shows "tf_get tf (8 * b) (tf_set tf (8 * a) v k) = (if a = b then v else tf_get tf (8 * b) k)"
  using pt_entry_store [OF assms(1,1,2,3), of v "ram (mem k)"]
  by (simp add: tf_get_def tf_set_def on_ram_def pt_entry_def pte_addr_def)

text \<open>The named fields as slots.\<close>

lemma tf_slots:
  "TF_kernel_satp = 8 * 0" "TF_kernel_sp = 8 * 1" "TF_kernel_trap = 8 * 2" "TF_epc = 8 * 3" "TF_kernel_hartid = 8 * 4"
  "TF_sp = 8 * 6" "TF_a n = 8 * (14 + of_nat n)"
  by (simp_all add: TF_kernel_satp_def TF_kernel_sp_def TF_kernel_trap_def TF_epc_def TF_kernel_hartid_def TF_sp_def TF_a_def algebra_simps)

lemma tf_set_fields [simp]:
  "procs (tf_set tf f v k) = procs k" "hart (tf_set tf f v k) = hart k" "csrs (tf_set tf f v k) = csrs k"
  by (simp_all add: tf_set_def)

lemma tf_get_cong: "mem k' = mem k \<Longrightarrow> tf_get tf f k' = tf_get tf f k"
  by (simp add: tf_get_def)

text \<open>The names of \<open>trapframe_layout\<close> stand where the offsets say.\<close>

lemma trapframe_offsets:
  "trapframe_layout ! 3 = ''epc''" "trapframe_layout ! 6 = ''sp''" "n < 8 \<Longrightarrow> trapframe_layout ! (14 + n) = ''a'' @ [char_of (48 + n)]"
  "8 * length trapframe_layout = unat TF_size"
proof -
  have "\<forall>n \<in> set [0..<8]. trapframe_layout ! (14 + n) = ''a'' @ [char_of (48 + n)]" by code_simp
  then show "n < 8 \<Longrightarrow> trapframe_layout ! (14 + n) = ''a'' @ [char_of (48 + n)]" by simp
qed (simp_all add: trapframe_layout_def TF_size_def)

section \<open>Back to user mode\<close>

lemma tf_get_frame [simp]:
  "tf_get tf f (on_csr g k) = tf_get tf f k" "tf_get tf f (on_hart g' k) = tf_get tf f k"
  "tf_get tf f (k\<lparr>hart := h\<rparr>) = tf_get tf f k"
  by (simp_all add: tf_get_def on_csr_def on_hart_def)

lemma frame_fields [simp]:
  "procs (on_csr g k) = procs k" "procs (on_hart g' k) = procs k" "hart (on_csr g k) = hart k" "csrs (on_hart g' k) = csrs k"
  "csrs (on_csr g k) = g (csrs k)" "hart (on_hart g' k) = g' (hart k)"
  "mem (on_csr g k) = mem k" "mem (on_hart g' k) = mem k"
  by (simp_all add: on_csr_def on_hart_def)

lemma tf_idx [simp]: "idx 0" "idx 1" "idx 2" "idx 3" "idx 4" "idx 14"
  by simp_all

text \<open>The trap frame and the registers that \<open>usertrapret\<close> leaves for the trampoline.\<close>

definition entry_frame :: "world \<Rightarrow> u64 \<Rightarrow> u64 \<Rightarrow> kernel \<Rightarrow> kernel" where
  "entry_frame W tf sp k =
     tf_set tf (8 * 4) (tp (hart k)) (tf_set tf (8 * 2) (a_usertrap W) (tf_set tf (8 * 1) sp (tf_set tf (8 * 0) (satp (csrs k)) k)))"

lemma entry_frame_get:
  assumes "page_aligned tf" "idx n"
  shows "tf_get tf (8 * n) (entry_frame W tf sp k) =
    (if n = 4 then tp (hart k) else if n = 2 then a_usertrap W else if n = 1 then sp else if n = 0 then satp (csrs k)
     else tf_get tf (8 * n) k)"
  unfolding entry_frame_def using assms by (simp only: tf_get_set tf_idx) auto

lemma entry_frame_fields [simp]:
  "procs (entry_frame W tf sp k) = procs k" "hart (entry_frame W tf sp k) = hart k" "csrs (entry_frame W tf sp k) = csrs k"
  by (simp_all add: entry_frame_def)

lemma usertrapret_eq:
  assumes "hart_ok (hart k)" "cpu_proc (hart k) = Some i" "tf = trapframe (procs k ! i)"
    and "k1 = on_csr (stvec_update (\<lambda>_. TRAMPOLINE + (a_uservec W - a_trampoline W)))
      (on_hart intr_off (k\<lparr>hart := settled (hart k)\<rparr>))"
    and "k2 = entry_frame W tf (kstack (procs k ! i) + PGSIZE) k1"
  shows "usertrapret W k = Inr ((TRAMPOLINE + (a_userret W - a_trampoline W), MAKE_SATP (pagetable (procs k ! i))),
    on_hart (sstatus_update (\<lambda>_. sstatus (hart k2) AND NOT SSTATUS_SPP OR SSTATUS_SPIE))
      (on_csr (sepc_update (\<lambda>_. tf_get tf TF_epc k2)) k2))"
  using assms(1,2)
  by (simp add: usertrapret_def myproc_eq Let_def w_stvec_def w_sepc_def w_sstatus_def r_satp_def r_tp_def r_sstatus_def
      assms(3-5) entry_frame_def tf_slots)

lemma user_sstatus:
  fixes s :: u64
  shows "\<not> bit (s AND NOT SSTATUS_SPP OR SSTATUS_SPIE) 8" "bit (s AND NOT SSTATUS_SPP OR SSTATUS_SPIE) 5"
    "bit (s AND NOT SSTATUS_SPP OR SSTATUS_SPIE) 1 = bit s 1"
  by (simp_all add: bit_simps bits)

lemma usertrapret_spec:
  assumes "hart_ok (hart k)" "cpu_proc (hart k) = Some i" "tf = trapframe (procs k ! i)" "page_aligned tf"
  shows "\<exists>k'. usertrapret W k =
      Inr ((TRAMPOLINE + (a_userret W - a_trampoline W), MAKE_SATP (pagetable (procs k ! i))), k') \<and>
    \<not> bit (sstatus (hart k')) 8 \<and> bit (sstatus (hart k')) 5 \<and> \<not> intr_get (hart k') \<and>
    sepc (csrs k') = tf_get tf TF_epc k \<and> stvec (csrs k') = TRAMPOLINE + (a_uservec W - a_trampoline W) \<and>
    tf_get tf TF_kernel_satp k' = satp (csrs k) \<and> tf_get tf TF_kernel_sp k' = kstack (procs k ! i) + PGSIZE \<and>
    tf_get tf TF_kernel_trap k' = a_usertrap W \<and> tf_get tf TF_kernel_hartid k' = tp (hart k) \<and>
    (\<forall>r. idx r \<and> r \<notin> {0, 1, 2, 4} \<longrightarrow> tf_get tf (8 * r) k' = tf_get tf (8 * r) k) \<and> procs k' = procs k"
proof -
  define k1 where "k1 = on_csr (stvec_update (\<lambda>_. TRAMPOLINE + (a_uservec W - a_trampoline W)))
      (on_hart intr_off (k\<lparr>hart := settled (hart k)\<rparr>))"
  define k2 where "k2 = entry_frame W tf (kstack (procs k ! i) + PGSIZE) k1"
  define k' where "k' = on_hart (sstatus_update (\<lambda>_. sstatus (hart k2) AND NOT SSTATUS_SPP OR SSTATUS_SPIE))
      (on_csr (sepc_update (\<lambda>_. tf_get tf TF_epc k2)) k2)"
  have eq: "usertrapret W k =
      Inr ((TRAMPOLINE + (a_userret W - a_trampoline W), MAKE_SATP (pagetable (procs k ! i))), k')"
    using usertrapret_eq [OF assms(1-3) k1_def k2_def] by (simp add: k'_def)
  have off: "\<not> bit (sstatus (hart k2)) 1"
    using intr_simps(2) [of "settled (hart k)"] by (simp add: k2_def k1_def intr_get_iff)
  have get: "tf_get tf (8 * n) k' = (if n = 4 then tp (hart k) else if n = 2 then a_usertrap W
      else if n = 1 then kstack (procs k ! i) + PGSIZE else if n = 0 then satp (csrs k) else tf_get tf (8 * n) k)" if "idx n" for n
    using entry_frame_get [OF assms(4) that, of W "kstack (procs k ! i) + PGSIZE" k1] by (simp add: k'_def k2_def k1_def)
  have "tf_get tf TF_epc k2 = tf_get tf TF_epc k"
    using entry_frame_get [OF assms(4), of 3 W "kstack (procs k ! i) + PGSIZE" k1] by (simp only: k2_def tf_slots) (simp add: k1_def)
  then show ?thesis
    using eq user_sstatus [of "sstatus (hart k2)"] off get [of 0] get [of 1] get [of 2] get [of 4] get
    by (intro exI [of _ k']) (simp add: k'_def k2_def k1_def intr_get_iff tf_slots)
qed

section \<open>getpid\<close>

text \<open>
  From the trap to \<open>usertrapret\<close>: the saved \<open>epc\<close> is behind the \<open>ecall\<close> and \<open>a0\<close> holds the pid.
\<close>

lemma getpid_call:
  assumes "noff (hart k) = 0" "cpu_proc (hart k) = Some i" "tf = trapframe (procs k ! i)" "page_aligned tf"
    and "scause (csrs k) = 8" "ucast (tf_get tf (TF_a 7) k) = (11 :: u32)"
  shows "\<exists>k5. usertrap W k = usertrapret W k5 \<and> hart_ok (hart k5) \<and> cpu_proc (hart k5) = Some i \<and> procs k5 = procs k \<and>
    (\<forall>r. idx r \<longrightarrow> tf_get tf (8 * r) k5 =
      (if r = 14 then scast (pid (procs k ! i)) else if r = 3 then sepc (csrs k) + 4 else tf_get tf (8 * r) k))"
proof -
  have ok: "hart_ok h" if "noff h = 0" for h using that by (simp add: hart_ok_def)
  define k1 where "k1 = on_csr (stvec_update (\<lambda>_. a_sys_trap_vector W)) (k\<lparr>hart := settled (hart k)\<rparr>)"
  define k2 where "k2 = on_hart intr_on (tf_set tf (8 * 3) (sepc (csrs k)) k1)"
  define k3 where "k3 = tf_set tf (8 * 3) (tf_get tf (8 * 3) k2 + 4) k2"
  define k4 where "k4 = k3\<lparr>hart := settled (hart k3)\<rparr>"
  define k5 where "k5 = tf_set tf (8 * 14) (scast (pid (procs k ! i))) k4"
  have h: "noff (hart k3) = 0" "cpu_proc (hart k3) = Some i" "procs k3 = procs k" "noff (hart k4) = 0"
      "cpu_proc (hart k4) = Some i" "procs k4 = procs k"
    using assms(1,2) by (simp_all add: k4_def k3_def k2_def k1_def)
  have c3: "current what k3 = Inr (i, k4)" for what
    using ok h by (simp add: current_def myproc_eq k4_def)
  have c4: "current what k4 = Inr (i, k4)" for what
    using ok h by (simp add: current_def myproc_eq) (simp add: k4_def)
  have g4: "tf_get tf (8 * r) k4 = (if r = 3 then sepc (csrs k) + 4 else tf_get tf (8 * r) k)" if "idx r" for r
  proof -
    have g2: "tf_get tf (8 * n) k2 = (if n = 3 then sepc (csrs k) else tf_get tf (8 * n) k)" if "idx n" for n
      unfolding k2_def tf_get_frame using tf_get_set [OF assms(4) _ that, of 3] by (auto simp: k1_def)
    have "tf_get tf (8 * r) k4 = tf_get tf (8 * r) k3" by (simp add: k4_def)
    also have "\<dots> = (if r = 3 then tf_get tf (8 * 3) k2 + 4 else tf_get tf (8 * r) k2)"
      unfolding k3_def using tf_get_set [OF assms(4) _ that, of 3] by auto
    finally show ?thesis using g2 [OF that] g2 [of 3] by simp
  qed
  have "tf_get tf (TF_a 7) k4 = tf_get tf (TF_a 7) k"
    using g4 [of 21] by (simp add: tf_slots)
  then have num: "ucast (tf_get tf (TF_a 7) k4) = (11 :: u32)" using assms(6) by simp
  have "\<not> (11 :: u32) <s 0" using sless_small [of 11 "0 :: u32"] by simp
  then have "syscall W k3 = Inr k5"
    using c3 c4 num h assms(3) by (simp add: syscall_def Let_def syscalls_def sys_getpid_def k5_def tf_slots)
  moreover have "usertrap W k = bindE (syscall W k3) (usertrapret W)"
    using ok [OF assms(1)] assms(2,3,5)
    by (simp add: usertrap_def myproc_eq Let_def w_stvec_def r_scause_def r_sepc_def k1_def k2_def k3_def tf_slots)
  moreover have "hart_ok (hart k5)" "cpu_proc (hart k5) = Some i" "procs k5 = procs k"
    using ok h by (simp_all add: k5_def)
  moreover have "tf_get tf (8 * r) k5 =
      (if r = 14 then scast (pid (procs k ! i)) else if r = 3 then sepc (csrs k) + 4 else tf_get tf (8 * r) k)" if "idx r" for r
    unfolding k5_def using tf_get_set [OF assms(4) _ that, of 14] g4 [OF that] by auto
  ultimately show ?thesis by (intro exI [of _ k5]) simp
qed

end
