(* ===== verification/Byte_Strings.thy ===== *)
theory Byte_Strings
  imports Kmem
begin

text \<open>
  Strings and arrays of strings in memory: what it takes that they are there, that two ranges of bytes do not
  meet, and a range replaced by given bytes.
\<close>

section \<open>Zero-terminated strings\<close>

lemma cstr_nth: "cstr m p s \<longleftrightarrow> (\<forall>i < length s. s ! i \<noteq> 0 \<and> m (p + of_nat i) = s ! i) \<and> m (p + of_nat (length s)) = 0"
  using cstr_append [of m p s "[]"] by simp

lemma cstr_cong:
  assumes "cstr m p s" "\<And>i. i \<le> length s \<Longrightarrow> m' (p + of_nat i) = m (p + of_nat i)"
  shows "cstr m' p s"
  using assms by (simp add: cstr_nth)

section \<open>Ranges of bytes\<close>

text \<open>The \<open>n\<close> bytes at \<open>p\<close> and the \<open>k\<close> bytes at \<open>q\<close> have no byte in common.\<close>

definition apart :: "u64 \<Rightarrow> nat \<Rightarrow> u64 \<Rightarrow> nat \<Rightarrow> bool" where
  "apart p n q k \<longleftrightarrow> (\<forall>i < n. \<not> unat (p + of_nat i - q) < k)"

lemma unat_small: "k < 2 ^ 63 \<Longrightarrow> unat (of_nat k :: u64) = k"
  unfolding unat_of_nat by simp

lemma apart_string:
  assumes "apart q l p n" "k < n" "n < 2 ^ 63" "a + d \<le> l"
  shows "\<not> unat (p + of_nat k - (q + of_nat a)) < d"
proof
  define u where "u = unat (p + of_nat k - (q + of_nat a))"
  assume "unat (p + of_nat k - (q + of_nat a)) < d"
  then have u: "u < d" by (simp add: u_def)
  have "p + of_nat k = q + of_nat (a + u)" by (simp add: u_def)
  then have "q + of_nat (a + u) - p = of_nat k" by (metis add_diff_cancel_left')
  then have "unat (q + of_nat (a + u) - p) < n" using assms(2,3) unat_small [of k] by simp
  moreover have "a + u < l" using assms(4) u by simp
  ultimately show False using assms(1) unfolding apart_def by blast
qed

lemma apart_array:
  assumes "apart q l p n" "j < l" "k + d \<le> n" "n < 2 ^ 63"
  shows "\<not> unat (q + of_nat j - (p + of_nat k)) < d"
proof
  define u where "u = unat (q + of_nat j - (p + of_nat k))"
  assume "unat (q + of_nat j - (p + of_nat k)) < d"
  then have u: "u < d" by (simp add: u_def)
  have "q + of_nat j - p = of_nat (k + u)" by (simp add: u_def)
  then have "unat (q + of_nat j - p) = k + u" using assms(3,4) u unat_small [of "k + u"] by simp
  moreover have "k + u < n" using assms(3) u by simp
  ultimately show False using assms(1,2) unfolding apart_def by metis
qed

lemma apart_suffix: "apart q l p n \<Longrightarrow> k + d \<le> n \<Longrightarrow> n < 2 ^ 63 \<Longrightarrow> apart q l (p + of_nat k) d"
  using apart_array by (simp add: apart_def [of q l "p + of_nat k"])

lemma behind:
  assumes "k < l" "l < 2 ^ 62" "d < 2 ^ 62"
  shows "\<not> unat (p + of_nat k - (p + of_nat l) :: u64) < d"
proof
  define u where "u = unat (p + of_nat k - (p + of_nat l) :: u64)"
  assume "unat (p + of_nat k - (p + of_nat l) :: u64) < d"
  then have u: "u < d" by (simp add: u_def)
  have "of_nat k = (of_nat (l + u) :: u64)" by (simp add: u_def)
  then have "unat (of_nat k :: u64) = unat (of_nat (l + u) :: u64)" by simp
  then show False using assms u unat_small [of k] unat_small [of "l + u"] by simp
qed

lemma within_range:
  assumes "unat (x - (p + of_nat a)) < d" "a + d \<le> e" "e < 2 ^ 63"
  shows "unat (x - p :: u64) < e"
proof -
  define u where "u = unat (x - (p + of_nat a))"
  have "x - p = of_nat (a + u)" by (simp add: u_def)
  moreover have "u < d" using assms(1) by (simp add: u_def)
  ultimately show ?thesis using assms(2,3) unat_small [of "a + u"] by simp
qed

lemma store64_other: "\<not> unat (x - a) < 8 \<Longrightarrow> store64 a v m x = m x"
  by (simp add: store_le_def)

section \<open>Bytes put in place\<close>

definition put_bytes :: "u64 \<Rightarrow> u8 list \<Rightarrow> memory \<Rightarrow> memory" where
  "put_bytes p cs m = (\<lambda>a. if unat (a - p) < length cs then cs ! unat (a - p) else m a)"

lemma put_bytes_at:
  "i < length cs \<Longrightarrow> length cs < 2 ^ 63 \<Longrightarrow> put_bytes p cs m (p + of_nat i) = cs ! i"
  "length cs \<le> i \<Longrightarrow> i < 2 ^ 63 \<Longrightarrow> put_bytes p cs m (p + of_nat i) = m (p + of_nat i)"
  using unat_small [of i] by (simp_all add: put_bytes_def)

lemma load_le_shift:
  "(\<And>i. i < k \<Longrightarrow> m (a + of_nat i) = m' (b + of_nat i)) \<Longrightarrow> load_le k m a = load_le k m' b"
  by (rule bit_word_eqI) (auto simp: bit_load_le)

section \<open>Arrays of strings\<close>

text \<open>\<open>argv\<close> holds the words \<open>ws\<close> and a null pointer.\<close>

definition argv_of :: "memory \<Rightarrow> u64 \<Rightarrow> u8 list list \<Rightarrow> bool" where
  "argv_of m argv ws \<longleftrightarrow> (\<forall>j < length ws. cstr m (load64 m (argv + of_nat (8 * j))) (ws ! j)) \<and>
     load64 m (argv + of_nat (8 * length ws)) = 0"

end
