(* ===== verification/Process_Fork.thy ===== *)
theory Process_Fork
  imports Process_Create Trap_Frame Byte_Strings
begin

text \<open>
  How \<open>kfork\<close> composes \<open>allocproc\<close>, \<open>uvmcopy\<close>, the copy of the trap frame and the shared descriptors
  into a child that owns its memory, beside a parent that keeps its own.
\<close>

section \<open>Processes that are not touched\<close>

lemma owned_managed:
  assumes "proc_space k i xs" "f \<in> owned k i"
  shows "managed (mem k) f" "f \<notin> set xs" "f \<notin> tables (ram (mem k)) (kernel_pagetable k)"
  using assms user_space_managed [of "mem k" "pagetable (procs k ! i)" "sz (procs k ! i)" xs f]
  by (auto simp: proc_space_def owned_def Let_def)

text \<open>A change outside the tables of a process leaves its space as it is, wherever the free pages went.\<close>

lemma user_space_agree:
  assumes sp: "user_space ph pt brk xs" and inv: "free_inv ph' ys" "end_address ph' = end_address ph"
    and at: "agree_on (pageno ` tables (ram ph) pt) (ram ph) (ram ph')"
    and ys: "set ys \<inter> (tables (ram ph) pt \<union> set (user_frames (ram ph) pt brk)) = {}"
  shows "user_space ph' pt brk ys" "tables (ram ph') pt = tables (ram ph) pt"
    "user_frames (ram ph') pt brk = user_frames (ram ph) pt brk" "pte_at (ram ph') pt w = pte_at (ram ph) pt w"
proof -
  note s = sp [unfolded user_space_def]
  have ok: "pt_ok ph pt xs" using s by simp
  have "set ys \<inter> tables (ram ph) pt = {}" using ys by auto
  note b = bystander_agree [OF ok inv at this]
  show t: "tables (ram ph') pt = tables (ram ph) pt" "pte_at (ram ph') pt w = pte_at (ram ph) pt w" by (rule b)+
  show f: "user_frames (ram ph') pt brk = user_frames (ram ph) pt brk"
    unfolding user_frames_def by (intro frames_cong b(3))
  have "pure_tree (ram ph') pt" using s b(4) pure_tree_kept by blast
  then show "user_space ph' pt brk ys"
    using s ys b(1,3) unfolding user_space_def f t(1) managed_end [OF inv(2)] by auto
qed

lemma user_space_kept:
  assumes sp: "user_space ph pt brk xs" and inv: "free_inv ph' ys" "end_address ph' = end_address ph"
    and ag: "agree_on (- pageno ` P) (ram ph) (ram ph')" "\<forall>p \<in> P. managed ph p" "P \<inter> tables (ram ph) pt = {}"
    and ys: "set ys \<inter> (tables (ram ph) pt \<union> set (user_frames (ram ph) pt brk)) = {}"
  shows "user_space ph' pt brk ys" "tables (ram ph') pt = tables (ram ph) pt"
    "user_frames (ram ph') pt brk = user_frames (ram ph) pt brk" "pte_at (ram ph') pt w = pte_at (ram ph) pt w"
proof -
  have "pageno ` tables (ram ph) pt \<subseteq> - pageno ` P"
    using sp ag(2,3) by (intro pageno_disjoint [of _ _ ph]) (auto simp: user_space_def pt_ok_def)
  then have "agree_on (pageno ` tables (ram ph) pt) (ram ph) (ram ph')" by (rule agree_on_subset [OF ag(1)])
  from user_space_agree [OF sp inv this ys]
  show "user_space ph' pt brk ys" "tables (ram ph') pt = tables (ram ph) pt"
    "user_frames (ram ph') pt brk = user_frames (ram ph) pt brk" "pte_at (ram ph') pt w = pte_at (ram ph) pt w" by blast+
qed

lemma proc_space_agree:
  assumes sp: "proc_space k i xs" and e: "end_address (mem k') = end_address (mem k)"
    and ag: "agree_on (pageno ` tables (ram (mem k)) (pagetable (procs k ! i))) (ram (mem k)) (ram (mem k'))"
    and root: "pt_ok (mem k') (kernel_pagetable k) ys" "(set ys \<union> tables (ram (mem k')) (kernel_pagetable k)) \<inter> owned k i = {}"
      "pte_at (ram (mem k')) (kernel_pagetable k) (pageno (kstack (procs k ! i))) =
        pte_at (ram (mem k)) (kernel_pagetable k) (pageno (kstack (procs k ! i)))"
    and fields: "kernel_pagetable k' = kernel_pagetable k" "trapframe (procs k' ! i) = trapframe (procs k ! i)"
      "pagetable (procs k' ! i) = pagetable (procs k ! i)" "sz (procs k' ! i) = sz (procs k ! i)" "kstack (procs k' ! i) = kstack (procs k ! i)"
  shows "proc_space k' i ys" "owned k' i = owned k i"
proof -
  note s = sp [unfolded proc_space_def Let_def]
  let ?m = "ram (mem k)" and ?m' = "ram (mem k')" and ?pt = "pagetable (procs k ! i)" and ?root = "kernel_pagetable k"
  have inv: "free_inv (mem k') ys" using root(1) by (simp add: pt_ok_def)
  have us: "user_space (mem k) ?pt (sz (procs k ! i)) xs" using s by simp
  have ys: "set ys \<inter> (tables ?m ?pt \<union> set (user_frames ?m ?pt (sz (procs k ! i)))) = {}" using root(2) unfolding owned_def by auto
  note u = user_space_agree [OF us inv e ag ys]
  have st: "stack_frames ?m' ?root (kstack (procs k ! i)) = stack_frames ?m ?root (kstack (procs k ! i))"
    unfolding stack_frames_def frames_1 root(3) ..
  show "owned k' i = owned k i" unfolding owned_def fields u(2,3) st ..
  show "proc_space k' i ys"
    using s u(1) root(1,2) managed_end [OF e] unfolding proc_space_def Let_def fields u(2,3) st owned_def by auto
qed

lemma proc_space_kept:
  assumes sp: "proc_space k i xs" and e: "end_address (mem k') = end_address (mem k)"
    and ag: "agree_on (- pageno ` P) (ram (mem k)) (ram (mem k'))" "\<forall>p \<in> P. managed (mem k) p"
      "P \<inter> tables (ram (mem k)) (pagetable (procs k ! i)) = {}"
    and root: "pt_ok (mem k') (kernel_pagetable k) ys" "(set ys \<union> tables (ram (mem k')) (kernel_pagetable k)) \<inter> owned k i = {}"
      "pte_at (ram (mem k')) (kernel_pagetable k) (pageno (kstack (procs k ! i))) =
        pte_at (ram (mem k)) (kernel_pagetable k) (pageno (kstack (procs k ! i)))"
    and fields: "kernel_pagetable k' = kernel_pagetable k" "trapframe (procs k' ! i) = trapframe (procs k ! i)"
      "pagetable (procs k' ! i) = pagetable (procs k ! i)" "sz (procs k' ! i) = sz (procs k ! i)" "kstack (procs k' ! i) = kstack (procs k ! i)"
  shows "proc_space k' i ys" "owned k' i = owned k i"
proof -
  have "pageno ` tables (ram (mem k)) (pagetable (procs k ! i)) \<subseteq> - pageno ` P"
    using sp ag(2,3) by (intro pageno_disjoint [of _ _ "mem k"]) (auto simp: proc_space_def Let_def user_space_def pt_ok_def)
  then have "agree_on (pageno ` tables (ram (mem k)) (pagetable (procs k ! i))) (ram (mem k)) (ram (mem k'))"
    by (rule agree_on_subset [OF ag(1)])
  from proc_space_agree [OF sp e this root fields] show "proc_space k' i ys" "owned k' i = owned k i" by blast+
qed

section \<open>The memory of the child\<close>

text \<open>What both ways out of \<open>uvmcopy\<close> have in common, for a child with \<open>n\<close> pages; after a failure it has none.\<close>

definition child_pages :: "u64 \<Rightarrow> phys \<Rightarrow> u64 list \<Rightarrow> phys \<Rightarrow> u64 list \<Rightarrow> nat \<Rightarrow> bool" where
  "child_pages new ph xs ph' ys n \<longleftrightarrow>
     pt_ok ph' new ys \<and> end_address ph' = end_address ph \<and> set ys \<subseteq> set xs \<and>
     distinct (frames (pte_at (ram ph') new) 0 n) \<and> set (frames (pte_at (ram ph') new) 0 n) \<subseteq> set xs \<and>
     set (frames (pte_at (ram ph') new) 0 n) \<inter> (set ys \<union> tables (ram ph') new) = {} \<and>
     set xs \<union> tables (ram ph) new = set ys \<union> tables (ram ph') new \<union> set (frames (pte_at (ram ph') new) 0 n) \<and>
     (\<forall>w < 2 ^ 27. n \<le> w \<longrightarrow> bit (pte_at (ram ph') new w) 0 \<longrightarrow> bit (pte_at (ram ph) new w) 0) \<and>
     agree_on (- pageno ` (tables (ram ph) new \<union> set xs)) (ram ph) (ram ph') \<and>
     (pure_tree (ram ph) new \<longrightarrow> pure_tree (ram ph') new)"

lemma child_pages_copied: "child_inv old new ph xs ph' ys n \<Longrightarrow> child_pages new ph xs ph' ys n"
  by (simp add: child_inv_def child_pages_def)

lemma child_pages_undone: "child_undone new ph xs ph' \<Longrightarrow> \<exists>ys. child_pages new ph xs ph' ys 0"
  unfolding child_undone_def child_pages_def by (auto split: if_splits)

text \<open>A new space after \<open>uvmcopy\<close>.\<close>

lemma fresh_child:
  assumes f: "fresh_space ph0 root va tr xs ph tf pt ks ys"
    and c: "child_pages pt ph ys ph' zs (space_pages brk)" and brk: "unat brk \<le> unat TRAPFRAME"
  shows "pt_ok ph' root zs" "user_space ph' pt brk zs" "tables (ram ph') root = tables (ram ph) root"
    "pte_at (ram ph') root w = pte_at (ram ph) root w" "tables (ram ph') pt \<union> set (user_frames (ram ph') pt brk) \<subseteq> set xs"
    "tf \<notin> set zs \<union> tables (ram ph') pt \<union> set (user_frames (ram ph') pt brk)"
    "ks \<notin> set zs \<union> tables (ram ph') pt \<union> set (user_frames (ram ph') pt brk)" "set zs \<subseteq> set xs"
    "tables (ram ph') root \<inter> (tables (ram ph') pt \<union> set (user_frames (ram ph') pt brk)) = {}"
    "agree_on (- pageno ` set xs) (ram ph) (ram ph')"
    "set ys \<union> tables (ram ph) pt = set zs \<union> tables (ram ph') pt \<union> set (user_frames (ram ph') pt brk)"
proof -
  note f = f [unfolded fresh_space_def] and c = c [unfolded child_pages_def]
  have uf: "user_frames (ram ph') pt brk = frames (pte_at (ram ph') pt) 0 (space_pages brk)" by (simp add: user_frames_def)
  have okr: "pt_ok ph root ys" and us: "user_space ph pt 0 ys" using f by simp_all
  have inv: "free_inv ph' zs" using c by (simp add: pt_ok_def)
  have e: "end_address ph' = end_address ph" and sub: "set zs \<subseteq> set ys" "set ys \<subseteq> set xs" "tables (ram ph) pt \<subseteq> set xs" using c f by simp_all
  have ag: "agree_on (- pageno ` (tables (ram ph) pt \<union> set ys)) (ram ph) (ram ph')" using c by blast
  show "agree_on (- pageno ` set xs) (ram ph) (ram ph')" by (rule agree_on_subset [OF ag]) (use sub in auto)
  have P: "\<forall>p \<in> tables (ram ph) pt \<union> set ys. managed ph p" "(tables (ram ph) pt \<union> set ys) \<inter> tables (ram ph) root = {}"
    using f us by (auto simp: user_space_def pt_ok_def free_inv_def)
  have "set zs \<inter> tables (ram ph) root = {}" using P(2) sub(1) by auto
  note b = bystander [OF okr inv e ag P this]
  show "pt_ok ph' root zs" "pte_at (ram ph') root w = pte_at (ram ph) root w" by (rule b)+
  show r: "tables (ram ph') root = tables (ram ph) root" by (rule b)
  show un: "set ys \<union> tables (ram ph) pt = set zs \<union> tables (ram ph') pt \<union> set (user_frames (ram ph') pt brk)" using c uf by simp
  show "tables (ram ph') pt \<union> set (user_frames (ram ph') pt brk) \<subseteq> set xs" "set zs \<subseteq> set xs" using un sub by auto
  show "tables (ram ph') root \<inter> (tables (ram ph') pt \<union> set (user_frames (ram ph') pt brk)) = {}" using un P(2) r by auto
  show "tf \<notin> set zs \<union> tables (ram ph') pt \<union> set (user_frames (ram ph') pt brk)"
    "ks \<notin> set zs \<union> tables (ram ph') pt \<union> set (user_frames (ram ph') pt brk)" using f unfolding un [symmetric] by auto
  have "\<forall>w < 2 ^ 27. bit (pte_at (ram ph') pt w) 0 \<longrightarrow> w < space_pages brk \<or> w = pageno TRAMPOLINE \<or> w = pageno TRAPFRAME"
  proof (intro allI impI)
    fix w :: nat assume w: "w < 2 ^ 27" "bit (pte_at (ram ph') pt w) 0"
    show "w < space_pages brk \<or> w = pageno TRAMPOLINE \<or> w = pageno TRAPFRAME"
    proof (cases "w < space_pages brk")
      case False
      then have "bit (pte_at (ram ph) pt w) 0" using c w by simp
      then show ?thesis using f w(1) by (auto simp: new_ptes_def split: if_splits)
    qed simp
  qed
  moreover have "managed ph' g \<and> g \<notin> set zs \<and> g \<notin> tables (ram ph') pt" if "g \<in> set (user_frames (ram ph') pt brk)" for g
  proof -
    have "g \<in> set ys" using that c uf by auto
    then have "managed ph g" using P(1) by blast
    then show ?thesis using that c uf managed_end [OF e] by auto
  qed
  moreover have "pure_tree (ram ph') pt" using c us by (simp add: user_space_def)
  ultimately show "user_space ph' pt brk zs" using c brk uf unfolding user_space_def by simp
qed

text \<open>
  \<open>grown k c xs k' zs\<close>: from \<open>k\<close> with the free pages \<open>xs\<close>, slot \<open>c\<close> has got a space of its own out of \<open>xs\<close>; the
  kernel's table maps its stack, and memory outside the kernel's table and \<open>xs\<close> is as it was.
\<close>

definition grown :: "kernel \<Rightarrow> nat \<Rightarrow> u64 list \<Rightarrow> kernel \<Rightarrow> u64 list \<Rightarrow> bool" where
  "grown k c xs k' zs \<longleftrightarrow>
     (let m = ram (mem k); m' = ram (mem k'); root = kernel_pagetable k
      in proc_space k' c zs \<and> owned k' c \<subseteq> set xs \<and> set zs \<subseteq> set xs \<and> kernel_pagetable k' = root \<and>
         end_address (mem k') = end_address (mem k) \<and> tables m' root \<subseteq> tables m root \<union> set xs \<and>
         set xs \<union> tables m root = set zs \<union> owned k' c \<union> tables m' root \<and>
         (\<forall>w < 2 ^ 27. w \<noteq> pageno (kstack (procs k ! c)) \<longrightarrow> pte_at m' root w = pte_at m root w) \<and>
         agree_on (- pageno ` (set xs \<union> tables m root)) m m')"

lemma grown_child:
  assumes f: "fresh_space (mem k) (kernel_pagetable k) va tr xs ph tf pt ks ys"
    and c: "child_pages pt ph ys ph' zs (space_pages brk)" and brk: "unat brk \<le> unat TRAPFRAME"
    and va: "page_aligned va" "unat va + 4096 \<le> 0x4000000000" "va = kstack (procs k ! c)"
    and m': "mem k' = ph'\<lparr>ram := ram (mem k')\<rparr>" "agree_on (- {pageno tf}) (ram ph') (ram (mem k'))"
    and k': "kernel_pagetable k' = kernel_pagetable k" "trapframe (procs k' ! c) = tf" "pagetable (procs k' ! c) = pt"
      "sz (procs k' ! c) = brk" "kstack (procs k' ! c) = va"
  shows "grown k c xs k' zs"
proof -
  let ?root = "kernel_pagetable k" and ?m = "ram (mem k')"
  note h = fresh_child [OF f c brk]
  note f = f [unfolded fresh_space_def]
  have m: "agree_on (- {pageno tf}) (ram ph') ?m" "end_address (mem k') = end_address ph'" using m' by (simp, metis phys.select_convs(3) phys.update_convs(1) phys.surjective)
  have e: "end_address ph' = end_address ph" "end_address ph = end_address (mem k)" using c f by (simp_all add: child_pages_def)
  have man: "managed (mem k') = managed ph" using m(2) e by (simp add: managed_def fun_eq_iff)
  have tf: "managed ph' tf" "managed ph tf" "tf \<notin> tables (ram ph') ?root" using f h(3) e by (simp_all add: managed_def)
  have out: "pageno ` A \<subseteq> - {pageno tf}" if "\<forall>a \<in> A. managed ph' a" "tf \<notin> A" for A
    using that tf(1) pageno_inj_managed by fastforce
  have ok: "pt_ok ph' pt zs" "pt_ok ph' ?root zs" using h(1,2) by (simp_all add: user_space_def)
  have "\<forall>a \<in> set zs. managed ph' a" using ok by (auto simp: pt_ok_def free_inv_def)
  then have "agree_on (pageno ` set zs) (ram ph') ?m" using h(6) by (intro agree_on_subset [OF m(1)] out) auto
  then have inv: "free_inv (mem k') zs" using ok free_inv_frame [of ph' zs ?m] m'(1) by (simp add: pt_ok_def)
  have P: "agree_on (- pageno ` {tf}) (ram ph') ?m" "\<forall>p \<in> {tf}. managed ph' p" using m(1) tf(1) by simp_all
  have zr: "set zs \<inter> tables (ram ph') ?root = {}" "{tf} \<inter> tables (ram ph') ?root = {}" using ok tf(3) by (auto simp: pt_ok_def)
  note b = bystander [OF ok(2) inv m(2) P zr(2,1)]
  have zp: "set zs \<inter> (tables (ram ph') pt \<union> set (user_frames (ram ph') pt brk)) = {}" "{tf} \<inter> tables (ram ph') pt = {}"
    using h(2,6) by (auto simp: user_space_def pt_ok_def)
  note u = user_space_kept [OF h(2) inv m(2) P zp(2,1)]
  have w: "pageno va < 2 ^ 27" using va page_aligned_unat [OF va(1)] by simp
  have st: "stack_frames ?m ?root va = [ks]"
    using f mk_pte_RW [of ks] w unfolding stack_frames_def frames_1 b(3) h(4) by (simp add: managed_def)
  have root: "\<forall>w < 2 ^ 27. pte_at ?m ?root w = (if w = pageno va then mk_pte ks PTE_RW else pte_at (ram (mem k)) ?root w)"
    using f unfolding b(3) h(4) by blast
  have own: "owned k' c = {tf, ks} \<union> tables (ram ph') pt \<union> set (user_frames (ram ph') pt brk)"
    unfolding owned_def k' st u(2,3) by auto
  have ps: "proc_space k' c zs"
    unfolding proc_space_def Let_def k' st u(2,3) b(2)
    using b(1) u(1) h(2,3,6,7,9) f va(1,2) man e by (auto simp: user_space_def managed_def)
  have ag: "agree_on (- pageno ` (set xs \<union> tables (ram (mem k)) ?root)) (ram (mem k)) ?m"
  proof (rule agree_on_trans, rule agree_on_trans)
    show "agree_on (- pageno ` (set xs \<union> tables (ram (mem k)) ?root)) (ram (mem k)) (ram ph)" using f by blast
    show "agree_on (- pageno ` (set xs \<union> tables (ram (mem k)) ?root)) (ram ph) (ram ph')" by (rule agree_on_subset [OF h(10)]) auto
    show "agree_on (- pageno ` (set xs \<union> tables (ram (mem k)) ?root)) (ram ph') ?m" by (rule agree_on_subset [OF m(1)]) (use f in auto)
  qed
  have "owned k' c \<subseteq> set xs" "tables ?m ?root \<subseteq> tables (ram (mem k)) ?root \<union> set xs" using own h(3,5) f b(2) by auto
  moreover have "set xs \<union> tables (ram (mem k)) ?root = set zs \<union> owned k' c \<union> tables ?m ?root"
    using f h(3,11) b(2) own by auto
  ultimately show ?thesis using ps h(8) k'(1) m(2) e root ag va(3) unfolding grown_def Let_def by simp
qed

text \<open>The other processes keep their spaces.\<close>

lemma grown_other:
  assumes g: "grown k c xs k' zs" and sp: "proc_space k i xs" and va: "kstack (procs k ! i) \<noteq> kstack (procs k ! c)"
      "page_aligned (kstack (procs k ! c))"
    and fields: "trapframe (procs k' ! i) = trapframe (procs k ! i)" "pagetable (procs k' ! i) = pagetable (procs k ! i)"
      "sz (procs k' ! i) = sz (procs k ! i)" "kstack (procs k' ! i) = kstack (procs k ! i)"
  shows "proc_space k' i zs" "owned k' i = owned k i" "owned k i \<inter> owned k' c = {}"
    "agree_on (pageno ` owned k i) (ram (mem k)) (ram (mem k'))"
proof -
  note g = g [unfolded grown_def Let_def] and s = sp [unfolded proc_space_def Let_def]
  let ?P = "set xs \<union> tables (ram (mem k)) (kernel_pagetable k)"
  have okr: "pt_ok (mem k) (kernel_pagetable k) xs" using s by simp
  then have P: "\<forall>p \<in> ?P. managed (mem k) p" by (auto simp: pt_ok_def free_inv_def)
  have out: "owned k i \<inter> ?P = {}" using owned_managed [OF sp] by blast
  have "tables (ram (mem k)) (pagetable (procs k ! i)) \<subseteq> owned k i" by (auto simp: owned_def)
  then have dis: "?P \<inter> tables (ram (mem k)) (pagetable (procs k ! i)) = {}" using out by blast
  have "kernel_pagetable k' = kernel_pagetable k" "proc_space k' c zs" using g by blast+
  then have okr': "pt_ok (mem k') (kernel_pagetable k) zs" by (simp add: proc_space_def Let_def)
  have free: "(set zs \<union> tables (ram (mem k')) (kernel_pagetable k)) \<inter> owned k i = {}" using g out by blast
  have "pageno (kstack (procs k ! i)) \<noteq> pageno (kstack (procs k ! c))" using s va page_aligned_eqI by blast
  moreover have "pageno (kstack (procs k ! i)) < 2 ^ 27" using s page_aligned_unat [of "kstack (procs k ! i)"] by simp
  ultimately have pte: "pte_at (ram (mem k')) (kernel_pagetable k) (pageno (kstack (procs k ! i))) =
      pte_at (ram (mem k)) (kernel_pagetable k) (pageno (kstack (procs k ! i)))" using g by blast
  have e: "end_address (mem k') = end_address (mem k)" "kernel_pagetable k' = kernel_pagetable k"
    and ag: "agree_on (- pageno ` ?P) (ram (mem k)) (ram (mem k'))" using g by blast+
  show "proc_space k' i zs" "owned k' i = owned k i"
    by (rule proc_space_kept [OF sp e(1) ag P dis okr' free pte e(2) fields])+
  show "owned k i \<inter> owned k' c = {}" using g out by blast
  have "pageno ` owned k i \<subseteq> - pageno ` ?P"
    using P owned_managed(1) [OF sp] out by (intro pageno_disjoint [of _ _ "mem k"]) auto
  then show "agree_on (pageno ` owned k i) (ram (mem k)) (ram (mem k'))" by (rule agree_on_subset [OF ag])
qed

text \<open>The parent is a parent as \<open>uvmcopy\<close> wants it.\<close>

lemma fresh_parent:
  assumes sp: "proc_space k p xs" and f: "fresh_space (mem k) (kernel_pagetable k) va tr xs ph tf pt ks ys"
  defines "old \<equiv> pagetable (procs k ! p)" and "n \<equiv> space_pages (sz (procs k ! p))"
  shows "parent_ok old pt ph ys n" "\<forall>w < n. \<not> bit (pte_at (ram ph) pt w) 0" "pte_at (ram ph) old w = pte_at (ram (mem k)) old w"
    "user_frames (ram ph) old (sz (procs k ! p)) = user_frames (ram (mem k)) old (sz (procs k ! p))"
proof -
  note f = f [unfolded fresh_space_def] and s = sp [unfolded proc_space_def Let_def]
  let ?P = "set xs \<union> tables (ram (mem k)) (kernel_pagetable k)"
  have us: "user_space (mem k) old (sz (procs k ! p)) xs" and okr: "pt_ok (mem k) (kernel_pagetable k) xs"
    using s by (simp_all add: old_def)
  have inv: "free_inv ph ys" "end_address ph = end_address (mem k)" using f by (simp_all add: pt_ok_def)
  have ag: "agree_on (- pageno ` ?P) (ram (mem k)) (ram ph)" using f by blast
  have P: "\<forall>q \<in> ?P. managed (mem k) q" using okr by (auto simp: pt_ok_def free_inv_def)
  have own: "q \<in> owned k p" if "q \<in> tables (ram (mem k)) old \<union> set (user_frames (ram (mem k)) old (sz (procs k ! p)))" for q
    using that unfolding owned_def old_def by auto
  have out: "managed (mem k) q \<and> q \<notin> ?P" if "q \<in> tables (ram (mem k)) old \<union> set (user_frames (ram (mem k)) old (sz (procs k ! p)))" for q
    using owned_managed [OF sp own [OF that]] by simp
  have "set ys \<inter> (tables (ram (mem k)) old \<union> set (user_frames (ram (mem k)) old (sz (procs k ! p)))) = {}"
    using out f by blast
  moreover have "?P \<inter> tables (ram (mem k)) old = {}" using out by blast
  ultimately have u: "user_space ph old (sz (procs k ! p)) ys" "tables (ram ph) old = tables (ram (mem k)) old"
    "user_frames (ram ph) old (sz (procs k ! p)) = user_frames (ram (mem k)) old (sz (procs k ! p))"
    "pte_at (ram ph) old w = pte_at (ram (mem k)) old w" for w
    using user_space_kept [OF us inv ag P] by blast+
  show "pte_at (ram ph) old w = pte_at (ram (mem k)) old w"
    "user_frames (ram ph) old (sz (procs k ! p)) = user_frames (ram (mem k)) old (sz (procs k ! p))" by (rule u)+
  have fr: "frames (pte_at (ram ph) old) 0 n = user_frames (ram (mem k)) old (sz (procs k ! p))"
    using u(3) unfolding user_frames_def n_def by simp
  have "tables (ram ph) pt \<subseteq> set xs" "set ys \<subseteq> set xs" using f by simp_all
  then show "parent_ok old pt ph ys n"
    using out u(1) managed_end [OF inv(2)] unfolding parent_ok_def fr u(2)
    by (auto simp: user_space_def pt_ok_def)
  have "n \<le> 0x3fffffe" using us space_pages_le unfolding user_space_def n_def by simp
  then show "\<forall>w < n. \<not> bit (pte_at (ram ph) pt w) 0" using f trap_pages by (simp add: new_ptes_def)
qed

section \<open>The trap frame of the child\<close>

text \<open>The copy of the trap frame at \<open>b\<close> to \<open>a\<close>, with the result of the call set to 0.\<close>

definition child_frame :: "u64 \<Rightarrow> u64 \<Rightarrow> memory \<Rightarrow> memory" where
  "child_frame a b m = store64 (pte_addr a 14) 0 (memmove a b TF_size m)"

lemma child_frame:
  assumes al: "page_aligned a" "page_aligned b" and neq: "a \<noteq> b"
  shows "agree_on (- {pageno a}) m (child_frame a b m)"
    "unat r < 36 \<Longrightarrow> load64 (child_frame a b m) (a + 8 * r) = (if r = 14 then 0 else load64 m (b + 8 * r))"
proof -
  have "forward_safe a b 288"
  proof -
    have "\<not> unat (a - b) < 4096"
    proof
      assume "unat (a - b) < 4096"
      from pageno_page_offset [OF al(2) this] have "pageno a = pageno b" by simp
      then show False using page_aligned_eqI [OF al] neq by simp
    qed
    then show ?thesis by (simp add: forward_safe_def)
  qed
  then have mv: "memmove a b TF_size m = (\<lambda>x. if unat (x - a) < 288 then m (b + (x - a)) else m x)"
    using memmove_eq [of 288 a b m] by (simp add: TF_size_def)
  have "pageno x = pageno a" if "unat (x - a) < 288" for x
    using pageno_page_offset [OF al(1), of "unat (x - a)"] that by simp
  then have "agree_on (- {pageno a}) m (memmove a b TF_size m)" unfolding mv agree_on_def by (metis Compl_iff singletonI)
  moreover have "agree_on (- {pageno a}) (memmove a b TF_size m) (child_frame a b m)"
    unfolding child_frame_def by (rule agree_on_pte_store [OF al(1)]) simp_all
  ultimately show "agree_on (- {pageno a}) m (child_frame a b m)" by (rule agree_on_trans)
  assume r: "unat r < 36"
  then have "unat r < 512" by simp
  then have "load64 (child_frame a b m) (pte_addr a r) = (if 14 = r then 0 else load64 (memmove a b TF_size m) (pte_addr a r))"
    unfolding child_frame_def by (simp add: load64_store64_slot [OF al(1,1)])
  moreover have "load64 (memmove a b TF_size m) (pte_addr a r) = load64 m (pte_addr b r)"
  proof (rule load_le_shift)
    fix i :: nat assume i: "i < 8"
    have "pte_addr a r + of_nat i - a = of_nat (8 * unat r + i)" by (simp add: pte_addr_def)
    moreover have "unat (of_nat (8 * unat r + i) :: u64) = 8 * unat r + i" using r i unfolding unat_of_nat by simp
    ultimately have lt: "unat (pte_addr a r + of_nat i - a) < 288" using r i by (simp only:)
    have eq: "b + (pte_addr a r + of_nat i - a) = pte_addr b r + of_nat i" by (simp add: pte_addr_def)
    show "memmove a b TF_size m (pte_addr a r + of_nat i) = m (pte_addr b r + of_nat i)"
      unfolding mv by (simp only: lt eq if_True)
  qed
  ultimately show "load64 (child_frame a b m) (a + 8 * r) = (if r = 14 then 0 else load64 m (b + 8 * r))"
    by (auto simp: pte_addr_def)
qed

section \<open>The descriptors of the child\<close>

text \<open>The parent's descriptors \<open>fds\<close> refer to files in use whose counts do not wrap.\<close>

definition shareable :: "kfile list \<Rightarrow> nat option list \<Rightarrow> nat list \<Rightarrow> bool" where
  "shareable fs fdt fds \<longleftrightarrow> (\<forall>fd \<in> set fds. \<forall>f. fdt ! fd = Some f \<longrightarrow>
     f < length fs \<and> ref (fs ! f) \<noteq> 0 \<and> unat (ref (fs ! f)) + length fds < 2 ^ 32)"

definition inherit_fds :: "nat option list \<Rightarrow> nat list \<Rightarrow> nat option list \<Rightarrow> nat option list" where
  "inherit_fds fdt fds own = map (\<lambda>fd. if fd \<in> set fds \<and> fdt ! fd \<noteq> None then fdt ! fd else own ! fd) [0..<length own]"

definition add_refs :: "nat option list \<Rightarrow> nat list \<Rightarrow> kfile list \<Rightarrow> kfile list" where
  "add_refs fdt fds fs = map (\<lambda>f. (fs ! f)\<lparr>ref := ref (fs ! f) + of_nat (count_list (map ((!) fdt) fds) (Some f))\<rparr>) [0..<length fs]"

lemma inherit_all:
  assumes "p \<noteq> c" "c < length (procs k)" "shareable (files k) (ofile (procs k ! p)) fds" "distinct fds"
  shows "fold (inherit_file p c) fds k = k\<lparr>files := add_refs (ofile (procs k ! p)) fds (files k),
    procs := (procs k)[c := (procs k ! c)\<lparr>ofile := inherit_fds (ofile (procs k ! p)) fds (ofile (procs k ! c))\<rparr>]\<rparr>"
  using assms
proof (induction fds arbitrary: k)
  case Nil
  have "inherit_fds fdt [] own = own" for fdt own by (simp add: inherit_fds_def map_nth)
  moreover have "add_refs fdt [] fs = fs" for fdt fs by (simp add: add_refs_def map_nth)
  ultimately show ?case by simp
next
  case (Cons fd fds)
  let ?O = "ofile (procs k ! p)"
  show ?case
  proof (cases "?O ! fd")
    case None
    then have "inherit_file p c fd k = k" by (simp add: inherit_file_def)
    moreover have "shareable (files k) ?O fds" using Cons.prems(3) by (auto simp: shareable_def)
    moreover have "inherit_fds ?O (fd # fds) own = inherit_fds ?O fds own" for own using None by (auto simp: inherit_fds_def)
    moreover have "add_refs ?O (fd # fds) fs = add_refs ?O fds fs" for fs using None by (auto simp: add_refs_def)
    ultimately show ?thesis using Cons.IH [of k] Cons.prems by simp
  next
    case (Some f)
    let ?k = "inherit_file p c fd k"
    have f: "f < length (files k)" "ref (files k ! f) \<noteq> 0" "unat (ref (files k ! f)) + Suc (length fds) < 2 ^ 32"
      using Cons.prems(3) Some by (simp_all add: shareable_def)
    have k: "?k = k\<lparr>files := (files k)[f := (files k ! f)\<lparr>ref := ref (files k ! f) + 1\<rparr>],
        procs := (procs k)[c := (procs k ! c)\<lparr>ofile := (ofile (procs k ! c))[fd := Some f]\<rparr>]\<rparr>"
      using Some f(2) by (simp add: inherit_file_def set_proc_def Let_def)
    have O: "ofile (procs ?k ! p) = ?O" using Cons.prems(1) by (simp add: k)
    have inc: "unat (ref (files k ! f) + 1) = unat (ref (files k ! f)) + 1"
      using f(3) by (simp add: unat_word_ariths)
    then have "ref (files k ! f) + 1 \<noteq> 0" by (metis add_is_0 one_neq_zero unat_0)
    then have "shareable (files ?k) ?O fds"
      using Cons.prems(3) f inc unfolding shareable_def k by (auto simp: nth_list_update)
    then have "fold (inherit_file p c) fds ?k = ?k\<lparr>files := add_refs ?O fds (files ?k),
        procs := (procs ?k)[c := (procs ?k ! c)\<lparr>ofile := inherit_fds ?O fds (ofile (procs ?k ! c))\<rparr>]\<rparr>"
      using Cons.IH [of ?k, unfolded O] Cons.prems by (simp add: k)
    moreover have "add_refs ?O fds (files ?k) = add_refs ?O (fd # fds) (files k)"
      using Some f(1) by (auto simp: add_refs_def k nth_list_update algebra_simps intro!: nth_equalityI)
    moreover have "inherit_fds ?O fds (ofile (procs ?k ! c)) = inherit_fds ?O (fd # fds) (ofile (procs k ! c))"
    proof (rule nth_equalityI)
      fix x assume "x < length (inherit_fds ?O fds (ofile (procs ?k ! c)))"
      then show "inherit_fds ?O fds (ofile (procs ?k ! c)) ! x = inherit_fds ?O (fd # fds) (ofile (procs k ! c)) ! x"
        using Some Cons.prems(2,4) by (cases "x = fd") (auto simp: inherit_fds_def k)
    qed (use Cons.prems(2) in \<open>simp add: inherit_fds_def k\<close>)
    ultimately show ?thesis using Cons.prems(2) by (simp add: k)
  qed
qed

section \<open>fork\<close>

text \<open>The state after the calls of \<open>kfork\<close> up to the last \<open>release\<close>, from the state after \<open>allocproc\<close>.\<close>

definition forked :: "kernel \<Rightarrow> nat \<Rightarrow> nat \<Rightarrow> phys \<Rightarrow> kernel" where
  "forked k p c ph =
     k\<lparr>mem := on_ram (child_frame (trapframe (procs k ! c)) (trapframe (procs k ! p))) ph,
       files := add_refs (ofile (procs k ! p)) [0..<NOFILE] (files k),
       procs := (procs k)[c := (procs k ! c)\<lparr>sz := sz (procs k ! p), parent := Some p,
         ofile := inherit_fds (ofile (procs k ! p)) [0..<NOFILE] (ofile (procs k ! c)), status := TASK_READY\<rparr>]\<rparr>"

lemma kfork_eq:
  assumes "hart_ok (hart k)" "settled (hart k) = hart k" "cpu_proc (hart k) = Some p" "allocproc W k = Inr (Some c, k1)"
    and u: "uvmcopy (pagetable (procs k1 ! p)) (pagetable (procs k1 ! c)) (sz (procs k1 ! p)) (mem k1) = Inr (rc, ph)"
    and c: "p \<noteq> c" "c < length (procs k1)" and sh: "shareable (files k1) (ofile (procs k1 ! p)) [0..<NOFILE]"
  shows "kfork W k = (if rc \<noteq> 0 then bindE (on_plock release c (k1\<lparr>mem := ph\<rparr>)) (\<lambda>k. Inr (- 1, k))
    else bindE (on_plock release c (forked k1 p c ph)) (\<lambda>k. Inr (pid (procs k1 ! c), k)))"
proof -
  have m: "myproc k = Inr (Some p, k)" using assms(1-3) by (simp add: myproc_eq)
  have um: "on_mem (uvmcopy (pagetable (procs k1 ! p)) (pagetable (procs k1 ! c)) (sz (procs k1 ! p))) k1 = Inr (rc, k1\<lparr>mem := ph\<rparr>)"
    using u by (simp add: on_mem_def)
  define ka where "ka = set_proc c (\<lambda>q. q\<lparr>sz := sz (procs k1 ! p)\<rparr>) (k1\<lparr>mem := ph\<rparr>)"
  define kb where "kb = set_proc c (\<lambda>q. q\<lparr>parent := Some p\<rparr>)
    (tf_set (trapframe (procs ka ! c)) (TF_a 0) 0 (do_ram (memmove (trapframe (procs ka ! c)) (trapframe (procs ka ! p)) TF_size) ka))"
  define q where "q = (procs k1 ! c)\<lparr>sz := sz (procs k1 ! p), parent := Some p\<rparr>"
  have TF: "tf + TF_a 0 = pte_addr tf 14" for tf by (simp add: TF_a_def pte_addr_def)
  have kb: "kb = k1\<lparr>mem := on_ram (child_frame (trapframe (procs k1 ! c)) (trapframe (procs k1 ! p))) ph, procs := (procs k1)[c := q]\<rparr>"
    using c by (simp add: kb_def ka_def q_def set_proc_def do_ram_def tf_set_def TF on_ram_def child_frame_def)
  have bp: "procs kb ! p = procs k1 ! p" "procs kb ! c = q" "files kb = files k1" "c < length (procs kb)"
    using c by (simp_all add: kb)
  have f: "fold (inherit_file p c) [0..<NOFILE] kb = kb\<lparr>files := add_refs (ofile (procs k1 ! p)) [0..<NOFILE] (files k1),
      procs := (procs kb)[c := q\<lparr>ofile := inherit_fds (ofile (procs k1 ! p)) [0..<NOFILE] (ofile q)\<rparr>]\<rparr>"
    using inherit_all [of p c kb "[0..<NOFILE]"] c(1) sh bp by simp
  have oq: "ofile q = ofile (procs k1 ! c)" by (simp add: q_def)
  define kc where "kc = fold (inherit_file p c) [0..<NOFILE] kb"
  have kc: "kc = kb\<lparr>files := add_refs (ofile (procs k1 ! p)) [0..<NOFILE] (files k1),
      procs := (procs kb)[c := q\<lparr>ofile := inherit_fds (ofile (procs k1 ! p)) [0..<NOFILE] (ofile (procs k1 ! c))\<rparr>]\<rparr>"
    unfolding kc_def f oq ..
  have "set_proc c (\<lambda>q. q\<lparr>status := TASK_READY\<rparr>) kc = forked k1 p c ph" "pid (procs kc ! c) = pid (procs k1 ! c)"
    using c unfolding kc by (simp_all add: forked_def set_proc_def kb q_def)
  then show ?thesis
    unfolding kfork_def by (simp add: m assms(4) um Let_def ka_def [symmetric] kb_def [symmetric] kc_def [symmetric] del: NOFILE_def)
qed

text \<open>
  \<open>fork_ready\<close>: process \<open>p\<close> runs and owns its memory, slot \<open>c\<close> is the one \<open>allocproc\<close> finds, its size is 0, and the
  descriptors of \<open>p\<close> refer to files in use.
\<close>

definition fork_ready :: "kernel \<Rightarrow> nat \<Rightarrow> nat \<Rightarrow> u64 list \<Rightarrow> nat \<Rightarrow> nat \<Rightarrow> bool" where
  "fork_ready k p c xs f1 f0 \<longleftrightarrow>
     alloc_ready k c xs f1 f0 \<and> cpu_proc (hart k) = Some p \<and> p < NPROC \<and> p \<noteq> c \<and> proc_space k p xs \<and> sz (procs k ! c) = 0 \<and>
     kstack (procs k ! p) \<noteq> kstack (procs k ! c) \<and> shareable (files k) (ofile (procs k ! p)) [0..<NOFILE]"

text \<open>What the child's slot holds after a success.\<close>

definition child_slot :: "world \<Rightarrow> kernel \<Rightarrow> nat \<Rightarrow> nat \<Rightarrow> u64 \<Rightarrow> u64 \<Rightarrow> nat \<Rightarrow> nat \<Rightarrow> proc" where
  "child_slot W k p c tf pt f1 f0 = (allocated_proc W (nextpid k + 1) tf pt f1 f0 (procs k ! c))
     \<lparr>sz := sz (procs k ! p), parent := Some p, status := TASK_READY,
      ofile := inherit_fds (ofile (procs k ! p)) [0..<NOFILE] ((ofile (procs k ! c))[1 := Some f1, 0 := Some f0])\<rparr>"

lemma release_allocated:
  assumes "plock (procs k' ! c) = held lk (hart k)" "hart k' = push_off (hart k)" "idle lk" "hart_ok (hart k)" "settled (hart k) = hart k"
  shows "on_plock release c k' = Inr (k'\<lparr>procs := (procs k')[c := (procs k' ! c)\<lparr>plock := lk\<rparr>], hart := hart k\<rparr>)"
  using assms release_held [of lk "hart k"] by (simp add: on_plock_def)

lemma shareable_alloc:
  assumes sh: "shareable (files k) fdt fds" and two: "two_files k f1 f0"
  shows "shareable (files (after_alloc W k c f1 f0 ph tf pt)) fdt fds"
proof -
  have "f1 < length (files k)" "f0 < length (files k)" "ref (files k ! f1) = 0" "ref (files k ! f0) = 0"
    using two by (simp_all add: two_files_def)
  then show ?thesis
    using sh unfolding shareable_def after_alloc_def by (auto simp: nth_list_update)
qed

lemma copied_bytes:
  assumes i: "child_inv old pt ph ys ph' zs n" and w: "w < n" "bit (pte_at (ram ph) old w) 0"
    and ag: "agree_on (- {pageno tf}) (ram ph') m" and tf: "page_aligned tf" "tf \<notin> set (frames (pte_at (ram ph') pt) 0 n)"
    and same: "pte_at m pt w = pte_at (ram ph') pt w"
  shows "copy_of (ram ph) old m pt w"
proof -
  have cp: "copy_of (ram ph) old (ram ph') pt w" using i w by (simp add: child_inv_def)
  let ?f = "PTE2PA (pte_at (ram ph') pt w)"
  have "?f \<in> set (frames (pte_at (ram ph') pt) 0 n)" using cp w(1) by (intro mem_frames) (simp_all add: copy_of_def)
  then have "?f \<noteq> tf" using tf(2) by blast
  then have "pageno ?f \<noteq> pageno tf" using page_aligned_eqI tf(1) page_aligned_PTE2PA by blast
  then have "m (?f + of_nat j) = ram ph' (?f + of_nat j)" if "j < 4096" for j
    using that by (intro agree_onD [OF ag]) (simp add: pageno_page_offset page_aligned_PTE2PA)
  then show ?thesis using cp same by (simp add: copy_of_def)
qed

lemma fresh_bytes:
  assumes sp: "proc_space k p xs" and f: "fresh_space (mem k) (kernel_pagetable k) va tr xs ph tf pt ks ys"
  shows "agree_on (pageno ` owned k p) (ram (mem k)) (ram ph)"
proof -
  let ?P = "set xs \<union> tables (ram (mem k)) (kernel_pagetable k)"
  have "pt_ok (mem k) (kernel_pagetable k) xs" using sp by (simp add: proc_space_def Let_def)
  then have "\<forall>q \<in> ?P. managed (mem k) q" by (auto simp: pt_ok_def free_inv_def)
  then have "pageno ` owned k p \<subseteq> - pageno ` ?P"
    using owned_managed [OF sp] by (intro pageno_disjoint [of _ _ "mem k"]) auto
  moreover have "agree_on (- pageno ` ?P) (ram (mem k)) (ram ph)" using f unfolding fresh_space_def by blast
  ultimately show ?thesis using agree_on_subset by blast
qed

lemma fresh_frame:
  assumes sp: "proc_space k p xs" and f: "fresh_space (mem k) (kernel_pagetable k) va tr xs ph tf pt ks ys"
  shows "page_aligned tf" "page_aligned (trapframe (procs k ! p))" "tf \<noteq> trapframe (procs k ! p)"
proof -
  have "tf \<in> set xs" "page_aligned tf" using f by (auto simp: fresh_space_def managed_def)
  moreover have "trapframe (procs k ! p) \<in> owned k p" by (simp add: owned_def)
  ultimately show "page_aligned tf" "page_aligned (trapframe (procs k ! p))" "tf \<noteq> trapframe (procs k ! p)"
    using owned_managed(1,2) [OF sp] by (auto simp: managed_def)
qed

text \<open>The copies are copies of what the parent had before the call.\<close>

lemma copy_of_before:
  assumes cp: "copy_of (ram ph) old m pt w" and w: "w < space_pages (sz (procs k ! p))" "old = pagetable (procs k ! p)"
    and same: "pte_at (ram ph) old w = pte_at (ram (mem k)) old w" "bit (pte_at (ram (mem k)) old w) 0"
    and ag: "agree_on (pageno ` owned k p) (ram (mem k)) (ram ph)"
  shows "copy_of (ram (mem k)) old m pt w"
proof -
  let ?f = "PTE2PA (pte_at (ram (mem k)) old w)"
  have "?f \<in> set (user_frames (ram (mem k)) old (sz (procs k ! p)))"
    unfolding user_frames_def using w(1) same(2) by (rule mem_frames)
  then have "?f \<in> owned k p" by (simp add: owned_def w(2))
  then have "ram ph (?f + of_nat j) = ram (mem k) (?f + of_nat j)" if "j < 4096" for j
    using that by (intro agree_onD [OF ag]) (simp add: pageno_page_offset page_aligned_PTE2PA)
  then show ?thesis using cp same(1) by (simp add: copy_of_def)
qed

text \<open>The common part of both outcomes: what is allocated, and what \<open>uvmcopy\<close> makes of it.\<close>

definition child_of :: "kernel \<Rightarrow> nat \<Rightarrow> kernel \<Rightarrow> u64 \<Rightarrow> u64 \<Rightarrow> bool" where
  "child_of k p k' tf pt \<longleftrightarrow>
     (let m = ram (mem k); q = procs k ! p; old = pagetable q
      in (\<forall>w < space_pages (sz q). if bit (pte_at m old w) 0 then copy_of m old (ram (mem k')) pt w
            else \<not> bit (pte_at (ram (mem k')) pt w) 0) \<and>
         (\<forall>r. unat r < 36 \<longrightarrow> tf_get tf (8 * r) k' = (if r = 14 then 0 else tf_get (trapframe q) (8 * r) k)))"

lemma child_of_forked:
  assumes sp: "proc_space k p xs" and f: "fresh_space (mem k) (kernel_pagetable k) va tr xs ph tf pt ks ys"
    and i: "child_inv (pagetable (procs k ! p)) pt ph ys ph' zs (space_pages (sz (procs k ! p)))"
    and brk: "unat (sz (procs k ! p)) \<le> unat TRAPFRAME"
    and m: "mem k' = on_ram (child_frame tf (trapframe (procs k ! p))) ph'"
  shows "child_of k p k' tf pt"
proof -
  let ?q = "procs k ! p" and ?n = "space_pages (sz (procs k ! p))"
  define old where "old = pagetable ?q"
  note h = fresh_child [OF f child_pages_copied [OF i] brk] and fp = fresh_parent [OF sp f, folded old_def]
  have tp: "trapframe ?q \<in> owned k p" by (simp add: owned_def)
  note tf = fresh_frame [OF sp f]
  note cf = child_frame [OF tf, where m = "ram ph'"]
  have mk: "ram (mem k') = child_frame tf (trapframe ?q) (ram ph')" by (simp add: m on_ram_def)
  have ag: "agree_on (- {pageno tf}) (ram ph') (ram (mem k'))" unfolding mk by (rule cf)
  have ptes: "pte_at (ram (mem k')) pt w = pte_at (ram ph') pt w" for w
  proof -
    have ok: "pt_ok ph' pt zs" using h(2) by (simp add: user_space_def)
    have "managed ph tf" "end_address ph' = end_address ph" using f i by (simp_all add: fresh_space_def child_inv_def)
    then have "managed ph' tf" by (simp add: managed_def)
    then have "pageno ` tables (ram ph') pt \<subseteq> - pageno ` {tf}"
      using ok h(6) by (intro pageno_disjoint [of _ _ ph']) (auto simp: pt_ok_def)
    then have "agree_on (pageno ` tables (ram ph') pt) (ram ph') (ram (mem k'))" using agree_on_subset [OF ag] by simp
    then show ?thesis using ok unfolding pte_at_def leaf_def by (intro tree_agree(3)) (simp_all add: pt_ok_def pt_wf_def)
  qed
  note bytes = fresh_bytes [OF sp f]
  have tfn: "tf \<notin> set (frames (pte_at (ram ph') pt) 0 ?n)" using h(6) by (simp add: user_frames_def)
  have "if bit (pte_at (ram (mem k)) old w) 0 then copy_of (ram (mem k)) old (ram (mem k')) pt w
      else \<not> bit (pte_at (ram (mem k')) pt w) 0" if w: "w < ?n" for w
  proof (cases "bit (pte_at (ram (mem k)) old w) 0")
    case True
    then have "copy_of (ram ph) old (ram (mem k')) pt w"
      using copied_bytes [OF i [folded old_def] w _ ag tf(1) tfn ptes] fp(3) by simp
    then show ?thesis using copy_of_before [OF _ w old_def fp(3) True bytes] True by simp
  next
    case False
    then show ?thesis using i w fp(3) ptes by (simp add: child_inv_def old_def)
  qed
  moreover have "tf_get tf (8 * r) k' = (if r = 14 then 0 else tf_get (trapframe ?q) (8 * r) k)" if r: "unat r < 36" for r
  proof -
    have o: "unat (8 * r) + 8 \<le> 4096" "8 * r = of_nat (unat (8 * r))" using r by (simp_all add: unat_word_ariths)
    have "pageno (trapframe ?q) \<notin> pageno ` set xs"
      using owned_managed(1,2) [OF sp tp] pageno_inj_managed sp by (fastforce simp: proc_space_def Let_def pt_ok_def free_inv_def)
    then have "load64 (ram ph') (trapframe ?q + of_nat (unat (8 * r))) = load64 (ram ph) (trapframe ?q + of_nat (unat (8 * r)))"
      using o tf(2) by (intro load_le_agree [OF h(10)]) simp_all
    also have "\<dots> = load64 (ram (mem k)) (trapframe ?q + of_nat (unat (8 * r)))"
      using o tf(2) tp by (intro load_le_agree [OF bytes]) simp_all
    finally have "load64 (ram ph') (trapframe ?q + 8 * r) = load64 (ram (mem k)) (trapframe ?q + 8 * r)" using o(2) by simp
    then show ?thesis unfolding tf_get_def mk using cf(2) [OF r] by simp
  qed
  ultimately show ?thesis unfolding child_of_def Let_def old_def by simp
qed

text \<open>What the two ways out of \<open>kfork\<close> leave of the rest of the kernel.\<close>

definition only_child :: "kernel \<Rightarrow> nat \<Rightarrow> kernel \<Rightarrow> bool" where
  "only_child k c k' \<longleftrightarrow> hart k' = hart k \<and> nextpid k' = nextpid k + 1 \<and> pidlock k' = pidlock k \<and> length (procs k') = length (procs k) \<and>
     (\<forall>j. j \<noteq> c \<longrightarrow> procs k' ! j = procs k ! j) \<and> length (files k') = length (files k)"

lemma kfork_spec:
  assumes r: "fork_ready k p c xs f1 f0"
  shows "\<exists>k' zs tf pt. grown k c xs k' zs \<and> only_child k c k' \<and>
    (kfork W k = Inr (nextpid k + 1, k') \<and> child_of k p k' tf pt \<and> procs k' ! c = child_slot W k p c tf pt f1 f0 \<and>
       files k' = add_refs (ofile (procs k ! p)) [0..<NOFILE] (files (after_alloc W k c f1 f0 (mem k) tf pt)) \<or>
     kfork W k = Inr (- 1, k') \<and> length xs < 9 + 3 * space_pages (sz (procs k ! p)) \<and>
       procs k' ! c = allocated_proc W (nextpid k + 1) tf pt f1 f0 (procs k ! c))"
proof -
  note f = r [unfolded fork_ready_def]
  have al: "alloc_ready k c xs f1 f0" and sp: "proc_space k p xs" and pc: "p \<noteq> c" using f by simp_all
  note a = al [unfolded alloc_ready_def]
  have len: "length (procs k) = NPROC" "c < NPROC" and hk: "hart_ok (hart k)" "settled (hart k) = hart k" and idle: "idle (plock (procs k ! c))"
    using a by (auto simp: at_rest_def find_Some_iff)
  let ?q = "procs k ! p" and ?va = "kstack (procs k ! c)"
  have va: "page_aligned ?va" "unat ?va + 4096 \<le> 0x4000000000"
    using a page_aligned_unat [of ?va] by simp_all
  have brk: "unat (sz ?q) \<le> unat TRAPFRAME" using sp by (simp add: proc_space_def Let_def user_space_def)
  obtain tf pt ks ph ys where k1: "allocproc W k = Inr (Some c, after_alloc W k c f1 f0 ph tf pt)"
    and fs: "fresh_space (mem k) (kernel_pagetable k) ?va (a_trampoline W) xs ph tf pt ks ys" by (rule allocproc_spec [OF al])
  define k1 where "k1 = after_alloc W k c f1 f0 ph tf pt"
  let ?a = "allocated_proc W (nextpid k + 1) tf pt f1 f0 ((procs k ! c)\<lparr>plock := held (plock (procs k ! c)) (hart k)\<rparr>)"
  have k1s: "procs k1 ! p = ?q" "procs k1 ! c = ?a" "mem k1 = ph" "length (procs k1) = NPROC" "hart k1 = push_off (hart k)"
    "kernel_pagetable k1 = kernel_pagetable k" "nextpid k1 = nextpid k + 1" "pidlock k1 = pidlock k" "length (files k1) = length (files k)"
    "files k1 = files (after_alloc W k c f1 f0 (mem k) tf pt)" "\<forall>j. j \<noteq> c \<longrightarrow> procs k1 ! j = procs k ! j"
    using len pc by (simp_all add: k1_def after_alloc_def)
  have as: "trapframe ?a = tf" "pagetable ?a = pt" "kstack ?a = ?va" "pid ?a = nextpid k + 1" "sz ?a = 0" "plock ?a = held (plock (procs k ! c)) (hart k)"
    using f by (simp_all add: allocated_proc_def)
  note par = fresh_parent [OF sp fs]
  have okpt: "pt_ok ph pt ys" using fs by (simp add: fresh_space_def user_space_def)
  have sh: "shareable (files k1) (ofile (procs k1 ! p)) [0..<NOFILE]"
    unfolding k1s(1) unfolding k1_def using f a by (intro shareable_alloc) simp_all
  have fork: "kfork W k = (if rc \<noteq> 0 then bindE (on_plock release c (k1\<lparr>mem := ph'\<rparr>)) (\<lambda>k. Inr (- 1, k))
      else bindE (on_plock release c (forked k1 p c ph')) (\<lambda>k. Inr (pid (procs k1 ! c), k)))"
    if "uvmcopy (pagetable ?q) pt (sz ?q) ph = Inr (rc, ph')" for rc ph'
    using kfork_eq [OF hk _ k1 [folded k1_def] _ pc _ sh] f that len unfolding k1s as by simp
  have n: "(unat (sz ?q) + 4095) div 4096 = space_pages (sz ?q)" by (simp add: space_pages_def)
  have sz: "unat (sz ?q) \<le> 0x4000000000" using brk trap_pages by simp
  show ?thesis
  proof (cases rule: uvmcopy_spec [OF okpt _ sz, of "pagetable ?q", unfolded n, OF par(1,2)])
    case (1 ph' zs)
    define k' where "k' = (forked k1 p c ph')\<lparr>procs := (procs (forked k1 p c ph'))[c := child_slot W k p c tf pt f1 f0], hart := hart k\<rparr>"
    have slot: "procs (forked k1 p c ph') ! c = (child_slot W k p c tf pt f1 f0)\<lparr>plock := held (plock (procs k ! c)) (hart k)\<rparr>"
      using k1s len by (simp add: forked_def child_slot_def allocated_proc_def)
    have "on_plock release c (forked k1 p c ph') = Inr k'"
      using release_allocated [of "forked k1 p c ph'" c _ k, OF _ _ idle hk] slot k1s
      by (simp add: k'_def forked_def child_slot_def allocated_proc_def)
    then have "kfork W k = Inr (nextpid k + 1, k')" using fork [OF 1(1)] k1s as by simp
    moreover have m: "mem k' = on_ram (child_frame tf (trapframe ?q)) ph'" using k1s as by (simp add: k'_def forked_def)
    moreover from this have "child_of k p k' tf pt" by (rule child_of_forked [OF sp fs 1(2) brk])
    moreover have c: "procs k' ! c = child_slot W k p c tf pt f1 f0" using k1s len by (simp add: k'_def forked_def)
    moreover have "only_child k c k'" "files k' = add_refs (ofile ?q) [0..<NOFILE] (files (after_alloc W k c f1 f0 (mem k) tf pt))"
      using k1s len by (simp_all add: only_child_def k'_def forked_def add_refs_def)
    moreover have "grown k c xs k' zs"
    proof (rule grown_child [OF fs child_pages_copied [OF 1(2)] brk va refl])
      show "mem k' = ph'\<lparr>ram := ram (mem k')\<rparr>" by (simp add: m on_ram_def)
      show "agree_on (- {pageno tf}) (ram ph') (ram (mem k'))"
        using child_frame(1) [OF fresh_frame [OF sp fs]] by (simp add: m on_ram_def)
      show "kernel_pagetable k' = kernel_pagetable k" using k1s by (simp add: k'_def forked_def)
    qed (simp_all add: c child_slot_def allocated_proc_def)
    ultimately show ?thesis by blast
  next
    case (2 ph')
    then obtain zs where zs: "child_pages pt ph ys ph' zs (space_pages 0)"
      using child_pages_undone [OF 2(2)] by (auto simp: space_pages_def)
    define k' where "k' = k1\<lparr>mem := ph', procs := (procs k1)[c := allocated_proc W (nextpid k + 1) tf pt f1 f0 (procs k ! c)], hart := hart k\<rparr>"
    have "on_plock release c (k1\<lparr>mem := ph'\<rparr>) = Inr k'"
      using release_allocated [of "k1\<lparr>mem := ph'\<rparr>" c _ k, OF _ _ idle hk] k1s as by (simp add: k'_def allocated_proc_def)
    then have "kfork W k = Inr (- 1, k')" using fork [OF 2(1)] by simp
    moreover have c: "procs k' ! c = allocated_proc W (nextpid k + 1) tf pt f1 f0 (procs k ! c)" using k1s len by (simp add: k'_def)
    moreover have "only_child k c k'" using k1s len by (simp add: only_child_def k'_def)
    moreover have "length xs < 9 + 3 * space_pages (sz ?q)" using 2(3) fs unfolding n by (simp add: fresh_space_def)
    moreover have "grown k c xs k' zs"
    proof (rule grown_child [OF fs zs _ va refl])
      show "mem k' = ph'\<lparr>ram := ram (mem k')\<rparr>" "agree_on (- {pageno tf}) (ram ph') (ram (mem k'))"
        "kernel_pagetable k' = kernel_pagetable k" using k1s by (simp_all add: k'_def)
    qed (use f in \<open>simp_all add: c allocated_proc_def\<close>)
    ultimately show ?thesis by blast
  qed
qed

end
