(* ===== verification/Exec_Stack.thy ===== *)
theory Exec_Stack
  imports Process Copy_User Byte_Strings
begin

text \<open>
  The page that \<open>kexec\<close> builds: the program at its start, the argument strings and the array of their user
  addresses at its end. \<open>arg_slots\<close> is the layout in plain numbers; the loop of \<open>kexec\<close> follows it.
\<close>

section \<open>Rounding the stack pointer down\<close>

lemma stack_down:
  assumes "sp \<le> 4096" "b \<le> 2 ^ 31"
  shows "unat ((of_nat sp - of_nat b :: u64) AND NOT (mask n)) = 2 ^ n * ((if b \<le> sp then sp - b else 2 ^ 64 - (b - sp)) div 2 ^ n)"
proof -
  have "unat (of_nat sp :: u64) = sp" "unat (of_nat b :: u64) = b" using assms by (intro unat_small; simp)+
  then have "unat (of_nat sp - of_nat b :: u64) = (if b \<le> sp then sp - b else 2 ^ 64 - (b - sp))"
    by (simp add: unat_sub_if_size word_size) arith
  then show ?thesis unfolding and_not_mask_shift unat_push_drop by simp
qed

text \<open>The pointer below \<open>sp\<close> that leaves room for \<open>b\<close> bytes, aligned to \<open>2\<^sup>n\<close>.\<close>

definition slot_below :: "nat \<Rightarrow> nat \<Rightarrow> nat \<Rightarrow> nat" where
  "slot_below n sp b = (sp - b) div 2 ^ n * 2 ^ n"

lemma slot_below_le: "b \<le> sp \<Longrightarrow> slot_below n sp b + b \<le> sp"
  using div_times_less_eq_dividend [of "sp - b" "2 ^ n"] unfolding slot_below_def by linarith

lemma stack_slot:
  assumes "b \<le> sp" "sp \<le> 4096"
  shows "(of_nat sp - of_nat b :: u64) AND NOT (mask n) = of_nat (slot_below n sp b)"
proof (rule word_eq_unatI)
  have "slot_below n sp b < 2 ^ 63" using slot_below_le [OF assms(1), of n] assms by simp
  then show "unat ((of_nat sp - of_nat b :: u64) AND NOT (mask n)) = unat (of_nat (slot_below n sp b) :: u64)"
    using stack_down [of sp b n] assms unat_small [of "slot_below n sp b"] by (simp add: slot_below_def mult.commute)
qed

lemma stack_wraps:
  assumes "sp < b" "sp \<le> 4096" "b \<le> 2 ^ 31" "n \<le> 12"
  shows "0x4000000000 \<le> unat ((of_nat sp - of_nat b :: u64) AND NOT (mask n))"
proof -
  let ?x = "2 ^ 64 - (b - sp) :: nat"
  have "?x mod 2 ^ n < 2 ^ n" by simp
  moreover have "(2 :: nat) ^ n \<le> 2 ^ 12" using assms(4) by (rule power_increasing) simp
  moreover have "2 ^ n * (?x div 2 ^ n) + ?x mod 2 ^ n = ?x" by simp
  ultimately have "2 ^ 64 - 2 ^ 31 - 2 ^ 12 \<le> 2 ^ n * (?x div 2 ^ n)" using assms(1,3) by linarith
  then show ?thesis using stack_down [OF assms(2,3), of n] assms(1) by simp
qed

section \<open>A user page\<close>

text \<open>The user's first page is the frame \<open>page\<close>, which it may write.\<close>

definition first_page :: "memory \<Rightarrow> u64 \<Rightarrow> u64 \<Rightarrow> bool" where
  "first_page m pt page \<longleftrightarrow> pt_wf m pt \<and> page_aligned page \<and> pageno page \<notin> pageno ` tables m pt \<and>
     (\<forall>v < 4096. user_waddr m pt (of_nat v) = Some (page + of_nat v))"

lemma first_page_agree:
  assumes "first_page m pt page" "agree_on (pageno ` tables m pt) m m'"
  shows "first_page m' pt page" "tables m' pt = tables m pt"
proof -
  have wf: "pt_wf m pt" using assms(1) by (simp add: first_page_def)
  note t = pt_wf_agree [OF wf assms(2)] and u = user_addr_agree [OF assms(2)]
  show "tables m' pt = tables m pt" by (rule t)
  show "first_page m' pt page" using assms(1) t u wf by (simp add: first_page_def pt_wf_def)
qed

lemma of_nat_page:
  assumes "page_aligned page" "i < 4096"
  shows "unat (page + of_nat i - page) = i" "pageno (page + of_nat i) = pageno page"
  using unat_small [of i] assms pageno_page_offset [of page i] by simp_all

lemma copyout_first_page:
  assumes f: "first_page (ram ph) pt page" and r: "sp + n \<le> 4096" and ap: "apart page 4096 src n"
  shows "copyout pt (of_nat sp) src (of_nat n) ph =
    Inr (0, ph\<lparr>ram := put_bytes (page + of_nat sp) (bytes_at (ram ph) src n) (ram ph)\<rparr>)"
proof -
  note f' = f [unfolded first_page_def]
  have un: "unat (of_nat n :: u64) = n" using r by (intro unat_small) simp
  have w: "user_waddr (ram ph) pt (of_nat sp + of_nat i) = Some (page + of_nat (sp + i))" if "i < n" for i
  proof -
    have "sp + i < 4096" using that r by simp
    then have "user_waddr (ram ph) pt (of_nat (sp + i)) = Some (page + of_nat (sp + i))" using f' by blast
    then show ?thesis by simp
  qed
  have inj: "i = j" if "page + of_nat (sp + i) = page + of_nat (sp + j)" "i < n" "j < n" for i j
  proof -
    have u: "unat (page + of_nat (sp + l) - page) = sp + l" if "l < n" for l
      using f' that r by (intro of_nat_page) simp_all
    have "sp + i = sp + j" using u [OF that(2)] u [OF that(3)] unfolding that(1) by (rule trans [OF sym])
    then show ?thesis by (rule add_left_imp_eq)
  qed
  have safe: "copyout_safe (ram ph) pt (of_nat sp) src n"
    unfolding copyout_safe_def
  proof (intro allI impI conjI)
    fix i a assume i: "i < n" "user_waddr (ram ph) pt (of_nat sp + of_nat i) = Some a"
    then have a: "a = page + of_nat (sp + i)" using w by simp
    have "pageno a = pageno page" unfolding a using i(1) r f' by (intro of_nat_page) simp_all
    then show "pageno a \<notin> pageno ` tables (ram ph) pt" using f' by simp
    have "sp + i < 4096" using i(1) r by simp
    then show "\<not> unat (a - src) < n" using ap unfolding apart_def a by blast
    show "j = i" if "j < n" "user_waddr (ram ph) pt (of_nat sp + of_nat j) = Some a" for j
      using inj [of j i] w [OF that(1)] that i(1) a by simp
  qed
  have "wmapped (ram ph) pt (of_nat sp) n" unfolding wmapped_def using w by simp
  then obtain m where c: "copyout pt (of_nat sp) src (of_nat n) ph = Inr (0, ph\<lparr>ram := m\<rparr>)"
      "stored (ram ph) pt (of_nat sp) src n m"
    using copyout_spec [of ph pt "of_nat sp" src "of_nat n"] f' safe by (auto simp: un)
  have "m x = put_bytes (page + of_nat sp) (bytes_at (ram ph) src n) (ram ph) x" for x
  proof (cases "unat (x - (page + of_nat sp)) < n")
    case True
    define i where "i = unat (x - (page + of_nat sp))"
    have x: "x = page + of_nat (sp + i)" by (simp add: i_def)
    have "i < n" using True by (simp add: i_def)
    then have "m x = ram ph (src + of_nat i)" using c(2) w [of i] unfolding stored_def x by auto
    then show ?thesis using True \<open>i < n\<close> by (simp add: put_bytes_def i_def [symmetric])
  next
    case False
    have "user_waddr (ram ph) pt (of_nat sp + of_nat i) \<noteq> Some x" if "i < n" for i
    proof
      assume "user_waddr (ram ph) pt (of_nat sp + of_nat i) = Some x"
      then have "x - (page + of_nat sp) = of_nat i" using w [OF that] by (auto simp: algebra_simps)
      then show False using False that r unat_small [of i] by simp
    qed
    then show ?thesis using c(2) False by (simp add: stored_def put_bytes_def)
  qed
  then have "m = put_bytes (page + of_nat sp) (bytes_at (ram ph) src n) (ram ph)" by (rule ext)
  with c(1) show ?thesis by simp
qed

lemma copyout_too_high:
  assumes "0x4000000000 \<le> unat va" "0 < len"
  shows "copyout pt va src len ph = Inr (- 1, ph)"
proof -
  have "MAXVA \<le> PGROUNDDOWN va"
    using assms(1) by (simp add: word_le_nat_alt unat_PGROUNDDOWN MAXVA_def)
  then show ?thesis using assms(2) by (subst copyout.simps) (simp add: Let_def)
qed

section \<open>The layout of the arguments\<close>

text \<open>
  The offsets of the strings, each below the one before and aligned to 8, for a program of \<open>n\<close> bytes and at most
  \<open>room\<close> of them, or \<^const>\<open>None\<close> when they do not fit.
\<close>

primrec arg_slots :: "nat \<Rightarrow> nat \<Rightarrow> u8 list list \<Rightarrow> nat \<Rightarrow> nat list option" where
  "arg_slots n room [] sp = Some []"
| "arg_slots n room (w # ws) sp =
     (let q = slot_below 3 sp (Suc (length w))
      in if room = 0 \<or> sp \<le> length w \<or> q < n then None
         else map_option ((#) q) (arg_slots n (room - 1) ws q))"

lemma arg_slots_bounds:
  "arg_slots n room ws sp = Some ps \<Longrightarrow> length ps = length ws \<and> length ws \<le> room \<and> last (sp # ps) \<le> sp \<and>
    (\<forall>l < length ws. last (sp # ps) \<le> ps ! l \<and> ps ! l + length (ws ! l) < sp)"
proof (induction ws arbitrary: room sp ps)
  case (Cons w ws)
  define q where "q = slot_below 3 sp (Suc (length w))"
  from Cons.prems obtain qs where qs: "ps = q # qs" "arg_slots n (room - 1) ws q = Some qs" "0 < room" "length w < sp"
    by (auto simp: Let_def q_def split: if_splits)
  then have q: "q + Suc (length w) \<le> sp" unfolding q_def by (intro slot_below_le) simp
  note ih = Cons.IH [OF qs(2)]
  have "last (sp # ps) = last (q # qs)" by (simp add: qs(1))
  then show ?case using ih q qs(1,3) by (auto simp: All_less_Suc2)
qed simp

text \<open>The pointers at \<open>argv\<close> and the strings behind them are there, and no byte of them lies in \<open>D\<close>.\<close>

definition args_clear :: "u64 set \<Rightarrow> memory \<Rightarrow> u64 \<Rightarrow> u8 list list \<Rightarrow> bool" where
  "args_clear D m argv ws \<longleftrightarrow> argv_of m argv ws \<and> (\<forall>i < 8 * Suc (length ws). argv + of_nat i \<notin> D) \<and>
     (\<forall>j < length ws. load64 m (argv + of_nat (8 * j)) \<noteq> 0 \<and> length (ws ! j) < 2 ^ 31 - 1 \<and>
       (\<forall>i \<le> length (ws ! j). load64 m (argv + of_nat (8 * j)) + of_nat i \<notin> D))"

definition span :: "u64 \<Rightarrow> nat \<Rightarrow> u64 set" where
  "span p n = {x. unat (x - p) < n}"

lemma args_clear_load:
  assumes "args_clear D m argv ws" "\<forall>x. x \<notin> D \<longrightarrow> m' x = m x" "j \<le> length ws"
  shows "load64 m' (argv + of_nat (8 * j)) = load64 m (argv + of_nat (8 * j))"
proof (rule load_le_cong)
  fix i :: nat assume "i < 8"
  then have "8 * j + i < 8 * Suc (length ws)" using assms(3) by simp
  then have "argv + of_nat (8 * j + i) \<notin> D" using assms(1) unfolding args_clear_def by blast
  then show "m' (argv + of_nat (8 * j) + of_nat i) = m (argv + of_nat (8 * j) + of_nat i)"
    using assms(2) by (simp add: add.assoc)
qed

lemma args_clear_kept:
  assumes "args_clear D m argv ws" "\<forall>x. x \<notin> D \<longrightarrow> m' x = m x"
  shows "args_clear D m' argv ws"
proof -
  have l: "load64 m' (argv + of_nat (8 * j)) = load64 m (argv + of_nat (8 * j))" if "j \<le> length ws" for j
    using args_clear_load [OF assms that] .
  have "cstr m' (load64 m' (argv + of_nat (8 * j))) (ws ! j)" if j: "j < length ws" for j
    unfolding l [OF less_imp_le [OF j]]
    by (rule cstr_cong [of m]) (use assms j in \<open>simp_all add: args_clear_def argv_of_def\<close>)
  then show ?thesis using assms l unfolding args_clear_def argv_of_def by simp
qed

lemma args_clear_Cons:
  assumes "args_clear D m argv (w # ws)"
  shows "args_clear D m (argv + 8) ws" "cstr m (load64 m argv) w" "load64 m argv \<noteq> 0" "length w < 2 ^ 31 - 1"
    "i \<le> length w \<Longrightarrow> load64 m argv + of_nat i \<notin> D"
proof -
  note a = assms [unfolded args_clear_def argv_of_def]
  have z: "0 < length (w # ws)" by simp
  show "cstr m (load64 m argv) w" "load64 m argv \<noteq> 0" "length w < 2 ^ 31 - 1" "i \<le> length w \<Longrightarrow> load64 m argv + of_nat i \<notin> D"
    using a z by fastforce+
  have e: "argv + 8 + of_nat i = argv + of_nat (8 + i)" for i by (simp add: add.assoc)
  have "argv + 8 + of_nat i \<notin> D" if "i < 8 * Suc (length ws)" for i
  proof -
    have "8 + i < 8 * Suc (length (w # ws))" using that by simp
    then show ?thesis unfolding e using a by blast
  qed
  moreover have "cstr m (load64 m (argv + 8 + of_nat (8 * j))) (ws ! j) \<and> load64 m (argv + 8 + of_nat (8 * j)) \<noteq> 0 \<and>
      length (ws ! j) < 2 ^ 31 - 1 \<and> (\<forall>i \<le> length (ws ! j). load64 m (argv + 8 + of_nat (8 * j)) + of_nat i \<notin> D)"
    if "j < length ws" for j
  proof -
    have "Suc j < length (w # ws)" "8 + 8 * j = 8 * Suc j" "(w # ws) ! Suc j = ws ! j" using that by simp_all
    then show ?thesis unfolding e using a by metis
  qed
  moreover have "8 + 8 * length ws = 8 * length (w # ws)" by simp
  then have "load64 m (argv + 8 + of_nat (8 * length ws)) = 0" unfolding e using a by metis
  ultimately show "args_clear D m (argv + 8) ws" unfolding args_clear_def argv_of_def by blast
qed

section \<open>The loop over the arguments\<close>

text \<open>The kernel's array \<open>ustack\<close> of 33 words lies apart from the page and from the tables.\<close>

definition exec_frame :: "memory \<Rightarrow> u64 \<Rightarrow> u64 \<Rightarrow> u64 \<Rightarrow> bool" where
  "exec_frame m pt page us \<longleftrightarrow> first_page m pt page \<and>
     (\<forall>i < 264. us + of_nat i \<notin> span page 4096 \<and> pageno (us + of_nat i) \<notin> pageno ` tables m pt)"

definition exec_writes :: "u64 \<Rightarrow> u64 \<Rightarrow> u64 set" where
  "exec_writes page us = span page 4096 \<union> span us 264"

lemma span_iff: "n \<le> 2 ^ 62 \<Longrightarrow> x \<in> span p n \<longleftrightarrow> (\<exists>i < n. x = p + of_nat i)"
proof
  assume "x \<in> span p n"
  then show "\<exists>i < n. x = p + of_nat i" by (intro exI [of _ "unat (x - p)"]) (simp add: span_def)
next
  assume "n \<le> 2 ^ 62" "\<exists>i < n. x = p + of_nat i"
  then obtain i where "i < n" "x = p + of_nat i" by blast
  moreover from this have "unat (of_nat i :: u64) = i" using \<open>n \<le> 2 ^ 62\<close> by (intro unat_small) simp
  ultimately show "x \<in> span p n" by (simp add: span_def)
qed

lemma in_span: "i < n \<Longrightarrow> n \<le> 2 ^ 62 \<Longrightarrow> p + of_nat i \<in> span p n"
  using span_iff by blast

text \<open>An entry of the array is written inside the array.\<close>

lemma array_store_kept:
  assumes "n < 33"
  shows "\<forall>x. x \<notin> exec_writes page us \<longrightarrow> store64 (us + 8 * of_nat n) v m x = m x"
proof (intro allI impI)
  fix x assume "x \<notin> exec_writes page us"
  then have "\<not> unat (x - (us + of_nat (8 * n))) < 8"
    using assms within_range [of x us "8 * n" 8 264] by (auto simp: exec_writes_def span_def)
  then show "store64 (us + 8 * of_nat n) v m x = m x" by (simp add: store64_other)
qed

lemma exec_frame_kept:
  assumes f: "exec_frame m pt page us" and k: "\<forall>x. x \<notin> exec_writes page us \<longrightarrow> m' x = m x"
  shows "exec_frame m' pt page us" "tables m' pt = tables m pt"
proof -
  note f' = f [unfolded exec_frame_def]
  have fp: "first_page m pt page" using f' by blast
  have al: "page_aligned page" "pageno page \<notin> pageno ` tables m pt" using fp by (simp_all add: first_page_def)
  have "pageno x \<notin> pageno ` tables m pt" if x: "x \<in> exec_writes page us" for x
  proof (cases "x \<in> span page 4096")
    case True
    then obtain i where "i < 4096" "x = page + of_nat i" using span_iff [of 4096 x page] by auto
    then show ?thesis using al of_nat_page(2) [of page i] by simp
  next
    case False
    then obtain i where "i < 264" "x = us + of_nat i" using x span_iff [of 264 x us] by (auto simp: exec_writes_def)
    then show ?thesis using f' by blast
  qed
  then have "agree_on (pageno ` tables m pt) m m'" unfolding agree_on_def using k by blast
  note t = first_page_agree [OF fp this]
  show "tables m' pt = tables m pt" by (rule t)
  show "exec_frame m' pt page us" using f' t by (simp add: exec_frame_def)
qed

text \<open>
  \<open>args_placed page us j sp ws ps m m'\<close>: the strings \<open>ws\<close> stand in the page at the offsets \<open>ps\<close>, and the array holds the
  offsets from index \<open>j\<close> on; the page outside the range from the last offset to \<open>sp\<close> and the array before \<open>j\<close> are as in \<open>m\<close>.
\<close>

definition args_placed :: "u64 \<Rightarrow> u64 \<Rightarrow> nat \<Rightarrow> nat \<Rightarrow> u8 list list \<Rightarrow> nat list \<Rightarrow> memory \<Rightarrow> memory \<Rightarrow> bool" where
  "args_placed page us j sp ws ps m m' \<longleftrightarrow>
     (\<forall>v < 4096. v < last (sp # ps) \<or> sp \<le> v \<longrightarrow> m' (page + of_nat v) = m (page + of_nat v)) \<and>
     (\<forall>l < length ws. cstr m' (page + of_nat (ps ! l)) (ws ! l) \<and> load64 m' (us + of_nat (8 * (j + l))) = of_nat (ps ! l)) \<and>
     (\<forall>l < j. load64 m' (us + of_nat (8 * l)) = load64 m (us + of_nat (8 * l)))"

text \<open>One string and its entry.\<close>

definition arg_stored :: "u64 \<Rightarrow> u64 \<Rightarrow> nat \<Rightarrow> nat \<Rightarrow> u8 list \<Rightarrow> memory \<Rightarrow> memory" where
  "arg_stored page us j q w m = store64 (us + 8 * of_nat j) (of_nat q) (put_bytes (page + of_nat q) (w @ [0]) m)"

lemma arg_stored_page:
  assumes "\<forall>i < 264. us + of_nat i \<notin> span page 4096" "j < 33" "q + length w < 4096" "v < 4096"
  shows "arg_stored page us j q w m (page + of_nat v) =
    (if q \<le> v \<and> v \<le> q + length w then (w @ [0]) ! (v - q) else m (page + of_nat v))"
proof -
  have "\<not> unat (page + of_nat v - (us + 8 * of_nat j)) < 8"
  proof
    define i where "i = unat (page + of_nat v - (us + 8 * of_nat j))"
    assume "unat (page + of_nat v - (us + 8 * of_nat j)) < 8"
    then have "8 * j + i < 264" using assms(2) by (simp add: i_def)
    moreover have "us + of_nat (8 * j + i) = page + of_nat v" by (simp add: i_def)
    moreover have "page + of_nat v \<in> span page 4096" using assms(4) by (intro in_span) simp_all
    ultimately show False using assms(1) by metis
  qed
  then have e: "arg_stored page us j q w m (page + of_nat v) = put_bytes (page + of_nat q) (w @ [0]) m (page + of_nat v)"
    by (simp add: arg_stored_def store64_other)
  show ?thesis
  proof (cases "q \<le> v")
    case True
    then have "page + of_nat v - (page + of_nat q) = of_nat (v - q)" by (simp add: of_nat_diff)
    moreover have "unat (of_nat (v - q) :: u64) = v - q" using assms(4) by (intro unat_small) simp
    ultimately have "unat (page + of_nat v - (page + of_nat q)) = v - q" by (simp only:)
    moreover have "v - q < Suc (length w) \<longleftrightarrow> v \<le> q + length w" using True by arith
    ultimately show ?thesis using True unfolding e put_bytes_def by simp
  next
    case False
    then have "\<not> unat (page + of_nat v - (page + of_nat q)) < Suc (length w)" using assms by (intro behind) simp_all
    then show ?thesis using False unfolding e by (simp add: put_bytes_def)
  qed
qed

lemma arg_stored_array:
  assumes "\<forall>i < 264. us + of_nat i \<notin> span page 4096" "j < 33" "q + length w < 4096" "l < 33"
  shows "load64 (arg_stored page us j q w m) (us + of_nat (8 * l)) = (if l = j then of_nat q else load64 m (us + of_nat (8 * l)))"
proof (cases "l = j")
  case True
  then show ?thesis by (simp add: arg_stored_def load_store_same)
next
  case False
  have "arg_stored page us j q w m (us + of_nat (8 * l) + of_nat i) = m (us + of_nat (8 * l) + of_nat i)" if i: "i < 8" for i
  proof -
    have x: "us + of_nat (8 * l) + of_nat i = us + of_nat (8 * l + i)" by (simp add: add.assoc)
    have "8 * l + i < 264" using i assms(4) by simp
    then have "us + of_nat (8 * l + i) \<notin> span page 4096" using assms(1) by blast
    moreover have "us + of_nat (8 * l + i) \<in> span page 4096" if "unat (us + of_nat (8 * l + i) - (page + of_nat q)) < Suc (length w)"
      using within_range [OF that, of 4096] assms(3) by (simp add: span_def)
    ultimately have p: "put_bytes (page + of_nat q) (w @ [0]) m (us + of_nat (8 * l + i)) = m (us + of_nat (8 * l + i))"
      unfolding put_bytes_def by auto
    have "\<not> unat (us + of_nat (8 * l + i) - (us + of_nat (8 * j))) < 8"
    proof (cases "l < j")
      case True
      then show ?thesis using i assms(2) by (intro behind) simp_all
    next
      case False
      have "of_nat (8 * l + i) - of_nat (8 * j) = (of_nat (8 * l + i - 8 * j) :: u64)"
        using False by (intro of_nat_diff [symmetric]) simp
      then have "us + of_nat (8 * l + i) - (us + of_nat (8 * j)) = of_nat (8 * l + i - 8 * j)"
        unfolding add_diff_cancel_left .
      moreover have "unat (of_nat (8 * l + i - 8 * j) :: u64) = 8 * l + i - 8 * j" using assms(4) i by (intro unat_small) simp
      ultimately have "unat (us + of_nat (8 * l + i) - (us + of_nat (8 * j))) = 8 * l + i - 8 * j" by (simp only:)
      then show ?thesis using False \<open>l \<noteq> j\<close> by simp
    qed
    then show ?thesis using p unfolding x arg_stored_def by (simp add: store64_other)
  qed
  then have "load64 (arg_stored page us j q w m) (us + of_nat (8 * l)) = load64 m (us + of_nat (8 * l))"
    by (rule load_le_cong)
  then show ?thesis unfolding if_not_P [OF False] .
qed

lemma arg_stored_kept:
  assumes "j < 33" "q + length w < 4096"
  shows "\<forall>x. x \<notin> exec_writes page us \<longrightarrow> arg_stored page us j q w m x = m x"
proof (intro allI impI)
  fix x assume x: "x \<notin> exec_writes page us"
  have "\<not> unat (x - (page + of_nat q)) < Suc (length w)"
    using x assms(2) within_range [of x page q "Suc (length w)" 4096] by (auto simp: exec_writes_def span_def)
  then show "arg_stored page us j q w m x = m x"
    using array_store_kept [OF assms(1)] x by (simp add: arg_stored_def put_bytes_def)
qed

lemma args_placed_Cons:
  assumes p: "args_placed page us (Suc j) q ws ps (arg_stored page us j q w m) m'"
    and us: "\<forall>i < 264. us + of_nat i \<notin> span page 4096" and b: "j < 32" "q + length w < sp" "sp \<le> 4096"
    and w: "cstr m a w" and ps: "length ws \<le> 31 - j" "last (q # ps) \<le> q" "\<forall>l < length ws. ps ! l + length (ws ! l) < q"
  shows "args_placed page us j sp (w # ws) (q # ps) m m'"
proof -
  note p = p [unfolded args_placed_def]
  have ar: "load64 m' (us + of_nat (8 * l)) = (if l = j then of_nat q else load64 m (us + of_nat (8 * l)))" if "l \<le> j" for l
    using p that arg_stored_array [OF us, of j q w l m] b by auto
  have pg: "m' (page + of_nat v) = (if q \<le> v \<and> v \<le> q + length w then (w @ [0]) ! (v - q) else m (page + of_nat v))"
    if "v < 4096" "v < last (q # ps) \<or> q \<le> v" for v
    using p that arg_stored_page [OF us, of j q w v m] b by auto
  have "cstr m' (page + of_nat q) w"
    unfolding cstr_nth
  proof (intro conjI allI impI)
    have e: "m' (page + of_nat q + of_nat i) = (w @ [0]) ! i" if "i \<le> length w" for i
      using pg [of "q + i"] that b by (simp add: add.assoc)
    show "m' (page + of_nat q + of_nat (length w)) = 0" using e [of "length w"] by simp
    fix i assume i: "i < length w"
    then show "w ! i \<noteq> 0" using w by (simp add: cstr_nth)
    show "m' (page + of_nat q + of_nat i) = w ! i" using e [of i] i by (simp add: nth_append)
  qed
  moreover have "m' (page + of_nat v) = m (page + of_nat v)" if "v < 4096" "v < last (sp # q # ps) \<or> sp \<le> v" for v
    using pg [OF that(1)] that b ps(2) by auto
  moreover have "cstr m' (page + of_nat ((q # ps) ! l)) ((w # ws) ! l) \<and> load64 m' (us + of_nat (8 * (j + l))) = of_nat ((q # ps) ! l)"
    if "l < length (w # ws)" for l
  proof (cases l)
    case 0
    then show ?thesis using ar [of j] \<open>cstr m' (page + of_nat q) w\<close> by simp
  next
    case (Suc i)
    then have "j + l = Suc j + i" "i < length ws" using that by simp_all
    then show ?thesis using p Suc by simp
  qed
  moreover have "load64 m' (us + of_nat (8 * l)) = load64 m (us + of_nat (8 * l))" if "l < j" for l
    using ar [of l] that by simp
  ultimately show ?thesis unfolding args_placed_def by blast
qed

text \<open>A step of the loop that has room.\<close>

lemma kexec_args_step:
  assumes f: "exec_frame (ram (mem k)) pt page us" and a: "args_clear (exec_writes page us) (ram (mem k)) (argv + 8 * of_nat j) (w # ws)"
    and b: "j < MAXARG" "sp \<le> 4096" "length w < sp" "unat (up_size up) \<le> slot_below 3 sp (Suc (length w))"
  defines "q \<equiv> slot_below 3 sp (Suc (length w))"
  shows "kexec_args pt up argv us j (of_nat sp) k =
    kexec_args pt up argv us (Suc j) (of_nat q) (k\<lparr>mem := (mem k)\<lparr>ram := arg_stored page us j q w (ram (mem k))\<rparr>\<rparr>)"
proof -
  let ?arg = "load64 (ram (mem k)) (argv + 8 * of_nat j)" and ?n = "Suc (length w)"
  note c = args_clear_Cons [OF a]
  have q: "q + ?n \<le> sp" unfolding q_def using b(3) by (intro slot_below_le) simp
  have fp: "first_page (ram (mem k)) pt page" using f by (simp add: exec_frame_def)
  have len: "(scast (of_nat (length w) + 1 :: u32) :: u64) = of_nat ?n"
    using scast_index [of ?n] c(4) by (simp add: add.commute)
  have "(of_nat sp - of_nat ?n :: u64) AND NOT (mask 3) = of_nat q"
    unfolding q_def using b(2,3) by (intro stack_slot) simp_all
  moreover have "mask 3 = (7 :: u64)" by (simp add: mask_eq_exp_minus_1)
  ultimately have sp: "(of_nat sp - of_nat ?n :: u64) AND - 8 = of_nat q" by (simp del: of_nat_Suc)
  have "unat (of_nat q :: u64) = q" using q b(2) by (intro unat_small) simp
  then have fits: "\<not> (of_nat q :: u64) < up_size up" using b(4) by (simp add: word_less_nat_alt q_def)
  have "apart page 4096 ?arg ?n"
    unfolding apart_def
  proof (intro allI impI notI)
    fix i assume i: "i < 4096" "unat (page + of_nat i - ?arg) < ?n"
    have "?arg + of_nat (unat (page + of_nat i - ?arg)) = page + of_nat i" by simp
    then have "page + of_nat i \<notin> exec_writes page us" using c(5) [of "unat (page + of_nat i - ?arg)"] i(2) by simp
    moreover have "page + of_nat i \<in> span page 4096" using i(1) by (intro in_span) simp_all
    ultimately show False by (simp add: exec_writes_def)
  qed
  then have co: "copyout pt (of_nat q) ?arg (of_nat ?n) (mem k) =
      Inr (0, (mem k)\<lparr>ram := put_bytes (page + of_nat q) (bytes_at (ram (mem k)) ?arg ?n) (ram (mem k))\<rparr>)"
    using q b(2) by (intro copyout_first_page [OF fp]) simp_all
  have "bytes_at (ram (mem k)) ?arg ?n = w @ [0]"
    using c(2) by (intro nth_equalityI) (auto simp: cstr_nth nth_append less_Suc_eq)
  with co have co: "copyout pt (of_nat q) ?arg (of_nat ?n) (mem k) =
      Inr (0, (mem k)\<lparr>ram := put_bytes (page + of_nat q) (w @ [0]) (ram (mem k))\<rparr>)" by simp
  show ?thesis
    using c(3) b(1) strlen_cstr [OF c(2)] fits co
    by (subst kexec_args.simps) (simp add: Let_def sp len on_mem_def do_ram_def on_ram_def arg_stored_def del: of_nat_Suc MAXARG_def)
qed

text \<open>A step that does not.\<close>

lemma kexec_args_full:
  assumes a: "args_clear D (ram (mem k)) (argv + 8 * of_nat j) (w # ws)" and sp: "sp \<le> 4096" "unat (up_size up) \<le> 4096"
    and full: "MAXARG \<le> j \<or> sp \<le> length w \<or> slot_below 3 sp (Suc (length w)) < unat (up_size up)"
  shows "kexec_args pt up argv us j (of_nat sp) k = Inr (None, k)"
proof (cases "MAXARG \<le> j")
  case True
  then show ?thesis using args_clear_Cons(3) [OF a] by (subst kexec_args.simps) (simp add: Let_def del: MAXARG_def)
next
  case False
  let ?arg = "load64 (ram (mem k)) (argv + 8 * of_nat j)" and ?n = "Suc (length w)"
  note c = args_clear_Cons [OF a]
  have len: "(scast (of_nat (length w) + 1 :: u32) :: u64) = of_nat ?n"
    using scast_index [of ?n] c(4) by (simp add: add.commute)
  define top where "top = (of_nat sp - of_nat ?n :: u64) AND NOT (mask 3)"
  have "mask 3 = (7 :: u64)" by (simp add: mask_eq_exp_minus_1)
  then have t: "(of_nat sp - of_nat ?n :: u64) AND - 8 = top" by (simp add: top_def del: of_nat_Suc)
  have "top < up_size up \<or> copyout pt top ?arg (of_nat ?n) (mem k) = Inr (- 1, mem k)"
  proof (cases "sp \<le> length w")
    case True
    then have "0x4000000000 \<le> unat top" unfolding top_def using c(4) sp(1) by (intro stack_wraps) simp_all
    moreover have "unat (of_nat ?n :: u64) = ?n" using c(4) by (intro unat_small) simp
    then have "0 < (of_nat ?n :: u64)" by (simp add: word_less_nat_alt del: of_nat_Suc)
    ultimately show ?thesis using copyout_too_high by blast
  next
    case False
    then have q: "top = of_nat (slot_below 3 sp ?n)" unfolding top_def using sp(1) by (intro stack_slot) simp_all
    have "slot_below 3 sp ?n + ?n \<le> sp" using False by (intro slot_below_le) simp
    then have "unat top = slot_below 3 sp ?n" unfolding q using sp(1) by (intro unat_small) simp
    then show ?thesis using False \<open>\<not> MAXARG \<le> j\<close> full by (simp add: word_less_nat_alt)
  qed
  then show ?thesis
    using c(3) False strlen_cstr [OF c(2)]
    by (subst kexec_args.simps) (auto simp add: Let_def t len on_mem_def simp del: of_nat_Suc MAXARG_def)
qed

lemma kexec_args_spec:
  assumes "exec_frame (ram (mem k)) pt page us" "args_clear (exec_writes page us) (ram (mem k)) (argv + 8 * of_nat j) ws"
    and "j \<le> MAXARG" "sp \<le> 4096" "unat (up_size up) \<le> 4096"
  shows "\<exists>m'. kexec_args pt up argv us j (of_nat sp) k =
      Inr (map_option (\<lambda>ps. (j + length ws, of_nat (last (sp # ps)))) (arg_slots (unat (up_size up)) (MAXARG - j) ws sp), k\<lparr>mem := (mem k)\<lparr>ram := m'\<rparr>\<rparr>) \<and>
    (\<forall>x. x \<notin> exec_writes page us \<longrightarrow> m' x = ram (mem k) x) \<and>
    (\<forall>ps. arg_slots (unat (up_size up)) (MAXARG - j) ws sp = Some ps \<longrightarrow> args_placed page us j sp ws ps (ram (mem k)) m')"
  using assms
proof (induction ws arbitrary: j sp k)
  case Nil
  then have "load64 (ram (mem k)) (argv + 8 * of_nat j) = 0" by (simp add: args_clear_def argv_of_def)
  then have "kexec_args pt up argv us j (of_nat sp) k = Inr (Some (j, of_nat sp), k\<lparr>mem := (mem k)\<lparr>ram := ram (mem k)\<rparr>\<rparr>)"
    by (subst kexec_args.simps) simp
  then show ?case by (intro exI [of _ "ram (mem k)"]) (simp add: args_placed_def)
next
  case (Cons w ws)
  let ?n = "unat (up_size up)" and ?m = "ram (mem k)"
  define q where "q = slot_below 3 sp (Suc (length w))"
  show ?case
  proof (cases "MAXARG \<le> j \<or> sp \<le> length w \<or> q < ?n")
    case True
    then have "kexec_args pt up argv us j (of_nat sp) k = Inr (None, k\<lparr>mem := (mem k)\<lparr>ram := ?m\<rparr>\<rparr>)"
      using kexec_args_full [OF Cons.prems(2,4,5)] by (simp add: q_def)
    moreover have "arg_slots ?n (MAXARG - j) (w # ws) sp = None" using True by (auto simp: q_def Let_def)
    ultimately show ?thesis by (intro exI [of _ ?m]) simp
  next
    case False
    then have q: "q + Suc (length w) \<le> sp" unfolding q_def by (intro slot_below_le) simp
    define m1 where "m1 = arg_stored page us j q w ?m"
    have us: "\<forall>i < 264. us + of_nat i \<notin> span page 4096" using Cons.prems(1) by (simp add: exec_frame_def)
    have k1: "kexec_args pt up argv us j (of_nat sp) k = kexec_args pt up argv us (Suc j) (of_nat q) (k\<lparr>mem := (mem k)\<lparr>ram := m1\<rparr>\<rparr>)"
      using kexec_args_step [OF Cons.prems(1,2) _ Cons.prems(4)] False by (simp add: q_def m1_def del: MAXARG_def)
    have j: "j < 32" using False by simp
    have kept: "\<forall>x. x \<notin> exec_writes page us \<longrightarrow> m1 x = ?m x"
      unfolding m1_def using j q Cons.prems(4) by (intro arg_stored_kept) simp_all
    have e: "argv + 8 * of_nat j + 8 = argv + 8 * of_nat (Suc j)" by simp
    have ih: "\<exists>m'. kexec_args pt up argv us (Suc j) (of_nat q) (k\<lparr>mem := (mem k)\<lparr>ram := m1\<rparr>\<rparr>) =
        Inr (map_option (\<lambda>ps. (Suc j + length ws, of_nat (last (q # ps)))) (arg_slots ?n (MAXARG - Suc j) ws q), k\<lparr>mem := (mem k)\<lparr>ram := m'\<rparr>\<rparr>) \<and>
      (\<forall>x. x \<notin> exec_writes page us \<longrightarrow> m' x = m1 x) \<and>
      (\<forall>ps. arg_slots ?n (MAXARG - Suc j) ws q = Some ps \<longrightarrow> args_placed page us (Suc j) q ws ps m1 m')"
      using Cons.IH [of "k\<lparr>mem := (mem k)\<lparr>ram := m1\<rparr>\<rparr>" "Suc j" q] exec_frame_kept(1) [OF Cons.prems(1) kept]
        args_clear_kept [OF args_clear_Cons(1) [OF Cons.prems(2)] kept] False q Cons.prems(4,5) unfolding e by simp
    then obtain m' where m': "kexec_args pt up argv us (Suc j) (of_nat q) (k\<lparr>mem := (mem k)\<lparr>ram := m1\<rparr>\<rparr>) =
        Inr (map_option (\<lambda>ps. (Suc j + length ws, of_nat (last (q # ps)))) (arg_slots ?n (MAXARG - Suc j) ws q), k\<lparr>mem := (mem k)\<lparr>ram := m'\<rparr>\<rparr>)"
      "\<forall>x. x \<notin> exec_writes page us \<longrightarrow> m' x = m1 x"
      "\<forall>ps. arg_slots ?n (MAXARG - Suc j) ws q = Some ps \<longrightarrow> args_placed page us (Suc j) q ws ps m1 m'" by blast
    have slots: "arg_slots ?n (MAXARG - j) (w # ws) sp = map_option ((#) q) (arg_slots ?n (MAXARG - Suc j) ws q)"
      using False by (simp add: q_def Let_def)
    have "args_placed page us j sp (w # ws) ps ?m m'" if ps: "arg_slots ?n (MAXARG - j) (w # ws) sp = Some ps" for ps
    proof -
      obtain qs where qs: "ps = q # qs" "arg_slots ?n (MAXARG - Suc j) ws q = Some qs" using ps unfolding slots by auto
      note b = arg_slots_bounds [OF qs(2)]
      show ?thesis
        unfolding qs(1)
        by (rule args_placed_Cons [OF m'(3) [rule_format, OF qs(2), unfolded m1_def] us j _ Cons.prems(4) args_clear_Cons(2) [OF Cons.prems(2)]])
          (use b q in auto)
    qed
    moreover have "kexec_args pt up argv us j (of_nat sp) k = Inr (map_option (\<lambda>ps. (j + length (w # ws), of_nat (last (sp # ps))))
        (arg_slots ?n (MAXARG - j) (w # ws) sp), k\<lparr>mem := (mem k)\<lparr>ram := m'\<rparr>\<rparr>)"
      unfolding k1 m'(1) slots by (simp add: option.map_comp comp_def)
    ultimately show ?thesis using m'(2) kept by (intro exI [of _ m']) simp
  qed
qed

section \<open>The array on the user stack\<close>

text \<open>Where the array of pointers ends up, which is the new stack pointer.\<close>

definition exec_layout :: "nat \<Rightarrow> u8 list list \<Rightarrow> nat option" where
  "exec_layout n ws = Option.bind (arg_slots n MAXARG ws 4096) (\<lambda>ps.
     let sp = last (4096 # ps); b = 8 * Suc (length ws); q = slot_below 4 sp b
     in if sp < b \<or> q < n then None else Some q)"

lemma exec_layout_bounds:
  assumes "exec_layout n ws = Some q"
  shows "n \<le> q" "q + 8 * Suc (length ws) \<le> 4096" "16 dvd q" "length ws \<le> MAXARG"
proof -
  obtain ps where ps: "arg_slots n MAXARG ws 4096 = Some ps"
    and q: "\<not> last (4096 # ps) < 8 * Suc (length ws)" "q = slot_below 4 (last (4096 # ps)) (8 * Suc (length ws))" "\<not> q < n"
    using assms unfolding exec_layout_def Let_def by (cases "arg_slots n MAXARG ws 4096") (auto simp del: last.simps split: if_splits)
  note b = arg_slots_bounds [OF ps]
  show "n \<le> q" "length ws \<le> MAXARG" using q(3) b by simp_all
  have "q + 8 * Suc (length ws) \<le> last (4096 # ps)" unfolding q(2) using q(1) by (intro slot_below_le) simp
  then show "q + 8 * Suc (length ws) \<le> 4096" using b by linarith
  show "16 dvd q" unfolding q(2) slot_below_def by simp
qed

text \<open>The memory at the end: the array, ended by a null pointer, is copied below the strings.\<close>

definition stack_done :: "u64 \<Rightarrow> u64 \<Rightarrow> nat \<Rightarrow> nat \<Rightarrow> memory \<Rightarrow> memory" where
  "stack_done page us n q m =
     (let m = store64 (us + 8 * of_nat n) 0 m in put_bytes (page + of_nat q) (bytes_at m us (8 * Suc n)) m)"

lemma stack_done_kept:
  assumes "n < 33" "q + 8 * Suc n \<le> 4096"
  shows "\<forall>x. x \<notin> exec_writes page us \<longrightarrow> stack_done page us n q m x = m x"
proof (intro allI impI)
  fix x assume x: "x \<notin> exec_writes page us"
  have "\<not> unat (x - (page + of_nat q)) < 8 * Suc n"
    using x assms(2) within_range [of x page q "8 * Suc n" 4096] by (auto simp: exec_writes_def span_def)
  then show "stack_done page us n q m x = m x"
    using array_store_kept [OF assms(1)] x by (simp add: stack_done_def Let_def put_bytes_def)
qed

lemma stack_done_page:
  assumes us: "\<forall>i < 264. us + of_nat i \<notin> span page 4096" and r: "n < 33" "q + 8 * Suc n \<le> 4096" and v: "v < 4096"
  shows "v < q \<or> q + 8 * Suc n \<le> v \<Longrightarrow> stack_done page us n q m (page + of_nat v) = m (page + of_nat v)"
    "i < 8 * Suc n \<Longrightarrow> stack_done page us n q m (page + of_nat (q + i)) = store64 (us + of_nat (8 * n)) 0 m (us + of_nat i)"
proof -
  have s: "store64 (us + of_nat (8 * n)) 0 m (page + of_nat v) = m (page + of_nat v)"
  proof (rule store64_other, rule notI)
    define i where "i = unat (page + of_nat v - (us + of_nat (8 * n)))"
    assume "unat (page + of_nat v - (us + of_nat (8 * n))) < 8"
    then have "8 * n + i < 264" using r(1) by (simp add: i_def)
    moreover have "us + of_nat (8 * n + i) = page + of_nat v" by (simp add: i_def)
    moreover have "page + of_nat v \<in> span page 4096" using v by (intro in_span) simp_all
    ultimately show False using us by metis
  qed
  assume "v < q \<or> q + 8 * Suc n \<le> v"
  then have "\<not> unat (page + of_nat v - (page + of_nat q)) < 8 * Suc n"
  proof
    assume "v < q"
    then show ?thesis using r by (intro behind) simp_all
  next
    assume le: "q + 8 * Suc n \<le> v"
    then have "page + of_nat v - (page + of_nat q) = of_nat (v - q)" by (simp add: of_nat_diff)
    moreover have "unat (of_nat (v - q) :: u64) = v - q" using v by (intro unat_small) simp
    ultimately have "unat (page + of_nat v - (page + of_nat q)) = v - q" by (simp only:)
    then show ?thesis using le by simp
  qed
  then show "stack_done page us n q m (page + of_nat v) = m (page + of_nat v)"
    using s by (simp add: stack_done_def Let_def put_bytes_def)
next
  assume i: "i < 8 * Suc n"
  have "page + of_nat (q + i) - (page + of_nat q) = of_nat i" by simp
  moreover have "unat (of_nat i :: u64) = i" using i r by (intro unat_small) simp
  ultimately have "unat (page + of_nat (q + i) - (page + of_nat q)) = i" by (simp only:)
  then show "stack_done page us n q m (page + of_nat (q + i)) = store64 (us + of_nat (8 * n)) 0 m (us + of_nat i)"
    using i unfolding stack_done_def Let_def put_bytes_def by simp
qed

lemma stack_done_argv:
  assumes us: "\<forall>i < 264. us + of_nat i \<notin> span page 4096"
    and p: "args_placed page us 0 4096 ws ps m0 m" and ps: "\<forall>l < length ws. last (4096 # ps) \<le> ps ! l \<and> ps ! l + length (ws ! l) < 4096"
    and r: "length ws < 33" "q + 8 * Suc (length ws) \<le> last (4096 # ps)" "last (4096 # ps) \<le> 4096"
    and u: "\<forall>v < 4096. u (of_nat v) = stack_done page us (length ws) q m (page + of_nat v)"
  shows "argv_of u (of_nat q) ws"
proof -
  let ?n = "length ws" and ?m = "stack_done page us (length ws) q m"
  have q: "q + 8 * Suc ?n \<le> 4096" using r by simp
  note pg = stack_done_page [OF us r(1) q]
  have l: "load64 u (of_nat q + of_nat (8 * j)) = load64 (store64 (us + of_nat (8 * ?n)) 0 m) (us + of_nat (8 * j))" if j: "j \<le> ?n" for j
  proof (rule load_le_shift)
    fix i :: nat assume "i < 8"
    then have i: "8 * j + i < 8 * Suc ?n" "q + (8 * j + i) < 4096" using j q by simp_all
    have "u (of_nat (q + (8 * j + i))) = store64 (us + of_nat (8 * ?n)) 0 m (us + of_nat (8 * j + i))"
      unfolding u [rule_format, OF i(2)] by (rule pg(2) [OF i(2) i(1)])
    then show "u (of_nat q + of_nat (8 * j) + of_nat i) = store64 (us + of_nat (8 * ?n)) 0 m (us + of_nat (8 * j) + of_nat i)"
      by (simp add: add.assoc)
  qed
  have z: "load64 u (of_nat q + of_nat (8 * ?n)) = 0" unfolding l [OF order_refl] by (simp add: load_store_same)
  have "cstr u (load64 u (of_nat q + of_nat (8 * j))) (ws ! j)" if j: "j < ?n" for j
  proof -
    have "load64 (store64 (us + of_nat (8 * ?n)) 0 m) (us + of_nat (8 * j)) = load64 m (us + of_nat (8 * j))"
    proof (rule load_le_cong, rule store64_other)
      fix i :: nat assume "i < 8"
      then have "\<not> unat (us + of_nat (8 * j + i) - (us + of_nat (8 * ?n))) < 8" using j r(1) by (intro behind) simp_all
      then show "\<not> unat (us + of_nat (8 * j) + of_nat i - (us + of_nat (8 * ?n))) < 8" by (simp add: add.assoc)
    qed
    then have e: "load64 u (of_nat q + of_nat (8 * j)) = of_nat (ps ! j)" unfolding l [OF less_imp_le [OF j]] using p j by (simp add: args_placed_def)
    have c: "cstr m (page + of_nat (ps ! j)) (ws ! j)" using p j by (simp add: args_placed_def)
    have b: "q + 8 * Suc ?n \<le> ps ! j" "ps ! j + length (ws ! j) < 4096" using ps j r(2) by (meson le_trans)+
    have "u (of_nat (ps ! j) + of_nat i) = m (page + of_nat (ps ! j) + of_nat i)" if "i \<le> length (ws ! j)" for i
    proof -
      have v: "ps ! j + i < 4096" "q + 8 * Suc ?n \<le> ps ! j + i" using that b by simp_all
      have "u (of_nat (ps ! j + i)) = m (page + of_nat (ps ! j + i))"
        unfolding u [rule_format, OF v(1)] by (rule pg(1) [OF v(1) disjI2 [OF v(2)]])
      then show ?thesis by (simp add: add.assoc)
    qed
    then show ?thesis unfolding e using c by (simp add: cstr_nth)
  qed
  with z show ?thesis by (simp add: argv_of_def)
qed

section \<open>The part of kexec after the image\<close>

text \<open>
  \<open>exec_rest\<close> is the code of \<open>kexec\<close> from the clearing of \<open>ustack\<close> up to the registers, which are \<open>F\<close>.
\<close>

definition exec_rest :: "u64 \<Rightarrow> user_program \<Rightarrow> u64 \<Rightarrow> u64 \<Rightarrow> (nat \<Rightarrow> u64 \<Rightarrow> kernel \<Rightarrow> (u32 \<times> kernel) outcome) \<Rightarrow> kernel \<Rightarrow> (u32 \<times> kernel) outcome" where
  "exec_rest pt up argv us F k =
     (let k = do_ram (memset us 0 (8 * (of_nat MAXARG + 1))) k in
      bindE (if argv \<noteq> 0 then kexec_args pt up argv us 0 PGSIZE k else Inr (Some (0, PGSIZE), k)) (\<lambda>(args, k).
      case args of None \<Rightarrow> Inr (- 1, k)
      | Some (argc, sp) \<Rightarrow>
        let k = do_ram (store64 (us + 8 * of_nat argc) 0) k;
            sp = (sp - 8 * (of_nat argc + 1)) AND NOT 15
        in if sp < up_size up then Inr (- 1, k)
           else
             bindE (on_mem (copyout pt sp us (8 * (of_nat argc + 1))) k) (\<lambda>(rc, k).
             if rc <s 0 then Inr (- 1, k) else F argc sp k)))"

lemma exec_array_step:
  assumes f: "exec_frame (ram (mem k)) pt page us" and r: "argc < 33" "sp \<le> 4096" "unat (up_size up) \<le> 4096"
  defines "m1 \<equiv> store64 (us + 8 * of_nat argc) 0 (ram (mem k))" and "b \<equiv> 8 * Suc argc"
  shows "(let k = do_ram (store64 (us + 8 * of_nat argc) 0) k; sp = (of_nat sp - 8 * (of_nat argc + 1)) AND NOT 15
      in if sp < up_size up then Inr (- 1, k)
         else bindE (on_mem (copyout pt sp us (8 * (of_nat argc + 1))) k) (\<lambda>(rc, k). if rc <s 0 then Inr (- 1, k) else F argc sp k)) =
    (if sp < b \<or> slot_below 4 sp b < unat (up_size up) then Inr (- 1, k\<lparr>mem := (mem k)\<lparr>ram := m1\<rparr>\<rparr>)
     else F argc (of_nat (slot_below 4 sp b)) (k\<lparr>mem := (mem k)\<lparr>ram := stack_done page us argc (slot_below 4 sp b) (ram (mem k))\<rparr>\<rparr>))"
proof -
  let ?k = "k\<lparr>mem := (mem k)\<lparr>ram := m1\<rparr>\<rparr>" and ?q = "slot_below 4 sp b"
  define top where "top = (of_nat sp - of_nat b :: u64) AND NOT (mask 4)"
  have bb: "8 * (of_nat argc + 1) = (of_nat b :: u64)" by (simp add: b_def algebra_simps)
  have "mask 4 = (15 :: u64)" by (simp add: mask_eq_exp_minus_1)
  then have t: "(of_nat sp - of_nat b :: u64) AND NOT 15 = top" by (simp add: top_def)
  have kk: "do_ram (store64 (us + 8 * of_nat argc) 0) k = ?k" by (simp add: do_ram_def on_ram_def m1_def)
  have "\<forall>x. x \<notin> exec_writes page us \<longrightarrow> m1 x = ram (mem k) x" unfolding m1_def by (rule array_store_kept [OF r(1)])
  then have "exec_frame m1 pt page us" by (rule exec_frame_kept(1) [OF f])
  then have fp: "first_page (ram (mem ?k)) pt page" and us: "\<forall>i < 264. us + of_nat i \<notin> span page 4096" by (simp_all add: exec_frame_def)
  consider (wrap) "sp < b" | (small) "b \<le> sp" "?q < unat (up_size up)" | (fits) "b \<le> sp" "unat (up_size up) \<le> ?q" by linarith
  then show ?thesis
  proof cases
    case wrap
    then have h: "0x4000000000 \<le> unat top" unfolding top_def using r by (intro stack_wraps) (simp_all add: b_def)
    then have "\<not> top < up_size up" using r(3) by (simp add: word_less_nat_alt)
    moreover have "unat (of_nat b :: u64) = b" using r(1) by (intro unat_small) (simp add: b_def)
    then have "0 < (of_nat b :: u64)" by (simp add: word_less_nat_alt b_def del: of_nat_Suc of_nat_mult)
    ultimately show ?thesis using wrap copyout_too_high [OF h, of "of_nat b" pt us "(mem k)\<lparr>ram := m1\<rparr>"]
      unfolding bb t kk by (simp add: Let_def on_mem_def)
  next
    case small
    have top: "top = of_nat ?q" unfolding top_def using small r by (intro stack_slot) simp_all
    have "?q + b \<le> sp" using small by (intro slot_below_le)
    then have "unat top = ?q" unfolding top using r by (intro unat_small) simp
    then show ?thesis using small unfolding bb t kk by (simp add: Let_def word_less_nat_alt)
  next
    case fits
    have top: "top = of_nat ?q" unfolding top_def using fits r by (intro stack_slot) simp_all
    have q: "?q + b \<le> sp" using fits by (intro slot_below_le)
    then have "unat top = ?q" unfolding top using r by (intro unat_small) simp
    then have no: "\<not> top < up_size up" using fits by (simp add: word_less_nat_alt)
    have "apart page 4096 us b"
      unfolding apart_def
    proof (intro allI impI notI)
      fix i assume i: "i < 4096" "unat (page + of_nat i - us) < b"
      have "us + of_nat (unat (page + of_nat i - us)) = page + of_nat i" by simp
      moreover have "unat (page + of_nat i - us) < 264" using i(2) r(1) by (simp add: b_def)
      ultimately have "page + of_nat i \<notin> span page 4096" using us by metis
      then show False using in_span [OF i(1), of page] by simp
    qed
    then have "copyout pt top us (of_nat b) (mem ?k) = Inr (0, (mem ?k)\<lparr>ram := put_bytes (page + of_nat ?q) (bytes_at (ram (mem ?k)) us b) (ram (mem ?k))\<rparr>)"
      unfolding top using q r by (intro copyout_first_page [OF fp]) simp_all
    then have "copyout pt top us (of_nat b) ((mem k)\<lparr>ram := m1\<rparr>) = Inr (0, (mem k)\<lparr>ram := stack_done page us argc ?q (ram (mem k))\<rparr>)"
      by (simp add: stack_done_def Let_def m1_def b_def)
    then show ?thesis using fits no unfolding bb t kk by (simp add: Let_def on_mem_def top)
  qed
qed

lemma memset_span: "x \<notin> span p n \<Longrightarrow> memset p v (of_nat n) m x = m x"
proof -
  assume "x \<notin> span p n"
  moreover have "unat (x - p) < n" if "p \<le> x" "x < p + of_nat n"
  proof -
    have "unat (of_nat n :: u64) \<le> n" by (simp add: unat_of_nat)
    moreover have "unat (p + of_nat n) \<le> unat p + unat (of_nat n :: u64)" by (simp add: unat_word_ariths)
    ultimately have "unat (p + of_nat n) \<le> unat p + n" by linarith
    then show ?thesis using that by (simp add: word_le_nat_alt word_less_nat_alt unat_sub_le)
  qed
  ultimately show ?thesis by (auto simp: memset_eq span_def)
qed

lemma exec_rest_spec:
  assumes f: "exec_frame (ram (mem k)) pt page us" and a: "args_clear (exec_writes page us) (ram (mem k)) argv ws"
    and n: "argv \<noteq> 0" "unat (up_size up) \<le> 4096"
  shows "\<exists>m'. (\<forall>x. x \<notin> exec_writes page us \<longrightarrow> m' x = ram (mem k) x) \<and>
    (case exec_layout (unat (up_size up)) ws of
       None \<Rightarrow> exec_rest pt up argv us F k = Inr (- 1, k\<lparr>mem := (mem k)\<lparr>ram := m'\<rparr>\<rparr>)
     | Some q \<Rightarrow> exec_rest pt up argv us F k = F (length ws) (of_nat q) (k\<lparr>mem := (mem k)\<lparr>ram := m'\<rparr>\<rparr>) \<and>
         unat (up_size up) \<le> q \<and> q < 4096 \<and> (\<forall>v < q. m' (page + of_nat v) = ram (mem k) (page + of_nat v)) \<and>
         (\<forall>u. (\<forall>v < 4096. u (of_nat v) = m' (page + of_nat v)) \<longrightarrow> argv_of u (of_nat q) ws))"
proof -
  let ?n = "unat (up_size up)" and ?m = "ram (mem k)"
  define m0 where "m0 = memset us 0 (8 * (of_nat MAXARG + 1)) ?m"
  define k0 where "k0 = k\<lparr>mem := (mem k)\<lparr>ram := m0\<rparr>\<rparr>"
  have m0: "m0 x = ?m x" if "x \<notin> span us 264" for x
    using memset_span [OF that, of 0 ?m] by (simp add: m0_def)
  then have kept0: "\<forall>x. x \<notin> exec_writes page us \<longrightarrow> m0 x = ?m x" by (simp add: exec_writes_def)
  have us: "\<forall>i < 264. us + of_nat i \<notin> span page 4096" using f by (simp add: exec_frame_def)
  have pg0: "m0 (page + of_nat v) = ?m (page + of_nat v)" if "v < 4096" for v
  proof (rule m0)
    have "page + of_nat v \<in> span page 4096" using that by (intro in_span) simp_all
    then show "page + of_nat v \<notin> span us 264" using us span_iff [of 264 "page + of_nat v" us] by auto
  qed
  have f0: "exec_frame (ram (mem k0)) pt page us" using exec_frame_kept(1) [OF f kept0] by (simp add: k0_def)
  have "args_clear (exec_writes page us) (ram (mem k0)) (argv + 8 * of_nat 0) ws" using args_clear_kept [OF a kept0] by (simp add: k0_def)
  then obtain m1 where m1: "kexec_args pt up argv us 0 PGSIZE k0 = Inr (map_option (\<lambda>ps. (length ws, of_nat (last (4096 # ps)))) (arg_slots ?n MAXARG ws 4096), k0\<lparr>mem := (mem k0)\<lparr>ram := m1\<rparr>\<rparr>)"
      "\<forall>x. x \<notin> exec_writes page us \<longrightarrow> m1 x = m0 x" "\<forall>ps. arg_slots ?n MAXARG ws 4096 = Some ps \<longrightarrow> args_placed page us 0 4096 ws ps m0 m1"
    using kexec_args_spec [OF f0, of argv 0 ws 4096 up] n(2) by (auto simp: k0_def)
  have kept1: "\<forall>x. x \<notin> exec_writes page us \<longrightarrow> m1 x = ?m x" using kept0 m1(2) by simp
  have f1: "exec_frame m1 pt page us" by (rule exec_frame_kept(1) [OF f kept1])
  have k0': "do_ram (memset us 0 (8 * (of_nat MAXARG + 1))) k = k0" by (simp add: do_ram_def on_ram_def k0_def m0_def)
  show ?thesis
  proof (cases "arg_slots ?n MAXARG ws 4096")
    case None
    then have "exec_rest pt up argv us F k = Inr (- 1, k\<lparr>mem := (mem k)\<lparr>ram := m1\<rparr>\<rparr>)"
      unfolding exec_rest_def k0' using n(1) m1(1) by (simp add: k0_def)
    then show ?thesis using kept1 None by (intro exI [of _ m1]) (simp add: exec_layout_def)
  next
    case (Some ps)
    let ?sp = "last (4096 # ps)" and ?b = "8 * Suc (length ws)"
    define q where "q = slot_below 4 ?sp ?b"
    note b = arg_slots_bounds [OF Some]
    have len: "length ws < 33" "?sp \<le> 4096" using b by simp_all
    let ?k1 = "k\<lparr>mem := (mem k)\<lparr>ram := m1\<rparr>\<rparr>"
    have k1: "exec_rest pt up argv us F k = (if ?sp < ?b \<or> q < ?n
        then Inr (- 1, k\<lparr>mem := (mem k)\<lparr>ram := store64 (us + 8 * of_nat (length ws)) 0 m1\<rparr>\<rparr>)
        else F (length ws) (of_nat q) (k\<lparr>mem := (mem k)\<lparr>ram := stack_done page us (length ws) q m1\<rparr>\<rparr>))"
      using exec_array_step [of ?k1 pt page us "length ws" ?sp up F] f1 len n(2) n(1) m1(1) Some
      unfolding exec_rest_def k0' by (simp add: q_def k0_def del: last.simps)
    have lay: "exec_layout ?n ws = (if ?sp < ?b \<or> q < ?n then None else Some q)"
      using Some by (simp add: exec_layout_def q_def Let_def)
    show ?thesis
    proof (cases "?sp < ?b \<or> q < ?n")
      case True
      have "\<forall>x. x \<notin> exec_writes page us \<longrightarrow> store64 (us + 8 * of_nat (length ws)) 0 m1 x = m1 x" by (rule array_store_kept [OF len(1)])
      then show ?thesis using kept1 True lay k1 by (intro exI [of _ "store64 (us + 8 * of_nat (length ws)) 0 m1"]) simp
    next
      case False
      then have q: "q + ?b \<le> ?sp" unfolding q_def by (intro slot_below_le) simp
      let ?m' = "stack_done page us (length ws) q m1"
      have "?m' (page + of_nat v) = ?m (page + of_nat v)" if v: "v < q" for v
      proof -
        have "v < 4096" "v < ?sp" using v q len by linarith+
        then show ?thesis
          using stack_done_page(1) [OF us len(1), of q v m1] m1(3) [rule_format, OF Some] v q len pg0 by (simp add: args_placed_def)
      qed
      moreover have "argv_of u (of_nat q) ws" if "\<forall>v < 4096. u (of_nat v) = ?m' (page + of_nat v)" for u
        by (rule stack_done_argv [OF us m1(3) [rule_format, OF Some] _ len(1) q len(2) that]) (use b in auto)
      moreover have "\<forall>x. x \<notin> exec_writes page us \<longrightarrow> ?m' x = ?m x"
        using stack_done_kept [OF len(1), of q page us m1] q len(2) kept1 by simp
      ultimately show ?thesis using False lay k1 q len(2) by (intro exI [of _ ?m']) auto
    qed
  qed
qed

end
