(* ===== verification/Process_Exec.thy ===== *)
theory Process_Exec
  imports Process_Fork Exec_Stack
begin

text \<open>
  How \<open>kexec\<close> replaces the image of a process: a page off the free list gets the program, the old user pages go
  back, the page is mapped at 0, and the arguments are laid out at its end. The process owns its memory afterwards
  whether the arguments fitted or not.
\<close>

section \<open>The page at address 0\<close>

lemma mk_pte_URWX:
  assumes "page_aligned c"
  shows "PTE2PA (mk_pte c PTE_URWX) = c" "bit (mk_pte c PTE_URWX) 0" "bit (mk_pte c PTE_URWX) 2" "bit (mk_pte c PTE_URWX) 4"
proof -
  have f: "scast PTE_URWX OR PTE_V = (31 :: u64)"
    by (simp add: PTE_URWX_def PTE_R_def PTE_W_def PTE_X_def PTE_U_def PTE_V_def)
  show "PTE2PA (mk_pte c PTE_URWX) = c"
    using PTE2PA_pack [of 31 c] assms by (simp add: mk_pte_def or.assoc f PGROUNDDOWN_aligned)
  show "bit (mk_pte c PTE_URWX) 0" "bit (mk_pte c PTE_URWX) 2" "bit (mk_pte c PTE_URWX) 4"
    by (simp_all add: mk_pte_def or.assoc f bit_simps)
qed

lemma first_page_mapped:
  assumes wf: "pt_wf m pt" and page: "page_aligned page" "page \<noteq> 0" "pageno page \<notin> pageno ` tables m pt"
    and pte: "pte_at m pt 0 = mk_pte page PTE_URWX"
  shows "first_page m pt page"
proof -
  have "user_waddr m pt (of_nat v) = Some (page + of_nat v)" if v: "v < 4096" for v
  proof -
    have u: "unat (of_nat v :: u64) = v" using v by (intro unat_small) simp
    then have "pageno (of_nat v) = pageno 0" using v by (simp add: pageno_def)
    then have "leaf m pt (of_nat v) = leaf m pt 0" by (rule leaf_same_page)
    also have "\<dots> = mk_pte page PTE_URWX" using pte pte_at_leaf [of 0 m pt] by (simp add: pageno_def)
    finally show ?thesis using mk_pte_URWX [OF page(1)] page(2) v u by (simp add: user_waddr_def user_addr_def user_ok_def)
  qed
  then show ?thesis using wf page by (simp add: first_page_def)
qed

section \<open>The old image replaced\<close>

lemma space_pages_pos: "0 < brk \<Longrightarrow> 0 < space_pages brk"
proof -
  assume "0 < brk"
  then have "0 < unat brk" by (simp add: word_less_nat_alt)
  then show ?thesis unfolding space_pages_def by (simp add: div_greater_zero_iff)
qed

text \<open>
  \<open>swapped ph pt brk xs ph' page zs\<close>: the table \<open>pt\<close>, which mapped the user pages below \<open>brk\<close>, maps the one page \<open>page\<close> at 0
  instead; the frames behind the old pages are free, and no page is lost.
\<close>

definition swapped :: "phys \<Rightarrow> u64 \<Rightarrow> u64 \<Rightarrow> u64 list \<Rightarrow> phys \<Rightarrow> u64 \<Rightarrow> u64 list \<Rightarrow> bool" where
  "swapped ph pt brk xs ph' page zs \<longleftrightarrow>
     (let fs = user_frames (ram ph) pt brk
      in pt_ok ph' pt zs \<and> pure_tree (ram ph') pt \<and> end_address ph' = end_address ph \<and>
         managed ph page \<and> page \<in> set xs \<and> page \<notin> set zs \<and> page \<notin> tables (ram ph') pt \<and>
         (\<forall>w < 2 ^ 27. pte_at (ram ph') pt w =
            (if w = 0 then mk_pte page PTE_URWX
             else if w < space_pages brk \<and> bit (pte_at (ram ph) pt w) 0 then 0 else pte_at (ram ph) pt w)) \<and>
         set zs \<union> insert page (tables (ram ph') pt) = set xs \<union> tables (ram ph) pt \<union> set fs \<and>
         agree_on (- pageno ` (set xs \<union> tables (ram ph) pt \<union> set fs)) (ram ph) (ram ph'))"

lemma page_bytes_agree:
  assumes "managed ph page" "\<forall>q \<in> S. managed ph q \<and> q \<noteq> page" "agree_on (- pageno ` S) m m'" "v < 4096"
  shows "m' (page + of_nat v) = m (page + of_nat v)"
proof -
  have "pageno (page + of_nat v) = pageno page" using assms(1,4) by (intro of_nat_page) (simp_all add: managed_def)
  moreover have "pageno page \<notin> pageno ` S"
  proof
    assume "pageno page \<in> pageno ` S"
    then obtain q where "q \<in> S" "pageno q = pageno page" by (metis imageE)
    then show False using pageno_inj_managed [OF _ assms(1), of q] assms(2) by blast
  qed
  ultimately show ?thesis by (intro agree_onD [OF assms(3)]) auto
qed

lemma image_swapped:
  assumes us: "user_space ph pt brk (page # ys)" and brk: "page_aligned brk" "0 < brk" and len: "2 \<le> length ys"
    and k: "kalloc ph = (page, ph1)" and m: "agree_on (- {pageno page}) (ram ph1) m"
  obtains ph3 ph4 zs where "uvmunmap pt 0 brk True (ph1\<lparr>ram := m\<rparr>) = Inr ph3" "mappages pt page 0 PGSIZE PTE_URWX ph3 = Inr (0, ph4)"
    "swapped ph pt brk (page # ys) ph4 page zs" "\<forall>v < 4096. ram ph4 (page + of_nat v) = m (page + of_nat v)" "pt \<noteq> 0"
proof -
  let ?fs = "user_frames (ram ph) pt brk" and ?n = "space_pages brk"
  note u = us [unfolded user_space_def]
  have ok: "pt_ok ph pt (page # ys)" using u by simp
  note kb = kalloc_bystander [OF ok k]
  have inv: "free_inv ph (page # ys)" using ok by (simp add: pt_ok_def)
  have man: "managed ph page" "page \<notin> set ys" using inv by (simp_all add: free_inv_def)
  have ag1: "agree_on (- {pageno page}) (ram ph) (ram ph1)"
    using inv by (rule kalloc_free_inv) (use k in simp)
  define ph2 where "ph2 = ph1\<lparr>ram := m\<rparr>"
  have ag: "agree_on (- pageno ` {page}) (ram ph) (ram ph2)" using ag1 m by (auto simp: ph2_def intro: agree_on_trans)
  have "pageno ` set ys \<subseteq> - {pageno page}" using inv by (auto simp: free_inv_def dest: pageno_inj_managed)
  then have "agree_on (pageno ` set ys) (ram ph1) m" by (rule agree_on_subset [OF m])
  then have inv2: "free_inv ph2 ys" unfolding ph2_def using kb(1) by (intro free_inv_frame) (simp_all add: pt_ok_def)
  have e2: "end_address ph2 = end_address ph" using kb(9) by (simp add: ph2_def)
  have P: "\<forall>p \<in> {page}. managed ph p" "{page} \<inter> tables (ram ph) pt = {}" using man ok by (auto simp: pt_ok_def)
  have Y: "set ys \<inter> (tables (ram ph) pt \<union> set ?fs) = {}" using us u by (auto simp: pt_ok_def)
  note kept = user_space_kept [OF us inv2 e2 ag P Y]
  note u2 = kept(1) [unfolded user_space_def]
  have n: "?n \<le> 0x3fffffe" using u by (intro space_pages_le) simp
  have z: "page_aligned 0" "pageno 0 = 0" by (simp_all add: page_aligned_def pageno_def)
  have nb: "pageno brk = ?n"
    using page_aligned_unat [OF brk(1)] by (simp add: space_pages_def) 
  have "\<exists>ph3. uvmunmap pt 0 brk True ph2 = Inr ph3 \<and> pt_unmap pt ph2 ys ph3 ?fs {0..<?n}"
    using uvmunmap_spec [of ph2 pt ys 0 brk True] u2 brk(1) u trap_pages kept(3) z by (simp add: nb user_frames_def)
  then obtain ph3 where u3: "uvmunmap pt 0 brk True ph2 = Inr ph3" "pt_unmap pt ph2 ys ph3 ?fs {0..<?n}" by blast
  note p3 = u3(2) [unfolded pt_unmap_def]
  have n0: "0 < ?n" using brk(2) by (rule space_pages_pos)
  have ok3: "pt_ok ph3 pt (rev ?fs @ ys)" using p3 by simp
  have "\<not> bit (pte_at (ram ph3) pt (pageno 0)) 0" using p3 n0 z by simp
  then obtain ph4 zs where m4: "mappages pt page 0 PGSIZE PTE_URWX ph3 = Inr (0, ph4)" "pt_upd pt ph3 (rev ?fs @ ys) ph4 zs [pageno 0 \<mapsto> mk_pte page PTE_URWX]"
    by (rule map_page [OF ok3 z(1), of page PTE_URWX, rotated]) (use len in simp_all)
  note p4 = m4(2) [unfolded pt_upd_def]
  obtain as where as: "rev ?fs @ ys = as @ zs" "tables (ram ph4) pt = tables (ram ph) pt \<union> set as" using p4 p3 kept(2) by auto
  have un: "set as \<union> set zs = set ?fs \<union> set ys" using arg_cong [OF as(1), of set] by auto
  have pf: "page \<notin> set ?fs" using u by auto
  then have pt4: "page \<notin> set zs" "page \<notin> tables (ram ph4) pt" using un as(2) man P(2) by auto
  have pure: "pure_tree (ram ph3) pt" using p3 u2 pure_tree_kept by blast
  then have pure4: "pure_tree (ram ph4) pt" using mappages_pure [OF ok3 z(1) _ _ m4(1)] by simp
  have e4: "end_address ph4 = end_address ph" using p4 p3 e2 by simp
  have man4: "managed ph4 = managed ph" using e4 by (rule managed_end)
  have pte: "\<forall>w < 2 ^ 27. pte_at (ram ph4) pt w = (if w = 0 then mk_pte page PTE_URWX
      else if w < ?n \<and> bit (pte_at (ram ph) pt w) 0 then 0 else pte_at (ram ph) pt w)"
    using pt_upd_pte_at [OF m4(2)] p3 kept(4) z by simp
  have T: "tables (ram ph4) pt \<subseteq> set (page # ys) \<union> tables (ram ph) pt \<union> set ?fs" using as(2) un by auto
  have a3: "agree_on (- pageno ` (tables (ram ph2) pt \<union> set ?fs)) (ram ph2) (ram ph3)"
    and a4: "agree_on (- pageno ` tables (ram ph4) pt) (ram ph3) (ram ph4)" using p3 p4 by blast+
  have "swapped ph pt brk (page # ys) ph4 page zs"
    unfolding swapped_def Let_def
  proof (intro conjI)
    show "agree_on (- pageno ` (set (page # ys) \<union> tables (ram ph) pt \<union> set ?fs)) (ram ph) (ram ph4)"
    proof (rule agree_on_trans, rule agree_on_trans)
      show "agree_on (- pageno ` (set (page # ys) \<union> tables (ram ph) pt \<union> set ?fs)) (ram ph) (ram ph2)" by (rule agree_on_subset [OF ag]) auto
      show "agree_on (- pageno ` (set (page # ys) \<union> tables (ram ph) pt \<union> set ?fs)) (ram ph2) (ram ph3)"
        by (rule agree_on_subset [OF a3]) (use kept(2) in auto)
      show "agree_on (- pageno ` (set (page # ys) \<union> tables (ram ph) pt \<union> set ?fs)) (ram ph3) (ram ph4)"
        by (rule agree_on_subset [OF a4]) (use T in auto)
    qed
    show "set zs \<union> insert page (tables (ram ph4) pt) = set (page # ys) \<union> tables (ram ph) pt \<union> set ?fs" using un as(2) by auto
  qed (use p4 pure4 e4 man pt4 pte in simp_all)
  moreover have "ram ph4 (page + of_nat v) = m (page + of_nat v)" if "v < 4096" for v
  proof -
    let ?S = "tables (ram ph4) pt \<union> (tables (ram ph2) pt \<union> set ?fs)"
    have "managed ph q \<and> q \<noteq> page" if q: "q \<in> ?S" for q
    proof
      show "managed ph q" using q p4 us ok kept(2) man4 user_space_managed [OF us, of q] by (auto simp: pt_ok_def)
      show "q \<noteq> page" using q pt4(2) pf P(2) kept(2) by blast
    qed
    moreover have "agree_on (- pageno ` ?S) (ram ph2) (ram ph4)"
      by (rule agree_on_trans [OF agree_on_subset [OF a3] agree_on_subset [OF a4]]) auto
    ultimately have "ram ph4 (page + of_nat v) = ram ph2 (page + of_nat v)"
      using that by (intro page_bytes_agree [OF man(1), of ?S]) blast+
    then show ?thesis by (simp add: ph2_def)
  qed
  moreover have "pt \<noteq> 0" using ok inv managed_nonzero [of ph pt] by (auto simp: pt_ok_def tables_def free_inv_def)
  ultimately show ?thesis using that u3(1) m4(1) unfolding ph2_def by blast
qed

lemma swapped_space:
  assumes us: "user_space ph pt brk xs" and sw: "swapped ph pt brk xs ph' page zs" and b: "b = brk \<or> b = 4096" "0 < brk"
  shows "user_space ph' pt b zs" "user_frames (ram ph') pt b = [page]"
proof -
  note s = sw [unfolded swapped_def Let_def] and u = us [unfolded user_space_def]
  have n: "0 < space_pages brk" "space_pages brk \<le> 0x3fffffe" using space_pages_pos [OF b(2)] u by (simp_all add: space_pages_le)
  have pb: "0 < space_pages b" "space_pages b \<le> space_pages brk" using b(1) n by (auto simp: space_pages_def)
  have al: "page_aligned page" using s by (simp add: managed_def)
  have pte0: "pte_at (ram ph') pt 0 = mk_pte page PTE_URWX" using s by simp
  have inv: "\<not> bit (pte_at (ram ph') pt w) 0" if "0 < w" "w < space_pages brk" for w
    using s that n(2) by auto
  have "frames (pte_at (ram ph') pt) (Suc 0) (space_pages b - 1) = []"
    unfolding frames_def using inv pb by (auto simp: filter_empty_conv)
  then have "frames (pte_at (ram ph') pt) 0 (Suc (space_pages b - 1)) = [page]"
    unfolding frames_Suc pte0 using mk_pte_URWX [OF al] by simp
  then show uf: "user_frames (ram ph') pt b = [page]" using pb(1) by (simp add: user_frames_def)
  show "user_space ph' pt b zs"
    unfolding user_space_def uf
  proof (intro conjI allI impI)
    show "unat b \<le> unat TRAPFRAME" using b(1) u trap_pages by auto
    fix w :: nat assume w: "w < 2 ^ 27" "bit (pte_at (ram ph') pt w) 0"
    show "w < space_pages b \<or> w = pageno TRAMPOLINE \<or> w = pageno TRAPFRAME"
    proof (cases "w < space_pages brk")
      case True
      then have "w = 0" using inv [of w] w(2) by blast
      then show ?thesis using pb(1) by simp
    next
      case False
      then have "pte_at (ram ph') pt w = pte_at (ram ph) pt w" using s w(1) n(1) by auto
      then show ?thesis using u w False by auto
    qed
  qed (use s managed_end [of ph' ph] in simp_all)
qed

section \<open>The process afterwards\<close>

text \<open>
  \<open>replaced k i xs k' zs\<close>: process \<open>i\<close> owns its memory with the free pages \<open>zs\<close>, the pages it and the free list had between
  them are the same, and no other page of the allocator has changed.
\<close>

definition replaced :: "kernel \<Rightarrow> nat \<Rightarrow> u64 list \<Rightarrow> kernel \<Rightarrow> u64 list \<Rightarrow> bool" where
  "replaced k i xs k' zs \<longleftrightarrow>
     (let m = ram (mem k); m' = ram (mem k'); root = kernel_pagetable k
      in proc_space k' i zs \<and> set zs \<union> owned k' i = set xs \<union> owned k i \<and> kernel_pagetable k' = root \<and>
         end_address (mem k') = end_address (mem k) \<and> tables m' root = tables m root \<and> (\<forall>w. pte_at m' root w = pte_at m root w) \<and>
         (\<forall>q. managed (mem k) q \<and> q \<notin> set xs \<union> owned k i \<longrightarrow> agree_on {pageno q} m m'))"

lemma agree_on_pages:
  assumes "\<And>q. q \<in> A \<Longrightarrow> agree_on {pageno q} m m'"
  shows "agree_on (pageno ` A) m m'"
  using assms by (auto simp: agree_on_def)

lemma exec_replaced:
  assumes sp: "proc_space k i xs" and sw: "swapped (mem k) (pagetable (procs k ! i)) (sz (procs k ! i)) xs ph page zs"
    and b: "0 < sz (procs k ! i)" "sz (procs k' ! i) = sz (procs k ! i) \<or> sz (procs k' ! i) = 4096"
    and m: "\<forall>q. managed ph q \<and> q \<noteq> page \<and> q \<noteq> trapframe (procs k ! i) \<longrightarrow> agree_on {pageno q} (ram ph) m'"
    and k': "mem k' = ph\<lparr>ram := m'\<rparr>" "kernel_pagetable k' = kernel_pagetable k" "trapframe (procs k' ! i) = trapframe (procs k ! i)"
      "pagetable (procs k' ! i) = pagetable (procs k ! i)" "kstack (procs k' ! i) = kstack (procs k ! i)"
  shows "replaced k i xs k' zs" "owned k' i \<subseteq> set xs \<union> owned k i"
proof -
  let ?pt = "pagetable (procs k ! i)" and ?tf = "trapframe (procs k ! i)" and ?root = "kernel_pagetable k" and ?b = "sz (procs k' ! i)"
  define P where "P = set xs \<union> tables (ram (mem k)) ?pt \<union> set (user_frames (ram (mem k)) ?pt (sz (procs k ! i)))"
  note s = sp [unfolded proc_space_def Let_def] and w = sw [unfolded swapped_def Let_def, folded P_def]
  have us: "user_space (mem k) ?pt (sz (procs k ! i)) xs" and okr: "pt_ok (mem k) ?root xs" using s by simp_all
  note sp4 = swapped_space [OF us sw b(2,1)]
  have e: "end_address ph = end_address (mem k)" using w by blast
  then have man: "managed ph = managed (mem k)" by (rule managed_end)
  have tf: "?tf \<notin> P" "?tf \<noteq> page" using s w by (auto simp: P_def)
  have un: "set zs \<union> insert page (tables (ram ph) ?pt) = P" and ag: "agree_on (- pageno ` P) (ram (mem k)) (ram ph)" using w by blast+
  have PM: "managed (mem k) q" if "q \<in> P" for q
    using that user_space_managed [OF us, of q] okr by (auto simp: P_def pt_ok_def free_inv_def)
  have far: "agree_on {pageno q} (ram (mem k)) m'" if q: "managed (mem k) q" "q \<notin> P" "q \<noteq> ?tf" for q
  proof (rule agree_on_trans)
    have "pageno q \<notin> pageno ` P" using q(1,2) PM pageno_inj_managed by blast
    then show "agree_on {pageno q} (ram (mem k)) (ram ph)" by (intro agree_on_subset [OF ag]) auto
    have "q \<noteq> page" using q(2) un by auto
    then show "agree_on {pageno q} (ram ph) m'" using m q man by simp
  qed
  have near: "agree_on (pageno ` A) (ram ph) m'" if "A \<subseteq> P - {page}" for A
    using that PM m man tf(1) by (intro agree_on_pages) auto
  have okp: "pt_ok ph ?pt zs" using w by blast
  have zs: "set zs \<subseteq> P - {page}" "tables (ram ph) ?pt \<subseteq> P - {page}" using w un by auto
  have inv: "free_inv (mem k') zs" using okp near [OF zs(1)] unfolding k'(1) by (intro free_inv_frame) (simp_all add: pt_ok_def)
  have e': "end_address (mem k') = end_address ph" "end_address (mem k') = end_address (mem k)" "ram (mem k') = m'" using k'(1) e by simp_all
  have pr: "tables (ram (mem k)) ?root \<inter> P = {}" using s us okr by (auto simp: P_def pt_ok_def)
  have tr: "managed (mem k) t \<and> t \<noteq> ?tf" if "t \<in> tables (ram (mem k)) ?root" for t using s okr that by (auto simp: pt_ok_def)
  have "agree_on (pageno ` tables (ram (mem k)) ?root) (ram (mem k)) (ram (mem k'))"
    unfolding e'(3) using pr tr by (intro agree_on_pages far) auto
  moreover have "set zs \<inter> tables (ram (mem k)) ?root = {}" using pr zs(1) by auto
  ultimately have r: "pt_ok (mem k') ?root zs" "tables (ram (mem k')) ?root = tables (ram (mem k)) ?root"
      "pte_at (ram (mem k')) ?root v = pte_at (ram (mem k)) ?root v" for v
    using bystander_agree [OF okr inv e'(2)] by blast+
  have at: "agree_on (pageno ` tables (ram ph) ?pt) (ram ph) (ram (mem k'))" unfolding e'(3) by (rule near [OF zs(2)])
  have "set zs \<inter> (tables (ram ph) ?pt \<union> set (user_frames (ram ph) ?pt ?b)) = {}" using w okp sp4(2) by (auto simp: pt_ok_def)
  note u = user_space_agree [OF sp4(1) inv e'(1) at this]
  have uf: "user_frames (ram (mem k')) ?pt ?b = [page]" using u(3) sp4(2) by simp
  have st: "stack_frames (ram (mem k')) ?root (kstack (procs k ! i)) = stack_frames (ram (mem k)) ?root (kstack (procs k ! i))"
    unfolding stack_frames_def frames_1 r(3) ..
  have tp: "tables (ram (mem k')) ?pt \<subseteq> P" "page \<in> P" "page \<notin> tables (ram (mem k')) ?pt" using u(2) un w by auto
  have own: "owned k' i = insert ?tf (insert page (set (stack_frames (ram (mem k)) ?root (kstack (procs k ! i))) \<union> tables (ram ph) ?pt))"
    unfolding owned_def k'(2-5) uf st u(2) by auto
  have stk: "q \<notin> P" if "q \<in> set (stack_frames (ram (mem k)) ?root (kstack (procs k ! i)))" for q using s that by (auto simp: P_def)
  have "proc_space k' i zs"
    unfolding proc_space_def Let_def k'(2-5) uf st r(2)
    using r(1) u(1) pr tp s stk tf zs(1) w man managed_end [OF e'(2)] by auto
  moreover have oP: "set xs \<union> owned k i = insert ?tf (set (stack_frames (ram (mem k)) ?root (kstack (procs k ! i))) \<union> P)"
    unfolding owned_def P_def by auto
  then have all: "set zs \<union> owned k' i = set xs \<union> owned k i" unfolding own using un by auto
  moreover have "agree_on {pageno q} (ram (mem k)) (ram (mem k'))" if "managed (mem k) q" "q \<notin> set xs \<union> owned k i" for q
    unfolding e'(3) using that(2) unfolding oP by (intro far that(1)) auto
  ultimately show "replaced k i xs k' zs" using r(2,3) k'(2) e'(2) unfolding replaced_def Let_def by blast
  show "owned k' i \<subseteq> set xs \<union> owned k i" using all by blast
qed

section \<open>The program in its page\<close>

lemma image_bytes:
  assumes page: "page_aligned page" "unat page + 4096 < 2 ^ 64" and n: "n \<le> 4096" "\<forall>v < n. pageno (src + of_nat v) \<noteq> pageno page"
    and m': "m' = memmove page src (of_nat n) (memset page 0 PGSIZE m)"
  shows "agree_on (- {pageno page}) m m'" "v < 4096 \<Longrightarrow> m' (page + of_nat v) = (if v < n then m (src + of_nat v) else 0)"
proof -
  note z = memset_page [OF page, of 0 m]
  have "forward_safe page src n"
  proof -
    have "\<not> unat (page - src) < n"
    proof
      assume "unat (page - src) < n"
      then have "pageno (src + of_nat (unat (page - src))) \<noteq> pageno page" using n(2) by blast
      then show False by simp
    qed
    then show ?thesis by (simp add: forward_safe_def)
  qed
  then have e: "m' = (\<lambda>x. if unat (x - page) < n then memset page 0 PGSIZE m (src + (x - page)) else memset page 0 PGSIZE m x)"
    unfolding m' using n(1) by (intro memmove_eq) simp_all
  have page_of: "pageno x = pageno page" if "unat (x - page) < n" for x
  proof -
    have "page + of_nat (unat (x - page)) = x" by simp
    then show ?thesis using of_nat_page(2) [OF page(1), of "unat (x - page)"] that n(1) by simp
  qed
  show "agree_on (- {pageno page}) m m'"
    unfolding agree_on_def
  proof (intro allI impI)
    fix x assume x: "pageno x \<in> - {pageno page}"
    then have "\<not> unat (x - page) < n" using page_of by blast
    then show "m' x = m x" using x unfolding e z by simp
  qed
  assume v: "v < 4096"
  note p = of_nat_page [OF page(1) v]
  show "m' (page + of_nat v) = (if v < n then m (src + of_nat v) else 0)"
  proof (cases "v < n")
    case True
    then have "m' (page + of_nat v) = memset page 0 PGSIZE m (src + of_nat v)" unfolding e p(1) by simp
    then show ?thesis using True n(2) unfolding z by (simp only: if_True if_False simp_thms)
  next
    case False
    then show ?thesis unfolding e p(1) z p(2) by simp
  qed
qed

section \<open>kexec\<close>

text \<open>The pages that \<open>kexec\<close> may write, and what it needs: the arguments and the program lie elsewhere.\<close>

definition exec_pages :: "kernel \<Rightarrow> nat \<Rightarrow> u64 list \<Rightarrow> u64 set" where
  "exec_pages k i xs = {x. pageno x \<in> pageno ` (set xs \<union> owned k i)}"

definition exec_ready :: "world \<Rightarrow> kernel \<Rightarrow> nat \<Rightarrow> u64 list \<Rightarrow> u64 \<Rightarrow> u64 \<Rightarrow> user_program \<Rightarrow> u8 list list \<Rightarrow> bool" where
  "exec_ready W k i xs name argv up ws \<longleftrightarrow>
     hart_ok (hart k) \<and> cpu_proc (hart k) = Some i \<and> i < length (procs k) \<and> proc_space k i xs \<and> 3 \<le> length xs \<and>
     0 < sz (procs k ! i) \<and> page_aligned (sz (procs k ! i)) \<and>
     ram (mem k) name \<noteq> 0 \<and> find_program (ram (mem k)) name (programs W) = Inr (Some up) \<and> unat (up_size up) \<le> 4096 \<and>
     (\<forall>v < unat (up_size up). up_func up + of_nat v \<notin> exec_pages k i xs) \<and>
     (\<forall>j < 264. \<forall>p. managed (mem k) p \<longrightarrow> pageno (l_ustack W + of_nat j) \<noteq> pageno p) \<and>
     argv \<noteq> 0 \<and> args_clear (exec_pages k i xs \<union> span (l_ustack W) 264) (ram (mem k)) argv ws"

lemma kexec_refused:
  assumes h: "hart_ok (hart k)" and f: "find_program (ram (mem k)) name (programs W) = Inr found"
    and bad: "ram (mem k) name = 0 \<or> found = None \<or> (\<exists>up. found = Some up \<and> up_size up > PGSIZE) \<or> free_inv (mem k) []"
  shows "kexec W name argv k = Inr (- 1, k\<lparr>hart := settled (hart k)\<rparr>)"
proof (cases "ram (mem k) name = 0 \<or> found = None \<or> (\<exists>up. found = Some up \<and> up_size up > PGSIZE)")
  case True
  then show ?thesis using h f by (auto simp: kexec_def myproc_eq split: option.split)
next
  case False
  then have "free_inv (mem k) []" using bad by blast
  then have "kalloc (mem k) = (0, mem k)" by (rule kalloc_empty)
  then show ?thesis using False h f by (auto simp: kexec_def myproc_eq do_kalloc_def split: option.split)
qed

text \<open>The registers at the end.\<close>

definition exec_regs :: "nat \<Rightarrow> nat \<Rightarrow> u64 \<Rightarrow> kernel \<Rightarrow> (u32 \<times> kernel) outcome" where
  "exec_regs i argc sp k =
     (let tf = trapframe (procs k ! i)
      in Inr (of_nat argc, set_proc i (\<lambda>p. p\<lparr>sz := PGSIZE\<rparr>) (tf_set tf (TF_a 1) sp (tf_set tf TF_sp sp (tf_set tf TF_epc 0 k)))))"

lemma kexec_eq:
  assumes h: "hart_ok (hart k)" "cpu_proc (hart k) = Some i" and f: "ram (mem k) name \<noteq> 0" "find_program (ram (mem k)) name (programs W) = Inr (Some up)"
      "unat (up_size up) \<le> 4096"
    and m: "kalloc (mem k) = (page, ph1)" "page \<noteq> 0" "pagetable (procs k ! i) \<noteq> 0" "0 < sz (procs k ! i)"
      "uvmunmap (pagetable (procs k ! i)) 0 (sz (procs k ! i)) True
        (ph1\<lparr>ram := memmove page (up_func up) (up_size up) (memset page 0 PGSIZE (ram ph1))\<rparr>) = Inr ph3"
      "mappages (pagetable (procs k ! i)) page 0 PGSIZE PTE_URWX ph3 = Inr (0, ph4)"
  shows "kexec W name argv k =
    exec_rest (pagetable (procs k ! i)) up argv (l_ustack W) (exec_regs i) (k\<lparr>hart := settled (hart k), mem := ph4\<rparr>)"
proof -
  have "\<not> up_size up > PGSIZE" using f(3) by (simp add: word_less_nat_alt not_less)
  then show ?thesis
    using assms unfolding kexec_def exec_rest_def exec_regs_def Let_def
    by (simp add: myproc_eq do_kalloc_def do_mem_def do_ram_def on_ram_def on_mem_def del: PGSIZE_def MAXARG_def cong: option.case_cong if_cong)
qed

lemma args_clear_mono: "args_clear D m argv ws \<Longrightarrow> E \<subseteq> D \<Longrightarrow> args_clear E m argv ws"
  unfolding args_clear_def by blast

lemma in_exec_page: "page_aligned p \<Longrightarrow> x \<in> span p 4096 \<Longrightarrow> pageno x = pageno p"
  using of_nat_page(2) [of p] by (auto simp: span_iff)

text \<open>Up to the image, \<open>kexec\<close> cannot fail any more; the arguments are still there.\<close>

lemma exec_setup:
  assumes r: "exec_ready W k i xs name argv up ws"
  obtains page ph zs where "kexec W name argv k =
      exec_rest (pagetable (procs k ! i)) up argv (l_ustack W) (exec_regs i) (k\<lparr>hart := settled (hart k), mem := ph\<rparr>)"
    "swapped (mem k) (pagetable (procs k ! i)) (sz (procs k ! i)) xs ph page zs"
    "exec_frame (ram ph) (pagetable (procs k ! i)) page (l_ustack W)"
    "args_clear (exec_writes page (l_ustack W)) (ram ph) argv ws"
    "\<forall>v < unat (up_size up). ram ph (page + of_nat v) = ram (mem k) (up_func up + of_nat v)"
proof -
  note r = r [unfolded exec_ready_def]
  let ?p = "procs k ! i" and ?us = "l_ustack W" and ?n = "unat (up_size up)"
  have us: "user_space (mem k) (pagetable ?p) (sz ?p) xs" using r by (simp add: proc_space_def Let_def)
  obtain page ys where xs: "xs = page # ys" "2 \<le> length ys" using r by (cases xs) auto
  have inv: "free_inv (mem k) (page # ys)" using us xs(1) by (simp add: user_space_def pt_ok_def)
  have page: "managed (mem k) page" "page \<noteq> 0" using inv managed_nonzero [of "mem k" page] by (auto simp: free_inv_def)
  obtain ph1 where k1: "kalloc (mem k) = (page, ph1)" "agree_on (- {pageno page}) (ram (mem k)) (ram ph1)"
    using inv by (rule kalloc_free_inv)
  define m where "m = memmove page (up_func up) (of_nat ?n) (memset page 0 PGSIZE (ram ph1))"
  have img: "\<forall>v < ?n. pageno (up_func up + of_nat v) \<noteq> pageno page" using r xs(1) by (auto simp: exec_pages_def)
  note b = managed_bounds [OF page(1)]
  have ib: "agree_on (- {pageno page}) (ram ph1) m" "v < 4096 \<Longrightarrow> m (page + of_nat v) = (if v < ?n then ram ph1 (up_func up + of_nat v) else 0)" for v
    by (rule image_bytes [OF _ _ _ img m_def]; use b r in simp)+
  obtain ph3 ph4 zs where s: "uvmunmap (pagetable ?p) 0 (sz ?p) True (ph1\<lparr>ram := m\<rparr>) = Inr ph3"
      "mappages (pagetable ?p) page 0 PGSIZE PTE_URWX ph3 = Inr (0, ph4)" "swapped (mem k) (pagetable ?p) (sz ?p) xs ph4 page zs"
      "\<forall>v < 4096. ram ph4 (page + of_nat v) = m (page + of_nat v)" "pagetable ?p \<noteq> 0"
    using image_swapped [OF us [unfolded xs(1)] _ _ xs(2) k1(1) ib(1)] r unfolding xs(1) by blast
  have "of_nat ?n = up_size up" by simp
  then have eq: "kexec W name argv k = exec_rest (pagetable ?p) up argv ?us (exec_regs i) (k\<lparr>hart := settled (hart k), mem := ph4\<rparr>)"
    using kexec_eq [of k i name W up page ph1 ph3 ph4 argv] r k1(1) page(2) s by (simp add: m_def)
  note w = s(3) [unfolded swapped_def Let_def]
  have okp: "pt_ok ph4 (pagetable ?p) zs" and man: "managed ph4 = managed (mem k)" using w managed_end [of ph4 "mem k"] by blast+
  have loc: "pageno (?us + of_nat j) \<noteq> pageno q" if "j < 264" "managed (mem k) q" for j q using r that by blast
  have pt: "pageno page \<notin> pageno ` tables (ram ph4) (pagetable ?p)"
    using w okp man page(1) pageno_inj_managed [of "mem k" page] by (auto simp: pt_ok_def)
  have "pte_at (ram ph4) (pagetable ?p) 0 = mk_pte page PTE_URWX" using w by simp
  then have "first_page (ram ph4) (pagetable ?p) page" using okp b page(2) pt by (intro first_page_mapped) (auto simp: pt_ok_def)
  moreover have "?us + of_nat j \<notin> span page 4096 \<and> pageno (?us + of_nat j) \<notin> pageno ` tables (ram ph4) (pagetable ?p)" if j: "j < 264" for j
    using loc [OF j] page(1) b in_exec_page [of page] okp man by (auto simp: pt_ok_def)
  ultimately have fr: "exec_frame (ram ph4) (pagetable ?p) page ?us" by (simp add: exec_frame_def)
  have sub: "exec_writes page ?us \<subseteq> exec_pages k i xs \<union> span ?us 264"
    using in_exec_page b xs(1) by (auto simp: exec_writes_def exec_pages_def)
  have far: "ram ph4 x = ram (mem k) x" if "x \<notin> exec_pages k i xs" for x
  proof -
    have "agree_on (- pageno ` (set xs \<union> tables (ram (mem k)) (pagetable ?p) \<union> set (user_frames (ram (mem k)) (pagetable ?p) (sz ?p))))
      (ram (mem k)) (ram ph4)" using w by blast
    moreover have "pageno x \<notin> pageno ` (set xs \<union> tables (ram (mem k)) (pagetable ?p) \<union> set (user_frames (ram (mem k)) (pagetable ?p) (sz ?p)))"
      using that by (auto simp: exec_pages_def owned_def)
    ultimately show ?thesis by (intro agree_onD) auto
  qed
  have "args_clear (exec_pages k i xs \<union> span ?us 264) (ram ph4) argv ws"
    by (rule args_clear_kept [of _ "ram (mem k)"]) (use r far in auto)
  then have ac: "args_clear (exec_writes page ?us) (ram ph4) argv ws" using sub by (rule args_clear_mono)
  have "ram ph4 (page + of_nat v) = ram (mem k) (up_func up + of_nat v)" if v: "v < ?n" for v
  proof -
    have "v < 4096" using v r by linarith
    moreover have "ram ph1 (up_func up + of_nat v) = ram (mem k) (up_func up + of_nat v)"
      using img v by (intro agree_onD [OF k1(2)]) simp
    ultimately show ?thesis using s(4) ib(2) [of v] v by simp
  qed
  then show ?thesis using that eq s(3) fr ac by blast
qed

text \<open>The registers of the process that \<open>kexec\<close> sets, in memory.\<close>

definition exec_frame_regs :: "u64 \<Rightarrow> u64 \<Rightarrow> memory \<Rightarrow> memory" where
  "exec_frame_regs tf sp m = store64 (pte_addr tf 15) sp (store64 (pte_addr tf 6) sp (store64 (pte_addr tf 3) 0 m))"

lemma exec_regs_eq:
  "exec_regs i argc sp k = Inr (of_nat argc, k\<lparr>mem := on_ram (exec_frame_regs (trapframe (procs k ! i)) sp) (mem k),
    procs := (procs k)[i := (procs k ! i)\<lparr>sz := PGSIZE\<rparr>]\<rparr>)"
  by (simp add: exec_regs_def tf_set_def set_proc_def on_ram_def exec_frame_regs_def pte_addr_def TF_a_def TF_sp_def TF_epc_def Let_def del: PGSIZE_def)

lemma exec_frame_regs_slots:
  assumes "page_aligned tf"
  shows "agree_on (- {pageno tf}) m (exec_frame_regs tf sp m)"
    "idx r \<Longrightarrow> load64 (exec_frame_regs tf sp m) (pte_addr tf r) = (if r = 3 then 0 else if r = 6 \<or> r = 15 then sp else load64 m (pte_addr tf r))"
proof -
  have a: "agree_on (- {pageno tf}) m (store64 (pte_addr tf j) v m)" if "idx j" for j v m
    unfolding pte_addr_off using that assms by (intro agree_on_store) auto
  have a2: "agree_on (- {pageno tf}) m1 m2 \<Longrightarrow> agree_on (- {pageno tf}) m1 (store64 (pte_addr tf j) v m2)" if "idx j" for j v m1 m2
    by (rule agree_on_trans [OF _ a [OF that]])
  show "agree_on (- {pageno tf}) m (exec_frame_regs tf sp m)" unfolding exec_frame_regs_def by (intro a2 agree_on_refl) simp_all
  note st = pt_entry_store [OF assms assms, unfolded pt_entry_def]
  have i: "idx 3" "idx 6" "idx 15" by simp_all
  show "load64 (exec_frame_regs tf sp m) (pte_addr tf r) = (if r = 3 then 0 else if r = 6 \<or> r = 15 then sp else load64 m (pte_addr tf r))"
    if "idx r" unfolding exec_frame_regs_def using st [OF i(1) that] st [OF i(2) that] st [OF i(3) that] by auto
qed

lemma exec_far:
  assumes r: "exec_ready W k i xs name argv up ws" and w: "swapped (mem k) pt brk xs ph page zs"
    and m: "\<forall>x. x \<notin> exec_writes page (l_ustack W) \<longrightarrow> m' x = ram ph x" and q: "managed ph q" "q \<noteq> page"
  shows "agree_on {pageno q} (ram ph) m'"
  unfolding agree_on_def
proof (intro allI impI)
  fix x assume x: "pageno x \<in> {pageno q}"
  have man: "managed ph = managed (mem k)" "managed (mem k) page" using w managed_end [of ph "mem k"] unfolding swapped_def Let_def by blast+
  have "pageno q \<noteq> pageno page" using q man pageno_inj_managed by metis
  moreover have "page_aligned page" using man by (simp add: managed_def)
  ultimately have "x \<notin> span page 4096" using in_exec_page x by fastforce
  moreover have "x \<notin> span (l_ustack W) 264"
    using r x q(1) man(1) unfolding exec_ready_def by (auto simp: span_iff)
  ultimately show "m' x = ram ph x" using m by (simp add: exec_writes_def)
qed

text \<open>A page of the process that is not replaced keeps its words.\<close>

lemma swapped_frame:
  assumes sp: "proc_space k i xs" and w: "swapped (mem k) (pagetable (procs k ! i)) (sz (procs k ! i)) xs ph page zs"
  shows "agree_on {pageno (trapframe (procs k ! i))} (ram (mem k)) (ram ph)" "managed ph (trapframe (procs k ! i))" "trapframe (procs k ! i) \<noteq> page"
    "trapframe (procs k ! i) \<notin> tables (ram ph) (pagetable (procs k ! i))"
proof -
  let ?tf = "trapframe (procs k ! i)"
  define P where "P = set xs \<union> tables (ram (mem k)) (pagetable (procs k ! i)) \<union> set (user_frames (ram (mem k)) (pagetable (procs k ! i)) (sz (procs k ! i)))"
  note s = sp [unfolded proc_space_def Let_def] and w' = w [unfolded swapped_def Let_def, folded P_def]
  have us: "user_space (mem k) (pagetable (procs k ! i)) (sz (procs k ! i)) xs" using s by simp
  have "managed (mem k) q" if "q \<in> P" for q
    using that user_space_managed [OF us, of q] us by (auto simp: P_def user_space_def pt_ok_def free_inv_def)
  moreover have tf: "managed (mem k) ?tf" "?tf \<notin> P" using s by (auto simp: P_def)
  ultimately have "pageno ?tf \<notin> pageno ` P" using pageno_inj_managed by blast
  then have sub: "{pageno ?tf} \<subseteq> - pageno ` P" by simp
  have "agree_on (- pageno ` P) (ram (mem k)) (ram ph)" using w' by blast
  then show "agree_on {pageno ?tf} (ram (mem k)) (ram ph)" using sub by (rule agree_on_subset)
  have "end_address ph = end_address (mem k)" using w' by blast
  then show "managed ph ?tf" using tf(1) managed_end by metis
  have "set zs \<union> insert page (tables (ram ph) (pagetable (procs k ! i))) = P" using w' by blast
  then show "?tf \<noteq> page" "?tf \<notin> tables (ram ph) (pagetable (procs k ! i))" using tf(2) by auto
qed

text \<open>What the two ways out have in common.\<close>

definition exec_image :: "kernel \<Rightarrow> nat \<Rightarrow> u64 list \<Rightarrow> kernel \<Rightarrow> u64 \<Rightarrow> bool" where
  "exec_image k i xs k' page \<longleftrightarrow>
     (\<exists>zs. replaced k i xs k' zs) \<and> page \<in> set xs \<and> k' = k\<lparr>hart := settled (hart k), mem := mem k', procs := procs k'\<rparr> \<and>
     (\<forall>v < 4096. user_waddr (ram (mem k')) (pagetable (procs k ! i)) (of_nat v) = Some (page + of_nat v))"

lemma exec_image_view:
  assumes "exec_image k i xs k' page" "v < 4096"
  shows "user_byte (ram (mem k')) (pagetable (procs k ! i)) (of_nat v) = ram (mem k') (page + of_nat v)"
proof -
  have "user_waddr (ram (mem k')) (pagetable (procs k ! i)) (of_nat v) = Some (page + of_nat v)" using assms by (simp add: exec_image_def)
  then show ?thesis by (simp add: user_byte_def user_waddr_def split: if_splits)
qed

lemma exec_image_owned:
  assumes "exec_image k i xs k' page"
  obtains zs where "proc_space k' i zs" "set zs \<union> owned k' i = set xs \<union> owned k i" "page \<in> set xs"
    "\<forall>v < 4096. user_waddr (ram (mem k')) (pagetable (procs k ! i)) (of_nat v) = Some (page + of_nat v)"
  using assms unfolding exec_image_def replaced_def Let_def by blast

lemma exec_image_made:
  assumes r: "exec_ready W k i xs name argv up ws" and w: "swapped (mem k) (pagetable (procs k ! i)) (sz (procs k ! i)) xs ph page zs"
    and f: "exec_frame (ram ph) (pagetable (procs k ! i)) page (l_ustack W)"
    and m: "\<forall>x. x \<notin> exec_writes page (l_ustack W) \<longrightarrow> m' x = ram ph x" "agree_on (- {pageno (trapframe (procs k ! i))}) m' m2"
    and k': "k' = k\<lparr>hart := settled (hart k), mem := ph\<lparr>ram := m2\<rparr>, procs := (procs k)[i := (procs k ! i)\<lparr>sz := b\<rparr>]\<rparr>"
      "b = sz (procs k ! i) \<or> b = 4096"
  shows "exec_image k i xs k' page" "v < 4096 \<Longrightarrow> m2 (page + of_nat v) = m' (page + of_nat v)"
    "idx r \<Longrightarrow> load64 m' (pte_addr (trapframe (procs k ! i)) r) = tf_get (trapframe (procs k ! i)) (8 * r) k"
proof -
  let ?p = "procs k ! i" and ?tf = "trapframe (procs k ! i)" and ?pt = "pagetable (procs k ! i)"
  note r' = r [unfolded exec_ready_def]
  have sp: "proc_space k i xs" and i: "i < length (procs k)" using r' by simp_all
  note fr = swapped_frame [OF sp w] and w' = w [unfolded swapped_def Let_def]
  note far = exec_far [OF r w m(1)]
  have al: "page_aligned page" "page_aligned ?tf" "managed ph page" using w' fr(2) managed_end [of ph "mem k"] by (auto simp: managed_def)
  have far2: "agree_on {pageno q} (ram ph) m2" if q: "managed ph q" "q \<noteq> page" "q \<noteq> ?tf" for q
  proof (rule agree_on_trans [OF far [OF q(1,2)]])
    have "pageno q \<noteq> pageno ?tf" using q fr(2) pageno_inj_managed by blast
    then show "agree_on {pageno q} m' m2" by (intro agree_on_subset [OF m(2)]) auto
  qed
  have "replaced k i xs k' zs"
    using exec_replaced(1) [OF sp w, of k' m2] r' k' far2 i by simp
  moreover have "agree_on (pageno ` tables (ram ph) ?pt) (ram ph) m2"
  proof (rule agree_on_pages)
    fix q assume q: "q \<in> tables (ram ph) ?pt"
    then have "managed ph q" "q \<noteq> page" using w' by (auto simp: pt_ok_def)
    then show "agree_on {pageno q} (ram ph) m2" using q fr(4) by (intro far2) auto
  qed
  from first_page_agree(1) [OF _ this, of page] have "first_page m2 ?pt page" using f by (simp add: exec_frame_def)
  ultimately show "exec_image k i xs k' page" using w' k' unfolding exec_image_def first_page_def by auto
  have pn: "pageno page \<noteq> pageno ?tf" using al(3) fr(2,3) pageno_inj_managed by metis
  show "m2 (page + of_nat v) = m' (page + of_nat v)" if "v < 4096"
    by (rule agree_onD [OF m(2)]) (unfold of_nat_page(2) [OF al(1) that], use pn in simp)
  show "load64 m' (pte_addr ?tf r) = tf_get ?tf (8 * r) k" if x: "idx r"
  proof -
    have "load64 m' (pte_addr ?tf r) = load64 (ram ph) (pte_addr ?tf r)"
      unfolding pte_addr_off by (rule load_le_agree [OF far [OF fr(2,3)] al(2)]) (use x in simp_all)
    also have "\<dots> = load64 (ram (mem k)) (pte_addr ?tf r)"
      unfolding pte_addr_off by (rule load_le_agree [OF fr(1) al(2)]) (use x in simp_all)
    finally show ?thesis by (simp add: tf_get_def pte_addr_def)
  qed
qed

text \<open>Both outcomes: the arguments fit or they do not.\<close>

lemma kexec_fits:
  assumes r: "exec_ready W k i xs name argv up ws" and lay: "exec_layout (unat (up_size up)) ws = Some q"
  defines "pt \<equiv> pagetable (procs k ! i)" and "tf \<equiv> trapframe (procs k ! i)"
  shows "\<exists>k' page. kexec W name argv k = Inr (of_nat (length ws), k') \<and> exec_image k i xs k' page \<and>
    procs k' = (procs k)[i := (procs k ! i)\<lparr>sz := PGSIZE\<rparr>] \<and>
    (\<forall>v < unat (up_size up). user_byte (ram (mem k')) pt (of_nat v) = ram (mem k) (up_func up + of_nat v)) \<and>
    argv_of (user_byte (ram (mem k')) pt) (of_nat q) ws \<and>
    (\<forall>r. idx r \<longrightarrow> tf_get tf (8 * r) k' = (if r = 3 then 0 else if r = 6 \<or> r = 15 then of_nat q else tf_get tf (8 * r) k))"
proof -
  let ?n = "unat (up_size up)"
  obtain page ph zs where e: "kexec W name argv k = exec_rest pt up argv (l_ustack W) (exec_regs i) (k\<lparr>hart := settled (hart k), mem := ph\<rparr>)"
      "swapped (mem k) pt (sz (procs k ! i)) xs ph page zs" "exec_frame (ram ph) pt page (l_ustack W)"
      "args_clear (exec_writes page (l_ustack W)) (ram ph) argv ws" "\<forall>v < ?n. ram ph (page + of_nat v) = ram (mem k) (up_func up + of_nat v)"
    unfolding pt_def by (rule exec_setup [OF r])
  define k4 where "k4 = k\<lparr>hart := settled (hart k), mem := ph\<rparr>"
  have "exec_frame (ram (mem k4)) pt page (l_ustack W)" "args_clear (exec_writes page (l_ustack W)) (ram (mem k4)) argv ws" "argv \<noteq> 0" "?n \<le> 4096"
    using e(3,4) r by (simp_all add: k4_def exec_ready_def)
  from exec_rest_spec [OF this, of "exec_regs i"] obtain m' where
    m': "\<forall>x. x \<notin> exec_writes page (l_ustack W) \<longrightarrow> m' x = ram ph x"
      "exec_rest pt up argv (l_ustack W) (exec_regs i) k4 = exec_regs i (length ws) (of_nat q) (k4\<lparr>mem := ph\<lparr>ram := m'\<rparr>\<rparr>)"
      "?n \<le> q" "q < 4096" "\<forall>v < q. m' (page + of_nat v) = ram ph (page + of_nat v)"
      "\<forall>u. (\<forall>v < 4096. u (of_nat v) = m' (page + of_nat v)) \<longrightarrow> argv_of u (of_nat q) ws"
    unfolding lay by (auto simp: k4_def)
  have al: "page_aligned tf" using r by (simp add: exec_ready_def proc_space_def Let_def managed_def tf_def)
  define m2 where "m2 = exec_frame_regs tf (of_nat q) m'"
  define k' where "k' = k\<lparr>hart := settled (hart k), mem := ph\<lparr>ram := m2\<rparr>, procs := (procs k)[i := (procs k ! i)\<lparr>sz := PGSIZE\<rparr>]\<rparr>"
  note sl = exec_frame_regs_slots [OF al, where m = m' and sp = "of_nat q", folded m2_def]
  note im = exec_image_made [OF r e(2) [unfolded pt_def] e(3) [unfolded pt_def] m'(1) sl(1) [unfolded tf_def], of k' PGSIZE, folded tf_def]
  have im': "exec_image k i xs k' page" by (rule im(1)) (simp_all add: k'_def)
  have pg: "m2 (page + of_nat v) = m' (page + of_nat v)" if "v < 4096" for v using im(2) [OF _ _ that] by (simp add: k'_def)
  have tfg: "load64 m' (pte_addr tf r) = tf_get tf (8 * r) k" if "idx r" for r using im(3) [OF _ _ that] by (simp add: k'_def)
  have mk: "ram (mem k') = m2" by (simp add: k'_def)
  have v: "user_byte m2 pt (of_nat v) = m' (page + of_nat v)" if "v < 4096" for v
    using exec_image_view [OF im' that] pg [OF that] by (simp add: mk pt_def)
  have "kexec W name argv k = Inr (of_nat (length ws), k')"
    unfolding e(1) k4_def [symmetric] m'(2) exec_regs_eq by (simp add: k4_def k'_def m2_def on_ram_def tf_def)
  moreover have "\<forall>v < ?n. user_byte m2 pt (of_nat v) = ram (mem k) (up_func up + of_nat v)"
    using v m'(3,4,5) e(5) by simp
  moreover have "argv_of (user_byte m2 pt) (of_nat q) ws" using m'(6) v by blast
  moreover have "\<forall>r. idx r \<longrightarrow> tf_get tf (8 * r) k' = (if r = 3 then 0 else if r = 6 \<or> r = 15 then of_nat q else tf_get tf (8 * r) k)"
    using sl(2) tfg by (simp add: tf_get_def mk pte_addr_def)
  moreover have "procs k' = (procs k)[i := (procs k ! i)\<lparr>sz := PGSIZE\<rparr>]" by (simp add: k'_def)
  ultimately show ?thesis using im' unfolding mk [symmetric] by blast
qed

lemma kexec_full:
  assumes r: "exec_ready W k i xs name argv up ws" and lay: "exec_layout (unat (up_size up)) ws = None"
  defines "tf \<equiv> trapframe (procs k ! i)"
  shows "\<exists>k' page. kexec W name argv k = Inr (- 1, k') \<and> exec_image k i xs k' page \<and> procs k' = procs k \<and>
    (\<forall>r. idx r \<longrightarrow> tf_get tf (8 * r) k' = tf_get tf (8 * r) k)"
proof -
  let ?n = "unat (up_size up)"
  define pt where "pt = pagetable (procs k ! i)"
  obtain page ph zs where e: "kexec W name argv k = exec_rest pt up argv (l_ustack W) (exec_regs i) (k\<lparr>hart := settled (hart k), mem := ph\<rparr>)"
      "swapped (mem k) pt (sz (procs k ! i)) xs ph page zs" "exec_frame (ram ph) pt page (l_ustack W)"
      "args_clear (exec_writes page (l_ustack W)) (ram ph) argv ws"
    unfolding pt_def by (rule exec_setup [OF r])
  define k4 where "k4 = k\<lparr>hart := settled (hart k), mem := ph\<rparr>"
  have "exec_frame (ram (mem k4)) pt page (l_ustack W)" "args_clear (exec_writes page (l_ustack W)) (ram (mem k4)) argv ws" "argv \<noteq> 0" "?n \<le> 4096"
    using e(3,4) r by (simp_all add: k4_def exec_ready_def)
  from exec_rest_spec [OF this, of "exec_regs i"] obtain m' where
    m': "\<forall>x. x \<notin> exec_writes page (l_ustack W) \<longrightarrow> m' x = ram ph x"
      "exec_rest pt up argv (l_ustack W) (exec_regs i) k4 = Inr (- 1, k4\<lparr>mem := ph\<lparr>ram := m'\<rparr>\<rparr>)"
    unfolding lay by (auto simp: k4_def)
  define k' where "k' = k\<lparr>hart := settled (hart k), mem := ph\<lparr>ram := m'\<rparr>, procs := (procs k)[i := (procs k ! i)\<lparr>sz := sz (procs k ! i)\<rparr>]\<rparr>"
  have pk: "procs k' = procs k" by (simp add: k'_def)
  note im = exec_image_made [OF r e(2) [unfolded pt_def] e(3) [unfolded pt_def] m'(1) agree_on_refl, of k' "sz (procs k ! i)", folded tf_def]
  have "exec_image k i xs k' page" by (rule im(1)) (simp_all add: k'_def)
  moreover have "load64 m' (pte_addr tf r) = tf_get tf (8 * r) k" if "idx r" for r using im(3) [OF _ _ that] by (simp add: k'_def)
  then have "\<forall>r. idx r \<longrightarrow> tf_get tf (8 * r) k' = tf_get tf (8 * r) k" by (simp add: tf_get_def pte_addr_def k'_def)
  moreover have "kexec W name argv k = Inr (- 1, k')"
    unfolding e(1) k4_def [symmetric] m'(2) by (simp add: k4_def k'_def)
  ultimately show ?thesis using pk by blast
qed

end
