(* ===== verification/Process_Memory.thy ===== *)
theory Process_Memory
  imports Process_Exec
begin

text \<open>
  The memory of all processes together: who owns which page, as a well-formedness invariant of the kernel state
  that every step of the life of a process keeps, and the account of pages, which balances.
\<close>

section \<open>The invariant\<close>

definition used :: "kernel \<Rightarrow> nat \<Rightarrow> bool" where
  "used k i \<longleftrightarrow> i < NPROC \<and> status (procs k ! i) \<noteq> TASK_FREE"

text \<open>
  \<open>spaces k xs\<close>: with the free pages \<open>xs\<close>, every used slot owns a space of its own, an unused slot has neither size
  nor stack, and no page has two owners.
\<close>

definition spaces :: "kernel \<Rightarrow> u64 list \<Rightarrow> bool" where
  "spaces k xs \<longleftrightarrow> length (procs k) = NPROC \<and> pt_ok (mem k) (kernel_pagetable k) xs \<and>
     (\<forall>i < NPROC. page_aligned (kstack (procs k ! i)) \<and> unat (kstack (procs k ! i)) + 4096 \<le> 0x4000000000) \<and>
     inj_on (\<lambda>i. kstack (procs k ! i)) {..<NPROC} \<and>
     (\<forall>i < NPROC. status (procs k ! i) = TASK_FREE \<longrightarrow> sz (procs k ! i) = 0 \<and>
        \<not> bit (pte_at (ram (mem k)) (kernel_pagetable k) (pageno (kstack (procs k ! i)))) 0) \<and>
     (\<forall>i. used k i \<longrightarrow> proc_space k i xs) \<and>
     (\<forall>i j. used k i \<and> used k j \<and> i \<noteq> j \<longrightarrow> owned k i \<inter> owned k j = {})"

text \<open>The pages that have a place: on the free list, in the kernel's table or with a process.\<close>

definition accounted :: "kernel \<Rightarrow> u64 list \<Rightarrow> u64 set" where
  "accounted k xs = set xs \<union> tables (ram (mem k)) (kernel_pagetable k) \<union> (\<Union>i \<in> {i. used k i}. owned k i)"

lemma spaces_stack:
  assumes "spaces k xs" "i < NPROC" "j < NPROC"
  shows "page_aligned (kstack (procs k ! i))" "pageno (kstack (procs k ! i)) < 2 ^ 27"
    "i \<noteq> j \<Longrightarrow> kstack (procs k ! i) \<noteq> kstack (procs k ! j)"
    "i \<noteq> j \<Longrightarrow> pageno (kstack (procs k ! i)) \<noteq> pageno (kstack (procs k ! j))"
proof -
  have al: "page_aligned (kstack (procs k ! n))" "unat (kstack (procs k ! n)) + 4096 \<le> 0x4000000000" if "n < NPROC" for n
    using assms(1) that by (simp_all add: spaces_def)
  show "page_aligned (kstack (procs k ! i))" by (rule al [OF assms(2)])
  show "pageno (kstack (procs k ! i)) < 2 ^ 27" using al [OF assms(2)] page_aligned_unat [of "kstack (procs k ! i)"] by simp
  show n: "i \<noteq> j \<Longrightarrow> kstack (procs k ! i) \<noteq> kstack (procs k ! j)"
    using assms unfolding spaces_def inj_on_def by (metis lessThan_iff)
  show "i \<noteq> j \<Longrightarrow> pageno (kstack (procs k ! i)) \<noteq> pageno (kstack (procs k ! j))"
    using n al assms(2,3) page_aligned_eqI by blast
qed

text \<open>Only these fields of the slots matter, and of an unused slot only two.\<close>

lemma spaces_cong:
  assumes s: "spaces k xs" and m: "length (procs k') = length (procs k)" "mem k' = mem k" "kernel_pagetable k' = kernel_pagetable k"
    and f: "\<And>j. kstack (procs k' ! j) = kstack (procs k ! j)" "\<And>j. sz (procs k' ! j) = sz (procs k ! j)"
      "\<And>j. used k' j = used k j" "\<And>j. used k j \<Longrightarrow> trapframe (procs k' ! j) = trapframe (procs k ! j)"
      "\<And>j. used k j \<Longrightarrow> pagetable (procs k' ! j) = pagetable (procs k ! j)"
  shows "spaces k' xs" "accounted k' xs = accounted k xs"
proof -
  have c: "proc_space k' j = proc_space k j" "owned k' j = owned k j" if "used k j" for j
    using that by (intro proc_space_cong; simp add: m f)+
  have fr: "j < NPROC \<Longrightarrow> status (procs k' ! j) = TASK_FREE \<Longrightarrow> status (procs k ! j) = TASK_FREE" for j
    using f(3) [of j] by (auto simp: used_def)
  show "spaces k' xs" using s fr c unfolding spaces_def m f(1-3) by simp
  show "accounted k' xs = accounted k xs" unfolding accounted_def m f(3) using c by auto
qed

section \<open>fork\<close>

lemma grown_spaces:
  assumes s: "spaces k xs" and c: "c < NPROC" "\<not> used k c" and g: "grown k c xs k' zs"
    and other: "length (procs k') = length (procs k)" "\<forall>j. j \<noteq> c \<longrightarrow> procs k' ! j = procs k ! j"
    and slot: "status (procs k' ! c) \<noteq> TASK_FREE" "kstack (procs k' ! c) = kstack (procs k ! c)"
  shows "spaces k' zs" "accounted k' zs = accounted k xs"
proof -
  note s' = s [unfolded spaces_def] and g' = g [unfolded grown_def Let_def]
  have st: "kstack (procs k' ! i) = kstack (procs k ! i)" for i using other slot by (cases "i = c") simp_all
  have us: "used k' i \<longleftrightarrow> i = c \<or> used k i" for i using other slot c by (cases "i = c") (simp_all add: used_def)
  have ps: "proc_space k' c zs" "kernel_pagetable k' = kernel_pagetable k" using g' by blast+
  have keep: "proc_space k' i zs" "owned k' i = owned k i" "owned k i \<inter> owned k' c = {}" if u: "used k i" for i
  proof -
    have i: "i < NPROC" "i \<noteq> c" "proc_space k i xs" using u c s' by (auto simp: used_def)
    note k = grown_other [OF g i(3) spaces_stack(3) [OF s i(1) c(1) i(2)] spaces_stack(1) [OF s c(1) c(1)]]
    show "proc_space k' i zs" "owned k' i = owned k i" "owned k i \<inter> owned k' c = {}" using k other(2) i(2) by simp_all
  qed
  have pte: "pte_at (ram (mem k')) (kernel_pagetable k) (pageno (kstack (procs k ! i))) =
      pte_at (ram (mem k)) (kernel_pagetable k) (pageno (kstack (procs k ! i)))" if "i < NPROC" "i \<noteq> c" for i
    using g' spaces_stack(2,4) [OF s that(1) c(1)] that(2) by blast
  show "spaces k' zs"
    unfolding spaces_def
  proof (intro conjI allI impI)
    show "length (procs k') = NPROC" using other s' by simp
    show "pt_ok (mem k') (kernel_pagetable k') zs" using ps by (simp add: proc_space_def Let_def)
    show "inj_on (\<lambda>i. kstack (procs k' ! i)) {..<NPROC}" using s' unfolding st by blast
    fix i
    { assume "i < NPROC"
      then show "page_aligned (kstack (procs k' ! i))" "unat (kstack (procs k' ! i)) + 4096 \<le> 0x4000000000"
        unfolding st using s' by simp_all }
    { assume i: "i < NPROC" "status (procs k' ! i) = TASK_FREE"
      then have "i \<noteq> c" "status (procs k ! i) = TASK_FREE" using slot other by auto
      then show "sz (procs k' ! i) = 0" "\<not> bit (pte_at (ram (mem k')) (kernel_pagetable k') (pageno (kstack (procs k' ! i)))) 0"
        unfolding ps(2) st using i(1) s' other pte [OF i(1)] by simp_all }
    { assume "used k' i"
      then have "i = c \<or> used k i" by (simp only: us)
      then show "proc_space k' i zs" using keep(1) ps(1) by blast }
    fix j assume "used k' i \<and> used k' j \<and> i \<noteq> j"
    then consider "i = c" "used k j" | "j = c" "used k i" | "used k i" "used k j" "i \<noteq> j" unfolding us by blast
    then show "owned k' i \<inter> owned k' j = {}" using keep(2,3) s' by cases auto
  qed
  have "set xs \<union> tables (ram (mem k)) (kernel_pagetable k) = set zs \<union> owned k' c \<union> tables (ram (mem k')) (kernel_pagetable k')"
    using g' by simp
  moreover have "(\<Union>i \<in> {i. used k' i}. owned k' i) = owned k' c \<union> (\<Union>i \<in> {i. used k i}. owned k i)"
    unfolding us using keep(2) by auto
  ultimately show "accounted k' zs = accounted k xs" unfolding accounted_def by blast
qed

lemma first_free:
  assumes "List.find (\<lambda>i. status (procs k ! i) = TASK_FREE) [0..<NPROC] = Some c"
  shows "c < NPROC" "\<not> used k c" "status (procs k ! c) = TASK_FREE"
  using assms by (auto simp: find_Some_iff used_def)

text \<open>
  What a fork needs beside the invariant: the caller runs with its locks free, and the table is full, or no page is free,
  or nine pages and two file slots are, with sound descriptors. Between one and eight free pages \<open>allocproc\<close> may give up
  in the middle and lose the trap frame (and its lock, or map the null page as a stack).
\<close>

definition can_fork :: "kernel \<Rightarrow> nat \<Rightarrow> u64 list \<Rightarrow> nat \<Rightarrow> nat \<Rightarrow> bool" where
  "can_fork k p xs f1 f0 \<longleftrightarrow>
     at_rest k \<and> settled (hart k) = hart k \<and> idle (pidlock k) \<and> cpu_proc (hart k) = Some p \<and> used k p \<and>
     (List.find (\<lambda>i. status (procs k ! i) = TASK_FREE) [0..<NPROC] = None \<or> xs = [] \<or>
      two_files k f1 f0 \<and> shareable (files k) (ofile (procs k ! p)) [0..<NOFILE] \<and> 9 \<le> length xs)"

lemma spaces_fork_ready:
  assumes s: "spaces k xs" and r: "can_fork k p xs f1 f0"
    and c: "List.find (\<lambda>i. status (procs k ! i) = TASK_FREE) [0..<NPROC] = Some c" and ne: "xs \<noteq> []"
  shows "fork_ready k p c xs f1 f0"
proof -
  have r': "at_rest k" "settled (hart k) = hart k" "idle (pidlock k)" "cpu_proc (hart k) = Some p" "used k p" "two_files k f1 f0"
      "shareable (files k) (ofile (procs k ! p)) [0..<NOFILE]" "9 \<le> length xs"
    using r c ne unfolding can_fork_def by auto
  note f = first_free [OF c] and s' = s [unfolded spaces_def]
  have p: "p < NPROC" "p \<noteq> c" "proc_space k p xs" using r' f s' by (auto simp: used_def)
  have "unat (kstack (procs k ! c)) + 4096 \<le> 0x4000000000" using s' f(1) by simp
  then have "unat (kstack (procs k ! c)) < 0x4000000000" by simp
  then have "alloc_ready k c xs f1 f0" using r' s' f c unfolding alloc_ready_def by simp
  then show ?thesis
    using p r' s' f spaces_stack(3) [OF s p(1) f(1)] unfolding fork_ready_def by simp
qed

lemma fork_full:
  assumes "at_rest k" "settled (hart k) = hart k" "cpu_proc (hart k) = Some p"
    and "List.find (\<lambda>i. status (procs k ! i) = TASK_FREE) [0..<NPROC] = None"
  shows "kfork W k = Inr (- 1, k)"
proof -
  have "allocproc W k = Inr (None, k)"
    using find_free_proc_eq [OF assms(1,2), of "[0..<NPROC]"] assms(4) by (simp add: allocproc_def)
  then show ?thesis using assms(1-3) by (simp add: kfork_def myproc_eq at_rest_def)
qed

text \<open>Without a free page the trap frame cannot be had: the slot stays free with a new pid.\<close>

definition no_child :: "nat \<Rightarrow> kernel \<Rightarrow> kernel" where
  "no_child c k = k\<lparr>nextpid := nextpid k + 1,
     procs := (procs k)[c := (procs k ! c)\<lparr>pid := nextpid k + 1, trapframe := 0, status := TASK_FREE\<rparr>]\<rparr>"

lemma fork_no_page:
  assumes r: "at_rest k" "settled (hart k) = hart k" "idle (pidlock k)" "cpu_proc (hart k) = Some p" and m: "free_inv (mem k) []"
    and c: "List.find (\<lambda>i. status (procs k ! i) = TASK_FREE) [0..<NPROC] = Some c"
  shows "kfork W k = Inr (- 1, no_child c k)"
proof -
  have len: "length (procs k) = NPROC" "c < NPROC" and idle: "idle (plock (procs k ! c))"
    using r(1) first_free(1) [OF c] by (auto simp: at_rest_def)
  define k1 where "k1 = lock_slot c k"
  have f: "find_free_proc [0..<NPROC] k = Inr (Some c, k1)"
    using find_free_proc_eq [OF r(1,2), of "[0..<NPROC]"] c by (simp add: k1_def del: NPROC_def)
  have h: "hart_ok (hart k)" using r(1) by (simp add: at_rest_def)
  then have h1: "hart_ok (hart k1)" "hart k1 = push_off (hart k)" "settled (hart k1) = hart k1"
    using push_off_ok [of "hart k"] settled_push_off [of "hart k"] by (simp_all add: k1_def lock_slot_def hart_ok_def)
  define k2 where "k2 = k1\<lparr>nextpid := nextpid k + 1\<rparr>"
  have "idle (pidlock k1)" "nextpid k1 = nextpid k" using r by (simp_all add: k1_def lock_slot_def)
  then have p: "allocpid k1 = Inr (nextpid k + 1, k2)" using allocpid_eq [of k1] h1 by (simp add: k2_def)
  have k2: "mem k2 = mem k" "procs k2 ! c = (procs k ! c)\<lparr>plock := held (plock (procs k ! c)) (hart k)\<rparr>" "c < length (procs k2)"
      "hart k2 = push_off (hart k)"
    using len h1(2) by (simp_all add: k2_def k1_def lock_slot_def)
  define k3 where "k3 = k2\<lparr>procs := (procs k2)[c := (procs k2 ! c)\<lparr>pid := nextpid k + 1, trapframe := 0, status := TASK_FREE\<rparr>]\<rparr>"
  have "on_plock release c k3 = Inr (k3\<lparr>procs := (procs k3)[c := (procs k3 ! c)\<lparr>plock := plock (procs k ! c)\<rparr>], hart := hart k\<rparr>)"
    using k2 by (intro release_allocated [OF _ _ idle h r(2)]) (simp_all add: k3_def)
  moreover have "k3\<lparr>procs := (procs k3)[c := (procs k3 ! c)\<lparr>plock := plock (procs k ! c)\<rparr>], hart := hart k\<rparr> = no_child c k"
    using len by (simp add: k3_def k2_def k1_def lock_slot_def no_child_def)
  moreover have "kalloc (mem k2) = (0, mem k2)" using kalloc_empty [OF m] by (simp only: k2(1))
  ultimately have "allocproc W k = Inr (None, no_child c k)"
    using f p k2(3) by (simp add: allocproc_def do_kalloc_def set_proc_def Let_def k3_def)
  then show ?thesis using r(2,4) h by (simp add: kfork_def myproc_eq)
qed

lemma no_child_spaces:
  assumes s: "spaces k xs" and c: "List.find (\<lambda>i. status (procs k ! i) = TASK_FREE) [0..<NPROC] = Some c"
  shows "spaces (no_child c k) xs" "accounted (no_child c k) xs = accounted k xs"
proof -
  note f = first_free [OF c]
  have c': "c < length (procs k)" using s f(1) by (simp add: spaces_def)
  have n: "procs (no_child c k) ! j = (if j = c then (procs k ! c)\<lparr>pid := nextpid k + 1, trapframe := 0, status := TASK_FREE\<rparr> else procs k ! j)" for j
    using c' by (simp add: no_child_def)
  have u: "used (no_child c k) j = used k j" for j using f by (cases "j = c") (simp_all add: used_def n)
  have "j \<noteq> c" if "used k j" for j using that f(2) by blast
  note g = this
  show "spaces (no_child c k) xs"
    by (rule spaces_cong [OF s]) (simp_all add: u n g, simp_all add: no_child_def)
  show "accounted (no_child c k) xs = accounted k xs"
    by (rule spaces_cong [OF s]) (simp_all add: u n g, simp_all add: no_child_def)
qed

lemma fork_nonempty:
  assumes s: "spaces k xs" and r: "can_fork k p xs f1 f0"
    and c: "List.find (\<lambda>i. status (procs k ! i) = TASK_FREE) [0..<NPROC] = Some c" and ne: "xs \<noteq> []"
  shows "\<exists>rc k' zs. kfork W k = Inr (rc, k') \<and> at_rest k' \<and> hart k' = hart k \<and> spaces k' zs \<and> accounted k' zs = accounted k xs"
proof -
  note f = first_free [OF c]
  note ready = spaces_fork_ready [OF s r c ne]
  obtain k' zs tf pt where k': "grown k c xs k' zs" "only_child k c k'"
    and out: "kfork W k = Inr (nextpid k + 1, k') \<and> procs k' ! c = child_slot W k p c tf pt f1 f0 \<or>
      kfork W k = Inr (- 1, k') \<and> procs k' ! c = allocated_proc W (nextpid k + 1) tf pt f1 f0 (procs k ! c)"
    using kfork_spec [OF ready, of W] by blast
  have slot: "status (procs k' ! c) \<noteq> TASK_FREE" "kstack (procs k' ! c) = kstack (procs k ! c)" "plock (procs k' ! c) = plock (procs k ! c)"
    using out by (auto simp: child_slot_def allocated_proc_def)
  have o: "length (procs k') = length (procs k)" "\<forall>j. j \<noteq> c \<longrightarrow> procs k' ! j = procs k ! j" "hart k' = hart k"
    using k'(2) by (simp_all add: only_child_def)
  have rest: "at_rest k" using r by (simp add: can_fork_def)
  have "plock (procs k' ! j) = plock (procs k ! j)" for j using o(2) slot(3) by (cases "j = c") simp_all
  then have "at_rest k'" using rest o(1,3) by (simp add: at_rest_def)
  then show ?thesis
    using out grown_spaces [OF s f(1,2) k'(1) o(1,2) slot(1,2)] o(3) by blast
qed

lemma fork_keeps_spaces:
  assumes s: "spaces k xs" and r: "can_fork k p xs f1 f0"
  shows "\<exists>rc k' zs. kfork W k = Inr (rc, k') \<and> at_rest k' \<and> hart k' = hart k \<and> spaces k' zs \<and> accounted k' zs = accounted k xs"
proof (cases "List.find (\<lambda>i. status (procs k ! i) = TASK_FREE) [0..<NPROC]")
  case None
  then show ?thesis using fork_full [of k p W] r s unfolding can_fork_def by blast
next
  case (Some c)
  note f = first_free [OF Some]
  show ?thesis
  proof (cases "xs = []")
    case True
    have "free_inv (mem k) []" using s True by (simp add: spaces_def pt_ok_def)
    then have k: "kfork W k = Inr (- 1, no_child c k)"
      using fork_no_page [of k p c W] r Some unfolding can_fork_def by blast
    have "c < length (procs k)" using s f(1) by (simp add: spaces_def)
    then have "at_rest (no_child c k)" "hart (no_child c k) = hart k"
      using r by (simp_all add: can_fork_def at_rest_def no_child_def nth_list_update)
    then show ?thesis using k no_child_spaces [OF s Some] by blast
  next
    case False
    then show ?thesis by (rule fork_nonempty [OF s r Some])
  qed
qed

section \<open>wait and exit\<close>

text \<open>A process that is reaped gives its pages back, and the others keep theirs.\<close>

lemma reclaimed_spaces:
  assumes s: "spaces k xs" and i: "used k i" and r: "reclaimed k i xs ph"
  shows "\<exists>ys. spaces (k\<lparr>mem := ph, procs := (procs k)[i := freed (procs k ! i)], hart := h\<rparr>) ys \<and>
    accounted (k\<lparr>mem := ph, procs := (procs k)[i := freed (procs k ! i)], hart := h\<rparr>) ys = accounted k xs"
proof -
  define k' where "k' = k\<lparr>mem := ph, procs := (procs k)[i := freed (procs k ! i)], hart := h\<rparr>"
  let ?root = "kernel_pagetable k" and ?m = "ram (mem k)" and ?va = "\<lambda>j. kstack (procs k ! j)"
  note s' = s [unfolded spaces_def]
  from r obtain ys where ys: "pt_ok ph ?root ys" "set ys = set xs \<union> owned k i" by (auto simp: reclaimed_def)
  have e: "end_address ph = end_address (mem k)" "tables (ram ph) ?root = tables ?m ?root"
    and ptes: "\<forall>w < 2 ^ 27. pte_at (ram ph) ?root w = (if w = pageno (?va i) \<and> bit (pte_at ?m ?root w) 0 then 0 else pte_at ?m ?root w)"
    and ag: "agree_on (- pageno ` (owned k i \<union> tables ?m ?root)) ?m (ram ph)"
    using r unfolding reclaimed_def by blast+
  have i': "i < NPROC" "i < length (procs k)" "proc_space k i xs" using i s' by (auto simp: used_def)
  have st: "kstack (procs k' ! j) = ?va j" for j using i' by (cases "j = i") (simp_all add: k'_def freed_def)
  have us: "used k' j \<longleftrightarrow> j \<noteq> i \<and> used k j" for j using i' by (cases "j = i") (simp_all add: k'_def freed_def used_def)
  have m: "mem k' = ph" "kernel_pagetable k' = ?root" by (simp_all add: k'_def)
  have okr: "pt_ok (mem k) ?root xs" using s' by simp
  have P: "\<forall>q \<in> owned k i \<union> tables ?m ?root. managed (mem k) q"
    using owned_managed(1) [OF i'(3)] okr by (auto simp: pt_ok_def)
  have keep: "proc_space k' j ys \<and> owned k' j = owned k j" if u: "used k j" "j \<noteq> i" for j
  proof -
    have j: "j < NPROC" "proc_space k j xs" "owned k i \<inter> owned k j = {}" using u i s' by (auto simp: used_def)
    have "tables ?m (pagetable (procs k ! j)) \<subseteq> owned k j" by (auto simp: owned_def)
    then have d: "(owned k i \<union> tables ?m ?root) \<inter> tables ?m (pagetable (procs k ! j)) = {}"
      using j(3) owned_managed(3) [OF j(2)] by blast
    have "(set ys \<union> tables ?m ?root) \<inter> owned k j = {}" using ys(2) j(3) owned_managed(2,3) [OF j(2)] by blast
    moreover have "pte_at (ram ph) ?root (pageno (?va j)) = pte_at ?m ?root (pageno (?va j))"
      using ptes spaces_stack(2,4) [OF s j(1) i'(1)] u(2) by simp
    ultimately show ?thesis
      using proc_space_kept [OF j(2), of k', unfolded m, OF e(1) ag P d ys(1)] e(2) u(2) by (simp add: k'_def)
  qed
  have "spaces k' ys"
    unfolding spaces_def
  proof (intro conjI allI impI)
    show "length (procs k') = NPROC" using s' by (simp add: k'_def)
    show "pt_ok (mem k') (kernel_pagetable k') ys" using ys by (simp add: k'_def)
    show "inj_on (\<lambda>i. kstack (procs k' ! i)) {..<NPROC}" using s' unfolding st by blast
    fix j
    { assume "j < NPROC"
      then show "page_aligned (kstack (procs k' ! j))" "unat (kstack (procs k' ! j)) + 4096 \<le> 0x4000000000"
        unfolding st using s' by simp_all }
    { assume j: "j < NPROC" "status (procs k' ! j) = TASK_FREE"
      have w: "pageno (?va j) < 2 ^ 27" by (rule spaces_stack(2) [OF s j(1,1)])
      have f: "j = i \<or> status (procs k ! j) = TASK_FREE" using j(2) by (cases "j = i") (simp_all add: k'_def)
      show "sz (procs k' ! j) = 0" using f s' j(1) i' by (cases "j = i") (auto simp: k'_def freed_def)
      show "\<not> bit (pte_at (ram (mem k')) (kernel_pagetable k') (pageno (kstack (procs k' ! j)))) 0"
        unfolding st m using f s' j(1) ptes w by (cases "j = i") auto }
    { assume "used k' j"
      then show "proc_space k' j ys" using us keep by blast }
    fix l assume "used k' j \<and> used k' l \<and> j \<noteq> l"
    then show "owned k' j \<inter> owned k' l = {}" using us keep s' by simp
  qed
  moreover have "(\<Union>j \<in> {j. used k j}. owned k j) = owned k i \<union> (\<Union>j \<in> {j. used k' j}. owned k' j)"
    unfolding us using keep i by auto
  then have "accounted k' ys = accounted k xs" unfolding accounted_def using ys(2) e(2) m by auto
  ultimately show ?thesis unfolding k'_def by blast
qed

lemma spaces_status:
  assumes "spaces k xs" "used k i" "st \<noteq> TASK_FREE"
  shows "spaces (k\<lparr>procs := (procs k)[i := (procs k ! i)\<lparr>status := st\<rparr>], hart := h\<rparr>) xs"
    "accounted (k\<lparr>procs := (procs k)[i := (procs k ! i)\<lparr>status := st\<rparr>], hart := h\<rparr>) xs = accounted k xs"
proof -
  define k' where "k' = k\<lparr>procs := (procs k)[i := (procs k ! i)\<lparr>status := st\<rparr>], hart := h\<rparr>"
  have i: "i < length (procs k)" using assms by (auto simp: used_def spaces_def)
  have f: "procs k' ! j = (if j = i then (procs k ! i)\<lparr>status := st\<rparr> else procs k ! j)" for j using i by (simp add: k'_def)
  have u: "used k' j = used k j" for j using assms(2,3) by (cases "j = i") (simp_all add: used_def f)
  show "spaces k' xs" by (rule spaces_cong [OF assms(1)]) (simp_all add: u f, simp_all add: k'_def)
  show "accounted k' xs = accounted k xs" by (rule spaces_cong [OF assms(1)]) (simp_all add: u f, simp_all add: k'_def)
qed

lemma spaces_hart: "spaces k xs \<Longrightarrow> spaces (k\<lparr>hart := h\<rparr>) xs \<and> accounted (k\<lparr>hart := h\<rparr>) xs = accounted k xs"
  using spaces_cong [of k xs "k\<lparr>hart := h\<rparr>"] by (simp add: used_def)

section \<open>exec\<close>

lemma replaced_others:
  assumes s: "spaces k xs" and i: "used k i" and r: "replaced k i xs k' zs"
    and f: "kstack (procs k' ! j) = kstack (procs k ! j)" "trapframe (procs k' ! j) = trapframe (procs k ! j)"
      "pagetable (procs k' ! j) = pagetable (procs k ! j)" "sz (procs k' ! j) = sz (procs k ! j)"
    and u: "used k j" "j \<noteq> i"
  shows "proc_space k' j zs \<and> owned k' j = owned k j"
proof -
  let ?root = "kernel_pagetable k" and ?m = "ram (mem k)"
  note s' = s [unfolded spaces_def] and r' = r [unfolded replaced_def Let_def]
  have root: "kernel_pagetable k' = ?root" "end_address (mem k') = end_address (mem k)" "tables (ram (mem k')) ?root = tables ?m ?root"
    and pte: "pte_at (ram (mem k')) ?root w = pte_at ?m ?root w" for w using r' by blast+
  have ps: "proc_space k' i zs" "set zs \<union> owned k' i = set xs \<union> owned k i" using r' by blast+
  have okz: "pt_ok (mem k') ?root zs" using ps(1) root(1) by (simp add: proc_space_def Let_def)
  have j: "proc_space k j xs" "owned k j \<inter> owned k i = {}" using u i s' by blast+
  have t: "tables ?m (pagetable (procs k ! j)) \<subseteq> owned k j" by (auto simp: owned_def)
  have "agree_on (pageno ` tables ?m (pagetable (procs k ! j))) ?m (ram (mem k'))"
  proof (rule agree_on_pages)
    fix q assume "q \<in> tables ?m (pagetable (procs k ! j))"
    then have q: "q \<in> owned k j" using t by blast
    then have "managed (mem k) q" "q \<notin> set xs" "q \<notin> owned k i" using owned_managed(1,2) [OF j(1)] j(2) by auto
    then show "agree_on {pageno q} ?m (ram (mem k'))" using r' by blast
  qed
  moreover have "(set zs \<union> tables (ram (mem k')) ?root) \<inter> owned k j = {}"
    using ps(2) owned_managed(2,3) [OF j(1)] j(2) root(3) by blast
  ultimately show ?thesis using proc_space_agree [OF j(1) root(2) _ okz] pte root(1) f by simp
qed

lemma replaced_spaces:
  assumes s: "spaces k xs" and i: "used k i" and r: "replaced k i xs k' zs"
    and procs: "procs k' = procs k \<or> procs k' = (procs k)[i := (procs k ! i)\<lparr>sz := b\<rparr>]"
  shows "spaces k' zs" "accounted k' zs = accounted k xs"
proof -
  let ?root = "kernel_pagetable k" and ?m = "ram (mem k)"
  note s' = s [unfolded spaces_def] and r' = r [unfolded replaced_def Let_def]
  have i': "i < length (procs k)" "proc_space k i xs" using i s' by (auto simp: used_def)
  have root: "kernel_pagetable k' = ?root" "end_address (mem k') = end_address (mem k)" "tables (ram (mem k')) ?root = tables ?m ?root"
    and pte: "pte_at (ram (mem k')) ?root w = pte_at ?m ?root w" for w using r' by blast+
  have ps: "proc_space k' i zs" "set zs \<union> owned k' i = set xs \<union> owned k i" using r' by blast+
  have f: "length (procs k') = length (procs k)" "kstack (procs k' ! j) = kstack (procs k ! j)" "status (procs k' ! j) = status (procs k ! j)"
    "trapframe (procs k' ! j) = trapframe (procs k ! j)" "pagetable (procs k' ! j) = pagetable (procs k ! j)" for j
    using procs i' by (cases "j = i"; auto)+
  have sz: "sz (procs k' ! j) = sz (procs k ! j)" if "j \<noteq> i" for j using procs that by auto
  have us: "used k' j = used k j" for j by (simp add: used_def f)
  have okz: "pt_ok (mem k') ?root zs" using ps(1) root(1) by (simp add: proc_space_def Let_def)
  have keep: "proc_space k' j zs \<and> owned k' j = owned k j" if u: "used k j" "j \<noteq> i" for j
    using f sz [OF u(2)] by (intro replaced_others [OF s i r _ _ _ _ u])
  show "spaces k' zs"
    unfolding spaces_def
  proof (intro conjI allI impI)
    show "length (procs k') = NPROC" "inj_on (\<lambda>i. kstack (procs k' ! i)) {..<NPROC}" using s' unfolding f by blast+
    show "pt_ok (mem k') (kernel_pagetable k') zs" using okz root(1) by simp
    fix j
    show "j < NPROC \<Longrightarrow> page_aligned (kstack (procs k' ! j))" "j < NPROC \<Longrightarrow> unat (kstack (procs k' ! j)) + 4096 \<le> 0x4000000000"
      unfolding f using s' by simp_all
    { assume j: "j < NPROC" "status (procs k' ! j) = TASK_FREE"
      then have "j \<noteq> i" using i f by (auto simp: used_def)
      then show "sz (procs k' ! j) = 0" "\<not> bit (pte_at (ram (mem k')) (kernel_pagetable k') (pageno (kstack (procs k' ! j)))) 0"
        using j s' f sz pte root(1) by simp_all }
    { assume "used k' j"
      then show "proc_space k' j zs" using us keep ps(1) by blast }
    fix l assume jl: "used k' j \<and> used k' l \<and> j \<noteq> l"
    have own: "owned k' i \<inter> owned k l = {}" if "used k l" "l \<noteq> i" for l
    proof -
      have "proc_space k l xs" "owned k i \<inter> owned k l = {}" using that i s' by blast+
      moreover from this have "set xs \<inter> owned k l = {}" using owned_managed(2) by blast
      ultimately show ?thesis using ps(2) by blast
    qed
    show "owned k' j \<inter> owned k' l = {}"
    proof (cases "j = i \<or> l = i")
      case True
      have u: "used k j" "used k l" using jl us by simp_all
      consider "j = i" "l \<noteq> i" | "j \<noteq> i" "l = i" using True jl by blast
      then show ?thesis using own u keep by cases (simp_all add: Int_commute)
    next
      case False
      have u: "used k j" "used k l" using jl us by simp_all
      then have "owned k' j = owned k j" "owned k' l = owned k l" using keep False by simp_all
      moreover have "owned k j \<inter> owned k l = {}" using u jl s' by simp
      ultimately show ?thesis by simp
    qed
  qed
  define R where "R = (\<Union>j \<in> {j. used k j \<and> j \<noteq> i}. owned k j)"
  have a: "(\<Union>j \<in> {j. used k j}. owned k j) = owned k i \<union> R" using i by (auto simp: R_def)
  have b: "(\<Union>j \<in> {j. used k' j}. owned k' j) = owned k' i \<union> R" using i us keep by (auto simp: R_def)
  have swap: "A \<union> T \<union> (B \<union> R) = (A \<union> B) \<union> (T \<union> R)" for A B T :: "u64 set" by blast
  show "accounted k' zs = accounted k xs" unfolding accounted_def a b root swap ps(2) ..
qed

lemma exec_keeps_spaces:
  assumes s: "spaces k xs" and i: "used k i" and r: "exec_ready W k i xs name argv up ws"
    and e: "kexec W name argv k = Inr (rc, k')"
  shows "\<exists>ys. spaces k' ys \<and> accounted k' ys = accounted k xs"
proof -
  have "\<exists>page. exec_image k i xs k' page \<and> (procs k' = procs k \<or> procs k' = (procs k)[i := (procs k ! i)\<lparr>sz := PGSIZE\<rparr>])"
  proof (cases "exec_layout (unat (up_size up)) ws")
    case None
    then show ?thesis using kexec_full [OF r None] e by auto
  next
    case (Some q)
    then show ?thesis using kexec_fits [OF r Some] e by auto
  qed
  then obtain page zs where "replaced k i xs k' zs" "procs k' = procs k \<or> procs k' = (procs k)[i := (procs k ! i)\<lparr>sz := PGSIZE\<rparr>]"
    unfolding exec_image_def by blast
  then show ?thesis using replaced_spaces [OF s i] by blast
qed

section \<open>The life of the processes\<close>

text \<open>
  The steps that move pages or change who is used: \<open>fork\<close> of a running process (as \<open>can_fork\<close> says), \<open>exec\<close> of a program of
  the table (as \<open>exec_ready\<close> says) or refused at once, \<open>wait\<close> when a child has exited, and what the scheduler, \<open>yield\<close> and
  \<open>exit\<close> do, which give a used slot another status (and switch the hart).
\<close>

inductive life_step :: "world \<Rightarrow> kernel \<Rightarrow> kernel \<Rightarrow> bool" for W where
  fork: "can_fork k p xs f1 f0 \<Longrightarrow> free_inv (mem k) xs \<Longrightarrow> kfork W k = Inr (rc, k') \<Longrightarrow> life_step W k k'"
| reap: "at_rest k \<Longrightarrow> List.find (zombie_child k (cpu_proc (hart k))) [0..<NPROC] = Some i \<Longrightarrow>
    kwait W addr k = Inr (rc, k') \<Longrightarrow> life_step W k k'"
| exec: "exec_ready W k i xs name argv up ws \<Longrightarrow> used k i \<Longrightarrow> kexec W name argv k = Inr (rc, k') \<Longrightarrow> life_step W k k'"
| refused: "hart_ok (hart k) \<Longrightarrow> find_program (ram (mem k)) name (programs W) = Inr found \<Longrightarrow>
    ram (mem k) name = 0 \<or> found = None \<or> (\<exists>up. found = Some up \<and> up_size up > PGSIZE) \<or> free_inv (mem k) [] \<Longrightarrow>
    kexec W name argv k = Inr (rc, k') \<Longrightarrow> life_step W k k'"
| status: "used k i \<Longrightarrow> st \<noteq> TASK_FREE \<Longrightarrow>
    life_step W k (k\<lparr>procs := (procs k)[i := (procs k ! i)\<lparr>status := st\<rparr>], hart := h\<rparr>)"

lemma kwait_keeps_spaces:
  assumes s: "spaces k xs" and r: "at_rest k" and z: "List.find (zombie_child k (cpu_proc (hart k))) [0..<NPROC] = Some i"
    and w: "kwait W addr k = Inr (rc, k')"
  shows "\<exists>ys. spaces k' ys \<and> accounted k' ys = accounted k xs"
proof -
  have i: "i < NPROC" "used k i" using z by (auto simp: find_Some_iff zombie_child_def used_def)
  then have sp: "proc_space k i xs" using s by (simp add: spaces_def)
  let ?k = "k\<lparr>hart := settled (hart k)\<rparr>"
  have c: "proc_space ?k i = proc_space k i" "reclaimed ?k i = reclaimed k i" by (rule proc_space_cong; simp)+
  have "at_rest ?k" "proc_space ?k i xs" using r sp c by (simp_all add: at_rest_def)
  from reap_reclaims [OF this(1) i(1) this(2)] obtain ph where
    ph: "reap i ?k = Inr (k\<lparr>mem := ph, procs := (procs k)[i := freed (procs k ! i)], hart := settled (settled (hart k))\<rparr>)"
      "reclaimed k i xs ph" using c(2) by auto
  have "k' = k\<lparr>mem := ph, procs := (procs k)[i := freed (procs k ! i)], hart := settled (settled (hart k))\<rparr>"
    using kwait_reaps [OF r refl z ph(1), of W addr] w by simp
  then show ?thesis using reclaimed_spaces [OF s i(2) ph(2)] by blast
qed

lemma life_step_spaces:
  assumes "life_step W k k'" "spaces k xs"
  shows "\<exists>ys. spaces k' ys \<and> accounted k' ys = accounted k xs"
  using assms(1)
proof cases
  case (fork p zs f1 f0 rc)
  have "free_inv (mem k) xs" using assms(2) by (simp add: spaces_def pt_ok_def)
  then have "zs = xs" using fork(2) chain_unique by (auto simp: free_inv_def)
  then show ?thesis using fork_keeps_spaces [OF assms(2), of p f1 f0 W] fork(1,3) by auto
next
  case (reap i addr rc)
  then show ?thesis by (intro kwait_keeps_spaces [OF assms(2)])
next
  case (exec i zs name argv up ws rc)
  have "free_inv (mem k) xs" "free_inv (mem k) zs"
    using assms(2) exec(1) by (simp_all add: spaces_def pt_ok_def exec_ready_def proc_space_def Let_def)
  then have "zs = xs" using chain_unique by (auto simp: free_inv_def)
  then show ?thesis using exec_keeps_spaces [OF assms(2) exec(2)] exec(1,3) by blast
next
  case (refused name found argv rc)
  then show ?thesis using kexec_refused [OF refused(1-3), of argv] spaces_hart [OF assms(2)] by auto
next
  case (status i st h)
  then show ?thesis using spaces_status [OF assms(2)] by blast
qed

lemma life_steps_spaces:
  assumes "(life_step W)\<^sup>*\<^sup>* k k'" "spaces k xs"
  shows "\<exists>ys. spaces k' ys \<and> accounted k' ys = accounted k xs"
  using assms(1)
proof (induction rule: rtranclp_induct)
  case base
  then show ?case using assms(2) by blast
next
  case (step k1 k2)
  then obtain ys where "spaces k1 ys" "accounted k1 ys = accounted k xs" by blast
  with life_step_spaces [OF step(2), of ys] show ?case by simp
qed

end
