(* ===== verification/Example_Fork.thy ===== *)
theory Example_Fork
  imports Example_Kernel Process_Memory
begin

text \<open>
  A kernel state with ten free pages in which process 0 can fork: the memory of \<open>Example_Space\<close>, into which six more
  pages have been freed, and slots 1 to 3 unused.
\<close>

definition ex_memory :: "phys \<Rightarrow> u64 list \<Rightarrow> bool" where
  "ex_memory ph xs \<longleftrightarrow> end_address ph = exR \<and> user_space ph exR 4096 xs \<and> tables (ram ph) exR = {exR, exT1, exT0} \<and>
     user_frames (ram ph) exR 4096 = [exF] \<and> pt_ok ph exC xs \<and> tables (ram ph) exC = {exC} \<and> (\<forall>w. pte_at (ram ph) exC w = 0)"

lemma ex_memory_kfree:
  assumes m: "ex_memory ph xs" and p: "managed ph p" "p \<notin> set xs" "p \<notin> {exR, exT1, exT0, exF, exC}"
  shows "\<exists>ph'. kfree p ph = Inr ph' \<and> ex_memory ph' (p # xs)"
proof -
  note m' = m [unfolded ex_memory_def]
  have ok: "pt_ok ph exC xs" and us: "user_space ph exR 4096 xs" using m' by simp_all
  have "free_inv ph xs" using ok by (simp add: pt_ok_def)
  then obtain ph' where k: "kfree p ph = Inr ph'" "free_inv ph' (p # xs)" "agree_on (- {pageno p}) (ram ph) (ram ph')"
    "end_address ph' = end_address ph" by (rule kfree_free_inv [OF _ p(1,2)])
  have P: "agree_on (- pageno ` {p}) (ram ph) (ram ph')" "\<forall>q \<in> {p}. managed ph q" using k(3) p(1) by simp_all
  have d: "{p} \<inter> tables (ram ph) exC = {}" "set (p # xs) \<inter> tables (ram ph) exC = {}" "{p} \<inter> tables (ram ph) exR = {}"
    "set (p # xs) \<inter> (tables (ram ph) exR \<union> set (user_frames (ram ph) exR 4096)) = {}"
    using p(3) m' ok us by (auto simp: user_space_def pt_ok_def)
  note c = bystander [OF ok k(2,4) P d(1,2)] and u = user_space_kept [OF us k(2,4) P d(3,4)]
  show ?thesis using k(1,4) c u m' unfolding ex_memory_def by auto
qed

definition ex_more :: "u64 list" where
  "ex_more = [0x87FFA000, 0x87FFB000, 0x87FFC000, 0x87FFD000, 0x87FFE000, 0x87FFF000]"

lemma ex_memory_kfree_all:
  assumes "ex_memory ph xs" "distinct ps" "\<forall>p \<in> set ps. managed ex_phys p \<and> p \<notin> set xs \<and> p \<notin> {exR, exT1, exT0, exF, exC}"
  shows "\<exists>ph'. forE kfree ps ph = Inr ph' \<and> ex_memory ph' (rev ps @ xs)"
  using assms
proof (induction ps arbitrary: ph xs)
  case (Cons p ps)
  have "managed ph p" using Cons.prems(1,3) by (simp add: ex_memory_def managed_def ex_phys_def)
  then obtain ph1 where k: "kfree p ph = Inr ph1" "ex_memory ph1 (p # xs)"
    using ex_memory_kfree [OF Cons.prems(1), of p] Cons.prems(3) by auto
  have "\<forall>q \<in> set ps. managed ex_phys q \<and> q \<notin> set (p # xs) \<and> q \<notin> {exR, exT1, exT0, exF, exC}"
    using Cons.prems(2,3) by auto
  then show ?case using Cons.IH [OF k(2)] Cons.prems(2) k(1) by simp
qed simp

lemma ex_user_space: "user_frames ex_ram exR 4096 = [exF]" "user_space ex_phys exR 4096 [exX1, exX2, exX3, exX4]"
proof -
  show uf: "user_frames ex_ram exR 4096 = [exF]" unfolding user_frames_def by (simp add: space_pages_def ex_frames)
  show "user_space ex_phys exR 4096 [exX1, exX2, exX3, exX4]"
    unfolding user_space_def ex_ram uf
  proof (intro conjI)
    show "pt_ok ex_phys exR [exX1, exX2, exX3, exX4]" by (rule ex_ok(1))
    show "pure_tree ex_ram exR" unfolding pure_tree_def ex_tables01
      by (auto simp: ex_entry) (simp_all add: PA2PTE_def PTE_V_def PTE_R_def PTE_W_def PTE_X_def ex_pages)
    show "unat (4096 :: u64) \<le> unat TRAPFRAME" by (simp add: trap_pages)
    show "\<forall>w < 2 ^ 27. bit (pte_at ex_ram exR w) 0 \<longrightarrow> w < space_pages 4096 \<or> w = pageno TRAMPOLINE \<or> w = pageno TRAPFRAME"
      using ex_pte_at(2) by (force simp: space_pages_def)
    show "\<forall>f \<in> set [exF]. managed ex_phys f \<and> f \<notin> set [exX1, exX2, exX3, exX4] \<and> f \<notin> tables ex_ram exR"
      using ex_managed by (simp add: ex_tables) (simp add: ex_pages)
  qed simp
qed

definition ex_fork_phys :: phys where
  "ex_fork_phys = (case forE kfree ex_more ex_phys of Inr ph \<Rightarrow> ph | Inl _ \<Rightarrow> ex_phys)"

definition ex_free_pages :: "u64 list" where
  "ex_free_pages = rev ex_more @ [exX1, exX2, exX3, exX4]"

lemma ex_fork_memory: "ex_memory ex_fork_phys ex_free_pages"
proof -
  have "ex_memory ex_phys [exX1, exX2, exX3, exX4]"
    using ex_user_space ex_ok(2) by (simp add: ex_memory_def ex_tables ex_pte_at(3)) (simp add: ex_phys_def)
  moreover have "distinct ex_more" by (simp add: ex_more_def)
  moreover have "\<forall>p \<in> set ex_more. managed ex_phys p"
    by (simp add: ex_more_def managed_def ex_phys_def page_aligned_def PHYSTOP_def KERNBASE_def exR_def)
  moreover have "\<forall>p \<in> set ex_more. p \<notin> set [exX1, exX2, exX3, exX4]" by (simp add: ex_more_def ex_pages)
  moreover have "\<forall>p \<in> set ex_more. p \<notin> {exR, exT1, exT0, exF, exC}" by (simp add: ex_more_def ex_pages)
  ultimately show ?thesis
    using ex_memory_kfree_all [of ex_phys "[exX1, exX2, exX3, exX4]" ex_more] by (auto simp: ex_fork_phys_def ex_free_pages_def)
qed

definition ex_slot :: "nat \<Rightarrow> proc" where
  "ex_slot i = (ex_proc TASK_FREE 0)\<lparr>kstack := KSTACK i, sz := 0\<rparr>"

definition ex_fork_kernel :: kernel where
  "ex_fork_kernel = ex_kernel\<lparr>mem := ex_fork_phys, hart := settled ex_hart,
    procs := [ex_proc TASK_RUNNING 2, ex_slot 1, ex_slot 2, ex_slot 3]\<rparr>"

lemma less_4: "(i :: nat) < 4 \<longleftrightarrow> i = 0 \<or> i = 1 \<or> i = 2 \<or> i = 3"
  by auto

lemma ex_fork_slots:
  "used ex_fork_kernel i \<longleftrightarrow> i = 0" "i < 4 \<Longrightarrow> kstack (procs ex_fork_kernel ! i) = KSTACK i"
  "i < 4 \<Longrightarrow> status (procs ex_fork_kernel ! i) = TASK_FREE \<longleftrightarrow> i \<noteq> 0" "i < 4 \<Longrightarrow> i \<noteq> 0 \<Longrightarrow> sz (procs ex_fork_kernel ! i) = 0"
  by (auto simp: used_def less_4 ex_fork_kernel_def ex_slot_def ex_proc_def)

lemma ex_kstack: "i < 4 \<Longrightarrow> page_aligned (KSTACK i)" "i < 4 \<Longrightarrow> unat (KSTACK i) + 4096 \<le> 0x4000000000"
  "inj_on KSTACK {..<4}"
proof -
  have "KSTACK 0 = 0x3FFFFFD000" "KSTACK 1 = 0x3FFFFFB000" "KSTACK 2 = 0x3FFFFF9000" "KSTACK 3 = 0x3FFFFF7000"
    by (simp_all add: KSTACK_def TRAMPOLINE_def MAXVA_def)
  then show "i < 4 \<Longrightarrow> page_aligned (KSTACK i)" "i < 4 \<Longrightarrow> unat (KSTACK i) + 4096 \<le> 0x4000000000" "inj_on KSTACK {..<4}"
    by (auto simp: less_4 page_aligned_def inj_on_def)
qed

lemma ex_fork_spaces: "spaces ex_fork_kernel ex_free_pages"
proof -
  note m = ex_fork_memory [unfolded ex_memory_def]
  have k: "mem ex_fork_kernel = ex_fork_phys" "kernel_pagetable ex_fork_kernel = exC" "length (procs ex_fork_kernel) = NPROC"
    by (simp_all add: ex_fork_kernel_def ex_kernel_def)
  have p: "trapframe (procs ex_fork_kernel ! 0) = exK" "pagetable (procs ex_fork_kernel ! 0) = exR"
    "sz (procs ex_fork_kernel ! 0) = 4096" "kstack (procs ex_fork_kernel ! 0) = KSTACK 0"
    by (simp_all add: ex_fork_kernel_def ex_proc_def)
  have st: "stack_frames (ram ex_fork_phys) exC va = []" for va using m by (simp add: stack_frames_def frames_def)
  have "managed ex_fork_phys f \<and> f \<notin> set ex_free_pages \<union> {exC} \<union> {exR, exT1, exT0}" if "f = exK \<or> f = exF" for f
    using that m by (elim disjE) (simp_all add: managed_def ex_free_pages_def ex_more_def page_aligned_def PHYSTOP_def KERNBASE_def ex_pages)
  moreover have "exK \<noteq> exF" by (simp add: ex_pages)
  ultimately have "proc_space ex_fork_kernel 0 ex_free_pages"
    using m ex_kstack(1,2) [of 0] unfolding proc_space_def Let_def p k st by simp
  then show ?thesis
    using m ex_kstack unfolding spaces_def k(1,2) by (auto simp: k ex_fork_slots inj_on_def)
qed

lemma ex_two_files: "two_files ex_fork_kernel 0 1"
  by (simp add: two_files_def ex_fork_kernel_def ex_file_def)

lemma ex_can_fork: "can_fork ex_fork_kernel 0 ex_free_pages 0 1"
  unfolding can_fork_def
proof (intro conjI)
  show "at_rest ex_fork_kernel"
    by (auto simp: at_rest_def ex_fork_kernel_def less_4 ex_slot_def)
  have "shareable (files ex_fork_kernel) (ofile (procs ex_fork_kernel ! 0)) [0..<NOFILE]"
    by (auto simp: shareable_def ex_fork_kernel_def ex_kernel_def)
  moreover have "9 \<le> length ex_free_pages" by (simp add: ex_free_pages_def ex_more_def)
  ultimately show "List.find (\<lambda>i. status (procs ex_fork_kernel ! i) = TASK_FREE) [0..<NPROC] = None \<or> ex_free_pages = [] \<or>
      two_files ex_fork_kernel 0 1 \<and> shareable (files ex_fork_kernel) (ofile (procs ex_fork_kernel ! 0)) [0..<NOFILE] \<and>
      9 \<le> length ex_free_pages"
    using ex_two_files by blast
  show "used ex_fork_kernel 0" by (simp add: ex_fork_slots)
qed (simp_all add: ex_fork_kernel_def)

end
