(* ===== verification/Console_Write.thy ===== *)
theory Console_Write
  imports Trap_Frame Pipe_Calls Byte_Strings
begin

text \<open>
  \<open>write\<close> to descriptor 1 as a whole: the arguments come from the trap frame, the bytes from the user's
  pages, and \<open>printf\<close> takes them as its format.
\<close>

section \<open>The state of the call\<close>

text \<open>A system call of process \<open>i\<close> with number \<open>num\<close> and three arguments.\<close>

definition calls_with :: "kernel \<Rightarrow> nat \<Rightarrow> u32 \<Rightarrow> u32 \<Rightarrow> u64 \<Rightarrow> u32 \<Rightarrow> bool" where
  "calls_with k i num a b c \<longleftrightarrow>
     (let tf = trapframe (procs k ! i) in
      hart_ok (hart k) \<and> cpu_proc (hart k) = Some i \<and> page_aligned tf \<and>
      ucast (tf_get tf (TF_a 7) k) = num \<and> ucast (tf_get tf (TF_a 0) k) = a \<and> tf_get tf (TF_a 1) k = b \<and>
      ucast (tf_get tf (TF_a 2) k) = c)"

text \<open>
  Descriptor 1 is open for writing on something other than a pipe, the \<open>n\<close> bytes at \<open>src\<close> are the
  user's, and the local array \<open>buffer\<close> overlaps neither them nor the page tables nor the trap frame.
\<close>

definition stdout_ready :: "u64 \<Rightarrow> kernel \<Rightarrow> nat \<Rightarrow> u64 \<Rightarrow> nat \<Rightarrow> bool" where
  "stdout_ready buf k i src n \<longleftrightarrow>
     (let p = procs k ! i; m = ram (mem k) in
      (\<exists>f. ofile p ! 1 = Some f \<and> writable (files k ! f) \<noteq> 0 \<and> ftype (files k ! f) \<noteq> FD_PIPE) \<and>
      n < 1024 \<and> pt_wf m (pagetable p) \<and> mapped m (pagetable p) src n \<and>
      copyin_safe m (pagetable p) buf src n \<and> (\<forall>j \<le> n. pageno (buf + of_nat j) \<noteq> pageno (trapframe p)))"

section \<open>The bytes as a string\<close>

lemma cstring_from_bytes:
  assumes "\<And>j. j < length bs \<Longrightarrow> m (p + of_nat j) = bs ! j" "m (p + of_nat (length bs)) = 0"
  shows "cstring_from m p = Some (takeWhile (\<lambda>b. b \<noteq> 0) bs)"
  using assms
proof (induction bs arbitrary: p)
  case Nil
  then show ?case by (simp add: cstring_from.simps)
next
  case (Cons b bs)
  have "m p = b" using Cons.prems(1) [of 0] by simp
  moreover have "cstring_from m (p + 1) = Some (takeWhile (\<lambda>b. b \<noteq> 0) bs)"
  proof (rule Cons.IH)
    show "m (p + 1 + of_nat j) = bs ! j" if "j < length bs" for j
      using Cons.prems(1) [of "Suc j"] that by (simp add: add.assoc)
    show "m (p + 1 + of_nat (length bs)) = 0" using Cons.prems(2) by (simp add: add.assoc)
  qed
  ultimately show ?case by (subst cstring_from.simps) simp
qed

text \<open>The local array after the copy and the terminator.\<close>

definition filled :: "u64 \<Rightarrow> kernel \<Rightarrow> nat \<Rightarrow> u64 \<Rightarrow> nat \<Rightarrow> memory" where
  "filled buf k i src n =
     (fetched (ram (mem k)) (\<lambda>j. the (user_addr (ram (mem k)) (pagetable (procs k ! i)) (src + j))) buf n)(buf + of_nat n := 0)"

lemma filled_string:
  assumes "n < 1024"
  shows "cstring_from (filled buf k i src n) buf =
    Some (takeWhile (\<lambda>b. b \<noteq> 0) (user_bytes (ram (mem k)) (pagetable (procs k ! i)) src n))"
proof (rule cstring_from_bytes)
  fix j assume "j < length (user_bytes (ram (mem k)) (pagetable (procs k ! i)) src n)"
  then have j: "j < n" by simp
  have at: "unat (of_nat j :: u64) = j" and "unat (of_nat n :: u64) = n"
    using j assms by (simp_all add: unat_small)
  then have "(of_nat j :: u64) \<noteq> of_nat n" using j by (metis less_irrefl)
  then show "filled buf k i src n (buf + of_nat j) = user_bytes (ram (mem k)) (pagetable (procs k ! i)) src n ! j"
    using j at by (simp add: filled_def fetched_def user_bytes_def user_byte_def)
qed (simp add: filled_def)

lemma filled_outside: "n < unat (x - buf) \<Longrightarrow> n < 1024 \<Longrightarrow> filled buf k i src n x = ram (mem k) x"
  using unat_small [of n] by (auto simp: filled_def fetched_def)

section \<open>The call\<close>

lemma argument:
  assumes "calls_with k i num a b c"
  shows "argaddr 1 k = Inr (b, k\<lparr>hart := settled (hart k)\<rparr>)" "argint 2 k = Inr (c, k\<lparr>hart := settled (hart k)\<rparr>)"
    "argint 0 k = Inr (a, k\<lparr>hart := settled (hart k)\<rparr>)"
  using assms by (simp_all add: calls_with_def Let_def argaddr_def argint_def argraw_def myproc_eq tf_get_def)

lemma calls_settled: "calls_with k i num a b c \<Longrightarrow> calls_with (k\<lparr>hart := settled (hart k)\<rparr>) i num a b c"
  by (simp add: calls_with_def Let_def tf_get_def)

lemma stdout_write:
  assumes c: "calls_with k i num 1 src (of_nat n)" and r: "stdout_ready buf k i src n"
    and bs: "bs = takeWhile (\<lambda>b. b \<noteq> 0) (user_bytes (ram (mem k)) (pagetable (procs k ! i)) src n)"
  shows "filewrite buf 1 src (of_nat n) k =
    bindE (printf bs [] (with_ram k (filled buf k i src n))) (\<lambda>k. Inr (0, k))"
proof -
  have n: "n < 1024" using r by (simp add: stdout_ready_def Let_def)
  then have u: "unat (of_nat n :: u32) = n" by (simp add: unat_of_nat)
  have small: "unat (of_nat n :: u32) < 2 ^ 31" using n u by simp
  have len: "(scast (of_nat n :: u32) :: u64) = of_nat n" using scast_small [OF small] u by simp
  have guards: "\<not> (of_nat n :: u32) <s 0" "\<not> 1024 \<le>s (of_nat n :: u32)"
  proof -
    have "sint (of_nat n :: u32) = int n" using sint_small [OF small] u by (simp only: uint_nat)
    then show "\<not> (of_nat n :: u32) <s 0" "\<not> 1024 \<le>s (of_nat n :: u32)"
      using n by (simp_all add: word_sless_alt word_sle_eq)
  qed
  have n64: "unat (of_nat n :: u64) = n" using n by (simp add: unat_small)
  from copyin_spec [of "mem k" "pagetable (procs k ! i)" buf src "of_nat n"] r n64 obtain rc where
    cp: "copyin (pagetable (procs k ! i)) buf src (of_nat n) (mem k) = Inr (rc, (mem k)\<lparr>ram := fetched (ram (mem k))
      (\<lambda>j. the (user_addr (ram (mem k)) (pagetable (procs k ! i)) (src + j))) buf n\<rparr>)"
    by (auto simp: stdout_ready_def Let_def)
  have str: "cstring_from (filled buf k i src n) buf = Some bs" unfolding bs using n by (rule filled_string)
  have fd: "\<not> (1 :: u32) <s 0" "\<not> 16 \<le>s (1 :: u32)" by (simp_all add: word_sless_alt word_sle_eq)
  have swap: "k\<lparr>hart := h, mem := ph\<rparr> = k\<lparr>mem := ph, hart := h\<rparr>" for h ph by simp
  show ?thesis
    using c r guards fd cp str unfolding filled_def
    by (auto simp: filewrite_def calls_with_def stdout_ready_def Let_def myproc_eq on_mem_def on_ram_def len swap)
qed

text \<open>From the dispatch to the saved \<open>a0\<close>.\<close>

lemma syscall_write:
  assumes c: "calls_with k i 16 1 src (of_nat n)" and r: "stdout_ready (l_write_buf W) k i src n"
    and bs: "bs = takeWhile (\<lambda>b. b \<noteq> 0) (user_bytes (ram (mem k)) (pagetable (procs k ! i)) src n)"
  shows "syscall W k = bindE (printf bs [] (with_ram k (filled (l_write_buf W) k i src n)))
    (\<lambda>k'. Inr (tf_set (trapframe (procs k' ! i)) (TF_a 0) 0 k'))"
proof -
  define k0 where "k0 = k\<lparr>hart := settled (hart k)\<rparr>"
  have k0: "k0\<lparr>hart := settled (hart k0)\<rparr> = k0" by (simp add: k0_def)
  have c0: "calls_with k0 i 16 1 src (of_nat n)" using c unfolding k0_def by (rule calls_settled)
  have "stdout_ready (l_write_buf W) k0 i src n" using r by (simp add: stdout_ready_def k0_def)
  from stdout_write [OF c0 this refl]
  have w: "filewrite (l_write_buf W) 1 src (of_nat n) k0 =
      bindE (printf bs [] (with_ram k (filled (l_write_buf W) k i src n))) (\<lambda>k. Inr (0, k))"
    by (simp add: bs k0_def filled_def)
  have cur: "current what k = Inr (i, k0)" for what using c by (simp add: calls_with_def Let_def current_def myproc_eq k0_def)
  have num: "ucast (tf_get (trapframe (procs k ! i)) (TF_a 7) k) = (16 :: u32)" "procs k0 = procs k"
    "tf_get tf g k0 = tf_get tf g k" for tf g
    using c by (simp_all add: calls_with_def Let_def k0_def tf_get_def)
  have "\<not> (16 :: u32) <s 0" by (simp add: word_sless_alt)
  moreover have "syscalls W 16 = Some (sys_write W)" by (simp add: syscalls_def)
  ultimately show ?thesis
    using argument [OF c0] w
    by (simp add: syscall_def cur Let_def num sys_write_def k0 bindE_assoc)
qed

text \<open>What the user sees as text goes out as it is; a conversion finds no argument.\<close>

lemma printf_verbatim: "37 \<notin> set bs \<Longrightarrow> printf bs [] k = Inr (k\<lparr>uart_tx := uart_tx k @ bs\<rparr>)"
  by (simp add: printf_def printf_loop_verbatim fold_uart_putc)

lemma printf_conversion:
  assumes "37 \<notin> set pre" "c \<in> {100, 120, 112, 115, 99}"
  shows "printf (pre @ 37 # c # post) [] k = Inl (OutOfBounds ''va_arg'')"
  using assms by (auto simp: printf_def printf_loop_prefix va_arg_def)

lemma filled_frame:
  assumes r: "stdout_ready buf k i src n" and idx: "idx r" and al: "page_aligned (trapframe (procs k ! i))"
  shows "tf_get (trapframe (procs k ! i)) (8 * r) (with_ram k (filled buf k i src n)) =
    tf_get (trapframe (procs k ! i)) (8 * r) k"
proof -
  let ?tf = "trapframe (procs k ! i)"
  have n: "n < 1024" and apart: "\<And>j. j \<le> n \<Longrightarrow> pageno (buf + of_nat j) \<noteq> pageno ?tf"
    using r by (simp_all add: stdout_ready_def Let_def)
  have "load64 (filled buf k i src n) (?tf + of_nat (8 * unat r)) = load64 (ram (mem k)) (?tf + of_nat (8 * unat r))"
  proof (rule load_le_cong)
    fix d :: nat assume "d < 8"
    then have "8 * unat r + d < 4096" using idx by simp
    from pageno_page_offset [OF al this] have pg: "pageno (?tf + of_nat (8 * unat r) + of_nat d) = pageno ?tf"
      by (simp only: of_nat_add add.assoc)
    define x where "x = ?tf + of_nat (8 * unat r) + of_nat d"
    have "pageno (buf + of_nat (unat (x - buf))) = pageno ?tf" using pg unfolding x_def [symmetric] by simp
    with apart [of "unat (x - buf)"] have "n < unat (x - buf)" by (meson leI)
    then show "filled buf k i src n (?tf + of_nat (8 * unat r) + of_nat d) = ram (mem k) (?tf + of_nat (8 * unat r) + of_nat d)"
      using n unfolding x_def by (rule filled_outside)
  qed
  then show ?thesis by (simp add: tf_get_def)
qed

text \<open>The whole call on bytes without a percent sign.\<close>

lemma console_write:
  assumes "calls_with k i 16 1 src (of_nat n)" "stdout_ready (l_write_buf W) k i src n"
    and "bs = user_bytes (ram (mem k)) (pagetable (procs k ! i)) src n" "37 \<notin> set bs" "tf = trapframe (procs k ! i)"
  shows "\<exists>k'. syscall W k = Inr k' \<and> uart_tx k' = uart_tx k @ takeWhile (\<lambda>b. b \<noteq> 0) bs \<and>
    tf_get tf (TF_a 0) k' = 0 \<and> (\<forall>r. idx r \<and> r \<noteq> 14 \<longrightarrow> tf_get tf (8 * r) k' = tf_get tf (8 * r) k) \<and>
    procs k' = procs k \<and> files k' = files k \<and>
    k' = k\<lparr>hart := settled (hart k), mem := (mem k)\<lparr>ram := ram (mem k')\<rparr>, uart_tx := uart_tx k'\<rparr> \<and>
    (\<forall>x. n < unat (x - l_write_buf W) \<and> pageno x \<noteq> pageno tf \<longrightarrow> ram (mem k') x = ram (mem k) x)"
proof -
  define out where "out = takeWhile (\<lambda>b. b \<noteq> 0) bs"
  define k1 where "k1 = (with_ram k (filled (l_write_buf W) k i src n))\<lparr>uart_tx := uart_tx k @ out\<rparr>"
  have al: "page_aligned tf" using assms(1,5) by (simp add: calls_with_def Let_def)
  have "37 \<notin> set out" using assms(4) by (auto simp: out_def dest: set_takeWhileD)
  define k' where "k' = tf_set tf (TF_a 0) 0 k1"
  have eq: "syscall W k = Inr k'"
    using syscall_write [OF assms(1,2), of out] printf_verbatim [OF \<open>37 \<notin> set out\<close>] assms(3,5) by (simp add: out_def k1_def k'_def)
  have a0: "TF_a 0 = 8 * 14" by (simp add: tf_slots)
  have regs: "tf_get tf (8 * r) k' = (if r = 14 then 0 else tf_get tf (8 * r) k)" if "idx r" for r
    using filled_frame [OF assms(2) that] al assms(5) that
    unfolding k'_def a0 by (simp only: tf_get_set tf_idx) (simp add: k1_def tf_get_def)
  have "ram (mem k') x = ram (mem k) x" if "n < unat (x - l_write_buf W)" "pageno x \<noteq> pageno tf" for x
  proof -
    have "n < 1024" using assms(2) by (simp add: stdout_ready_def Let_def)
    moreover have "store64 (tf + of_nat (8 * 14)) 0 m x = m x" for m using al that(2) by (intro store_le_page) simp_all
    ultimately show ?thesis using that(1) filled_outside by (simp add: k'_def a0 tf_set_def on_ram_def k1_def)
  qed
  moreover have "tf_get tf (TF_a 0) k' = 0" using regs [of 14] by (simp add: a0)
  moreover have "procs k' = procs k" "files k' = files k" "uart_tx k' = uart_tx k @ out"
    by (simp_all add: k'_def k1_def tf_set_def)
  moreover have "k' = k\<lparr>hart := settled (hart k), mem := (mem k)\<lparr>ram := ram (mem k')\<rparr>, uart_tx := uart_tx k'\<rparr>"
    by (simp add: k'_def k1_def tf_set_def on_ram_def)
  ultimately show ?thesis using eq regs unfolding out_def by (intro exI [of _ k']) simp
qed

end
