(* ===== verification/Example_Write.thy ===== *)
theory Example_Write
  imports Example_Kernel Console_Write
begin

text \<open>
  The state of \<open>Example_Kernel\<close> in the middle of a \<open>write\<close>: descriptor 1 of process 0 is the console, its
  page holds the text \<open>cs\<close> at address 0, and its trap frame asks for all of it to be written.
\<close>

text \<open>A world in which every process gives the processor back at once, as \<open>yield\<close> does.\<close>

definition ex_world :: world where
  "ex_world = \<lparr>a_trampoline = 0x80001000, a_uservec = 0x80001000, a_userret = 0x80001090, a_forkret = 0x80002000,
    a_usertrap = 0x80003000, a_sys_trap_vector = 0x80004000, a_sh = 0x80005000, programs = [],
    l_console_buf = exK, l_write_buf = exK, l_path = exK, l_argv = exK, l_uarg = exK, l_fd = exK, l_ustack = exK,
    keys = [], pipe_env = [], wait_env = [],
    swtch = (\<lambda>k. case cpu_proc (hart k) of None \<Rightarrow> Inr k | Some i \<Rightarrow> Inr (set_proc i (\<lambda>p. p\<lparr>status := TASK_READY\<rparr>) k))\<rparr>"

text \<open>\<open>ex_world\<close> with the buffer in a page of its own.\<close>

definition ex_stdout_world :: world where
  "ex_stdout_world = ex_world\<lparr>l_write_buf := exC\<rparr>"

lemma ex_stdout_buf: "l_write_buf ex_stdout_world = exC"
  by (simp add: ex_stdout_world_def)

definition ex_text_kernel :: "u8 list \<Rightarrow> kernel" where
  "ex_text_kernel cs = ex_kernel\<lparr>mem := ex_phys\<lparr>ram := put_bytes exF cs ex_ram\<rparr>,
     procs := (procs ex_kernel)[0 := (ex_proc TASK_RUNNING 2)\<lparr>ofile := (replicate NOFILE None)[1 := Some 0]\<rparr>],
     files := (replicate NFILE ex_file)[0 := ex_file\<lparr>ftype := FD_CONSOLE, writable := 1\<rparr>]\<rparr>"

definition ex_write :: "u8 list \<Rightarrow> kernel" where
  "ex_write cs = tf_set exK (8 * 14) 1 (tf_set exK (8 * 15) 0 (tf_set exK (8 * 16) (of_nat (length cs))
     (tf_set exK (8 * 21) 16 (ex_text_kernel cs))))"

lemma ex_write_fields [simp]:
  "hart (ex_write cs) = ex_hart" "uart_tx (ex_write cs) = []" "trapframe (procs (ex_write cs) ! 0) = exK"
  "pagetable (procs (ex_write cs) ! 0) = exR" "ofile (procs (ex_write cs) ! 0) ! 1 = Some 0"
  "writable (files (ex_write cs) ! 0) = 1" "ftype (files (ex_write cs) ! 0) = FD_CONSOLE"
  by (simp_all add: ex_write_def tf_set_def ex_text_kernel_def) (simp_all add: ex_kernel_def ex_proc_def)

lemma ex_write_args:
  "tf_get exK (TF_a 7) (ex_write cs) = 16" "tf_get exK (TF_a 0) (ex_write cs) = 1"
  "tf_get exK (TF_a 1) (ex_write cs) = 0" "tf_get exK (TF_a 2) (ex_write cs) = of_nat (length cs)"
proof -
  have get: "tf_get exK (8 * b) (ex_write cs) = (if b = 14 then 1 else if b = 15 then 0 else
      if b = 16 then of_nat (length cs) else if b = 21 then 16 else tf_get exK (8 * b) (ex_text_kernel cs))" if "idx b" for b
  proof -
    have "idx 14" "idx 15" "idx 16" "idx 21" by simp_all
    with that show ?thesis unfolding ex_write_def by (simp only: tf_get_set ex_aligned) auto
  qed
  have "TF_a 7 = 8 * 21" "TF_a 0 = 8 * 14" "TF_a 1 = 8 * 15" "TF_a 2 = 8 * 16" by (simp_all add: tf_slots)
  then show "tf_get exK (TF_a 7) (ex_write cs) = 16" "tf_get exK (TF_a 0) (ex_write cs) = 1"
    "tf_get exK (TF_a 1) (ex_write cs) = 0" "tf_get exK (TF_a 2) (ex_write cs) = of_nat (length cs)"
    using get [of 14] get [of 15] get [of 16] get [of 21] by simp_all
qed

text \<open>Outside the trap frame the memory is \<open>ex_ram\<close> with the text in the user's page.\<close>

lemma ex_write_ram: "pageno x \<noteq> pageno exK \<Longrightarrow> ram (mem (ex_write cs)) x = put_bytes exF cs ex_ram x"
proof -
  assume x: "pageno x \<noteq> pageno exK"
  have st: "store64 (exK + of_nat (8 * r)) v m x = m x" if "r < 512" for r v m
    using x that by (intro store_le_page) simp_all
  show ?thesis
    using st [of 14] st [of 15] st [of 16] st [of 21] by (simp add: ex_write_def tf_set_def on_ram_def ex_text_kernel_def)
qed

lemma ex_write_agree:
  assumes "length cs \<le> 4096" "pageno x \<noteq> pageno exK" "pageno x \<noteq> pageno exF"
  shows "ram (mem (ex_write cs)) x = ex_ram x"
proof -
  have "\<not> unat (x - exF) < length cs"
  proof
    assume "unat (x - exF) < length cs"
    then have "unat (x - exF) < 4096" using assms(1) by simp
    from pageno_page_offset [OF _ this, of exF] show False using assms(3) by simp
  qed
  then show ?thesis using ex_write_ram [OF assms(2)] by (simp add: put_bytes_def)
qed

lemma ex_write_user:
  assumes "length cs \<le> 4096"
  shows "pt_wf (ram (mem (ex_write cs))) exR" "tables (ram (mem (ex_write cs))) exR = {exR, exT1, exT0}"
    "user_addr (ram (mem (ex_write cs))) exR va = user_addr ex_ram exR va"
proof -
  have "pageno p \<noteq> pageno exK \<and> pageno p \<noteq> pageno exF" if "p \<in> tables ex_ram exR" for p
    using that by (auto simp: ex_tables) (simp_all add: ex_pages pageno_def)
  then have ag: "agree_on (pageno ` tables ex_ram exR) ex_ram (ram (mem (ex_write cs)))"
    using ex_write_agree [OF assms] by (fastforce simp: agree_on_def)
  from pt_wf_agree [OF ex_wf(1) ag] user_addr_agree(1) [OF ag]
  show "pt_wf (ram (mem (ex_write cs))) exR" "tables (ram (mem (ex_write cs))) exR = {exR, exT1, exT0}"
    "user_addr (ram (mem (ex_write cs))) exR va = user_addr ex_ram exR va"
    by (simp_all add: ex_tables)
qed

lemma ex_write_bytes: "length cs \<le> 4096 \<Longrightarrow> user_bytes (ram (mem (ex_write cs))) exR 0 (length cs) = cs"
proof (rule nth_equalityI, simp)
  fix i assume l: "length cs \<le> 4096" and "i < length (user_bytes (ram (mem (ex_write cs))) exR 0 (length cs))"
  then have i: "i < length cs" by simp
  have a: "user_addr ex_ram exR (of_nat i) = Some (exF + of_nat i)" using ex_user_range(1) [of 0 "length cs" i] l i by simp
  have "pageno (exF + of_nat i) = pageno exF" using l i by (intro pageno_page_offset) simp_all
  moreover have "pageno exF \<noteq> pageno exK" by (simp add: ex_pages pageno_def)
  ultimately have "ram (mem (ex_write cs)) (exF + of_nat i) = cs ! i"
    using ex_write_ram [of "exF + of_nat i" cs] put_bytes_at(1) [of i cs exF ex_ram] l i by simp
  then show "user_bytes (ram (mem (ex_write cs))) exR 0 (length cs) ! i = cs ! i"
    using a i by (simp add: user_bytes_def user_byte_def ex_write_user [OF l])
qed

lemma ex_write_ready:
  assumes "length cs < 1024"
  shows "calls_with (ex_write cs) 0 16 1 0 (of_nat (length cs))" "stdout_ready exC (ex_write cs) 0 0 (length cs)"
proof -
  have l: "length cs \<le> 4096" using assms by simp
  show "calls_with (ex_write cs) 0 16 1 0 (of_nat (length cs))"
  proof -
    have "ucast (of_nat (length cs) :: u64) = (of_nat (length cs) :: u32)"
      using assms by (simp add: unsigned_of_nat take_bit_nat_eq_self)
    then show ?thesis using ex_write_args [of cs] by (simp add: calls_with_def Let_def)
  qed
  note u = ex_write_user [OF l]
  have a: "user_addr ex_ram exR (of_nat i) = Some (exF + of_nat i)" if "i < length cs" for i
    using ex_user_range(1) [of 0 "length cs" i] l that by simp
  have "\<not> unat (exF + of_nat i - exC) < length cs" if "i < length cs" for i
    using l that by (intro ex_page_range) simp_all
  moreover have "pageno x \<notin> pageno ` {exR, exT1, exT0}" if "unat (x - exC) < length cs" for x
  proof -
    have "unat (x - exC) < 4096" using that l by simp
    from pageno_page_offset [OF _ this, of exC] have "pageno x = pageno exC" by simp
    then show ?thesis by simp (simp add: ex_pages pageno_def)
  qed
  ultimately have "copyin_safe (ram (mem (ex_write cs))) exR exC 0 (length cs)" using a by (auto simp: copyin_safe_def u)
  moreover have "pageno (exC + of_nat j) \<noteq> pageno exK" if "j \<le> length cs" for j
    using pageno_page_offset [of exC j] that assms by simp (simp add: ex_pages pageno_def)
  moreover have "mapped (ram (mem (ex_write cs))) exR 0 (length cs)" using a by (simp add: mapped_def u)
  ultimately show "stdout_ready exC (ex_write cs) 0 0 (length cs)"
    unfolding stdout_ready_def Let_def using assms u(1) ex_write_fields(5-7) [of cs] by (auto intro!: exI [of _ 0])
qed

lemma ex_write_three:
  assumes "length cs = 3"
  shows "calls_with (ex_write cs) 0 16 1 0 (of_nat 3)" "stdout_ready exC (ex_write cs) 0 0 3"
    "user_bytes (ram (mem (ex_write cs))) (pagetable (procs (ex_write cs) ! 0)) 0 3 = cs"
  using ex_write_ready [of cs] ex_write_bytes [of cs] by (simp_all only: assms) simp_all

section \<open>A program that prints\<close>

text \<open>Between two calls the memory is \<open>ex_ram\<close> with the text in the user's page.\<close>

lemma ex_text_space:
  assumes "length cs \<le> 4096" "m = put_bytes exF cs ex_ram"
  shows "pt_wf m exR" "tables m exR = {exR, exT1, exT0}" "user_addr m exR va = user_addr ex_ram exR va"
proof -
  have out: "m x = ex_ram x" if "pageno x \<noteq> pageno exF" for x
  proof -
    have "\<not> unat (x - exF) < length cs"
    proof
      assume "unat (x - exF) < length cs"
      then have "unat (x - exF) < 4096" using assms(1) by simp
      from pageno_page_offset [OF _ this, of exF] show False using that by simp
    qed
    then show ?thesis by (simp add: assms(2) put_bytes_def)
  qed
  have "pageno p \<noteq> pageno exF" if "p \<in> tables ex_ram exR" for p
    using that by (auto simp: ex_tables) (simp_all add: ex_pages pageno_def)
  then have ag: "agree_on (pageno ` tables ex_ram exR) ex_ram m"
    using out by (fastforce simp: agree_on_def)
  from pt_wf_agree [OF ex_wf(1) ag] user_addr_agree(1) [OF ag]
  show "pt_wf m exR" "tables m exR = {exR, exT1, exT0}" "user_addr m exR va = user_addr ex_ram exR va"
    by (simp_all add: ex_tables)
qed

lemma ex_user_page: "user_addr ex_ram exR va = Some a \<Longrightarrow> \<exists>j < 4096. a = exF + of_nat j"
  using ex_pte_bits(4) by (auto simp: user_addr_def ex_leaf user_ok_def split: if_splits intro!: exI [of _ "unat va mod 4096"])

end
