(* ===== verification/Kernel_Props.thy ===== *)
theory Kernel_Props
  imports Example_Fork Example_Write
begin

text \<open>
  The properties of the scheduler, of \<open>wait\<close>, of the system call dispatch and of the way through a trap,
  with instances on variants of \<open>ex_kernel\<close>.
\<close>

section \<open>A kernel at rest and a world\<close>

text \<open>In \<open>ex_world\<close> every process gives the processor back at once, as \<open>yield\<close> does.\<close>

lemma ex_processes_return: "processes_return ex_world"
  unfolding processes_return_def
proof (intro allI impI)
  fix i k assume d: "dispatched i k"
  then have l: "locked_slot i k" "length (procs k) = NPROC" "i < NPROC" by (simp_all add: dispatched_def locked_slot_def)
  let ?k = "set_proc i (\<lambda>p. p\<lparr>status := TASK_READY\<rparr>) k"
  have "hart_ok (hart k)" using l(1) by (simp add: locked_slot_def)
  then have "locked_slot i ?k"
    using l by (intro locked_slot_cong [OF l(1)]) (simp_all add: set_proc_def nth_list_update)
  moreover have "\<forall>j < NPROC. status (procs ?k ! j) \<noteq> TASK_RUNNING"
    using d l by (simp add: set_proc_def nth_list_update dispatched_def)
  ultimately have "handed_back i ?k" using d by (simp add: handed_back_def dispatched_def set_proc_def)
  then show "\<exists>k'. swtch ex_world k = Inr k' \<and> handed_back i k'"
    using d by (simp add: ex_world_def dispatched_def)
qed

text \<open>Two processes are ready, none runs; and the same table with a zombie child of process 0.\<close>

definition ex_idle_kernel :: kernel where
  "ex_idle_kernel = ex_kernel\<lparr>hart := ex_hart\<lparr>cpu_proc := None\<rparr>,
    procs := [ex_proc TASK_READY 2, ex_proc TASK_READY 3, ex_proc TASK_FREE 0, ex_proc TASK_FREE 0]\<rparr>"

definition ex_parent_kernel :: kernel where
  "ex_parent_kernel = ex_kernel\<lparr>
    procs := [ex_proc TASK_RUNNING 2, (ex_proc TASK_ZOMBIE 3)\<lparr>parent := Some 0\<rparr>, ex_proc TASK_FREE 0, ex_proc TASK_FREE 0]\<rparr>"

lemma less_NPROC: "i < NPROC \<longleftrightarrow> i = 0 \<or> i = 1 \<or> i = 2 \<or> i = 3"
  by auto

lemma ex_quiet: "quiet ex_idle_kernel"
  by (auto simp: quiet_def at_rest_def ex_idle_kernel_def less_NPROC hart_ok_def ex_hart_def simp del: NPROC_def)
    (simp_all add: NPROC_def)

lemma ex_at_rest: "at_rest ex_kernel" "at_rest ex_parent_kernel"
  by (auto simp: at_rest_def ex_kernel_def ex_parent_kernel_def less_NPROC simp del: NPROC_def) (simp_all add: NPROC_def)

section \<open>The scheduler\<close>

text \<open>
  C23: however many passes it makes, the scheduler never panics and never hangs, and between two passes
  no process runs, every lock of the table is free and interrupts are not nested, provided the
  processes hand the processor back as \<open>yield\<close> and \<open>exit\<close> do.
\<close>

theorem scheduler_never_stops:
  assumes "quiet k" "processes_return W"
  shows "\<exists>k'. scheduler W n k = Inr k' \<and> quiet k'"
proof -
  have "quiet (on_hart (\<lambda>h. h\<lparr>cpu_proc := None\<rparr>) k)"
    using assms(1) by (simp add: quiet_def at_rest_def on_hart_def hart_ok_def)
  from scheduler_loop_quiet [OF this assms(2)] show ?thesis by (simp add: scheduler_def)
qed

theorem scheduler_never_stops_ex: "\<exists>k'. scheduler ex_world 5 ex_idle_kernel = Inr k' \<and> quiet k'"
  by (rule scheduler_never_stops [OF ex_quiet ex_processes_return])

text \<open>
  C12: in every pass every slot has its turn, and a process that is ready then is switched to, with its
  lock held, as the only running process and the one the hart runs; afterwards the pass goes on with
  the next slot.
\<close>

theorem ready_process_runs_in_every_pass:
  assumes "quiet k" "processes_return W" "i < NPROC"
  shows "\<exists>ki k'. forE (scheduler_turn W) [0..<i] (on_hart intr_on k) = Inr ki \<and> quiet ki \<and>
    (status (procs ki ! i) = TASK_READY \<longrightarrow>
      (\<exists>s k1. dispatched i s \<and> swtch W s = Inr k1 \<and> handed_back i k1 \<and>
        (\<forall>j < NPROC. same_slot (procs k1 ! j) (procs k' ! j)))) \<and>
    (status (procs ki ! i) \<noteq> TASK_READY \<longrightarrow> (\<forall>j < NPROC. same_slot (procs ki ! j) (procs k' ! j))) \<and>
    scheduler_pass W k = forE (scheduler_turn W) [Suc i..<NPROC] k'"
proof -
  from pass_reaches [OF assms] obtain ki k' where
    p: "forE (scheduler_turn W) [0..<i] (on_hart intr_on k) = Inr ki" "quiet ki" "scheduler_turn W i ki = Inr k'"
      "forE (scheduler_turn W) [Suc i..<NPROC] k' = scheduler_pass W k" by blast
  have "status (procs ki ! i) = TASK_READY \<longrightarrow>
      (\<exists>s k1. dispatched i s \<and> swtch W s = Inr k1 \<and> handed_back i k1 \<and> (\<forall>j < NPROC. same_slot (procs k1 ! j) (procs k' ! j)))"
    using turn_ready [OF p(2) assms(3) _ assms(2)] dispatch_dispatched [OF p(2) assms(3)] p(3) by fastforce
  moreover have "status (procs ki ! i) \<noteq> TASK_READY \<longrightarrow> (\<forall>j < NPROC. same_slot (procs ki ! j) (procs k' ! j))"
    using turn_waiting [OF p(2) assms(3), of W] p(3) by auto
  ultimately show ?thesis using p by (intro exI [of _ ki] exI [of _ k']) simp
qed

theorem ready_process_runs_in_every_pass_ex:
  "\<exists>ki k'. forE (scheduler_turn ex_world) [0..<1] (on_hart intr_on ex_idle_kernel) = Inr ki \<and> quiet ki \<and>
    (status (procs ki ! 1) = TASK_READY \<longrightarrow>
      (\<exists>s k1. dispatched 1 s \<and> swtch ex_world s = Inr k1 \<and> handed_back 1 k1 \<and>
        (\<forall>j < NPROC. same_slot (procs k1 ! j) (procs k' ! j)))) \<and>
    (status (procs ki ! 1) \<noteq> TASK_READY \<longrightarrow> (\<forall>j < NPROC. same_slot (procs ki ! j) (procs k' ! j))) \<and>
    scheduler_pass ex_world ex_idle_kernel = forE (scheduler_turn ex_world) [Suc 1..<NPROC] k'"
  by (rule ready_process_runs_in_every_pass [OF ex_quiet ex_processes_return]) simp

definition left_with :: "task_status \<Rightarrow> nat \<Rightarrow> kernel \<Rightarrow> kernel" where
  "left_with st i k = set_proc i (\<lambda>p. p\<lparr>status := st\<rparr>) (lock_slot i k)"

lemma handed_back_left:
  assumes "at_rest k" "noff (hart k) = 0" "cpu_proc (hart k) = Some i" "i < NPROC"
    and "\<forall>j < NPROC. status (procs k ! j) = TASK_RUNNING \<longrightarrow> j = i" "st \<noteq> TASK_RUNNING"
  shows "handed_back i (left_with st i k)" "same_slot ((procs k ! i)\<lparr>status := st\<rparr>) (procs (left_with st i k) ! i)"
    "\<And>j. j \<noteq> i \<Longrightarrow> procs (left_with st i k) ! j = procs k ! j"
proof -
  note l = lock_slot_locked [OF assms(1,4)]
  have len: "length (procs k) = NPROC" using assms(1) by (simp add: at_rest_def)
  have len': "length (procs (lock_slot i k)) = NPROC" using len by (simp add: lock_slot_def)
  have "hart_ok (hart (lock_slot i k))" using l by (simp add: locked_slot_def)
  then have "locked_slot i (left_with st i k)"
    using assms(2) len' assms(4) by (intro locked_slot_cong [OF l]) (simp_all add: left_with_def set_proc_def nth_list_update)
  moreover have "status (procs (left_with st i k) ! j) \<noteq> TASK_RUNNING" if "j < NPROC" for j
    using assms(4-6) len that by (auto simp: left_with_def set_proc_def lock_slot_def nth_list_update)
  ultimately show "handed_back i (left_with st i k)"
    using assms(2-4) by (simp add: handed_back_def left_with_def set_proc_def) (simp add: lock_slot_def)
  show "same_slot ((procs k ! i)\<lparr>status := st\<rparr>) (procs (left_with st i k) ! i)"
    using len assms(4) by (simp add: left_with_def set_proc_def lock_slot_def same_slot_def)
  show "j \<noteq> i \<Longrightarrow> procs (left_with st i k) ! j = procs k ! j" for j
    by (simp add: left_with_def set_proc_def lock_slot_def)
qed

lemma printf_exit_message: "\<exists>out. printf (bytes ''process %d exit'' @ [10]) [v] k = Inr (k\<lparr>uart_tx := out\<rparr>)"
proof -
  have fmt: "bytes ''process %d exit'' @ [10] = bytes ''process '' @ [37, 100] @ (bytes '' exit'' @ [10])" by (simp add: bytes_def)
  have pure: "37 \<notin> set (bytes ''process '')" "37 \<notin> set (bytes '' exit'' @ [10])" by (simp_all add: bytes_def)
  obtain ds where "printint (ucast (v :: u64)) 10 True = Inr ds" using printint_signed by blast
  then show ?thesis
    unfolding fmt using pure
    by (intro exI [of _ "uart_tx k @ bytes ''process '' @ ds @ bytes '' exit'' @ [10]"])
      (simp add: printf_def printf_loop_prefix printf_loop_verbatim va_arg_def fold_uart_putc del: set_append)
qed

text \<open>
  C20: \<open>yield\<close> and \<open>exit\<close> of the running process switch away in a state as the scheduler expects it: the
  slot is locked, one level of interrupts is off, nothing runs; the process is ready after \<open>yield\<close> and
  a zombie after \<open>exit\<close>, and its other fields and the other slots are untouched.
\<close>

theorem yield_and_exit_hand_back:
  assumes "at_rest k" "noff (hart k) = 0" "cpu_proc (hart k) = Some i" "i < NPROC"
    and "\<forall>j < NPROC. status (procs k ! j) = TASK_RUNNING \<longrightarrow> j = i"
  shows "\<exists>k1 k2.
    yield W k = bindE (swtch W k1) (on_plock release i) \<and> handed_back i k1 \<and>
    same_slot ((procs k ! i)\<lparr>status := TASK_READY\<rparr>) (procs k1 ! i) \<and> (\<forall>j. j \<noteq> i \<longrightarrow> procs k1 ! j = procs k ! j) \<and>
    sys_exit W k = bindE (swtch W k2) (\<lambda>k. Inr (0, k)) \<and> handed_back i k2 \<and>
    same_slot ((procs k ! i)\<lparr>status := TASK_ZOMBIE\<rparr>) (procs k2 ! i) \<and> (\<forall>j. j \<noteq> i \<longrightarrow> procs k2 ! j = procs k ! j)"
proof -
  define k0 where "k0 = k\<lparr>hart := settled (hart k)\<rparr>"
  have my: "myproc k = Inr (Some i, k0)" using assms(1,3) by (simp add: myproc_eq at_rest_def k0_def)
  have r0: "at_rest k0" "noff (hart k0) = 0" "cpu_proc (hart k0) = Some i" "procs k0 = procs k"
    using assms(1,2) by (simp_all add: at_rest_def k0_def) (use assms(3) in \<open>simp add: settled_def\<close>)
  note hb = handed_back_left [OF r0(1-3) assms(4) assms(5) [folded r0(4)], unfolded r0(4)]
  have y: "yield W k = bindE (swtch W (left_with TASK_READY i k0)) (on_plock release i)"
    using my r0(1) assms(4) by (simp add: yield_def yield_out_def plock_acquire left_with_def)
  define kz where "kz = left_with TASK_ZOMBIE i k0"
  have hz: "hart_ok (hart kz)" "cpu_proc (hart kz) = Some i" "settled (hart kz) = hart kz"
    using hb(1) [of TASK_ZOMBIE] r0
    by (auto simp: kz_def handed_back_def locked_slot_def left_with_def set_proc_def settled_def k0_def)
  have my2: "myproc kz = Inr (Some i, kz)" using myproc_eq [OF hz(1)] hz by simp
  obtain out where out: "printf (bytes ''process %d exit'' @ [10]) [scast (pid (procs kz ! i))] kz = Inr (kz\<lparr>uart_tx := out\<rparr>)"
    using printf_exit_message by blast
  have x: "sys_exit W k = bindE (swtch W (kz\<lparr>uart_tx := out\<rparr>)) (\<lambda>k. Inr (0, k))"
    using my r0(1) assms(4) my2 out
    by (simp add: sys_exit_def current_def plock_acquire left_with_def [symmetric] kz_def [symmetric] del: append.simps)
  have "handed_back i (kz\<lparr>uart_tx := out\<rparr>)"
    using hb(1) [of TASK_ZOMBIE] by (simp add: kz_def handed_back_def locked_slot_def)
  then show ?thesis
    using y x hb [of TASK_READY] hb(2,3) [of TASK_ZOMBIE]
    by (intro exI [of _ "left_with TASK_READY i k0"] exI [of _ "kz\<lparr>uart_tx := out\<rparr>"]) (simp add: kz_def)
qed

theorem yield_and_exit_hand_back_ex:
  "\<exists>k1 k2.
    yield ex_world ex_kernel = bindE (swtch ex_world k1) (on_plock release 0) \<and> handed_back 0 k1 \<and>
    same_slot ((procs ex_kernel ! 0)\<lparr>status := TASK_READY\<rparr>) (procs k1 ! 0) \<and> (\<forall>j. j \<noteq> 0 \<longrightarrow> procs k1 ! j = procs ex_kernel ! j) \<and>
    sys_exit ex_world ex_kernel = bindE (swtch ex_world k2) (\<lambda>k. Inr (0, k)) \<and> handed_back 0 k2 \<and>
    same_slot ((procs ex_kernel ! 0)\<lparr>status := TASK_ZOMBIE\<rparr>) (procs k2 ! 0) \<and> (\<forall>j. j \<noteq> 0 \<longrightarrow> procs k2 ! j = procs ex_kernel ! j)"
proof (rule yield_and_exit_hand_back [OF ex_at_rest(1)])
  show "\<forall>j < NPROC. status (procs ex_kernel ! j) = TASK_RUNNING \<longrightarrow> j = 0"
    by (auto simp: less_NPROC ex_kernel_def simp del: NPROC_def)
qed simp_all

section \<open>wait\<close>

text \<open>
  C21: \<open>wait\<close>. While other processes run (\<open>wait_env\<close>) and the caller has children of which none has exited, it keeps
  scanning. In the first state where this has changed (\<open>k1\<close>, after the steps \<open>es\<close>) it takes the first zombie child of the
  table: when that child owns its pages the call succeeds with its pid, its slot is free again, its pages are on the
  free list beside the others, and apart from memory nothing else has changed. When the caller has no children (any
  more) the result is -1 and the state is as it was found. When the others have stopped and no child has exited it
  does not return.
\<close>

theorem kwait_reaps_a_zombie_child:
  assumes "at_rest k" "me = cpu_proc (hart k)" "wait_env W = es @ rest" "k0 = k\<lparr>hart := settled (hart k)\<rparr>"
    and "\<forall>j < length es. waiting me (run_env (take j es) k0)"
    and "k1 = run_env es k0" "at_rest k1" "settled (hart k1) = hart k1"
  shows "case List.find (zombie_child k1 me) [0..<NPROC] of
      None \<Rightarrow>
        (if \<exists>i < NPROC. parent (procs k1 ! i) = me
         then rest = [] \<longrightarrow> kwait W addr k = Inl (Hang ''kwait'')
         else kwait W addr k = Inr (- 1, k1))
    | Some i \<Rightarrow> \<forall>xs. proc_space k1 i xs \<longrightarrow>
        (\<exists>ph ys. kwait W addr k = Inr (pid (procs k1 ! i), k1\<lparr>mem := ph, procs := (procs k1)[i := freed (procs k1 ! i)]\<rparr>) \<and>
          free_inv ph ys \<and> set ys = set xs \<union> owned k1 i)"
proof -
  have eq: "kwait W addr k = kwait_loop rest me k1"
    using assms(1-4) kwait_loop_waits [OF assms(5), of rest] assms(6) by (simp add: kwait_def myproc_eq at_rest_def)
  note step = eq [unfolded kwait_loop_eq [OF assms(7,8)]]
  show ?thesis
  proof (cases "List.find (zombie_child k1 me) [0..<NPROC]")
    case None
    then show ?thesis using step by (auto simp del: NPROC_def)
  next
    case (Some i)
    then have i: "i < NPROC" by (auto simp: find_Some_iff)
    have "\<exists>ph ys. kwait W addr k = Inr (pid (procs k1 ! i), k1\<lparr>mem := ph, procs := (procs k1)[i := freed (procs k1 ! i)]\<rparr>) \<and>
        free_inv ph ys \<and> set ys = set xs \<union> owned k1 i" if "proc_space k1 i xs" for xs
    proof -
      from reap_reclaims [OF assms(7) i that] obtain ph where
        "reap i k1 = Inr (k1\<lparr>mem := ph, procs := (procs k1)[i := freed (procs k1 ! i)], hart := hart k1\<rparr>)" "reclaimed k1 i xs ph"
        using assms(8) by auto
      then show ?thesis using step Some unfolding reclaimed_def pt_ok_def by auto
    qed
    with Some show ?thesis by simp
  qed
qed

text \<open>A child that exits while its parent waits.\<close>

definition ex_child_status :: "task_status \<Rightarrow> kernel \<Rightarrow> kernel" where
  "ex_child_status st k = k\<lparr>procs := (procs k)[1 := (procs k ! 1)\<lparr>status := st\<rparr>]\<rparr>"

text \<open>
  C5: \<open>wait\<close> loses no memory. When the first zombie child of the table owns its pages (\<open>proc_space\<close>: its table
  tree, the frames of its user pages, its trap frame and its kernel stack, all distinct and shared with
  nobody), \<open>wait\<close> succeeds with the child's pid, every one of these pages is on the free list beside those
  that were free before, the stack is gone from the kernel's table, whose other entries are as they
  were, and no page outside the child's and the kernel's tables has changed.
\<close>

theorem kwait_reclaims_every_page:
  assumes "at_rest k" "me = cpu_proc (hart k)" "List.find (zombie_child k me) [0..<NPROC] = Some i" "proc_space k i xs"
  shows "\<exists>ph ys. kwait W addr k =
      Inr (pid (procs k ! i), k\<lparr>mem := ph, procs := (procs k)[i := freed (procs k ! i)], hart := settled (hart k)\<rparr>) \<and>
    free_inv ph ys \<and> set ys = set xs \<union> owned k i \<and> pt_wf (ram ph) (kernel_pagetable k) \<and>
    (\<forall>w < 2 ^ 27. w \<noteq> pageno (kstack (procs k ! i)) \<longrightarrow>
      pte_at (ram ph) (kernel_pagetable k) w = pte_at (ram (mem k)) (kernel_pagetable k) w) \<and>
    \<not> bit (pte_at (ram ph) (kernel_pagetable k) (pageno (kstack (procs k ! i)))) 0 \<and>
    agree_on (- pageno ` (owned k i \<union> tables (ram (mem k)) (kernel_pagetable k))) (ram (mem k)) (ram ph)"
proof -
  let ?k = "k\<lparr>hart := settled (hart k)\<rparr>"
  have i: "i < NPROC" using assms(3) by (auto simp: find_Some_iff)
  have r: "at_rest ?k" "settled (hart ?k) = hart ?k" using assms(1) by (simp_all add: at_rest_def)
  have c: "proc_space ?k i = proc_space k i" "reclaimed ?k i = reclaimed k i" by (rule proc_space_cong; simp)+
  have "proc_space ?k i xs" using assms(4) c by simp
  from reap_reclaims [OF r(1) i this] obtain ph where
    ph: "reap i ?k = Inr (k\<lparr>mem := ph, procs := (procs k)[i := freed (procs k ! i)], hart := settled (hart k)\<rparr>)" "reclaimed k i xs ph"
    using r(2) c(2) by auto
  have "page_aligned (kstack (procs k ! i))" "unat (kstack (procs k ! i)) + 4096 \<le> 0x4000000000"
    using assms(4) by (simp_all add: proc_space_def Let_def)
  then have "pageno (kstack (procs k ! i)) < 2 ^ 27" by (simp add: pageno_def less_mult_imp_div_less)
  moreover from ph(2) obtain ys where "pt_ok ph (kernel_pagetable k) ys" "set ys = set xs \<union> owned k i"
    unfolding reclaimed_def by blast
  ultimately show ?thesis
    using kwait_reaps [OF assms(1-3) ph(1), of W addr] ph(2)
    unfolding reclaimed_def pt_ok_def by (intro exI [of _ ph] exI [of _ ys]) auto
qed

lemma ex_proc_space: "proc_space ex_parent_kernel 1 [exX1, exX2, exX3, exX4]"
proof -
  have p: "procs ex_parent_kernel ! 1 = (ex_proc TASK_ZOMBIE 3)\<lparr>parent := Some 0\<rparr>" "mem ex_parent_kernel = ex_phys"
    "kernel_pagetable ex_parent_kernel = exC" by (simp_all add: ex_parent_kernel_def ex_kernel_def)
  have f: "kstack (ex_proc st n) = KSTACK 0" "sz (ex_proc st n) = 4096" for st n by (simp_all add: ex_proc_def)
  have sf: "stack_frames ex_ram exC va = []" for va by (simp add: stack_frames_def frames_def ex_pte_at(3))
  note ex_user_space(2)
  moreover have "page_aligned (KSTACK 0)" "unat (KSTACK 0) + 4096 \<le> 0x4000000000"
    by (simp_all add: KSTACK_def page_aligned_def TRAMPOLINE_def MAXVA_def)
  moreover have q: "trapframe (procs ex_parent_kernel ! 1) = exK" "pagetable (procs ex_parent_kernel ! 1) = exR"
    "kstack (procs ex_parent_kernel ! 1) = KSTACK 0" "sz (procs ex_parent_kernel ! 1) = 4096"
    unfolding p by (simp_all add: f)
  moreover have "managed ex_phys f \<and> f \<notin> set [exX1, exX2, exX3, exX4] \<union> {exC} \<union> {exR, exT1, exT0}" if "f = exK \<or> f = exF" for f
    using that ex_managed by (elim disjE) (simp_all, simp_all add: ex_pages)
  moreover have "exK \<noteq> exF" by (simp add: ex_pages)
  ultimately show ?thesis
    unfolding proc_space_def Let_def q p(2,3) ex_ram ex_user_space(1) sf ex_tables using ex_ok(2) by simp
qed

theorem kwait_reaps_a_zombie_child_ex:
  "\<exists>ph. kwait (ex_world\<lparr>wait_env := [ex_child_status TASK_ZOMBIE]\<rparr>) 0 (ex_child_status TASK_READY ex_parent_kernel) =
    Inr (3, ex_parent_kernel\<lparr>hart := settled ex_hart, mem := ph, procs := (procs ex_parent_kernel)[1 := freed (procs ex_parent_kernel ! 1)]\<rparr>)"
proof -
  let ?k = "ex_child_status TASK_READY ex_parent_kernel" and ?W = "ex_world\<lparr>wait_env := [ex_child_status TASK_ZOMBIE]\<rparr>"
  let ?k1 = "ex_parent_kernel\<lparr>hart := settled ex_hart\<rparr>"
  have h: "hart ex_parent_kernel = ex_hart" "cpu_proc ex_hart = Some 0" "length (procs ex_parent_kernel) = 4"
    "procs ex_parent_kernel ! 1 = (ex_proc TASK_ZOMBIE 3)\<lparr>parent := Some 0\<rparr>"
    by (simp_all add: ex_parent_kernel_def ex_kernel_def)
  have k1: "run_env [ex_child_status TASK_ZOMBIE] (?k\<lparr>hart := settled (hart ?k)\<rparr>) = ?k1"
    by (simp add: ex_child_status_def ex_parent_kernel_def ex_proc_def)
  have r: "at_rest ?k" "at_rest (?k\<lparr>hart := settled (hart ?k)\<rparr>)" "at_rest ?k1"
    using ex_at_rest(2) by (auto simp: at_rest_def ex_child_status_def nth_list_update h)
  have "List.find (zombie_child (?k\<lparr>hart := settled (hart ?k)\<rparr>) (Some 0)) [0..<NPROC] = None"
    by (simp add: upt_rec zombie_child_def ex_child_status_def ex_parent_kernel_def)
  moreover have "parent (procs ?k ! 1) = Some 0" using h by (simp add: ex_child_status_def)
  ultimately have w: "waiting (Some 0) (?k\<lparr>hart := settled (hart ?k)\<rparr>)"
    using r(2) unfolding waiting_def by (auto simp: ex_child_status_def intro: exI [of _ 1])
  have z: "List.find (zombie_child ?k1 (Some 0)) [0..<NPROC] = Some 1"
    by (simp add: upt_rec zombie_child_def ex_parent_kernel_def)
  have "proc_space ?k1 1 [exX1, exX2, exX3, exX4]" using ex_proc_space proc_space_cong(1) [of ?k1 ex_parent_kernel 1] by simp
  moreover have "case List.find (zombie_child ?k1 (Some 0)) [0..<NPROC] of
      None \<Rightarrow>
        (if \<exists>i < NPROC. parent (procs ?k1 ! i) = Some 0
         then ([] :: (kernel \<Rightarrow> kernel) list) = [] \<longrightarrow> kwait ?W 0 ?k = Inl (Hang ''kwait'')
         else kwait ?W 0 ?k = Inr (- 1, ?k1))
    | Some i \<Rightarrow> \<forall>xs. proc_space ?k1 i xs \<longrightarrow>
        (\<exists>ph ys. kwait ?W 0 ?k = Inr (pid (procs ?k1 ! i), ?k1\<lparr>mem := ph, procs := (procs ?k1)[i := freed (procs ?k1 ! i)]\<rparr>) \<and>
          free_inv ph ys \<and> set ys = set xs \<union> owned ?k1 i)"
    by (rule kwait_reaps_a_zombie_child [OF r(1) _ _ refl _ k1 [symmetric] r(3)])
      (use w h in \<open>simp_all add: ex_child_status_def\<close>)
  moreover have "pid (procs ?k1 ! 1) = 3" using h(4) by (simp add: ex_proc_def)
  ultimately show ?thesis unfolding z by fastforce
qed

theorem kwait_reclaims_every_page_ex:
  "\<exists>ph ys. kwait ex_world 0 ex_parent_kernel = Inr (pid (procs ex_parent_kernel ! 1), ex_parent_kernel\<lparr>mem := ph,
      procs := (procs ex_parent_kernel)[1 := freed (procs ex_parent_kernel ! 1)], hart := settled (hart ex_parent_kernel)\<rparr>) \<and>
    free_inv ph ys \<and> set ys = set [exX1, exX2, exX3, exX4] \<union> owned ex_parent_kernel 1 \<and> pt_wf (ram ph) (kernel_pagetable ex_parent_kernel) \<and>
    (\<forall>w < 2 ^ 27. w \<noteq> pageno (kstack (procs ex_parent_kernel ! 1)) \<longrightarrow>
      pte_at (ram ph) (kernel_pagetable ex_parent_kernel) w = pte_at (ram (mem ex_parent_kernel)) (kernel_pagetable ex_parent_kernel) w) \<and>
    \<not> bit (pte_at (ram ph) (kernel_pagetable ex_parent_kernel) (pageno (kstack (procs ex_parent_kernel ! 1)))) 0 \<and>
    agree_on (- pageno ` (owned ex_parent_kernel 1 \<union> tables (ram (mem ex_parent_kernel)) (kernel_pagetable ex_parent_kernel)))
      (ram (mem ex_parent_kernel)) (ram ph)"
proof (rule kwait_reclaims_every_page [OF ex_at_rest(2) _ _ ex_proc_space])
  show "Some 0 = cpu_proc (hart ex_parent_kernel)" by (simp add: ex_parent_kernel_def)
  show "List.find (zombie_child ex_parent_kernel (Some 0)) [0..<NPROC] = Some 1"
    by (simp add: upt_rec zombie_child_def ex_parent_kernel_def)
qed

section \<open>System calls and traps\<close>

text \<open>
  C34: a number outside the table, or one whose entry is empty, is answered with -1 in the caller's \<open>a0\<close>
  after a message with the number, and nothing else changes: the rest of the kernel's state is as before (with the saved
  interrupt state settled, as after every \<open>myproc\<close>), and so is every byte of memory outside the eight of the saved \<open>a0\<close>.
\<close>

theorem unknown_syscall_is_refused:
  assumes "hart_ok (hart k)" "cpu_proc (hart k) = Some i" "tf = trapframe (procs k ! i)" "page_aligned tf"
    and "num = (ucast (tf_get tf (TF_a 7) k) :: u32)" "num <s 0 \<or> 20 \<le> num \<or> syscalls W (unat num) = None"
  shows "\<exists>k' ds. syscall W k = Inr k' \<and> tf_get tf (TF_a 0) k' = - 1 \<and>
    (\<forall>r. idx r \<and> r \<noteq> 14 \<longrightarrow> tf_get tf (8 * r) k' = tf_get tf (8 * r) k) \<and>
    k' = k\<lparr>hart := settled (hart k), mem := (mem k)\<lparr>ram := ram (mem k')\<rparr>,
      uart_tx := uart_tx k @ bytes ''syscall: unknown num '' @ (if sint num < 0 then [45] else []) @ ds @ [10]\<rparr> \<and>
    (\<forall>x. 8 \<le> unat (x - (tf + TF_a 0)) \<longrightarrow> ram (mem k') x = ram (mem k) x) \<and>
    numeral_text 10 ds (nat \<bar>sint num\<bar>)"
proof -
  define k0 where "k0 = k\<lparr>hart := settled (hart k)\<rparr>"
  have cur: "current what k = Inr (i, k0)" for what using assms(1,2) by (simp add: current_def myproc_eq k0_def)
  from printint_signed [of num] obtain ds where
    d: "printint num 10 True = Inr ((if sint num < 0 then [45] else []) @ ds)" "numeral_text 10 ds (nat \<bar>sint num\<bar>)" by blast
  define out where "out = bytes ''syscall: unknown num '' @ (if sint num < 0 then [45] else []) @ ds @ [10]"
  have fmt: "bytes ''syscall: unknown num %d'' @ [10] = bytes ''syscall: unknown num '' @ [37, 100] @ [10]"
    by (simp add: bytes_def)
  have pure: "37 \<notin> set (bytes ''syscall: unknown num '')" by (simp add: bytes_def)
  have cut: "ucast (scast num :: u64) = num"
    by (rule bit_word_eqI) (simp add: bit_simps)
  have pr: "printf (bytes ''syscall: unknown num %d'' @ [10]) [scast num] k0 = Inr (k0\<lparr>uart_tx := uart_tx k0 @ out\<rparr>)"
    unfolding fmt using d(1) pure
    by (simp add: printf_def printf_loop_prefix printf_loop_verbatim va_arg_def fold_uart_putc cut out_def)
  define k' where "k' = tf_set tf (TF_a 0) (- 1) (k0\<lparr>uart_tx := uart_tx k0 @ out\<rparr>)"
  have "num <s 0 \<or> \<not> num < NSYSCALLS \<or> syscalls W (unat num) = None" using assms(6) by auto
  then have "syscall W k = Inr k'"
    using cur pr assms(3,5) by (auto simp: syscall_def Let_def k'_def k0_def tf_get_def)
  moreover have a0: "TF_a 0 = 8 * 14" by (simp add: tf_slots)
  have regs: "tf_get tf (8 * r) k' = (if r = 14 then - 1 else tf_get tf (8 * r) k)" if "idx r" for r
    unfolding k'_def a0 using that assms(4) by (simp only: tf_get_set tf_idx) (simp add: tf_get_def k0_def)
  have "k' = k\<lparr>hart := settled (hart k), mem := (mem k)\<lparr>ram := ram (mem k')\<rparr>, uart_tx := uart_tx k @ out\<rparr>"
    by (simp add: k'_def k0_def tf_set_def on_ram_def)
  moreover have "ram (mem k') x = ram (mem k) x" if "8 \<le> unat (x - (tf + TF_a 0))" for x
    using that store64_other [of x "tf + TF_a 0"] by (simp add: k'_def k0_def tf_set_def on_ram_def)
  moreover have "tf_get tf (TF_a 0) k' = - 1" using regs [of 14] by (simp add: a0)
  ultimately show ?thesis using d(2) regs unfolding out_def by (intro exI [of _ k'] exI [of _ ds]) simp
qed

text \<open>\<open>ex_kernel\<close> in a system call: \<open>a7\<close> of process 0 holds the number.\<close>

definition ex_call :: "u64 \<Rightarrow> kernel" where
  "ex_call n = tf_set exK (8 * 21) n ex_kernel"

lemma ex_call_simps [simp]:
  "hart (ex_call n) = ex_hart" "procs (ex_call n) = procs ex_kernel" "csrs (ex_call n) = ex_csr"
  "tf_get exK (TF_a 7) (ex_call n) = n"
  using tf_get_set [of exK 21 21 n ex_kernel] by (simp_all add: ex_call_def tf_slots)

theorem unknown_syscall_is_refused_ex:
  "\<exists>k' ds. syscall ex_world (ex_call 12) = Inr k' \<and> tf_get exK (TF_a 0) k' = - 1 \<and>
    (\<forall>r. idx r \<and> r \<noteq> 14 \<longrightarrow> tf_get exK (8 * r) k' = tf_get exK (8 * r) (ex_call 12)) \<and>
    k' = (ex_call 12)\<lparr>hart := settled (hart (ex_call 12)), mem := (mem (ex_call 12))\<lparr>ram := ram (mem k')\<rparr>,
      uart_tx := uart_tx (ex_call 12) @ bytes ''syscall: unknown num '' @ (if sint (12 :: u32) < 0 then [45] else []) @ ds @ [10]\<rparr> \<and>
    (\<forall>x. 8 \<le> unat (x - (exK + TF_a 0)) \<longrightarrow> ram (mem k') x = ram (mem (ex_call 12)) x) \<and>
    numeral_text 10 ds (nat \<bar>sint (12 :: u32)\<bar>)"
  by (rule unknown_syscall_is_refused [of _ 0]) (simp_all add: syscalls_def)

text \<open>
  \<open>usertrapret\<close> leaves the kernel by \<open>userret\<close> in the trampoline with the process's page table, with
  interrupts off until then and \<open>sstatus\<close> set so that \<open>sret\<close> enters user mode with interrupts on at the
  saved \<open>epc\<close>; the next trap will find \<open>uservec\<close>, the kernel's page table, stack, handler and hart in
  their places. The saved user registers are not touched.
\<close>

theorem usertrapret_enters_user_mode:
  assumes "hart_ok (hart k)" "cpu_proc (hart k) = Some i" "tf = trapframe (procs k ! i)" "page_aligned tf"
  shows "\<exists>k'. usertrapret W k =
      Inr ((TRAMPOLINE + (a_userret W - a_trampoline W), MAKE_SATP (pagetable (procs k ! i))), k') \<and>
    \<not> bit (sstatus (hart k')) 8 \<and> bit (sstatus (hart k')) 5 \<and> \<not> intr_get (hart k') \<and>
    sepc (csrs k') = tf_get tf TF_epc k \<and> stvec (csrs k') = TRAMPOLINE + (a_uservec W - a_trampoline W) \<and>
    tf_get tf TF_kernel_satp k' = satp (csrs k) \<and> tf_get tf TF_kernel_sp k' = kstack (procs k ! i) + PGSIZE \<and>
    tf_get tf TF_kernel_trap k' = a_usertrap W \<and> tf_get tf TF_kernel_hartid k' = tp (hart k) \<and>
    (\<forall>r. idx r \<and> r \<notin> {0, 1, 2, 4} \<longrightarrow> tf_get tf (8 * r) k' = tf_get tf (8 * r) k) \<and> procs k' = procs k"
  using assms by (rule usertrapret_spec)

theorem usertrapret_enters_user_mode_ex:
  "\<exists>k'. usertrapret ex_world ex_kernel =
      Inr ((TRAMPOLINE + (a_userret ex_world - a_trampoline ex_world), MAKE_SATP (pagetable (procs ex_kernel ! 0))), k') \<and>
    \<not> bit (sstatus (hart k')) 8 \<and> bit (sstatus (hart k')) 5 \<and> \<not> intr_get (hart k') \<and>
    sepc (csrs k') = tf_get exK TF_epc ex_kernel \<and> stvec (csrs k') = TRAMPOLINE + (a_uservec ex_world - a_trampoline ex_world) \<and>
    tf_get exK TF_kernel_satp k' = satp (csrs ex_kernel) \<and> tf_get exK TF_kernel_sp k' = kstack (procs ex_kernel ! 0) + PGSIZE \<and>
    tf_get exK TF_kernel_trap k' = a_usertrap ex_world \<and> tf_get exK TF_kernel_hartid k' = tp (hart ex_kernel) \<and>
    (\<forall>r. idx r \<and> r \<notin> {0, 1, 2, 4} \<longrightarrow> tf_get exK (8 * r) k' = tf_get exK (8 * r) ex_kernel) \<and> procs k' = procs ex_kernel"
  by (rule usertrapret_enters_user_mode) simp_all

text \<open>
  C4: a \<open>getpid\<close> from trap to return. The trap saves \<open>sepc\<close>, the call puts the pid into the saved \<open>a0\<close>,
  and the process goes on in user mode behind its \<open>ecall\<close>; all its other saved registers are unchanged.
\<close>

theorem getpid_from_trap_to_return:
  assumes "noff (hart k) = 0" "cpu_proc (hart k) = Some i" "tf = trapframe (procs k ! i)" "page_aligned tf"
    and "scause (csrs k) = 8" "ucast (tf_get tf (TF_a 7) k) = (11 :: u32)"
  shows "\<exists>k'. usertrap W k =
      Inr ((TRAMPOLINE + (a_userret W - a_trampoline W), MAKE_SATP (pagetable (procs k ! i))), k') \<and>
    tf_get tf (TF_a 0) k' = scast (pid (procs k ! i)) \<and> sepc (csrs k') = sepc (csrs k) + 4 \<and>
    \<not> bit (sstatus (hart k')) 8 \<and> bit (sstatus (hart k')) 5 \<and> \<not> intr_get (hart k') \<and> procs k' = procs k \<and>
    (\<forall>r. idx r \<and> r \<notin> {0, 1, 2, 3, 4, 14} \<longrightarrow> tf_get tf (8 * r) k' = tf_get tf (8 * r) k)"
proof -
  from getpid_call [OF assms] obtain k5 where
    c: "usertrap W k = usertrapret W k5" "hart_ok (hart k5)" "cpu_proc (hart k5) = Some i" "procs k5 = procs k"
      "\<And>r. idx r \<Longrightarrow> tf_get tf (8 * r) k5 =
        (if r = 14 then scast (pid (procs k ! i)) else if r = 3 then sepc (csrs k) + 4 else tf_get tf (8 * r) k)" by blast
  have "tf = trapframe (procs k5 ! i)" using assms(3) c(4) by simp
  from usertrapret_spec [OF c(2,3) this assms(4), of W] obtain k' where
    r: "usertrapret W k5 = Inr ((TRAMPOLINE + (a_userret W - a_trampoline W), MAKE_SATP (pagetable (procs k ! i))), k')"
      "\<not> bit (sstatus (hart k')) 8" "bit (sstatus (hart k')) 5" "\<not> intr_get (hart k')" "sepc (csrs k') = tf_get tf TF_epc k5"
      "\<forall>r. idx r \<and> r \<notin> {0, 1, 2, 4} \<longrightarrow> tf_get tf (8 * r) k' = tf_get tf (8 * r) k5" "procs k' = procs k5"
    unfolding c(4) by blast
  have "tf_get tf (8 * 14) k' = scast (pid (procs k ! i))" using r(6) [rule_format, of 14] c(5) [of 14] by simp
  moreover have "tf_get tf (8 * 3) k5 = sepc (csrs k) + 4" using c(5) [of 3] by simp
  moreover have "TF_a 0 = 8 * 14" "TF_epc = 8 * 3" by (simp_all add: tf_slots)
  ultimately show ?thesis using r c(1,4,5) by (intro exI [of _ k']) (simp only: r(1,5), simp)
qed

theorem getpid_from_trap_to_return_ex:
  "\<exists>k'. usertrap ex_world (ex_call 11) =
      Inr ((TRAMPOLINE + (a_userret ex_world - a_trampoline ex_world), MAKE_SATP (pagetable (procs (ex_call 11) ! 0))), k') \<and>
    tf_get exK (TF_a 0) k' = scast (pid (procs (ex_call 11) ! 0)) \<and> sepc (csrs k') = sepc (csrs (ex_call 11)) + 4 \<and>
    \<not> bit (sstatus (hart k')) 8 \<and> bit (sstatus (hart k')) 5 \<and> \<not> intr_get (hart k') \<and> procs k' = procs (ex_call 11) \<and>
    (\<forall>r. idx r \<and> r \<notin> {0, 1, 2, 3, 4, 14} \<longrightarrow> tf_get exK (8 * r) k' = tf_get exK (8 * r) (ex_call 11))"
  by (rule getpid_from_trap_to_return) (simp_all add: ex_csr_def)

section \<open>write to the console\<close>

text \<open>
  C6: a \<open>write\<close> of up to 1023 bytes to the console. When the user's bytes hold no percent sign, the UART
  receives them up to their first zero byte and nothing else, the call returns 0 in the saved \<open>a0\<close>, and nothing else
  of the kernel's state changes but the saved interrupt state and memory; memory changes only in the local buffer and the
  trap frame, in which the other registers stay.
\<close>

theorem write_prints_on_the_console:
  assumes "calls_with k i 16 1 src (of_nat n)" "stdout_ready (l_write_buf W) k i src n"
    and "bs = user_bytes (ram (mem k)) (pagetable (procs k ! i)) src n" "37 \<notin> set bs" "tf = trapframe (procs k ! i)"
  shows "\<exists>k'. syscall W k = Inr k' \<and> uart_tx k' = uart_tx k @ takeWhile (\<lambda>b. b \<noteq> 0) bs \<and>
    tf_get tf (TF_a 0) k' = 0 \<and> (\<forall>r. idx r \<and> r \<noteq> 14 \<longrightarrow> tf_get tf (8 * r) k' = tf_get tf (8 * r) k) \<and>
    procs k' = procs k \<and> files k' = files k \<and>
    k' = k\<lparr>hart := settled (hart k), mem := (mem k)\<lparr>ram := ram (mem k')\<rparr>, uart_tx := uart_tx k'\<rparr> \<and>
    (\<forall>x. n < unat (x - l_write_buf W) \<and> pageno x \<noteq> pageno tf \<longrightarrow> ram (mem k') x = ram (mem k) x)"
  by (rule console_write [OF assms])

text \<open>The text is \<open>hi\<close> and a newline.\<close>

theorem write_prints_on_the_console_ex:
  "\<exists>k'. syscall ex_stdout_world (ex_write [104, 105, 10]) = Inr k' \<and> uart_tx k' = [104, 105, 10] \<and> tf_get exK (TF_a 0) k' = 0"
proof -
  have "length ([104, 105, 10] :: u8 list) = 3" by simp
  note w = ex_write_three [OF this]
  have "stdout_ready (l_write_buf ex_stdout_world) (ex_write [104, 105, 10]) 0 0 3" unfolding ex_stdout_buf by (rule w(2))
  from write_prints_on_the_console [OF w(1) this w(3) [symmetric] _ refl] show ?thesis by auto
qed

text \<open>
  \<open>filewrite\<close> hands the user's bytes to \<open>printf\<close> as the format: with a conversion in them the call
  reaches for an argument that was never passed.
\<close>

theorem write_takes_its_data_as_a_format:
  assumes "calls_with k i 16 1 src (of_nat n)" "stdout_ready (l_write_buf W) k i src n"
    and "takeWhile (\<lambda>b. b \<noteq> 0) (user_bytes (ram (mem k)) (pagetable (procs k ! i)) src n) = pre @ 37 # c # post"
    and "37 \<notin> set pre" "c \<in> {100, 120, 112, 115, 99}"
  shows "syscall W k = Inl (OutOfBounds ''va_arg'')"
  using syscall_write [OF assms(1,2) assms(3) [symmetric]] printf_conversion [OF assms(4,5)] by simp

theorem write_takes_its_data_as_a_format_ex:
  "syscall ex_stdout_world (ex_write [53, 37, 100]) = Inl (OutOfBounds ''va_arg'')"
proof -
  have "length ([53, 37, 100] :: u8 list) = 3" by simp
  note w = ex_write_three [OF this]
  have "stdout_ready (l_write_buf ex_stdout_world) (ex_write [53, 37, 100]) 0 0 3" unfolding ex_stdout_buf by (rule w(2))
  from write_takes_its_data_as_a_format [OF w(1) this, of "[53]" 100 "[]"] show ?thesis by (simp add: w(3) del: ex_write_fields)
qed

end
