(* ===== verification/Example_Exec.thy ===== *)
theory Example_Exec
  imports Example_Fork
begin

text \<open>
  The state of \<open>Example_Fork\<close> with a program named \<open>hi\<close> of two bytes and an argument array, both in a page of the
  kernel image at 0x1000, in which process 0 can execute it.
\<close>

text \<open>The string at 0x1000, the array at 0x1008 with one entry, the program at 0x1018.\<close>

definition ex_block :: "u8 list" where
  "ex_block = [104, 105, 0, 0, 0, 0, 0, 0, 0, 0x10, 0, 0, 0, 0, 0, 0, 0, 0, 0, 0, 0, 0, 0, 0, 0x13, 0x05]"

definition ex_exec_kernel :: kernel where
  "ex_exec_kernel = ex_fork_kernel\<lparr>mem := ex_fork_phys\<lparr>ram := put_bytes 0x1000 ex_block (ram ex_fork_phys)\<rparr>\<rparr>"

definition ex_program :: user_program where
  "ex_program = \<lparr>up_name = 0x1000, up_func = 0x1018, up_size = 2\<rparr>"

lemma ex_block_length: "length ex_block = 26"
  by (simp add: ex_block_def)

lemma ex_block_at: "i < 26 \<Longrightarrow> put_bytes 0x1000 ex_block m (0x1000 + of_nat i) = ex_block ! i"
  using put_bytes_at(1) [of i ex_block "0x1000" m] by (simp add: ex_block_length)

lemma ex_block_load: "load64 (put_bytes 0x1000 ex_block m) 0x1008 = 0x1000" "load64 (put_bytes 0x1000 ex_block m) 0x1010 = 0"
proof -
  have l: "load64 (put_bytes 0x1000 ex_block m) (0x1000 + of_nat j) = load64 (put_bytes 0x1000 ex_block (\<lambda>_. 0)) (0x1000 + of_nat j)"
    if "j \<le> 16" for j
  proof (rule load_le_cong)
    fix i :: nat assume "i < 8"
    then have "j + i < 26" using that by simp
    from ex_block_at [OF this] show "put_bytes 0x1000 ex_block m (0x1000 + of_nat j + of_nat i) =
        put_bytes 0x1000 ex_block (\<lambda>_. 0) (0x1000 + of_nat j + of_nat i)" by (simp add: add.assoc)
  qed
  have "load64 (put_bytes 0x1000 ex_block (\<lambda>_. 0)) 0x1008 = 0x1000" "load64 (put_bytes 0x1000 ex_block (\<lambda>_. 0)) 0x1010 = 0" by code_simp+
  then show "load64 (put_bytes 0x1000 ex_block m) 0x1008 = 0x1000" "load64 (put_bytes 0x1000 ex_block m) 0x1010 = 0"
    using l [of 8] l [of 16] by simp_all
qed

lemma ex_block_cstr: "cstr (put_bytes 0x1000 ex_block m) 0x1000 [104, 105]"
  using ex_block_at [of 0 m] ex_block_at [of 1 m] ex_block_at [of 2 m] by (simp add: ex_block_def)

lemma ex_low_page: "managed ex_fork_phys p \<Longrightarrow> pageno a = 1 \<or> pageno a = 2 \<Longrightarrow> pageno a \<noteq> pageno p"
proof -
  assume m: "managed ex_fork_phys p" and a: "pageno a = 1 \<or> pageno a = 2"
  have "exR \<le> p" using m ex_fork_memory by (simp add: managed_def ex_memory_def)
  then have "2 < pageno p" by (simp add: exR_def word_le_nat_alt pageno_def)
  then show "pageno a \<noteq> pageno p" using a by auto
qed

lemma ex_exec_spaces: "proc_space ex_exec_kernel 0 ex_free_pages" "owned ex_exec_kernel 0 = owned ex_fork_kernel 0"
  "\<forall>q \<in> set ex_free_pages \<union> owned ex_fork_kernel 0. managed ex_fork_phys q"
proof -
  let ?k = ex_fork_kernel and ?m = "put_bytes 0x1000 ex_block (ram ex_fork_phys)"
  have sp: "proc_space ?k 0 ex_free_pages" and okr: "pt_ok (mem ?k) (kernel_pagetable ?k) ex_free_pages"
    using ex_fork_spaces by (simp_all add: spaces_def ex_fork_slots)
  have mk: "mem ?k = ex_fork_phys" "mem ex_exec_kernel = ex_fork_phys\<lparr>ram := ?m\<rparr>"
    by (simp_all add: ex_exec_kernel_def) (simp add: ex_fork_kernel_def)
  have own: "managed ex_fork_phys q" if "q \<in> owned ?k 0" for q using owned_managed(1) [OF sp that] by (simp add: mk)
  then show "\<forall>q \<in> set ex_free_pages \<union> owned ?k 0. managed ex_fork_phys q"
    using okr by (auto simp: mk pt_ok_def free_inv_def)
  have near: "agree_on {pageno q} (ram ex_fork_phys) ?m" if q: "managed ex_fork_phys q" for q
    unfolding agree_on_def
  proof (intro allI impI)
    fix x assume x: "pageno x \<in> {pageno q}"
    have "\<not> unat (x - 0x1000) < 26"
    proof
      assume less: "unat (x - 0x1000) < 26"
      have "x = 0x1000 + of_nat (unat (x - 0x1000))" by simp
      moreover have "page_aligned 0x1000" "pageno 0x1000 = 1" by (simp_all add: page_aligned_def pageno_def)
      ultimately have "pageno x = 1" using less pageno_page_offset [of "0x1000" "unat (x - 0x1000)"] by simp
      then show False using ex_low_page [OF q, of x] x by simp
    qed
    then show "?m x = ram ex_fork_phys x" by (simp add: put_bytes_def ex_block_length)
  qed
  have inv: "free_inv (ex_fork_phys\<lparr>ram := ?m\<rparr>) ex_free_pages"
    using okr near by (intro free_inv_frame agree_on_pages) (auto simp: mk pt_ok_def free_inv_def)
  have "agree_on (pageno ` tables (ram ex_fork_phys) (kernel_pagetable ?k)) (ram ex_fork_phys) ?m"
    using okr near by (intro agree_on_pages) (auto simp: mk pt_ok_def)
  moreover have "set ex_free_pages \<inter> tables (ram ex_fork_phys) (kernel_pagetable ?k) = {}" using okr by (auto simp: mk pt_ok_def)
  ultimately have r: "pt_ok (ex_fork_phys\<lparr>ram := ?m\<rparr>) (kernel_pagetable ?k) ex_free_pages"
      "tables ?m (kernel_pagetable ?k) = tables (ram ex_fork_phys) (kernel_pagetable ?k)"
      "pte_at ?m (kernel_pagetable ?k) w = pte_at (ram ex_fork_phys) (kernel_pagetable ?k) w" for w
    using bystander_agree [OF okr [unfolded mk(1)] inv] by simp_all
  have ag: "agree_on (pageno ` tables (ram (mem ?k)) (pagetable (procs ?k ! 0))) (ram (mem ?k)) (ram (mem ex_exec_kernel))"
    using own near by (intro agree_on_pages) (auto simp: mk owned_def)
  have "(set ex_free_pages \<union> tables ?m (kernel_pagetable ?k)) \<inter> owned ?k 0 = {}"
    using owned_managed(2,3) [OF sp] r(2) by (auto simp: mk)
  with proc_space_agree [OF sp _ ag] r(1,3)
  show "proc_space ex_exec_kernel 0 ex_free_pages" "owned ex_exec_kernel 0 = owned ex_fork_kernel 0"
    by (simp_all add: mk) (simp_all add: ex_exec_kernel_def)
qed

end
