(* ===== verification/Process_Props.thy ===== *)
theory Process_Props
  imports Kernel_Props Example_Exec
begin

text \<open>
  The properties of \<open>fork\<close>, of \<open>exec\<close> and of the memory of all processes together, with instances on the states of
  \<open>Example_Fork\<close> and \<open>Example_Exec\<close>.
\<close>

section \<open>fork\<close>

text \<open>
  C1: \<open>fork\<close> of a running process that owns its memory, with a free slot \<open>c\<close>, two unused file slots and nine free
  pages. Either it returns the new pid: the slot is ready to run as a child of the caller, its saved registers are the
  caller's with \<open>a0\<close> = 0, every page the caller has is mapped in the child with the same flags and bytes and no other,
  and its descriptors are the caller's, or where the caller has none those of the console or of the slot's last process.
  Or it returns -1, which happens only with fewer than nine and three for every page of the caller free; then the slot
  stays allocated. In both cases the child's pages were free before and are its own, the caller keeps its slot, its pages
  and their bytes, and no lock is held.
\<close>

theorem kfork_makes_a_child:
  assumes "fork_ready k p c xs f1 f0" "n = space_pages (sz (procs k ! p))" "old = pagetable (procs k ! p)"
    and "length (ofile (procs k ! c)) = NOFILE"
  shows "\<exists>rc k' zs. kfork W k = Inr (rc, k') \<and> hart k' = hart k \<and> (\<forall>j. j \<noteq> c \<longrightarrow> procs k' ! j = procs k ! j) \<and>
    proc_space k' c zs \<and> owned k' c \<subseteq> set xs \<and> proc_space k' p zs \<and> owned k' p = owned k p \<and>
    agree_on (pageno ` owned k p) (ram (mem k)) (ram (mem k')) \<and> idle (plock (procs k' ! c)) \<and>
    (rc = nextpid k + 1 \<and> status (procs k' ! c) = TASK_READY \<and> parent (procs k' ! c) = Some p \<and>
       pid (procs k' ! c) = rc \<and> sz (procs k' ! c) = sz (procs k ! p) \<and>
       (\<forall>w < n. if bit (pte_at (ram (mem k)) old w) 0 then copy_of (ram (mem k)) old (ram (mem k')) (pagetable (procs k' ! c)) w
          else \<not> bit (pte_at (ram (mem k')) (pagetable (procs k' ! c)) w) 0) \<and>
       (\<forall>r. unat r < 36 \<longrightarrow> tf_get (trapframe (procs k' ! c)) (8 * r) k' =
          (if r = 14 then 0 else tf_get (trapframe (procs k ! p)) (8 * r) k)) \<and>
       (\<forall>fd < NOFILE. ofile (procs k' ! c) ! fd = (if ofile (procs k ! p) ! fd \<noteq> None then ofile (procs k ! p) ! fd
          else if fd = 0 then Some f0 else if fd = 1 then Some f1 else ofile (procs k ! c) ! fd)) \<or>
     rc = - 1 \<and> length xs < 9 + 3 * n \<and> status (procs k' ! c) = TASK_ALLOCATED)"
proof -
  note r = assms(1) [unfolded fork_ready_def alloc_ready_def]
  obtain k' zs tf pt where g: "grown k c xs k' zs" "only_child k c k'"
    and out: "kfork W k = Inr (nextpid k + 1, k') \<and> child_of k p k' tf pt \<and> procs k' ! c = child_slot W k p c tf pt f1 f0 \<or>
      kfork W k = Inr (- 1, k') \<and> length xs < 9 + 3 * n \<and> procs k' ! c = allocated_proc W (nextpid k + 1) tf pt f1 f0 (procs k ! c)"
    using kfork_spec [OF assms(1), of W] assms(2) by blast
  have c: "c < NPROC" "proc_space k p xs" "p \<noteq> c" using r by (auto simp: find_Some_iff)
  have p: "procs k' ! p = procs k ! p" using g(2) c(3) by (simp add: only_child_def)
  have idle: "idle (plock (procs k' ! c))" using out r c(1) by (auto simp: child_slot_def allocated_proc_def at_rest_def)
  have other: "proc_space k' p zs" "owned k' p = owned k p" "agree_on (pageno ` owned k p) (ram (mem k)) (ram (mem k'))"
    using grown_other [OF g(1) c(2), unfolded p] r by simp_all
  have own: "proc_space k' c zs" "owned k' c \<subseteq> set xs" using g(1) unfolding grown_def Let_def by blast+
  have h: "hart k' = hart k" "\<forall>j. j \<noteq> c \<longrightarrow> procs k' ! j = procs k ! j" using g(2) by (simp_all add: only_child_def)
  have fds: "inherit_fds fdt [0..<NOFILE] ((ofile (procs k ! c))[1 := Some f1, 0 := Some f0]) ! fd =
      (if fdt ! fd \<noteq> None then fdt ! fd else if fd = 0 then Some f0 else if fd = 1 then Some f1 else ofile (procs k ! c) ! fd)"
    if "fd < NOFILE" for fdt fd using that assms(4) by (simp add: inherit_fds_def)
  from out show ?thesis
  proof (elim disjE conjE, goal_cases)
    case 1
    then show ?thesis
      using h other own idle fds
      by (intro exI [of _ "nextpid k + 1"] exI [of _ k'] exI [of _ zs] conjI disjI1)
        (simp_all add: assms(2,3) child_slot_def allocated_proc_def child_of_def Let_def)
  next
    case 2
    then show ?thesis
      using h other own idle
      by (intro exI [of _ "- 1"] exI [of _ k'] exI [of _ zs] conjI disjI2) (simp_all add: allocated_proc_def)
  qed
qed

theorem kfork_makes_a_child_ex:
  "\<exists>rc k' zs. kfork ex_world ex_fork_kernel = Inr (rc, k') \<and> hart k' = hart ex_fork_kernel \<and>
    (\<forall>j. j \<noteq> 1 \<longrightarrow> procs k' ! j = procs ex_fork_kernel ! j) \<and>
    proc_space k' 1 zs \<and> owned k' 1 \<subseteq> set ex_free_pages \<and> proc_space k' 0 zs \<and> owned k' 0 = owned ex_fork_kernel 0 \<and>
    agree_on (pageno ` owned ex_fork_kernel 0) (ram (mem ex_fork_kernel)) (ram (mem k')) \<and> idle (plock (procs k' ! 1)) \<and>
    (rc = nextpid ex_fork_kernel + 1 \<and> status (procs k' ! 1) = TASK_READY \<and> parent (procs k' ! 1) = Some 0 \<and>
       pid (procs k' ! 1) = rc \<and> sz (procs k' ! 1) = sz (procs ex_fork_kernel ! 0) \<and>
       (\<forall>w < 1. if bit (pte_at (ram (mem ex_fork_kernel)) exR w) 0
          then copy_of (ram (mem ex_fork_kernel)) exR (ram (mem k')) (pagetable (procs k' ! 1)) w
          else \<not> bit (pte_at (ram (mem k')) (pagetable (procs k' ! 1)) w) 0) \<and>
       (\<forall>r. unat r < 36 \<longrightarrow> tf_get (trapframe (procs k' ! 1)) (8 * r) k' =
          (if r = 14 then 0 else tf_get (trapframe (procs ex_fork_kernel ! 0)) (8 * r) ex_fork_kernel)) \<and>
       (\<forall>fd < NOFILE. ofile (procs k' ! 1) ! fd = (if ofile (procs ex_fork_kernel ! 0) ! fd \<noteq> None
          then ofile (procs ex_fork_kernel ! 0) ! fd
          else if fd = 0 then Some 1 else if fd = 1 then Some 0 else ofile (procs ex_fork_kernel ! 1) ! fd)) \<or>
     rc = - 1 \<and> length ex_free_pages < 9 + 3 * 1 \<and> status (procs k' ! 1) = TASK_ALLOCATED)"
proof (rule kfork_makes_a_child)
  have "List.find (\<lambda>i. status (procs ex_fork_kernel ! i) = TASK_FREE) [0..<NPROC] = Some 1"
    by (simp add: upt_rec ex_fork_slots)
  then show "fork_ready ex_fork_kernel 0 1 ex_free_pages 0 1" 
    by (rule spaces_fork_ready [OF ex_fork_spaces ex_can_fork]) (simp add: ex_free_pages_def ex_more_def)
  show "1 = space_pages (sz (procs ex_fork_kernel ! 0))" "exR = pagetable (procs ex_fork_kernel ! 0)"
    "length (ofile (procs ex_fork_kernel ! 1)) = NOFILE"
    by (simp_all add: ex_fork_kernel_def ex_slot_def ex_proc_def space_pages_def)
qed

section \<open>exec\<close>

text \<open>
  C2: \<open>exec\<close> of a known program that fits a page, by a process that owns its memory, with three pages free and the
  arguments and the program outside the pages it may write. When the arguments fit the layout, the process gets a fresh
  page at 0 with the bytes of the program, an argument array on its stack that holds the strings of the caller, entry
  point 0, the stack pointer and \<open>a1\<close> at the array, a size of one page, and the number of arguments as the result. When
  they do not fit, the result is -1 and the registers stay, but the old image has been replaced all the same. Either way
  the process owns its memory, its old pages are free, and no page is lost.
\<close>

theorem kexec_replaces_the_image:
  assumes "exec_ready W k i xs name argv up ws" "p = procs k ! i" "n = unat (up_size up)"
  shows "\<exists>rc k' zs page. kexec W name argv k = Inr (rc, k') \<and> proc_space k' i zs \<and> set zs \<union> owned k' i = set xs \<union> owned k i \<and>
    page \<in> set xs \<and> (\<forall>v < 4096. user_waddr (ram (mem k')) (pagetable p) (of_nat v) = Some (page + of_nat v)) \<and>
    (case exec_layout n ws of
       Some q \<Rightarrow> rc = of_nat (length ws) \<and> n \<le> q \<and> q + 8 * Suc (length ws) \<le> 4096 \<and> 16 dvd q \<and>
         (\<forall>v < n. user_byte (ram (mem k')) (pagetable p) (of_nat v) = ram (mem k) (up_func up + of_nat v)) \<and>
         argv_of (user_byte (ram (mem k')) (pagetable p)) (of_nat q) ws \<and> procs k' = (procs k)[i := p\<lparr>sz := PGSIZE\<rparr>] \<and>
         (\<forall>r. unat r < 512 \<longrightarrow> tf_get (trapframe p) (8 * r) k' =
            (if r = 3 then 0 else if r = 6 \<or> r = 15 then of_nat q else tf_get (trapframe p) (8 * r) k))
     | None \<Rightarrow> rc = - 1 \<and> procs k' = procs k \<and> (\<forall>r. unat r < 512 \<longrightarrow> tf_get (trapframe p) (8 * r) k' = tf_get (trapframe p) (8 * r) k))"
proof (cases "exec_layout n ws")
  case (Some q)
  obtain k' page where k: "kexec W name argv k = Inr (of_nat (length ws), k')" "exec_image k i xs k' page"
      "procs k' = (procs k)[i := p\<lparr>sz := PGSIZE\<rparr>]"
      "\<forall>v < n. user_byte (ram (mem k')) (pagetable p) (of_nat v) = ram (mem k) (up_func up + of_nat v)"
      "argv_of (user_byte (ram (mem k')) (pagetable p)) (of_nat q) ws"
      "\<forall>r. unat r < 512 \<longrightarrow> tf_get (trapframe p) (8 * r) k' = (if r = 3 then 0 else if r = 6 \<or> r = 15 then of_nat q else tf_get (trapframe p) (8 * r) k)"
    using kexec_fits [OF assms(1) Some [unfolded assms(3)]] unfolding assms(2,3) by blast
  from k(2) obtain zs where "proc_space k' i zs" "set zs \<union> owned k' i = set xs \<union> owned k i" "page \<in> set xs"
      "\<forall>v < 4096. user_waddr (ram (mem k')) (pagetable p) (of_nat v) = Some (page + of_nat v)"
    unfolding assms(2) by (rule exec_image_owned)
  then show ?thesis
    using exec_layout_bounds [OF Some] k unfolding Some option.case
    by (intro exI [of _ "of_nat (length ws)"] exI [of _ k'] exI [of _ zs] exI [of _ page] conjI) (assumption | rule refl)+
next
  case None
  obtain k' page where k: "kexec W name argv k = Inr (- 1, k')" "exec_image k i xs k' page" "procs k' = procs k"
      "\<forall>r. unat r < 512 \<longrightarrow> tf_get (trapframe p) (8 * r) k' = tf_get (trapframe p) (8 * r) k"
    using kexec_full [OF assms(1) None [unfolded assms(3)]] unfolding assms(2) by blast
  from k(2) obtain zs where "proc_space k' i zs" "set zs \<union> owned k' i = set xs \<union> owned k i" "page \<in> set xs"
      "\<forall>v < 4096. user_waddr (ram (mem k')) (pagetable p) (of_nat v) = Some (page + of_nat v)"
    unfolding assms(2) by (rule exec_image_owned)
  then show ?thesis
    using k unfolding None option.case
    by (intro exI [of _ "- 1"] exI [of _ k'] exI [of _ zs] exI [of _ page] conjI) (assumption | rule refl)+
qed

definition ex_exec_world :: world where
  "ex_exec_world = ex_world\<lparr>programs := [ex_program], l_ustack := 0x2000\<rparr>"

lemma ex_exec_ready: "exec_ready ex_exec_world ex_exec_kernel 0 ex_free_pages 0x1000 0x1008 ex_program [[104, 105]]"
proof -
  let ?m = "put_bytes 0x1000 ex_block (ram ex_fork_phys)"
  have f: "ram (mem ex_exec_kernel) = ?m" "procs ex_exec_kernel = procs ex_fork_kernel" "hart ex_exec_kernel = settled ex_hart"
    "managed (mem ex_exec_kernel) = managed ex_fork_phys" "programs ex_exec_world = [ex_program]" "l_ustack ex_exec_world = 0x2000"
    by (simp_all add: ex_exec_kernel_def ex_fork_kernel_def ex_exec_world_def)
  have low: "pageno (0x1000 + of_nat j) = 1 \<and> pageno (0x2000 + of_nat j) = 2" if "j < 4096" for j
    using that pageno_page_offset [of "0x1000" j] pageno_page_offset [of "0x2000" j] by (simp add: page_aligned_def pageno_def)
  have out: "0x1000 + of_nat j \<notin> exec_pages ex_exec_kernel 0 ex_free_pages \<union> span 0x2000 264" if j: "j < 4096" for j
  proof -
    have "0x1000 + of_nat j \<notin> span 0x2000 264"
    proof
      assume "0x1000 + of_nat j \<in> span 0x2000 264"
      then obtain l where "l < 264" "0x1000 + of_nat j = (0x2000 + of_nat l :: u64)" by (auto simp: span_iff)
      then show False using low [OF j] low [of l] by simp
    qed
    moreover have "pageno (0x1000 + of_nat j) \<notin> pageno ` (set ex_free_pages \<union> owned ex_fork_kernel 0)"
      using ex_low_page [of _ "0x1000 + of_nat j"] low [OF j] ex_exec_spaces(3) by blast
    ultimately show ?thesis unfolding exec_pages_def ex_exec_spaces(2) by simp
  qed
  have c: "cstr ?m 0x1000 [104, 105]" by (rule ex_block_cstr)
  have "find_program ?m 0x1000 [ex_program] = Inr (Some ex_program)"
    using streq_cstr [OF c c] by (simp add: ex_program_def)
  moreover have "args_clear (exec_pages ex_exec_kernel 0 ex_free_pages \<union> span 0x2000 264) ?m 0x1008 [[104, 105]]"
  proof -
    have "0x1008 + of_nat i \<notin> exec_pages ex_exec_kernel 0 ex_free_pages \<union> span 0x2000 264" if "i < 16" for i
      using out [of "8 + i"] that by (simp add: add.assoc)
    then show ?thesis using out ex_block_load [of "ram ex_fork_phys"] c unfolding args_clear_def argv_of_def by simp
  qed
  moreover have "\<forall>v < 2. up_func ex_program + of_nat v \<notin> exec_pages ex_exec_kernel 0 ex_free_pages"
    using out [of "0x18 + v" for v] by (auto simp: ex_program_def add.assoc)
  moreover have "\<forall>j < 264. \<forall>p. managed ex_fork_phys p \<longrightarrow> pageno (0x2000 + of_nat j) \<noteq> pageno p"
    using ex_low_page low by auto
  moreover have "hart_ok (settled ex_hart)" "cpu_proc (settled ex_hart) = Some 0"
    using ex_can_fork by (simp_all add: can_fork_def at_rest_def ex_fork_kernel_def)
  moreover have "0 < sz (procs ex_fork_kernel ! 0)" "page_aligned (sz (procs ex_fork_kernel ! 0))" "0 < length (procs ex_fork_kernel)"
    by (simp_all add: ex_fork_kernel_def ex_proc_def page_aligned_def)
  moreover have "?m 0x1000 \<noteq> 0" using c by simp
  ultimately show ?thesis
    unfolding exec_ready_def f using ex_exec_spaces(1)
    by (simp add: ex_program_def ex_free_pages_def ex_more_def)
qed

theorem kexec_replaces_the_image_ex:
  "\<exists>rc k' zs page. kexec ex_exec_world 0x1000 0x1008 ex_exec_kernel = Inr (rc, k') \<and> proc_space k' 0 zs \<and>
    set zs \<union> owned k' 0 = set ex_free_pages \<union> owned ex_exec_kernel 0 \<and> page \<in> set ex_free_pages \<and> rc = 1 \<and>
    argv_of (user_byte (ram (mem k')) exR) 4064 [[104, 105]] \<and> tf_get exK TF_sp k' = 4064 \<and> tf_get exK TF_epc k' = 0"
proof -
  have lay: "exec_layout (unat (up_size ex_program)) [[104, 105]] = Some 4064" by code_simp
  have p: "pagetable (procs ex_exec_kernel ! 0) = exR" "trapframe (procs ex_exec_kernel ! 0) = exK"
    by (simp_all add: ex_exec_kernel_def ex_fork_kernel_def ex_proc_def)
  from kexec_replaces_the_image [OF ex_exec_ready refl refl, unfolded lay option.case p] obtain rc k' zs page where
    k: "kexec ex_exec_world 0x1000 0x1008 ex_exec_kernel = Inr (rc, k')" "proc_space k' 0 zs"
      "set zs \<union> owned k' 0 = set ex_free_pages \<union> owned ex_exec_kernel 0" "page \<in> set ex_free_pages" "rc = of_nat (length [[104 :: u8, 105]])"
      "argv_of (user_byte (ram (mem k')) exR) (of_nat 4064) [[104, 105]]"
      "\<forall>r. unat r < 512 \<longrightarrow> tf_get exK (8 * r) k' = (if r = 3 then 0 else if r = 6 \<or> r = 15 then of_nat 4064 else tf_get exK (8 * r) ex_exec_kernel)"
    by (elim exE conjE) rule
  have "tf_get exK TF_sp k' = 4064" "tf_get exK TF_epc k' = 0"
    using k(7) [rule_format, of 6] k(7) [rule_format, of 3] by (simp_all add: TF_sp_def TF_epc_def)
  then show ?thesis using k(1-6) by (intro exI [of _ rc] exI [of _ k'] exI [of _ zs] exI [of _ page]) simp
qed

section \<open>The memory of all processes\<close>

text \<open>
  C7: the kernel state stays well formed over the life of the processes. From a state in which every used slot owns its
  table, frames, trap frame and stack, shared with no other process and not on the free list, and unused slots own
  nothing, every sequence of the steps below leads to such a state again; and the pages on the free list, in the kernel's
  table and with the processes are together the same as before, so none is lost and none has two owners. The steps
  (\<open>life_step\<close>) are a \<open>fork\<close> when the table is full, when no page is free, or when nine pages and two file slots are, whether
  it then succeeds or runs out of pages in the copy; an \<open>exec\<close> of a program of the table whose arguments lie outside the
  pages it rewrites and with three pages free, whether it succeeds or fails on its arguments, and one refused before it
  touches memory; a \<open>wait\<close> that reaps a child; and every change of the status of a used slot. A \<open>fork\<close> with a free slot and one
  to eight free pages is not among them: there the code does lose pages (and the lock) in \<open>allocproc\<close>.
\<close>

theorem processes_own_their_pages:
  assumes "(life_step W)\<^sup>*\<^sup>* k k'" "spaces k xs"
  shows "\<exists>ys. spaces k' ys \<and> set ys \<union> tables (ram (mem k')) (kernel_pagetable k') \<union> (\<Union>i \<in> {i. used k' i}. owned k' i) =
    set xs \<union> tables (ram (mem k)) (kernel_pagetable k) \<union> (\<Union>i \<in> {i. used k i}. owned k i)"
  using life_steps_spaces [OF assms] by (simp add: accounted_def)

theorem processes_own_their_pages_ex:
  "\<exists>rc k' ys. kfork ex_world ex_fork_kernel = Inr (rc, k') \<and> spaces k' ys \<and>
    set ys \<union> tables (ram (mem k')) (kernel_pagetable k') \<union> (\<Union>i \<in> {i. used k' i}. owned k' i) =
    set ex_free_pages \<union> tables (ram (mem ex_fork_kernel)) (kernel_pagetable ex_fork_kernel) \<union>
      (\<Union>i \<in> {i. used ex_fork_kernel i}. owned ex_fork_kernel i)"
proof -
  obtain rc k' where k: "kfork ex_world ex_fork_kernel = Inr (rc, k')"
    using fork_keeps_spaces [OF ex_fork_spaces ex_can_fork, of ex_world] by blast
  have "free_inv (mem ex_fork_kernel) ex_free_pages" using ex_fork_spaces by (simp add: spaces_def pt_ok_def)
  then have "life_step ex_world ex_fork_kernel k'" using ex_can_fork k by (intro life_step.fork)
  then have "(life_step ex_world)\<^sup>*\<^sup>* ex_fork_kernel k'" by blast
  from processes_own_their_pages [OF this ex_fork_spaces] k show ?thesis by blast
qed

end
