(* ===== verification/Program_Table.thy ===== *)
theory Program_Table
  imports Syscall
begin

text \<open>
  The table of \<open>kernel/utils/user_bin.c\<close>. Where the linker puts the names and the images is a parameter: \<open>lit\<close>
  is the address of a string literal, \<open>img\<close> and \<open>sz_of\<close> are the symbols of an image.
\<close>

section \<open>user_bin.c\<close>

definition program_entry :: "(string \<Rightarrow> u64) \<Rightarrow> (string \<Rightarrow> u64) \<Rightarrow> (string \<Rightarrow> u64) \<Rightarrow> string \<Rightarrow> user_program" where
  "program_entry lit img sz_of s = \<lparr>up_name = lit s, up_func = img s, up_size = sz_of s\<rparr>"

definition program_names :: "string list" where
  "program_names = [''sh'', ''fork_test'', ''print0_test'', ''goodnight'', ''echo'']"

definition user_programs :: "(string \<Rightarrow> u64) \<Rightarrow> (string \<Rightarrow> u64) \<Rightarrow> (string \<Rightarrow> u64) \<Rightarrow> user_program list" where
  "user_programs lit img sz_of = map (program_entry lit img sz_of) program_names"

definition nuser_programs :: u64 where
  "nuser_programs = of_nat (length (user_programs (\<lambda>_. 0) (\<lambda>_. 0) (\<lambda>_. 0)))"

section \<open>The search by name\<close>

lemma cstr_unique: "cstr m p s \<Longrightarrow> cstr m p t \<Longrightarrow> s = t"
proof (induction s arbitrary: p t)
  case Nil
  then show ?case by (cases t) auto
next
  case (Cons c s)
  then show ?case by (cases t) auto
qed

text \<open>When every name of a table is a string, the search is the one by equality of strings.\<close>

lemma find_program_find:
  assumes "cstr m name w" "\<forall>up \<in> set ups. \<exists>v. cstr m (up_name up) v"
  shows "find_program m name ups = Inr (List.find (\<lambda>up. cstr m (up_name up) w) ups)"
  using assms(2)
proof (induction ups)
  case (Cons up ups)
  then obtain v where v: "cstr m (up_name up) v" by auto
  from streq_cstr [OF v assms(1)] have "streq m (up_name up) name = Some (if v = w then 1 else 0)" .
  moreover have "cstr m (up_name up) w \<longleftrightarrow> v = w" using v cstr_unique by blast
  ultimately show ?case using Cons by simp
qed simp

text \<open>So each program is found by its name, and no other name is found.\<close>

lemma user_programs_found:
  assumes lits: "\<forall>s \<in> set program_names. cstr m (lit s) (bytes s)" and w: "cstr m name w"
  shows "find_program m name (user_programs lit img sz_of) =
    Inr (map_option (program_entry lit img sz_of) (List.find (\<lambda>s. bytes s = w) program_names))"
proof -
  have names: "\<forall>up \<in> set (user_programs lit img sz_of). \<exists>v. cstr m (up_name up) v"
    using lits by (auto simp: user_programs_def program_entry_def)
  have "List.find (\<lambda>up. cstr m (up_name up) w) (map (program_entry lit img sz_of) ss) =
      map_option (program_entry lit img sz_of) (List.find (\<lambda>s. bytes s = w) ss)" if "set ss \<subseteq> set program_names" for ss
    using that
  proof (induction ss)
    case (Cons s ss)
    then have "cstr m (lit s) w \<longleftrightarrow> bytes s = w" using lits cstr_unique by auto
    then show ?case using Cons by (simp add: program_entry_def)
  qed simp
  from find_program_find [OF w names] this [OF subset_refl] show ?thesis by (simp add: user_programs_def)
qed

lemma nuser_programs_five: "nuser_programs = 5"
  by (simp add: nuser_programs_def user_programs_def program_names_def)

end
