(* ===== verification/Boot.thy ===== *)
theory Boot
  imports Trap
begin

text \<open>The order in which \<open>start_main\<close> of \<open>kernel/boot/main.c\<close> brings the kernel up.\<close>

text \<open>
  The scheduler's endless loop is cut after \<open>n\<close> passes; \<open>etext\<close> is the end of the kernel's text.
\<close>

definition start_main :: "world \<Rightarrow> u64 \<Rightarrow> nat \<Rightarrow> kernel \<Rightarrow> kernel outcome" where
  "start_main W etext n k =
     (let k = consoleinit k in
      bindE (do_mem kinit k) (\<lambda>k.
      bindE (on_mem (kvmininit etext (a_trampoline W)) k) (\<lambda>(root, k).
      let k = k\<lparr>kernel_pagetable := root\<rparr>;
          k = kvminithart k;
          k = trapinithart W k;
          k = on_hart intr_on k
      in bindE (clear_screen k) (\<lambda>k.
         let k = procinit k in
         bindE (userinit W k) (\<lambda>(_, k).
         bindE (printf (bytes ''Welcome to WHU OS Lab!'' @ [10]) [] k) (\<lambda>k.
         scheduler W n k))))))"

end
