(* ===== verification/Shell.thy ===== *)
theory Shell
  imports Kmem
begin

text \<open>
  The command parser of the user shell (\<open>user/sh.c\<close>) and the string routines of \<open>user/ulib.c\<close>, on the
  memory of the user process. A loop over memory that holds no terminator does not end, which is
  \<^const>\<open>None\<close>.
\<close>

section \<open>ulib.c\<close>

partial_function (option) ulib_strlen_loop :: "memory \<Rightarrow> u64 \<Rightarrow> u32 \<Rightarrow> u32 option" where
  "ulib_strlen_loop m str len = (if m str \<noteq> 0 then ulib_strlen_loop m (str + 1) (len + 1) else Some len)"

definition ulib_strlen :: "memory \<Rightarrow> u64 \<Rightarrow> u32 option" where
  "ulib_strlen m str = ulib_strlen_loop m str 0"

partial_function (option) ulib_strcmp :: "memory \<Rightarrow> u64 \<Rightarrow> u64 \<Rightarrow> u32 option" where
  "ulib_strcmp m str1 str2 =
     (if m str1 \<noteq> 0 \<or> m str2 \<noteq> 0
      then if m str1 \<noteq> m str2 then Some 0 else ulib_strcmp m (str1 + 1) (str2 + 1)
      else Some 1)"

section \<open>parsecmd\<close>

definition blank :: "u8 \<Rightarrow> bool" where
  "blank c \<longleftrightarrow> c = 32 \<or> c = 9 \<or> c = 10 \<or> c = 13"

partial_function (option) skip_blanks :: "memory \<Rightarrow> u64 \<Rightarrow> u64 option" where
  "skip_blanks m cmd = (if blank (m cmd) then skip_blanks m (cmd + 1) else Some cmd)"

partial_function (option) skip_word :: "memory \<Rightarrow> u64 \<Rightarrow> u64 option" where
  "skip_word m cmd = (if m cmd \<noteq> 0 \<and> \<not> blank (m cmd) then skip_word m (cmd + 1) else Some cmd)"

partial_function (option) parsecmd_loop :: "u64 \<Rightarrow> u32 \<Rightarrow> memory \<Rightarrow> u64 \<Rightarrow> u32 \<Rightarrow> (memory \<times> u32) option" where
  "parsecmd_loop argv maxarg m cmd argc =
     (if m cmd \<noteq> 0 then
        Option.bind (skip_blanks m cmd) (\<lambda>cmd.
        if m cmd = 0 then Some (m, argc)
        else if maxarg - 1 \<le>s argc then Some (m, argc)
        else
          let m = store64 (argv + 8 * scast argc) cmd m;
              argc = argc + 1
          in Option.bind (skip_word m cmd) (\<lambda>cmd.
             if m cmd \<noteq> 0 then parsecmd_loop argv maxarg (m(cmd := 0)) (cmd + 1) argc
             else parsecmd_loop argv maxarg m cmd argc))
      else Some (m, argc))"

definition parsecmd :: "u64 \<Rightarrow> u64 \<Rightarrow> u32 \<Rightarrow> memory \<Rightarrow> (memory \<times> u32) option" where
  "parsecmd cmd argv maxarg m =
     Option.bind (parsecmd_loop argv maxarg m cmd 0) (\<lambda>(m, argc).
     Some (store64 (argv + 8 * scast argc) 0 m, argc))"

end
