(* ===== verification/Shell_Words.thy ===== *)
theory Shell_Words
  imports Shell Byte_Strings
begin

text \<open>
  What \<open>parsecmd\<close> makes of a line: the words between the blanks, each ended by a zero byte in place, and
  the array of their addresses.
\<close>

section \<open>The words of a line\<close>

function words :: "u8 list \<Rightarrow> u8 list list" where
  "words cs = (let cs = dropWhile blank cs
    in if cs = [] then [] else takeWhile (\<lambda>c. \<not> blank c) cs # words (tl (dropWhile (\<lambda>c. \<not> blank c) cs)))"
  by pat_completeness auto
termination
proof (relation "measure length")
  fix cs ds :: "u8 list"
  assume ds: "ds = dropWhile blank cs" "ds \<noteq> []"
  have "length (tl (dropWhile (\<lambda>c. \<not> blank c) ds)) \<le> length ds - 1"
    using length_dropWhile_le [of "\<lambda>c. \<not> blank c" ds] by simp
  moreover have "length ds \<le> length cs" unfolding ds(1) by (rule length_dropWhile_le)
  moreover have "0 < length ds" using ds(2) by simp
  ultimately have "length (tl (dropWhile (\<lambda>c. \<not> blank c) ds)) < length cs" by linarith
  then show "(tl (dropWhile (\<lambda>c. \<not> blank c) ds), cs) \<in> measure length" by simp
qed simp

declare words.simps [simp del]

section \<open>The skips\<close>

text \<open>Both skips stop where \<open>dropWhile\<close> stops.\<close>

lemma skip_blanks_cstr:
  "cstr m p cs \<Longrightarrow> \<exists>i. skip_blanks m p = Some (p + of_nat i) \<and> i \<le> length cs \<and> drop i cs = dropWhile blank cs \<and> cstr m (p + of_nat i) (drop i cs)"
proof (induction cs arbitrary: p)
  case Nil
  then show ?case by (intro exI [of _ 0]) (simp add: skip_blanks.simps blank_def)
next
  case (Cons c cs)
  show ?case
  proof (cases "blank c")
    case True
    with Cons obtain i where "skip_blanks m (p + 1) = Some (p + 1 + of_nat i)" "i \<le> length cs" "drop i cs = dropWhile blank cs"
      "cstr m (p + 1 + of_nat i) (drop i cs)" by fastforce
    then show ?thesis using True Cons.prems
      by (intro exI [of _ "Suc i"]) (simp add: skip_blanks.simps [of m p] add.assoc)
  next
    case False
    then show ?thesis using Cons.prems by (intro exI [of _ 0]) (simp add: skip_blanks.simps [of m p])
  qed
qed

lemma skip_word_cstr:
  "cstr m p cs \<Longrightarrow> \<exists>i. skip_word m p = Some (p + of_nat i) \<and> i \<le> length cs \<and> take i cs = takeWhile (\<lambda>c. \<not> blank c) cs \<and>
    drop i cs = dropWhile (\<lambda>c. \<not> blank c) cs \<and> cstr m (p + of_nat i) (drop i cs)"
proof (induction cs arbitrary: p)
  case Nil
  then show ?case by (intro exI [of _ 0]) (simp add: skip_word.simps)
next
  case (Cons c cs)
  show ?case
  proof (cases "blank c")
    case False
    with Cons obtain i where "skip_word m (p + 1) = Some (p + 1 + of_nat i)" "i \<le> length cs"
      "take i cs = takeWhile (\<lambda>c. \<not> blank c) cs" "drop i cs = dropWhile (\<lambda>c. \<not> blank c) cs"
      "cstr m (p + 1 + of_nat i) (drop i cs)" by fastforce
    then show ?thesis using False Cons.prems
      by (intro exI [of _ "Suc i"]) (simp add: skip_word.simps [of m p] add.assoc)
  next
    case True
    then show ?thesis using Cons.prems by (intro exI [of _ 0]) (simp add: skip_word.simps [of m p])
  qed
qed

section \<open>The loop\<close>

text \<open>
  \<open>parsed m cmd cs argv argc ws m'\<close>: the words \<open>ws\<close> stand in \<open>m'\<close> at the addresses in the array from index
  \<open>argc\<close> on, and only the bytes of the line and these entries of the array have changed.
\<close>

definition parsed :: "memory \<Rightarrow> u64 \<Rightarrow> u8 list \<Rightarrow> u64 \<Rightarrow> nat \<Rightarrow> u8 list list \<Rightarrow> memory \<Rightarrow> bool" where
  "parsed m cmd cs argv argc ws m' \<longleftrightarrow>
     (\<forall>j < length ws. cstr m' (load64 m' (argv + of_nat (8 * (argc + j)))) (ws ! j)) \<and>
     (\<forall>j < length ws. \<exists>k. load64 m' (argv + of_nat (8 * (argc + j))) = cmd + of_nat k \<and> k + length (ws ! j) \<le> length cs) \<and>
     (\<forall>x. m' x \<noteq> m x \<longrightarrow> unat (x - cmd) < length cs \<or> unat (x - (argv + of_nat (8 * argc))) < 8 * length ws)"

text \<open>
  One turn that finds a word: blanks up to \<open>i\<close>, the word \<open>w\<close>, and the \<open>rest\<close> of the line from its delimiter on.
  \<open>m2\<close> is the memory with the address of the word in the array and a zero byte behind it.
\<close>

definition word_found :: "memory \<Rightarrow> u64 \<Rightarrow> u8 list \<Rightarrow> u64 \<Rightarrow> nat \<Rightarrow> nat \<Rightarrow> nat \<Rightarrow> u8 list \<Rightarrow> u8 list \<Rightarrow> memory \<Rightarrow> bool" where
  "word_found m cmd cs argv argc mx i w rest m2 \<longleftrightarrow>
     cstr m (cmd + of_nat i) (w @ rest) \<and> i + length w + length rest = length cs \<and> length cs < 2 ^ 31 \<and>
     apart argv (8 * mx) cmd (Suc (length cs)) \<and> argc < mx \<and> mx < 2 ^ 31 \<and>
     m2 = (store64 (argv + of_nat (8 * argc)) (cmd + of_nat i) m)(cmd + of_nat (i + length w) := 0)"

lemma word_foundD:
  assumes "word_found m cmd cs argv argc mx i w rest m2"
  shows "cstr m (cmd + of_nat i) (w @ rest)" "i + length w + length rest = length cs" "length cs < 2 ^ 31"
    "apart argv (8 * mx) cmd (Suc (length cs))" "argc < mx" "mx < 2 ^ 31"
    "m2 = (store64 (argv + of_nat (8 * argc)) (cmd + of_nat i) m)(cmd + of_nat (i + length w) := 0)"
  using assms by (simp_all add: word_found_def)

lemma parsed_kept:
  assumes "parsed m2 cmd cs argv argc ws m'"
    and "\<not> unat (x - cmd) < length cs" "\<not> unat (x - (argv + of_nat (8 * argc))) < 8 * length ws"
  shows "m' x = m2 x"
  using assms unfolding parsed_def by blast

text \<open>The turns that follow keep the word, its terminator and its entry.\<close>

lemma word_kept:
  assumes w: "word_found m cmd cs argv argc mx i w rest m2" and a: "argc + Suc (length ws) \<le> mx"
    and p: "parsed m2 (cmd + of_nat (i + length w + 1)) (tl rest) argv (Suc argc) ws m'" and k: "k < i + length w + 1"
  shows "m' (cmd + of_nat k) = m2 (cmd + of_nat k)"
proof (rule parsed_kept [OF p])
  note d = word_foundD(2,3,5,6) [OF w]
  show "\<not> unat (cmd + of_nat k - (cmd + of_nat (i + length w + 1))) < length (tl rest)"
    using k d by (intro behind) simp_all
  show "\<not> unat (cmd + of_nat k - (argv + of_nat (8 * Suc argc))) < 8 * length ws"
    using k d a by (intro apart_string [OF word_foundD(4) [OF w]]) simp_all
qed

lemma word_entry:
  assumes w: "word_found m cmd cs argv argc mx i w rest m2" and a: "argc + Suc (length ws) \<le> mx"
    and p: "parsed m2 (cmd + of_nat (i + length w + 1)) (tl rest) argv (Suc argc) ws m'"
  shows "load64 m' (argv + of_nat (8 * argc)) = cmd + of_nat i"
proof -
  let ?st = "store64 (argv + of_nat (8 * argc)) (cmd + of_nat i) m"
  note d = word_foundD(2,3,5,6) [OF w] and ap = word_foundD(4) [OF w]
  have "m' (argv + of_nat (8 * argc + j)) = ?st (argv + of_nat (8 * argc + j))" if j: "j < 8" for j
  proof -
    have "m' (argv + of_nat (8 * argc + j)) = m2 (argv + of_nat (8 * argc + j))"
    proof (rule parsed_kept [OF p])
      show "\<not> unat (argv + of_nat (8 * argc + j) - (cmd + of_nat (i + length w + 1))) < length (tl rest)"
        using d a j by (intro apart_array [OF ap]) simp_all
      show "\<not> unat (argv + of_nat (8 * argc + j) - (argv + of_nat (8 * Suc argc))) < 8 * length ws"
        using d a j by (intro behind) simp_all
    qed
    moreover have "\<not> unat (argv + of_nat (8 * argc + j) - (cmd + of_nat (i + length w))) < 1"
      using d a j by (intro apart_array [OF ap]) simp_all
    then have "argv + of_nat (8 * argc + j) \<noteq> cmd + of_nat (i + length w)" by auto
    ultimately show ?thesis using word_foundD(7) [OF w] by simp
  qed
  then have "load64 m' (argv + of_nat (8 * argc)) = load64 ?st (argv + of_nat (8 * argc))"
    by (intro load_le_cong) (simp add: add.assoc)
  then show ?thesis by (simp add: load_store_same)
qed

lemma word_string:
  assumes w: "word_found m cmd cs argv argc mx i w rest m2" and a: "argc + Suc (length ws) \<le> mx"
    and p: "parsed m2 (cmd + of_nat (i + length w + 1)) (tl rest) argv (Suc argc) ws m'"
  shows "cstr m' (cmd + of_nat i) w"
  unfolding cstr_nth
proof (intro conjI allI impI)
  note d = word_foundD(2,3,5,6) [OF w] and ap = word_foundD(4) [OF w] and m2 = word_foundD(7) [OF w] and c = word_foundD(1) [OF w]
  fix k assume k: "k < length w"
  have o: "cmd + of_nat i + of_nat k = cmd + of_nat (i + k)" by simp
  show "w ! k \<noteq> 0" using c k by (simp add: cstr_append)
  have "\<not> unat (cmd + of_nat (i + k) - (argv + of_nat (8 * argc))) < 8"
    using k d by (intro apart_string [OF ap]) simp_all
  moreover have "unat (of_nat (i + k) :: u64) \<noteq> unat (of_nat (i + length w) :: u64)"
    using k d unat_small [of "i + k"] unat_small [of "i + length w"] by simp
  then have "cmd + of_nat (i + k) \<noteq> cmd + of_nat (i + length w)" by (metis add_left_cancel)
  ultimately have "m2 (cmd + of_nat (i + k)) = m (cmd + of_nat (i + k))" using m2 by (simp add: store64_other)
  then show "m' (cmd + of_nat i + of_nat k) = w ! k"
    unfolding o using word_kept [OF w a p, of "i + k"] c k by (simp add: cstr_append add.assoc)
next
  have o: "cmd + of_nat i + of_nat (length w) = cmd + of_nat (i + length w)" by simp
  show "m' (cmd + of_nat i + of_nat (length w)) = 0"
    unfolding o using word_kept [OF w a p, of "i + length w"] word_foundD(7) [OF w] by simp
qed

lemma word_frame:
  assumes w: "word_found m cmd cs argv argc mx i w rest m2" and a: "argc + Suc (length ws) \<le> mx"
    and p: "parsed m2 (cmd + of_nat (i + length w + 1)) (tl rest) argv (Suc argc) ws m'" and x: "m' x \<noteq> m x"
  shows "unat (x - cmd) < length cs \<or> unat (x - (argv + of_nat (8 * argc))) < 8 * Suc (length ws)"
proof -
  let ?stop = "cmd + of_nat (i + length w)" and ?slot = "argv + of_nat (8 * argc)"
  have len: "i + length w + length rest = length cs" "length cs < 2 ^ 31" "mx < 2 ^ 31"
    and m2: "m2 = (store64 ?slot (cmd + of_nat i) m)(?stop := 0)" and c: "cstr m (cmd + of_nat i) (w @ rest)"
    using word_foundD [OF w] by blast+
  have step: "x = ?stop \<and> m x \<noteq> 0 \<or> unat (x - ?slot) < 8" if "m2 x \<noteq> m x"
    using that store64_other [of x ?slot] by (cases "x = ?stop") (auto simp: m2)
  have "m' x \<noteq> m2 x \<or> m2 x \<noteq> m x" using x by auto
  then consider "unat (x - (cmd + of_nat (i + length w + 1))) < length (tl rest)"
    | "unat (x - (argv + of_nat (8 * Suc argc))) < 8 * length ws" | "x = ?stop" "m x \<noteq> 0" | "unat (x - ?slot) < 8"
    using parsed_kept [OF p, of x] step by blast
  then show ?thesis
  proof cases
    case 1
    then have "rest \<noteq> []" by auto
    then show ?thesis using len within_range [OF 1, of "length cs"] by (cases rest) simp_all
  next
    case 2
    have "argv + of_nat (8 * Suc argc) = ?slot + of_nat 8" by simp
    with 2 have "unat (x - (?slot + of_nat 8)) < 8 * length ws" by (simp only:)
    then show ?thesis using within_range [of x ?slot 8 "8 * length ws" "8 * Suc (length ws)"] a len(3) by simp
  next
    case 3
    have "cmd + of_nat i + of_nat (length w) = ?stop" by simp
    then have "cstr m ?stop rest" using c by (simp only: cstr_append)
    then have "rest \<noteq> []" using 3 by auto
    then have "i + length w < length cs" using len(1) by (cases rest) simp_all
    moreover have "x - cmd = of_nat (i + length w)" using 3 by simp
    ultimately show ?thesis using unat_small [of "i + length w"] len(2) by simp
  qed simp
qed

lemma parsed_cons:
  assumes w: "word_found m cmd cs argv argc mx i w rest m2" and a: "argc + Suc (length ws) \<le> mx"
    and p: "parsed m2 (cmd + of_nat (i + length w + 1)) (tl rest) argv (Suc argc) ws m'" and e: "rest = [] \<Longrightarrow> ws = []"
  shows "parsed m cmd cs argv argc (w # ws) m'"
proof -
  have ld: "load64 m' (argv + of_nat (8 * argc)) = cmd + of_nat i" by (rule word_entry [OF w a p])
  have len: "i + length w + length rest = length cs" using w by (simp add: word_found_def)
  have "cstr m' (load64 m' (argv + of_nat (8 * (argc + j)))) ((w # ws) ! j)" if "j < Suc (length ws)" for j
    using word_string [OF w a p] p [unfolded parsed_def] ld that by (cases j) (simp_all del: of_nat_add of_nat_mult)
  moreover have "\<exists>k. load64 m' (argv + of_nat (8 * (argc + j))) = cmd + of_nat k \<and> k + length ((w # ws) ! j) \<le> length cs"
    if j: "j < Suc (length ws)" for j
  proof (cases j)
    case 0
    then show ?thesis using ld len by (intro exI [of _ i]) simp
  next
    case (Suc l)
    then have "rest \<noteq> []" using e j by auto
    moreover obtain k where "load64 m' (argv + of_nat (8 * (Suc argc + l))) = cmd + of_nat (i + length w + 1) + of_nat k"
      "k + length (ws ! l) \<le> length (tl rest)" using p [unfolded parsed_def] Suc j by (metis Suc_less_eq)
    ultimately show ?thesis using Suc len by (intro exI [of _ "i + length w + 1 + k"]) (cases rest, simp_all add: add.assoc)
  qed
  ultimately show ?thesis using word_frame [OF w a p] by (simp add: parsed_def)
qed

lemma parsecmd_loop_end: "m cmd = 0 \<Longrightarrow> parsecmd_loop argv mx m cmd argc = Some (m, argc)"
  by (subst parsecmd_loop.simps) simp

text \<open>The turn as an equation, and the word it finds.\<close>

lemma parsecmd_turn:
  assumes "m cmd \<noteq> 0" "skip_blanks m cmd = Some (cmd + of_nat i)" "cstr m (cmd + of_nat i) cs1" "argc \<le> mx" "mx < 2 ^ 31 - 1"
  shows "parsecmd_loop argv (of_nat (Suc mx)) m cmd (of_nat argc) =
    (if cs1 = [] \<or> mx \<le> argc then Some (m, of_nat argc)
     else let m = store64 (argv + of_nat (8 * argc)) (cmd + of_nat i) m
       in Option.bind (skip_word m (cmd + of_nat i)) (\<lambda>cmd.
         if m cmd \<noteq> 0 then parsecmd_loop argv (of_nat (Suc mx)) (m(cmd := 0)) (cmd + 1) (of_nat (Suc argc))
         else parsecmd_loop argv (of_nat (Suc mx)) m cmd (of_nat (Suc argc))))"
proof -
  have "m (cmd + of_nat i) = 0 \<longleftrightarrow> cs1 = []" using assms(3) by (cases cs1) auto
  moreover have "(of_nat mx :: u32) \<le>s of_nat argc \<longleftrightarrow> mx \<le> argc"
    using sless_small [of "of_nat argc :: u32" "of_nat mx"] assms(4,5) by (simp add: unat_of_nat signed.not_less [symmetric] not_less)
  moreover have "(scast (of_nat argc :: u32) :: u64) = of_nat argc" using assms(4,5) by (intro scast_index) simp
  ultimately show ?thesis using assms(1,2) by (subst parsecmd_loop.simps) (simp add: Let_def add.commute of_nat_Suc cong: if_cong)
qed

lemma next_word:
  assumes c: "cstr m (cmd + of_nat i) (drop i cs)" and i: "i \<le> length cs" "drop i cs = dropWhile blank cs" "dropWhile blank cs \<noteq> []"
    and l: "length cs < 2 ^ 31" "argc < mx" "mx < 2 ^ 31" "apart argv (8 * mx) cmd (Suc (length cs))"
    and m1: "m1 = store64 (argv + of_nat (8 * argc)) (cmd + of_nat i) m"
  obtains w rest where "skip_word m1 (cmd + of_nat i) = Some (cmd + of_nat (i + length w))" "words cs = w # words (tl rest)"
    "rest = dropWhile (\<lambda>c. \<not> blank c) (dropWhile blank cs)" "cstr m1 (cmd + of_nat (i + length w)) rest"
    "word_found m cmd cs argv argc mx i w rest (m1(cmd + of_nat (i + length w) := 0))"
proof -
  have "cstr m1 (cmd + of_nat i) (drop i cs)"
  proof (rule cstr_cong [OF c])
    fix j assume "j \<le> length (drop i cs)"
    then have "\<not> unat (cmd + of_nat (i + j) - (argv + of_nat (8 * argc))) < 8" using i(1) l by (intro apart_string [OF l(4)]) auto
    then show "m1 (cmd + of_nat i + of_nat j) = m (cmd + of_nat i + of_nat j)" using store64_other by (simp add: m1 add.assoc)
  qed
  from skip_word_cstr [OF this] obtain n where n: "skip_word m1 (cmd + of_nat i) = Some (cmd + of_nat i + of_nat n)"
    "n \<le> length (drop i cs)" "take n (drop i cs) = takeWhile (\<lambda>c. \<not> blank c) (drop i cs)"
    "drop n (drop i cs) = dropWhile (\<lambda>c. \<not> blank c) (drop i cs)" "cstr m1 (cmd + of_nat i + of_nat n) (drop n (drop i cs))" by blast
  define w rest where "w = take n (drop i cs)" and "rest = drop n (drop i cs)"
  have wr: "drop i cs = w @ rest" "length w = n" using n(2) unfolding w_def rest_def by (simp_all only: append_take_drop_id) simp
  have q: "cmd + of_nat i + of_nat n = cmd + of_nat (i + length w)" using wr(2) by simp
  have "i + length w + length rest = length cs" using i(1) n(2) wr(2) by (simp add: rest_def)
  then have "word_found m cmd cs argv argc mx i w rest (m1(cmd + of_nat (i + length w) := 0))"
    using c l unfolding wr(1) word_found_def m1 by blast
  moreover have "words cs = w # words (tl rest)"
    using i(3) by (simp add: words.simps [of cs] Let_def i(2) [symmetric] n(3,4) [symmetric] w_def rest_def)
  ultimately show thesis
    using that n(1,5) unfolding q n(4) [unfolded i(2)] rest_def [symmetric] by (metis i(2) n(4) rest_def)
qed

text \<open>What stands behind the delimiter is a line of its own.\<close>

lemma rest_line:
  assumes w: "word_found m cmd cs argv argc mx i w rest m2" and r: "rest \<noteq> []"
    and m1: "m2 = m1(cmd + of_nat (i + length w) := 0)" "cstr m1 (cmd + of_nat (i + length w)) rest"
  shows "cstr m2 (cmd + of_nat (i + length w + 1)) (tl rest)"
    "apart argv (8 * mx) (cmd + of_nat (i + length w + 1)) (Suc (length (tl rest)))" "length (tl rest) < 2 ^ 31" "m1 (cmd + of_nat (i + length w)) \<noteq> 0"
proof -
  obtain c cs3 where cs3: "rest = c # cs3" using r by (cases rest) auto
  have len: "i + length w + length rest = length cs" "length cs < 2 ^ 31" "apart argv (8 * mx) cmd (Suc (length cs))"
    using w by (simp_all add: word_found_def)
  have "cmd + of_nat (i + length w) + 1 = cmd + of_nat (i + length w + 1)" by simp
  with m1(2) have c3: "cstr m1 (cmd + of_nat (i + length w + 1)) (tl rest)" unfolding cs3 by (simp only: cstr.simps list.sel)
  show "cstr m2 (cmd + of_nat (i + length w + 1)) (tl rest)"
  proof (rule cstr_cong [OF c3])
    fix j assume j: "j \<le> length (tl rest)"
    then have "unat (of_nat (i + length w + 1 + j) :: u64) \<noteq> unat (of_nat (i + length w) :: u64)"
      using len cs3 unat_small [of "i + length w + 1 + j"] unat_small [of "i + length w"] by simp
    then have "cmd + of_nat (i + length w + 1 + j) \<noteq> cmd + of_nat (i + length w)" by (metis add_left_cancel)
    then show "m2 (cmd + of_nat (i + length w + 1) + of_nat j) = m1 (cmd + of_nat (i + length w + 1) + of_nat j)"
      by (simp add: m1(1) add.assoc)
  qed
  show "apart argv (8 * mx) (cmd + of_nat (i + length w + 1)) (Suc (length (tl rest)))"
    using len cs3 by (intro apart_suffix [OF len(3)]) simp_all
  show "length (tl rest) < 2 ^ 31" using len cs3 by simp
  show "m1 (cmd + of_nat (i + length w)) \<noteq> 0" using m1(2) cs3 by auto
qed

lemma parsecmd_loop_words:
  assumes "cstr m cmd cs" "length cs < 2 ^ 31" "argc \<le> mx" "mx < 2 ^ 31 - 1" "apart argv (8 * mx) cmd (Suc (length cs))"
    and "ws = take (mx - argc) (words cs)"
  shows "\<exists>m'. parsecmd_loop argv (of_nat (Suc mx)) m cmd (of_nat argc) = Some (m', of_nat (argc + length ws)) \<and>
    parsed m cmd cs argv argc ws m'"
  using assms
proof (induction cs arbitrary: m cmd argc ws rule: words.induct)
  case (1 cs)
  note h = "1.prems"
  obtain i where i: "skip_blanks m cmd = Some (cmd + of_nat i)" "i \<le> length cs" "drop i cs = dropWhile blank cs"
    "cstr m (cmd + of_nat i) (drop i cs)" using skip_blanks_cstr [OF h(1)] by blast
  consider (none) "cs = []" | (full) "cs \<noteq> []" "drop i cs = [] \<or> mx \<le> argc" | (more) "cs \<noteq> []" "drop i cs \<noteq> []" "argc < mx"
    by linarith
  then show ?case
  proof cases
    case none
    then have "m cmd = 0" "ws = []" using h by (simp_all add: words.simps [of "[]"])
    then show ?thesis by (simp add: parsecmd_loop_end parsed_def)
  next
    case full
    then have "m cmd \<noteq> 0" using h(1) by (cases cs) auto
    moreover have "ws = []" using full h(6) i(3) by (auto simp: words.simps [of cs] Let_def)
    ultimately show ?thesis using parsecmd_turn [OF _ i(1,4) h(3,4)] full by (simp add: parsed_def)
  next
    case more
    then have m0: "m cmd \<noteq> 0" and dw: "dropWhile blank cs \<noteq> []" and mx: "mx < 2 ^ 31" using h(1,4) i(3) by (auto simp: neq_Nil_conv)
    define m1 where "m1 = store64 (argv + of_nat (8 * argc)) (cmd + of_nat i) m"
    obtain w rest where n: "skip_word m1 (cmd + of_nat i) = Some (cmd + of_nat (i + length w))" "words cs = w # words (tl rest)"
      "rest = dropWhile (\<lambda>c. \<not> blank c) (dropWhile blank cs)" "cstr m1 (cmd + of_nat (i + length w)) rest"
      "word_found m cmd cs argv argc mx i w rest (m1(cmd + of_nat (i + length w) := 0))"
      using next_word [OF i(4,2,3) dw h(2) more(3) mx h(5) m1_def] .
    define m2 where "m2 = m1(cmd + of_nat (i + length w) := 0)"
    note wf = n(5) [folded m2_def]
    have turn: "parsecmd_loop argv (of_nat (Suc mx)) m cmd (of_nat argc) =
      (if m1 (cmd + of_nat (i + length w)) \<noteq> 0 then parsecmd_loop argv (of_nat (Suc mx)) m2 (cmd + of_nat (i + length w + 1)) (of_nat (Suc argc))
       else parsecmd_loop argv (of_nat (Suc mx)) m1 (cmd + of_nat (i + length w)) (of_nat (Suc argc)))"
    proof -
      have "\<not> (drop i cs = [] \<or> mx \<le> argc)" using more by simp
      moreover have "cmd + of_nat (i + length w) + 1 = cmd + of_nat (i + length w + 1)" by simp
      ultimately show ?thesis
        using parsecmd_turn [OF m0 i(1,4) h(3,4), of argv]
        unfolding Let_def m1_def [symmetric] n(1) Option.bind.simps m2_def [symmetric] by (simp only: if_False)
    qed
    show ?thesis
    proof (cases "rest = []")
      case True
      then have z: "m1 (cmd + of_nat (i + length w)) = 0" using n(4) by simp
      then have "m2 = m1" by (auto simp: m2_def fun_eq_iff)
      moreover have "parsed m2 (cmd + of_nat (i + length w + 1)) (tl rest) argv (Suc argc) [] m2" using True by (simp add: parsed_def)
      then have "parsed m cmd cs argv argc [w] m2" using parsed_cons [OF wf] more(3) by simp
      moreover have "ws = [w]" using h(6) n(2) True more by (simp add: words.simps [of "[]"] take_Cons')
      ultimately show ?thesis using turn z by (intro exI [of _ m2]) (simp add: parsecmd_loop_end)
    next
      case False
      define ws' where "ws' = take (mx - Suc argc) (words (tl rest))"
      note rl = rest_line [OF wf False m2_def n(4)]
      have "Suc argc \<le> mx" using more(3) by simp
      with "1.IH" [OF refl dw rl(1) [unfolded n(3)] rl(3) [unfolded n(3)] _ h(4) rl(2) [unfolded n(3)] ws'_def [unfolded n(3)]]
      obtain m' where m': "parsecmd_loop argv (of_nat (Suc mx)) m2 (cmd + of_nat (i + length w + 1)) (of_nat (Suc argc)) =
          Some (m', of_nat (Suc argc + length ws'))" "parsed m2 (cmd + of_nat (i + length w + 1)) (tl rest) argv (Suc argc) ws' m'"
        unfolding n(3) by blast
      have "argc + Suc (length ws') \<le> mx" using more(3) by (simp add: ws'_def)
      then have "parsed m cmd cs argv argc (w # ws') m'" using m'(2) False by (intro parsed_cons [OF wf]) simp_all
      moreover have "ws = w # ws'" using h(6) n(2) more by (simp add: ws'_def take_Cons')
      ultimately show ?thesis using turn m'(1) rl(4) by (intro exI [of _ m']) simp
    qed
  qed
qed

lemma parsecmd_words:
  assumes "cstr m cmd cs" "length cs < 2 ^ 31" "mx < 2 ^ 31 - 1" "apart argv (8 * Suc mx) cmd (Suc (length cs))"
    and "ws = take mx (words cs)"
  shows "\<exists>m'. parsecmd cmd argv (of_nat (Suc mx)) m = Some (m', of_nat (length ws)) \<and>
    (\<forall>j < length ws. cstr m' (load64 m' (argv + of_nat (8 * j))) (ws ! j)) \<and>
    load64 m' (argv + of_nat (8 * length ws)) = 0 \<and>
    (\<forall>x. m' x \<noteq> m x \<longrightarrow> unat (x - cmd) < length cs \<or> unat (x - argv) < 8 * Suc (length ws))"
proof -
  have "apart argv (8 * mx) cmd (Suc (length cs))" using assms(4) by (simp add: apart_def)
  from parsecmd_loop_words [OF assms(1,2) _ assms(3) this, of 0 ws] assms(5) obtain m1 where
    m1: "parsecmd_loop argv (of_nat (Suc mx)) m cmd 0 = Some (m1, of_nat (length ws))" "parsed m cmd cs argv 0 ws m1" by auto
  have len: "length ws \<le> mx" using assms(5) by simp
  let ?a = "argv + of_nat (8 * length ws)"
  define m' where "m' = store64 ?a 0 m1"
  have "(scast (of_nat (length ws) :: u32) :: u64) = of_nat (length ws)" using len assms(3) by (intro scast_index) simp
  then have "parsecmd cmd argv (of_nat (Suc mx)) m = Some (m', of_nat (length ws))" by (simp add: parsecmd_def m1(1) m'_def del: of_nat_Suc)
  moreover have st: "m' x = m1 x" if "\<not> unat (x - ?a) < 8" for x using store64_other [OF that] by (simp add: m'_def)
  have ld: "load64 m' (argv + of_nat (8 * j)) = load64 m1 (argv + of_nat (8 * j))" if j: "j < length ws" for j
  proof (rule load_le_cong)
    fix l :: nat assume "l < 8"
    then have "\<not> unat (argv + of_nat (8 * j + l) - ?a) < 8" using j len assms(3) by (intro behind) simp_all
    then show "m' (argv + of_nat (8 * j) + of_nat l) = m1 (argv + of_nat (8 * j) + of_nat l)" using st by (simp add: add.assoc)
  qed
  have "cstr m' (load64 m' (argv + of_nat (8 * j))) (ws ! j)" if j: "j < length ws" for j
  proof -
    obtain k where k: "load64 m1 (argv + of_nat (8 * j)) = cmd + of_nat k" "k + length (ws ! j) \<le> length cs"
      using m1(2) j unfolding parsed_def by auto
    show ?thesis
      unfolding ld [OF j]
    proof (rule cstr_cong)
      show "cstr m1 (load64 m1 (argv + of_nat (8 * j))) (ws ! j)" using m1(2) j unfolding parsed_def by auto
      fix l assume "l \<le> length (ws ! j)"
      then have "\<not> unat (cmd + of_nat (k + l) - ?a) < 8" using k(2) assms(2) len by (intro apart_string [OF assms(4)]) simp_all
      then show "m' (load64 m1 (argv + of_nat (8 * j)) + of_nat l) = m1 (load64 m1 (argv + of_nat (8 * j)) + of_nat l)"
        unfolding k(1) using st by (simp add: add.assoc)
    qed
  qed
  moreover have "load64 m' ?a = 0" by (simp add: m'_def load_store_same)
  moreover have "unat (x - cmd) < length cs \<or> unat (x - argv) < 8 * Suc (length ws)" if x: "m' x \<noteq> m x" for x
  proof (cases "unat (x - ?a) < 8")
    case True
    then show ?thesis using within_range [OF True, of "8 * Suc (length ws)"] len assms(3) by simp
  next
    case False
    then show ?thesis using x m1(2) st [OF False] unfolding parsed_def by fastforce
  qed
  ultimately show ?thesis by blast
qed

end
