(* ===== verification/User_Programs.thy ===== *)
theory User_Programs
  imports Shell_Words Syscall
begin

text \<open>
  The user programs (\<open>user/sh.c\<close>, \<open>echo.c\<close>, \<open>fork_test.c\<close>, \<open>goodnight.c\<close>, \<open>print0_test.c\<close>). A program reaches the
  kernel through the stubs of \<open>user/usys.S\<close>; what a call does is the parameter \<open>K\<close>. It gets the memory of the process
  and the rest of the system and either comes back with a value or does not come back (\<^const>\<open>Inl\<close>: the process has
  exited, or its image has been replaced). A loop of the program itself that never ends is \<^const>\<open>None\<close>.
\<close>

section \<open>System calls\<close>

datatype user_call =
    U_print0 | U_fork | U_exit | U_wait | U_getpid
  | U_exec u64 u64
  | U_write u32 u64 u32
  | U_read u32 u64 u32

text \<open>The number that the stub of a call loads into \<open>a7\<close>.\<close>

fun usys :: "user_call \<Rightarrow> nat" where
  "usys U_print0 = 0"
| "usys U_fork = 1"
| "usys U_exit = 2"
| "usys U_wait = 3"
| "usys U_getpid = 11"
| "usys (U_exec path argv) = 14"
| "usys (U_write fd buf n) = 16"
| "usys (U_read fd buf n) = 17"

text \<open>The table of the kernel has the handler of every stub at the number the stub uses.\<close>

lemma usys_handlers:
  "syscalls W (usys U_print0) = Some sys_print0" "syscalls W (usys U_fork) = Some (sys_fork W)"
  "syscalls W (usys U_exit) = Some (sys_exit W)" "syscalls W (usys U_wait) = Some (sys_wait W)"
  "syscalls W (usys U_getpid) = Some sys_getpid" "syscalls W (usys (U_exec path argv)) = Some (sys_exec W)"
  "syscalls W (usys (U_write fd buf n)) = Some (sys_write W)" "syscalls W (usys (U_read fd buf n)) = Some (sys_read W)"
  by (simp_all add: syscalls_def)

type_synonym 's ustate = "memory \<times> 's"
type_synonym 's kern = "user_call \<Rightarrow> 's ustate \<Rightarrow> 's ustate + u32 \<times> 's ustate"
type_synonym ('a, 's) urun = "('s ustate + 'a \<times> 's ustate) option"

definition ubind :: "('a, 's) urun \<Rightarrow> ('a \<Rightarrow> 's ustate \<Rightarrow> ('b, 's) urun) \<Rightarrow> ('b, 's) urun" where
  "ubind r f = (case r of None \<Rightarrow> None | Some (Inl st) \<Rightarrow> Some (Inl st) | Some (Inr (a, st)) \<Rightarrow> f a st)"

definition ureturn :: "'a \<Rightarrow> 's ustate \<Rightarrow> ('a, 's) urun" where
  "ureturn a st = Some (Inr (a, st))"

definition ucall :: "'s kern \<Rightarrow> user_call \<Rightarrow> 's ustate \<Rightarrow> (u32, 's) urun" where
  "ucall K c st = Some (K c st)"

lemma ubind_simps [simp]:
  "ubind (Some (Inl st)) f = Some (Inl st)" "ubind (Some (Inr (a, st))) f = f a st" "ubind None f = None"
  by (simp_all add: ubind_def)

text \<open>String literals stand at the addresses \<open>lit\<close> of the program's read-only data.\<close>

section \<open>echo.c\<close>

definition ustrlen :: "u64 \<Rightarrow> 's ustate \<Rightarrow> (u32, 's) urun" where
  "ustrlen p st = (case ulib_strlen (fst st) p of None \<Rightarrow> None | Some n \<Rightarrow> ureturn n st)"

text \<open>The turns of the loop for the values of \<open>i\<close> in the list.\<close>

primrec echo_loop :: "'s kern \<Rightarrow> (string \<Rightarrow> u64) \<Rightarrow> u32 \<Rightarrow> u64 \<Rightarrow> nat list \<Rightarrow> 's ustate \<Rightarrow> (unit, 's) urun" where
  "echo_loop K lit argc argv [] st = ureturn () st"
| "echo_loop K lit argc argv (i # is) st =
     (let arg = load64 (fst st) (argv + 8 * of_nat i) in
      ubind (ustrlen arg st) (\<lambda>n st.
      ubind (ucall K (U_write 1 arg n) st) (\<lambda>_ st.
      ubind (if of_nat i + 1 <s argc then ucall K (U_write 1 (lit '' '') 1) st else ureturn 0 st) (\<lambda>_ st.
      echo_loop K lit argc argv is st))))"

definition echo_start :: "'s kern \<Rightarrow> (string \<Rightarrow> u64) \<Rightarrow> u32 \<Rightarrow> u64 \<Rightarrow> 's ustate \<Rightarrow> (unit, 's) urun" where
  "echo_start K lit argc argv st =
     ubind (echo_loop K lit argc argv [1..<nat (sint argc)] st) (\<lambda>_ st.
     ubind (ucall K (U_write 1 (lit [char_of (10 :: nat)]) 1) st) (\<lambda>_ st.
     ubind (ucall K U_exit st) (\<lambda>_ st. ureturn () st)))"

section \<open>fork_test.c, goodnight.c, print0_test.c\<close>

text \<open>\<open>while (1);\<close> after a failed \<open>fork\<close> is \<^const>\<open>None\<close>.\<close>

definition nl :: string where "nl = [char_of (10 :: nat)]"

definition fork_test_start :: "'s kern \<Rightarrow> (string \<Rightarrow> u64) \<Rightarrow> 's ustate \<Rightarrow> (unit, 's) urun" where
  "fork_test_start K lit st =
     ubind (ucall K U_fork st) (\<lambda>pid st.
     if pid <s 0 then ubind (ucall K (U_write 1 (lit (''fork failed'' @ nl)) 12) st) (\<lambda>_ st. None)
     else
       ubind (if pid = 0 then ubind (ucall K (U_write 1 (lit (''child'' @ nl)) 6) st) (\<lambda>_ st. ucall K U_exit st)
              else ubind (ucall K (U_write 1 (lit (''parent'' @ nl)) 7) st) (\<lambda>_ st. ucall K U_wait st)) (\<lambda>_ st.
       ubind (ucall K U_exit st) (\<lambda>_ st. ureturn () st)))"

definition goodnight_start :: "'s kern \<Rightarrow> (string \<Rightarrow> u64) \<Rightarrow> 's ustate \<Rightarrow> (unit, 's) urun" where
  "goodnight_start K lit st =
     ubind (ucall K U_fork st) (\<lambda>pid st.
     ubind (if pid = 0 then ubind (ucall K (U_write 1 (lit (''good night'' @ nl)) 11) st) (\<lambda>_ st. ucall K U_exit st)
            else ubind (ucall K U_wait st) (\<lambda>_ st. ucall K (U_write 1 (lit (''wan an'' @ nl)) 7) st)) (\<lambda>_ st.
     ubind (ucall K U_exit st) (\<lambda>_ st. ureturn () st)))"

definition print0_start :: "'s kern \<Rightarrow> 's ustate \<Rightarrow> (unit, 's) urun" where
  "print0_start K st = ubind (ucall K U_print0 st) (\<lambda>_ st. ubind (ucall K U_exit st) (\<lambda>_ st. ureturn () st))"

section \<open>sh.c\<close>

partial_function (option) skip_spaces :: "memory \<Rightarrow> u64 \<Rightarrow> u64 option" where
  "skip_spaces m cmd = (if m cmd = 32 \<or> m cmd = 9 then skip_spaces m (cmd + 1) else Some cmd)"

text \<open>
  One turn of the loop of \<open>_start\<close>, with the static buffer \<open>buf\<close> of 100 bytes and the array \<open>argv\<close> on the stack. The
  comparison of \<open>n\<close> with \<open>sizeof\<close> is unsigned.
\<close>

definition sh_turn :: "'s kern \<Rightarrow> (string \<Rightarrow> u64) \<Rightarrow> u64 \<Rightarrow> u64 \<Rightarrow> 's ustate \<Rightarrow> (unit, 's) urun" where
  "sh_turn K lit buf argv st =
     ubind (ucall K (U_write 1 (lit ''$ '') 2) st) (\<lambda>_ st.
     ubind (ucall K (U_read 0 buf 100) st) (\<lambda>n (m, s).
     if n \<le>s 0 then ureturn () (m, s)
     else
       let n = (if (scast n :: u64) \<ge> 100 then 99 else n);
           m = m(buf + scast n := 0)
       in case skip_spaces m buf of None \<Rightarrow> None
       | Some cmd \<Rightarrow>
         if m cmd = 10 then ureturn () (m, s)
         else case parsecmd cmd argv 16 m of None \<Rightarrow> None
         | Some (m, argc) \<Rightarrow>
           if argc \<le>s 0 then ureturn () (m, s)
           else
             ubind (ucall K U_fork (m, s)) (\<lambda>pid st.
             if pid <s 0 then ubind (ucall K (U_write 1 (lit (''fork failed'' @ nl)) 12) st) (\<lambda>_ st. ureturn () st)
             else
               ubind (if pid = 0 then
                        ubind (ucall K (U_exec (load64 (fst st) argv) argv) st) (\<lambda>_ st.
                        ubind (ucall K (U_write 1 (lit (''exec failed'' @ nl)) 12) st) (\<lambda>_ st.
                        ucall K U_exit st))
                      else ureturn 0 st) (\<lambda>_ st.
               ubind (ucall K U_wait st) (\<lambda>_ st. ureturn () st)))))"

text \<open>\<open>_start\<close> never returns: these are its first \<open>n\<close> turns.\<close>

primrec sh_start :: "nat \<Rightarrow> 's kern \<Rightarrow> (string \<Rightarrow> u64) \<Rightarrow> u64 \<Rightarrow> u64 \<Rightarrow> 's ustate \<Rightarrow> (unit, 's) urun" where
  "sh_start 0 K lit buf argv st = ureturn () st"
| "sh_start (Suc n) K lit buf argv st = ubind (sh_turn K lit buf argv st) (\<lambda>_ st. sh_start n K lit buf argv st)"

section \<open>What the shell makes of a line\<close>

lemma skip_spaces_cstr:
  "cstr m p cs \<Longrightarrow> \<exists>i. skip_spaces m p = Some (p + of_nat i) \<and> i \<le> length cs \<and> drop i cs = dropWhile (\<lambda>c. c = 32 \<or> c = 9) cs \<and>
    cstr m (p + of_nat i) (drop i cs)"
proof (induction cs arbitrary: p)
  case Nil
  then show ?case by (intro exI [of _ 0]) (simp add: skip_spaces.simps)
next
  case (Cons c cs)
  show ?case
  proof (cases "c = 32 \<or> c = 9")
    case True
    with Cons obtain i where "skip_spaces m (p + 1) = Some (p + 1 + of_nat i)" "i \<le> length cs"
      "drop i cs = dropWhile (\<lambda>c. c = 32 \<or> c = 9) cs" "cstr m (p + 1 + of_nat i) (drop i cs)" by fastforce
    then show ?thesis using True Cons.prems
      by (intro exI [of _ "Suc i"]) (auto simp add: skip_spaces.simps [of m p] add.assoc)
  next
    case False
    then show ?thesis using Cons.prems by (intro exI [of _ 0]) (simp add: skip_spaces.simps [of m p])
  qed
qed

lemma words_skip:
  assumes "\<And>c. P c \<Longrightarrow> blank c"
  shows "words (dropWhile P cs) = words cs"
proof -
  have "dropWhile blank (dropWhile P cs) = dropWhile blank cs" by (induction cs) (auto simp: assms)
  then show ?thesis by (simp add: words.simps [of cs] words.simps [of "dropWhile P cs"])
qed

text \<open>
  The line of a turn: what the read left in the buffer, cut at 99 bytes and at the first zero byte.
\<close>

definition sh_line :: "memory \<Rightarrow> u64 \<Rightarrow> nat \<Rightarrow> u8 list" where
  "sh_line m buf n = takeWhile (\<lambda>c. c \<noteq> 0) (bytes_at m buf (min n 99))"

lemma sh_line_string:
  assumes "mz = m(buf + of_nat (min n 99) := 0)"
  shows "cstr mz buf (sh_line m buf n)" "length (sh_line m buf n) \<le> 99"
proof -
  let ?n = "min n 99" and ?cs = "sh_line m buf n" and ?bs = "bytes_at m buf (min n 99)"
  have len: "length ?cs \<le> ?n" using length_takeWhile_le [of "\<lambda>c. c \<noteq> 0" ?bs] by (simp add: sh_line_def)
  then show "length ?cs \<le> 99" by simp
  have neq: "buf + of_nat i \<noteq> buf + of_nat ?n" if "i < ?n" for i
  proof -
    have "?n < 2 ^ 63" by simp
    moreover from this have "i < 2 ^ 63" using that by simp
    ultimately have "unat (of_nat i :: u64) = i" "unat (of_nat ?n :: u64) = ?n" by (simp_all only: unat_small)
    then have "unat (of_nat i :: u64) \<noteq> unat (of_nat ?n :: u64)" using that by linarith
    then show ?thesis by (metis add_left_cancel)
  qed
  have m: "mz (buf + of_nat i) = ?bs ! i" if "i < ?n" for i using that neq [OF that] by (simp add: assms)
  show "cstr mz buf ?cs"
    unfolding cstr_nth
  proof (intro conjI allI impI)
    fix i assume i: "i < length ?cs"
    then have "?cs ! i = ?bs ! i" unfolding sh_line_def by (rule takeWhile_nth)
    then show "mz (buf + of_nat i) = ?cs ! i" using m [of i] i len by simp
    have "?cs ! i \<in> set ?cs" using i by simp
    then show "?cs ! i \<noteq> 0" unfolding sh_line_def by (auto dest: set_takeWhileD)
  next
    show "mz (buf + of_nat (length ?cs)) = 0"
    proof (cases "length ?cs < ?n")
      case True
      then have "?bs ! length ?cs = 0" using nth_length_takeWhile [of "\<lambda>c. c \<noteq> 0" ?bs] by (simp add: sh_line_def)
      then show ?thesis using m [OF True] by simp
    next
      case False
      then have "length ?cs = ?n" using len by linarith
      then show ?thesis by (simp add: assms)
    qed
  qed
qed

text \<open>The turn from the parsed line on.\<close>

definition sh_run :: "'s kern \<Rightarrow> (string \<Rightarrow> u64) \<Rightarrow> u64 \<Rightarrow> 's ustate \<Rightarrow> (unit, 's) urun" where
  "sh_run K lit argv st = ubind (ucall K U_fork st) (\<lambda>pid st.
      if pid <s 0 then ubind (ucall K (U_write 1 (lit (''fork failed'' @ nl)) 12) st) (\<lambda>_ st. ureturn () st)
      else ubind (if pid = 0 then
              ubind (ucall K (U_exec (load64 (fst st) argv) argv) st) (\<lambda>_ st.
              ubind (ucall K (U_write 1 (lit (''exec failed'' @ nl)) 12) st) (\<lambda>_ st. ucall K U_exit st))
            else ureturn 0 st) (\<lambda>_ st. ubind (ucall K U_wait st) (\<lambda>_ st. ureturn () st)))"

lemma sh_turn_read:
  assumes w: "K (U_write 1 (lit ''$ '') 2) (m0, s0) = Inr (rc, (m, s))"
    and r: "K (U_read 0 buf 100) (m, s) = Inr (of_nat n, (m1, s1))" "0 < n" "n \<le> 100"
  shows "sh_turn K lit buf argv (m0, s0) =
    (let mz = m1(buf + of_nat (min n 99) := 0)
     in case skip_spaces mz buf of None \<Rightarrow> None
       | Some cmd \<Rightarrow> if mz cmd = 10 then ureturn () (mz, s1)
           else case parsecmd cmd argv 16 mz of None \<Rightarrow> None
             | Some (m, argc) \<Rightarrow> if argc \<le>s 0 then ureturn () (m, s1) else sh_run K lit argv (m, s1))"
proof -
  have un: "unat (of_nat n :: u32) = n" using r(3) by (simp add: unat_of_nat)
  have sn: "(scast (of_nat n :: u32) :: u64) = of_nat n" using r(3) by (intro scast_index) simp
  have pos: "\<not> (of_nat n :: u32) \<le>s 0"
    using sless_small [of 0 "of_nat n"] un r(2,3) by (simp add: signed.not_le)
  show ?thesis
  proof (cases "n = 100")
    case True
    then show ?thesis using w r(1) pos by (simp add: sh_turn_def sh_run_def ucall_def Let_def cong: option.case_cong prod.case_cong if_cong)
  next
    case False
    then have "\<not> 100 \<le> (of_nat n :: u64)" "min n 99 = n" using r(3) by (simp_all add: word_le_nat_alt unat_of_nat)
    then show ?thesis using w r(1) pos by (simp add: sh_turn_def sh_run_def ucall_def Let_def sn cong: option.case_cong prod.case_cong if_cong)
  qed
qed

lemma sh_turn_words:
  assumes w: "K (U_write 1 (lit ''$ '') 2) (m0, s0) = Inr (rc, (m, s))"
    and r: "K (U_read 0 buf 100) (m, s) = Inr (of_nat n, (m1, s1))" "0 < n" "n \<le> 100"
    and l: "cs = sh_line m1 buf n" and ap: "apart argv 128 buf 100"
  shows "if words cs = [] \<or> hd (dropWhile (\<lambda>c. c = 32 \<or> c = 9) cs) = 10
    then \<exists>m2. sh_turn K lit buf argv (m0, s0) = Some (Inr ((), (m2, s1)))
    else \<exists>m2. argv_of m2 argv (take 15 (words cs)) \<and> sh_turn K lit buf argv (m0, s0) = sh_run K lit argv (m2, s1)"
proof -
  define mz where "mz = m1(buf + of_nat (min n 99) := 0)"
  have c: "cstr mz buf cs" and len: "length cs \<le> 99" using sh_line_string [OF mz_def] l by simp_all
  obtain i where i: "skip_spaces mz buf = Some (buf + of_nat i)" "i \<le> length cs" "drop i cs = dropWhile (\<lambda>c. c = 32 \<or> c = 9) cs"
    "cstr mz (buf + of_nat i) (drop i cs)" using skip_spaces_cstr [OF c] by blast
  have ws: "words (drop i cs) = words cs" unfolding i(3) by (intro words_skip) (auto simp: blank_def)
  have h: "mz (buf + of_nat i) = hd (drop i cs)" if "words cs \<noteq> []"
    using that i(4) ws by (cases "drop i cs") (auto simp: words.simps [of "[]"])
  have "apart argv (8 * Suc 15) (buf + of_nat i) (Suc (length (drop i cs)))"
    using ap i(2) len by (intro apart_suffix [of argv _ buf 100]) simp_all
  moreover have "length (drop i cs) < 2 ^ 31" using len by simp
  ultimately have ex: "\<exists>m2. parsecmd (buf + of_nat i) argv (of_nat (Suc 15)) mz = Some (m2, of_nat (length (take 15 (words cs)))) \<and>
      argv_of m2 argv (take 15 (words cs))"
    using parsecmd_words [OF i(4), of 15 argv "take 15 (words cs)"] ws unfolding argv_of_def by fastforce
  have "of_nat (Suc 15) = (16 :: u32)" by simp
  from ex [unfolded this] obtain m2 where
    p: "parsecmd (buf + of_nat i) argv 16 mz = Some (m2, of_nat (length (take 15 (words cs))))" "argv_of m2 argv (take 15 (words cs))"
    by blast
  have t: "sh_turn K lit buf argv (m0, s0) = (if mz (buf + of_nat i) = 10 then ureturn () (mz, s1)
      else if (of_nat (length (take 15 (words cs))) :: u32) \<le>s 0 then ureturn () (m2, s1) else sh_run K lit argv (m2, s1))"
    using sh_turn_read [where K = K and lit = lit, OF w r] i(1) p(1) by (simp add: Let_def mz_def [symmetric] del: length_take)
  show ?thesis
  proof (cases "words cs = []")
    case True
    then show ?thesis using t by (auto simp: ureturn_def)
  next
    case False
    have "0 < length (take 15 (words cs))" "length (take 15 (words cs)) \<le> 15" using False by simp_all
    then have "\<not> (of_nat (length (take 15 (words cs))) :: u32) \<le>s 0"
      using sless_small [of 0 "of_nat (length (take 15 (words cs)))"] by (simp add: signed.not_le unat_of_nat del: length_take)
    then show ?thesis using t h [OF False] p(2) False unfolding i(3) by (auto simp: ureturn_def simp del: length_take)
  qed
qed

section \<open>What echo prints\<close>

fun joined :: "u8 list list \<Rightarrow> u8 list" where
  "joined [] = []"
| "joined [w] = w"
| "joined (w # v # ws) = w @ [32] @ joined (v # ws)"

lemma ulib_strlen_loop_cstr: "cstr m p s \<Longrightarrow> ulib_strlen_loop m p len = Some (len + of_nat (length s))"
proof (induction s arbitrary: p len)
  case Nil
  then show ?case by (subst ulib_strlen_loop.simps) simp
next
  case (Cons c cs)
  then show ?case by (subst ulib_strlen_loop.simps) (simp add: algebra_simps)
qed

lemma cstr_bytes: "cstr m p s \<Longrightarrow> bytes_at m p (length s) = s"
  by (intro nth_equalityI) (simp_all add: cstr_nth)

text \<open>The arguments of a program: \<open>args\<close> in memory at \<open>argv\<close>.\<close>

definition args_at :: "memory \<Rightarrow> u64 \<Rightarrow> u8 list list \<Rightarrow> bool" where
  "args_at m argv args \<longleftrightarrow> (\<forall>i < length args. cstr m (load64 m (argv + 8 * of_nat i)) (args ! i) \<and> length (args ! i) < 2 ^ 31)"

text \<open>
  What a program that prints asks of the kernel. In the states \<open>ok\<close> a write of up to 1023 bytes to descriptor 1 sends them,
  as long as none of them is zero or a percent sign, and returns 0; memory stays as it is, and so does \<open>ok\<close>. The call of
  \<open>exit\<close> does not return. \<open>tx s\<close> is what has been sent.
\<close>

locale console_system =
  fixes K :: "'s kern" and tx :: "'s \<Rightarrow> u8 list" and ok :: "memory \<Rightarrow> 's \<Rightarrow> bool"
  assumes write_sends: "ok m s \<Longrightarrow> n < 1024 \<Longrightarrow> set (bytes_at m a n) \<inter> {0, 37} = {} \<Longrightarrow>
      \<exists>s'. K (U_write 1 a (of_nat n)) (m, s) = Inr (0, (m, s')) \<and> ok m s' \<and> tx s' = tx s @ bytes_at m a n"
    and exit_stays: "K U_exit st = Inl st"
begin

lemma write_byte:
  assumes "ok m s" "m a = c" "c \<noteq> 0" "c \<noteq> 37"
  shows "\<exists>s'. K (U_write 1 a 1) (m, s) = Inr (0, (m, s')) \<and> ok m s' \<and> tx s' = tx s @ [c]"
  using write_sends [of m s 1 a] assms by (simp add: bytes_at_def)

lemma echo_loop_prints:
  assumes a: "args_at m argv args" "length args < 2 ^ 31" "m (lit '' '') = 32" and ok: "ok m s" and i: "i \<le> length args"
    and w: "\<forall>w \<in> set (drop i args). length w < 1024 \<and> 37 \<notin> set w"
  shows "\<exists>s'. echo_loop K lit (of_nat (length args)) argv [i..<length args] (m, s) = Some (Inr ((), (m, s'))) \<and>
    ok m s' \<and> tx s' = tx s @ joined (drop i args)"
  using ok i w
proof (induction "length args - i" arbitrary: i s)
  case 0
  then show ?case by (simp add: ureturn_def)
next
  case (Suc d)
  then have i: "i < length args" by simp
  let ?w = "args ! i" and ?p = "load64 m (argv + 8 * of_nat i)"
  have c: "cstr m ?p ?w" using a(1) i by (simp add: args_at_def)
  have step: "[i..<length args] = i # [Suc i..<length args]" using i by (rule upt_conv_Cons)
  have dr: "drop i args = ?w # drop (Suc i) args" using i by (rule Cons_nth_drop_Suc [symmetric])
  have w: "length ?w < 1024" "37 \<notin> set ?w" "\<forall>w \<in> set (drop (Suc i) args). length w < 1024 \<and> 37 \<notin> set w"
    using Suc.prems(3) by (simp_all add: dr)
  have "0 \<notin> set ?w" using c by (auto simp: cstr_nth in_set_conv_nth)
  then obtain s1 where s1: "K (U_write 1 ?p (of_nat (length ?w))) (m, s) = Inr (0, (m, s1))" "ok m s1" "tx s1 = tx s @ ?w"
    using write_sends [OF Suc.prems(1) w(1), of ?p] w(2) unfolding cstr_bytes [OF c] by blast
  have "unat (of_nat (Suc i) :: u32) = Suc i" "unat (of_nat (length args) :: u32) = length args"
    using i a(2) by (simp_all add: unat_of_nat del: of_nat_Suc)
  then have last: "(of_nat (Suc i) :: u32) <s of_nat (length args) \<longleftrightarrow> Suc i < length args"
    using sless_small [of "of_nat (Suc i)" "of_nat (length args)"] i a(2) by simp
  have "Suc i \<le> length args" "d = length args - Suc i" using Suc.hyps(2) i by simp_all
  note ih = Suc.hyps(1) [OF this(2) _ this(1) w(3)]
  have one: "of_nat i + 1 = (of_nat (Suc i) :: u32)" by simp
  have turn: "echo_loop K lit (of_nat (length args)) argv [i..<length args] (m, s) =
      ubind (if Suc i < length args then ucall K (U_write 1 (lit '' '') 1) (m, s1) else ureturn 0 (m, s1)) (\<lambda>_ st.
      echo_loop K lit (of_nat (length args)) argv [Suc i..<length args] st)"
    using ulib_strlen_loop_cstr [OF c, of 0] s1(1) last
    unfolding step by (simp add: ustrlen_def ulib_strlen_def ureturn_def ucall_def one del: of_nat_Suc)
  show ?case
  proof (cases "Suc i < length args")
    case True
    obtain s2 where s2: "K (U_write 1 (lit '' '') 1) (m, s1) = Inr (0, (m, s2))" "ok m s2" "tx s2 = tx s1 @ [32]"
      using write_byte [OF s1(2) a(3)] by auto
    from True obtain v vs where "drop (Suc i) args = v # vs" by (cases "drop (Suc i) args") auto
    then have "joined (drop i args) = ?w @ [32] @ joined (drop (Suc i) args)" by (simp add: dr)
    then show ?thesis using ih [OF s2(2)] s1(3) s2(1,3) True unfolding turn by (auto simp: ucall_def)
  next
    case False
    then have "joined (drop i args) = ?w" "drop (Suc i) args = []" by (simp_all add: dr)
    then show ?thesis using ih [OF s1(2)] s1(3) False unfolding turn by (auto simp: ureturn_def)
  qed
qed

lemma echo_prints:
  assumes a: "args_at m argv args" "0 < length args" "length args < 2 ^ 31" "m (lit '' '') = 32" "m (lit nl) = 10" and ok: "ok m s"
    and w: "\<forall>w \<in> set (tl args). length w < 1024 \<and> 37 \<notin> set w"
  shows "\<exists>s'. echo_start K lit (of_nat (length args)) argv (m, s) = Some (Inl (m, s')) \<and> ok m s' \<and>
    tx s' = tx s @ joined (tl args) @ [10]"
proof -
  have "unat (of_nat (length args) :: u32) = length args" using a(3) by (simp add: unat_of_nat)
  then have n: "nat (sint (of_nat (length args) :: u32)) = length args" using a(3) by (subst sint_small) (simp_all add: uint_nat)
  from echo_loop_prints [where lit = lit and i = 1, OF a(1,3,4) ok] a(2) w obtain s1 where
    s1: "echo_loop K lit (of_nat (length args)) argv [1..<length args] (m, s) = Some (Inr ((), (m, s1)))" "ok m s1"
      "tx s1 = tx s @ joined (tl args)"
    by (auto simp: drop_Suc Suc_leI)
  from write_byte [OF s1(2) a(5)] obtain s2 where
    "K (U_write 1 (lit nl) 1) (m, s1) = Inr (0, (m, s2))" "ok m s2" "tx s2 = tx s1 @ [10]" by auto
  then show ?thesis using s1 unfolding echo_start_def n by (simp add: ucall_def exit_stays nl_def)
qed

end

end
