(* ===== verification/User_Console.thy ===== *)
theory User_Console
  imports User_Programs Console_Write
begin

text \<open>
  A user program on the kernel of this development: a system call of the program enters \<open>syscall\<close> with its number and
  arguments in the trap frame, and the memory the program sees is the kernel's memory through the page table of the
  process. The programs that only print (\<open>echo\<close>) are covered; the stores of a program are not carried into the frames.
\<close>

section \<open>The stubs\<close>

text \<open>
  A stub of \<open>usys.S\<close> loads the number into \<open>a7\<close> and traps; the C calling convention has put the arguments into \<open>a0\<close> and
  the following registers, an \<open>int\<close> with its sign extended. The trap saves the registers in the trap frame.
\<close>

fun call_regs :: "user_call \<Rightarrow> (nat \<times> u64) list" where
  "call_regs (U_exec path argv) = [(0, path), (1, argv)]"
| "call_regs (U_write fd buf n) = [(0, scast fd), (1, buf), (2, scast n)]"
| "call_regs (U_read fd buf n) = [(0, scast fd), (1, buf), (2, scast n)]"
| "call_regs c = []"

definition ecall :: "nat \<Rightarrow> user_call \<Rightarrow> kernel \<Rightarrow> kernel" where
  "ecall i c k = fold (\<lambda>(r, v). tf_set (trapframe (procs k ! i)) (TF_a r) v) ((7, of_nat (usys c)) # call_regs c) k"

text \<open>The memory of process \<open>i\<close>. Where nothing is mapped for the user an access would fault; the value there is 0.\<close>

definition user_view :: "nat \<Rightarrow> kernel \<Rightarrow> memory" where
  "user_view i k va =
     (case user_addr (ram (mem k)) (pagetable (procs k ! i)) va of None \<Rightarrow> 0 | Some a \<Rightarrow> ram (mem k) a)"

text \<open>
  The system calls of process \<open>i\<close>. \<open>exit\<close> and a call in which the kernel stops do not come back; the state is then the one
  in which the call was made.
\<close>

fun kernel_calls :: "world \<Rightarrow> nat \<Rightarrow> kernel kern" where
  "kernel_calls W i c (m, k) =
     (if c = U_exit then Inl (m, k)
      else case syscall W (ecall i c k) of
        Inl _ \<Rightarrow> Inl (m, k)
      | Inr k' \<Rightarrow> Inr (ucast (tf_get (trapframe (procs k' ! i)) (TF_a 0) k'), (user_view i k', k')))"

section \<open>A process with the console as its output\<close>

text \<open>
  Process \<open>i\<close> runs with descriptor 1 open for writing on something other than a pipe. Its frames hold neither its trap
  frame nor a page table, and the local array \<open>buffer\<close> of \<open>filewrite\<close> (on the kernel stack) overlaps none of the three.
\<close>

definition console_process :: "world \<Rightarrow> nat \<Rightarrow> kernel \<Rightarrow> bool" where
  "console_process W i k \<longleftrightarrow>
     (let p = procs k ! i; m = ram (mem k); tf = trapframe p; buf = l_write_buf W in
      hart_ok (hart k) \<and> cpu_proc (hart k) = Some i \<and> page_aligned tf \<and> pt_wf m (pagetable p) \<and>
      (\<exists>f. ofile p ! 1 = Some f \<and> writable (files k ! f) \<noteq> 0 \<and> ftype (files k ! f) \<noteq> FD_PIPE) \<and>
      pageno tf \<notin> pageno ` tables m (pagetable p) \<and>
      (\<forall>va a. user_addr m (pagetable p) va = Some a \<longrightarrow> pageno a \<noteq> pageno tf \<and> 1024 \<le> unat (a - buf)) \<and>
      (\<forall>x. unat (x - buf) < 1024 \<longrightarrow> pageno x \<noteq> pageno tf \<and> pageno x \<notin> pageno ` tables m (pagetable p)))"

text \<open>The argument array and the strings, with their terminators, are mapped, so that the program does not fault on them.\<close>

definition args_mapped :: "nat \<Rightarrow> kernel \<Rightarrow> u64 \<Rightarrow> u8 list list \<Rightarrow> bool" where
  "args_mapped i k argv args \<longleftrightarrow>
     (let m = ram (mem k); root = pagetable (procs k ! i) in
      mapped m root argv (8 * length args) \<and>
      (\<forall>j < length args. mapped m root (load64 (user_view i k) (argv + 8 * of_nat j)) (Suc (length (args ! j)))))"

text \<open>What the kernel writes during a call leaves such a process and its memory as they are.\<close>

lemma console_process_frame:
  assumes c: "console_process W i k"
    and f: "procs k' = procs k" "files k' = files k" "hart_ok (hart k')" "cpu_proc (hart k') = cpu_proc (hart k)"
    and m: "\<And>x. 1024 \<le> unat (x - l_write_buf W) \<Longrightarrow> pageno x \<noteq> pageno (trapframe (procs k ! i)) \<Longrightarrow> ram (mem k') x = ram (mem k) x"
  shows "console_process W i k'" "user_view i k' = user_view i k"
proof -
  let ?root = "pagetable (procs k ! i)" and ?m = "ram (mem k)" and ?m' = "ram (mem k')"
  note c' = c [unfolded console_process_def Let_def]
  have "agree_on (pageno ` tables ?m ?root) ?m ?m'"
    unfolding agree_on_def
  proof (intro allI impI)
    fix x assume x: "pageno x \<in> pageno ` tables ?m ?root"
    have "pageno (trapframe (procs k ! i)) \<notin> pageno ` tables ?m ?root" using c' by blast
    then have "pageno x \<noteq> pageno (trapframe (procs k ! i))" using x by metis
    moreover have "\<not> unat (x - l_write_buf W) < 1024" using c' x by blast
    ultimately show "?m' x = ?m x" using m [of x] by simp
  qed
  note ag = this
  have wf: "pt_wf ?m ?root" using c' by blast
  then have al: "page_aligned ?root" by (simp add: pt_wf_def)
  note t = pt_wf_agree [OF wf ag] and u = user_addr_agree(1) [OF ag al]
  show "console_process W i k'" using c' f(3) t(1) unfolding console_process_def Let_def f(1,2,4) u t(2) by (elim conjE) (intro conjI)
  show "user_view i k' = user_view i k"
  proof
    fix va
    show "user_view i k' va = user_view i k va"
    proof (cases "user_addr ?m ?root va")
      case None
      then show ?thesis by (simp add: user_view_def f u)
    next
      case (Some a)
      then have "?m' a = ?m a" using c' m by blast
      then show ?thesis using Some by (simp add: user_view_def f u)
    qed
  qed
qed

lemma tf_set_outside:
  assumes "page_aligned tf" "pageno x \<noteq> pageno tf" "idx r"
  shows "ram (mem (tf_set tf (8 * r) v k)) x = ram (mem k) x"
proof -
  have "store64 (tf + of_nat (8 * unat r)) v m x = m x" for m using assms by (intro store_le_page) simp_all
  then show ?thesis by (simp add: tf_set_def on_ram_def)
qed

text \<open>The call of \<open>write\<close> in the trap frame.\<close>

lemma ecall_write:
  assumes c: "console_process W i k" and n: "n < 1024"
  shows "console_process W i (ecall i (U_write 1 a (of_nat n)) k)" "user_view i (ecall i (U_write 1 a (of_nat n)) k) = user_view i k"
    "calls_with (ecall i (U_write 1 a (of_nat n)) k) i 16 1 a (of_nat n)"
    "uart_tx (ecall i (U_write 1 a (of_nat n)) k) = uart_tx k" "procs (ecall i (U_write 1 a (of_nat n)) k) = procs k"
    "files (ecall i (U_write 1 a (of_nat n)) k) = files k"
proof -
  let ?tf = "trapframe (procs k ! i)" and ?n = "scast (of_nat n :: u32) :: u64"
  have al: "page_aligned ?tf" and h: "hart_ok (hart k)" "cpu_proc (hart k) = Some i"
    using c by (simp_all add: console_process_def Let_def)
  have slots: "TF_a 7 = 8 * 21" "TF_a 0 = 8 * 14" "TF_a 1 = 8 * 15" "TF_a 2 = 8 * 16" by (simp_all add: tf_slots)
  have idx: "idx 21" "idx 14" "idx 15" "idx 16" by simp_all
  define k1 where "k1 = ecall i (U_write 1 a (of_nat n)) k"
  have e: "k1 = tf_set ?tf (8 * 16) ?n (tf_set ?tf (8 * 15) a (tf_set ?tf (8 * 14) 1 (tf_set ?tf (8 * 21) 16 k)))"
    using slots by (simp add: k1_def ecall_def)
  have f: "procs k1 = procs k" "files k1 = files k" "hart k1 = hart k" "uart_tx k1 = uart_tx k" by (simp_all add: e tf_set_def)
  have out: "ram (mem k1) x = ram (mem k) x" if "pageno x \<noteq> pageno ?tf" for x
    unfolding e by (simp only: tf_set_outside [OF al that] idx)
  have get: "tf_get ?tf (8 * b) k1 = (if b = 16 then ?n else if b = 15 then a else if b = 14 then 1 else if b = 21 then 16
      else tf_get ?tf (8 * b) k)" if "idx b" for b
    unfolding e using that al idx by (simp only: tf_get_set) auto
  have "ucast ?n = (of_nat n :: u32)" by (rule bit_word_eqI) (simp add: bit_simps)
  then have "calls_with k1 i 16 1 a (of_nat n)"
    using get [of 16] get [of 15] get [of 14] get [of 21] h al unfolding calls_with_def Let_def f slots by simp
  then show "calls_with (ecall i (U_write 1 a (of_nat n)) k) i 16 1 a (of_nat n)" by (simp only: k1_def)
  have "console_process W i k1" "user_view i k1 = user_view i k"
    using h out by (intro console_process_frame [OF c f(1,2)]; simp add: f(3))+
  then show "console_process W i (ecall i (U_write 1 a (of_nat n)) k)" "user_view i (ecall i (U_write 1 a (of_nat n)) k) = user_view i k"
    by (simp_all only: k1_def)
  show "uart_tx (ecall i (U_write 1 a (of_nat n)) k) = uart_tx k" "procs (ecall i (U_write 1 a (of_nat n)) k) = procs k"
    "files (ecall i (U_write 1 a (of_nat n)) k) = files k" using f by (simp_all only: k1_def)
qed

lemma console_process_ready:
  assumes c: "console_process W i k" and n: "n < 1024" and z: "0 \<notin> set (bytes_at (user_view i k) a n)"
  shows "stdout_ready (l_write_buf W) k i a n"
    "user_bytes (ram (mem k)) (pagetable (procs k ! i)) a n = bytes_at (user_view i k) a n"
proof -
  let ?m = "ram (mem k)" and ?root = "pagetable (procs k ! i)"
  note c' = c [unfolded console_process_def Let_def]
  have at: "\<exists>p. user_addr ?m ?root (a + of_nat j) = Some p \<and> user_view i k (a + of_nat j) = ?m p" if "j < n" for j
  proof -
    have "user_view i k (a + of_nat j) \<in> set (bytes_at (user_view i k) a n)" using that by (auto simp: bytes_at_def)
    then have "user_view i k (a + of_nat j) \<noteq> 0" using z by metis
    then show ?thesis by (auto simp: user_view_def split: option.splits)
  qed
  then have "mapped ?m ?root a n" by (fastforce simp: mapped_def)
  moreover have "copyin_safe ?m ?root (l_write_buf W) a n"
    unfolding copyin_safe_def
  proof (intro conjI allI impI)
    fix x assume "unat (x - l_write_buf W) < n"
    then show "pageno x \<notin> pageno ` tables ?m ?root" using c' n by simp
  next
    fix j p assume "user_addr ?m ?root (a + of_nat j) = Some p"
    then have "1024 \<le> unat (p - l_write_buf W)" using c' by blast
    then show "\<not> unat (p - l_write_buf W) < n" using n by simp
  qed
  moreover have "pageno (l_write_buf W + of_nat j) \<noteq> pageno (trapframe (procs k ! i))" if "j \<le> n" for j
  proof -
    have "unat (of_nat j :: u64) = j" using that n by (intro unat_small) simp
    then have "unat (l_write_buf W + of_nat j - l_write_buf W) < 1024" using that n by simp
    then show ?thesis using c' by blast
  qed
  ultimately show "stdout_ready (l_write_buf W) k i a n" using c' n unfolding stdout_ready_def Let_def by blast
  show "user_bytes ?m ?root a n = bytes_at (user_view i k) a n"
  proof (rule nth_equalityI, simp)
    fix j assume "j < length (user_bytes ?m ?root a n)"
    then have j: "j < n" by simp
    with at obtain p where "user_addr ?m ?root (a + of_nat j) = Some p" "user_view i k (a + of_nat j) = ?m p" by blast
    then show "user_bytes ?m ?root a n ! j = bytes_at (user_view i k) a n ! j" using j by (simp add: user_bytes_def user_byte_def)
  qed
qed

section \<open>The kernel as the system of a printing program\<close>

text \<open>The states of such a run: the memory seen is that of the process, and the tables \<open>ps\<close> and \<open>fs\<close> stay.\<close>

definition printing :: "world \<Rightarrow> nat \<Rightarrow> proc list \<Rightarrow> kfile list \<Rightarrow> memory \<Rightarrow> kernel \<Rightarrow> bool" where
  "printing W i ps fs m k \<longleftrightarrow> console_process W i k \<and> m = user_view i k \<and> procs k = ps \<and> files k = fs"

lemma kernel_write:
  assumes p: "printing W i ps fs m k" and n: "n < 1024" and b: "set (bytes_at m a n) \<inter> {0, 37} = {}"
  shows "\<exists>k'. kernel_calls W i (U_write 1 a (of_nat n)) (m, k) = Inr (0, (m, k')) \<and> printing W i ps fs m k' \<and>
    uart_tx k' = uart_tx k @ bytes_at m a n"
proof -
  let ?tf = "trapframe (procs k ! i)"
  note p' = p [unfolded printing_def]
  have c: "console_process W i k" and m: "m = user_view i k" using p' by simp_all
  define k1 where "k1 = ecall i (U_write 1 a (of_nat n)) k"
  note e = ecall_write [OF c n, of a, folded k1_def]
  have z: "0 \<notin> set (bytes_at (user_view i k1) a n)" and q: "37 \<notin> set (bytes_at (user_view i k1) a n)" using b e(2) m by auto
  note r = console_process_ready [OF e(1) n z]
  have tf: "?tf = trapframe (procs k1 ! i)" by (simp add: e(5))
  from console_write [OF e(3) r(1) r(2) [symmetric] q tf] obtain k' where k':
    "syscall W k1 = Inr k'" "uart_tx k' = uart_tx k1 @ takeWhile (\<lambda>b. b \<noteq> 0) (bytes_at (user_view i k1) a n)"
    "tf_get ?tf (TF_a 0) k' = 0" "procs k' = procs k1" "files k' = files k1"
    "k' = k1\<lparr>hart := settled (hart k1), mem := (mem k1)\<lparr>ram := ram (mem k')\<rparr>, uart_tx := uart_tx k'\<rparr>"
    "\<forall>x. n < unat (x - l_write_buf W) \<and> pageno x \<noteq> pageno ?tf \<longrightarrow> ram (mem k') x = ram (mem k1) x" by blast
  have tx: "takeWhile (\<lambda>b. b \<noteq> 0) (bytes_at (user_view i k1) a n) = bytes_at m a n"
    using z e(2) m by (subst takeWhile_eq_all_conv [THEN iffD2]) auto
  have h: "hart k' = settled (hart k1)" using arg_cong [OF k'(6), of hart] by simp
  have hk: "hart_ok (hart k1)" using e(1) by (simp add: console_process_def Let_def)
  have "console_process W i k'" "user_view i k' = user_view i k1"
    using k'(7) n hk by (intro console_process_frame [OF e(1) k'(4,5)]; simp add: h tf)+
  then have "printing W i ps fs m k'" using p' e k'(4,5) by (simp add: printing_def)
  moreover have "kernel_calls W i (U_write 1 a (of_nat n)) (m, k) = Inr (0, (m, k'))"
    using k'(1,3,4) e(2,5) m \<open>user_view i k' = user_view i k1\<close> by (simp add: k1_def [symmetric])
  ultimately show ?thesis using k'(2) tx e(4) by (intro exI [of _ k']) simp
qed

interpretation kernel_console: console_system "kernel_calls W i" uart_tx "printing W i ps fs" for W i ps fs
proof (unfold_locales, goal_cases)
  case (1 m s n a)
  then show ?case by (rule kernel_write)
next
  case (2 st)
  then show ?case by (cases st) simp
qed

end
