(* ===== verification/User_Props.thy ===== *)
theory User_Props
  imports User_Console Example_Write
begin

text \<open>
  The properties of the user programs, each with an instance on a small memory and a small system.
\<close>

section \<open>parsecmd\<close>

text \<open>
  C18: \<open>parsecmd\<close> splits a command line into its words, the reference \<open>words\<close> cutting at spaces, tabs and line ends. It
  returns the number of words, at most one less than \<open>maxarg\<close>; the array holds the address of each word, a
  zero-terminated string with exactly its bytes, and a null pointer behind the last; and no byte outside the line and
  these entries of the array changes.
\<close>

theorem parsecmd_splits_into_words:
  assumes "cstr m cmd cs" "length cs < 2 ^ 31" "mx < 2 ^ 31 - 1" "apart argv (8 * Suc mx) cmd (Suc (length cs))"
    and "ws = take mx (words cs)"
  shows "\<exists>m'. parsecmd cmd argv (of_nat (Suc mx)) m = Some (m', of_nat (length ws)) \<and>
    (\<forall>j < length ws. cstr m' (load64 m' (argv + of_nat (8 * j))) (ws ! j)) \<and>
    load64 m' (argv + of_nat (8 * length ws)) = 0 \<and>
    (\<forall>x. m' x \<noteq> m x \<longrightarrow> unat (x - cmd) < length cs \<or> unat (x - argv) < 8 * Suc (length ws))"
  by (rule parsecmd_words [OF assms])

text \<open>The line \<open>ls -l\<close> with a newline, at 0x1000.\<close>

definition ex_line :: "u8 list" where
  "ex_line = [108, 115, 32, 45, 108, 10]"

lemma ex_words: "words ex_line = [[108, 115], [45, 108]]"
  by code_simp

lemma ex_line_at: "cstr (put_bytes 0x1000 ex_line (\<lambda>_. 0)) 0x1000 ex_line"
  unfolding cstr_nth
proof (intro conjI allI impI)
  fix i assume i: "i < length ex_line"
  then show "put_bytes 0x1000 ex_line (\<lambda>_. 0) (0x1000 + of_nat i) = ex_line ! i" by (intro put_bytes_at) (simp_all add: ex_line_def)
  have "0 \<notin> set ex_line" by (simp add: ex_line_def)
  then show "ex_line ! i \<noteq> 0" using i by (metis nth_mem)
next
  show "put_bytes 0x1000 ex_line (\<lambda>_. 0) (0x1000 + of_nat (length ex_line)) = 0" by (simp add: put_bytes_def ex_line_def)
qed

lemma ex_apart: "apart 0x2000 128 0x1000 100"
  unfolding apart_def
proof (intro allI impI)
  fix i :: nat assume i: "i < 128"
  have "0x2000 + of_nat i - 0x1000 = (of_nat (0x1000 + i) :: u64)" by simp
  then have "unat (0x2000 + of_nat i - 0x1000 :: u64) = 0x1000 + i" using i unat_small [of "0x1000 + i"] by (simp only:) simp
  then show "\<not> unat (0x2000 + of_nat i - 0x1000 :: u64) < 100" by simp
qed

theorem parsecmd_splits_into_words_ex:
  "\<exists>m'. parsecmd 0x1000 0x2000 (of_nat (Suc 15)) (put_bytes 0x1000 ex_line (\<lambda>_. 0)) = Some (m', of_nat (length [[108 :: u8, 115], [45, 108]])) \<and>
    (\<forall>j < length [[108 :: u8, 115], [45, 108]]. cstr m' (load64 m' (0x2000 + of_nat (8 * j))) ([[108, 115], [45, 108]] ! j)) \<and>
    load64 m' (0x2000 + of_nat (8 * length [[108 :: u8, 115], [45, 108]])) = 0 \<and>
    (\<forall>x. m' x \<noteq> put_bytes 0x1000 ex_line (\<lambda>_. 0) x \<longrightarrow>
      unat (x - 0x1000) < length ex_line \<or> unat (x - 0x2000) < 8 * Suc (length [[108 :: u8, 115], [45, 108]]))"
proof (rule parsecmd_splits_into_words [OF ex_line_at])
  show "apart 0x2000 (8 * Suc 15) 0x1000 (Suc (length ex_line))"
    using ex_apart unfolding apart_def ex_line_def by auto
qed (simp_all add: ex_words, simp add: ex_line_def)

section \<open>The shell\<close>

text \<open>
  C13: a turn of the shell runs the command of its line, whatever the write of the prompt returns. The line is what the
  read left in the buffer, up to 99 bytes and the first zero byte. When it has no word, or the first byte behind its blanks
  is a newline, the turn ends without a system call after the read. Otherwise \<open>argv\<close> holds the first fifteen words when
  the shell forks; the child executes the program named by the first word with this array, and is gone when that
  succeeds; the parent waits before the next prompt; and when the fork fails it says so and goes on.
\<close>

theorem shell_runs_the_command:
  assumes "K (U_write 1 (lit ''$ '') 2) (m0, s0) = Inr (rc, (m, s))"
    and "K (U_read 0 buf 100) (m, s) = Inr (of_nat n, (m1, s1))" "0 < n" "n \<le> 100"
    and "cs = takeWhile (\<lambda>c. c \<noteq> 0) (bytes_at m1 buf (min n 99))"
    and "apart argv 128 buf 100" "ws = take 15 (words cs)"
  shows "if words cs = [] \<or> hd (dropWhile (\<lambda>c. c = 32 \<or> c = 9) cs) = 10
    then \<exists>m2. sh_turn K lit buf argv (m0, s0) = Some (Inr ((), (m2, s1)))
    else \<exists>m2. (\<forall>j < length ws. cstr m2 (load64 m2 (argv + of_nat (8 * j))) (ws ! j)) \<and> load64 m2 (argv + of_nat (8 * length ws)) = 0 \<and>
      (\<forall>st s2. K U_fork (m2, s1) = Inr (0, (m2, s2)) \<and> K (U_exec (load64 m2 argv) argv) (m2, s2) = Inl st \<longrightarrow>
        sh_turn K lit buf argv (m0, s0) = Some (Inl st)) \<and>
      (\<forall>pid st. K U_fork (m2, s1) = Inr (pid, st) \<and> 0 <s pid \<longrightarrow>
        sh_turn K lit buf argv (m0, s0) = Some (case K U_wait st of Inl st \<Rightarrow> Inl st | Inr (_, st) \<Rightarrow> Inr ((), st))) \<and>
      (\<forall>pid st. K U_fork (m2, s1) = Inr (pid, st) \<and> pid <s 0 \<longrightarrow> sh_turn K lit buf argv (m0, s0) =
        Some (case K (U_write 1 (lit (''fork failed'' @ nl)) 12) st of Inl st \<Rightarrow> Inl st | Inr (_, st) \<Rightarrow> Inr ((), st)))"
proof (cases "words cs = [] \<or> hd (dropWhile (\<lambda>c. c = 32 \<or> c = 9) cs) = 10")
  case True
  then show ?thesis using sh_turn_words [where K = K and lit = lit, OF assms(1-5) [folded sh_line_def] assms(6)] by simp
next
  case False
  then obtain m2 where m2: "argv_of m2 argv ws" and t: "sh_turn K lit buf argv (m0, s0) = sh_run K lit argv (m2, s1)"
    using sh_turn_words [where K = K and lit = lit, OF assms(1-5) [folded sh_line_def] assms(6)] assms(7) by auto
  have last: "ubind (ucall K c st) (\<lambda>_ st. ureturn () st) = Some (case K c st of Inl st \<Rightarrow> Inl st | Inr (_, st) \<Rightarrow> Inr ((), st))" for c st
    by (simp add: ubind_def ucall_def ureturn_def split: sum.split prod.split)
  have z: "\<not> (0 :: u32) <s 0" by (rule signed.less_irrefl)
  have p: "pid \<noteq> 0 \<and> \<not> pid <s 0" if "0 <s pid" for pid :: u32 using that z signed.less_asym by blast
  have "\<exists>m2. (\<forall>j < length ws. cstr m2 (load64 m2 (argv + of_nat (8 * j))) (ws ! j)) \<and> load64 m2 (argv + of_nat (8 * length ws)) = 0 \<and>
      (\<forall>st s2. K U_fork (m2, s1) = Inr (0, (m2, s2)) \<and> K (U_exec (load64 m2 argv) argv) (m2, s2) = Inl st \<longrightarrow>
        sh_turn K lit buf argv (m0, s0) = Some (Inl st)) \<and>
      (\<forall>pid st. K U_fork (m2, s1) = Inr (pid, st) \<and> 0 <s pid \<longrightarrow>
        sh_turn K lit buf argv (m0, s0) = Some (case K U_wait st of Inl st \<Rightarrow> Inl st | Inr (_, st) \<Rightarrow> Inr ((), st))) \<and>
      (\<forall>pid st. K U_fork (m2, s1) = Inr (pid, st) \<and> pid <s 0 \<longrightarrow> sh_turn K lit buf argv (m0, s0) =
        Some (case K (U_write 1 (lit (''fork failed'' @ nl)) 12) st of Inl st \<Rightarrow> Inl st | Inr (_, st) \<Rightarrow> Inr ((), st)))"
  proof (intro exI [of _ m2] conjI allI impI)
    show "j < length ws \<Longrightarrow> cstr m2 (load64 m2 (argv + of_nat (8 * j))) (ws ! j)" "load64 m2 (argv + of_nat (8 * length ws)) = 0" for j
      using m2 by (simp_all add: argv_of_def)
  next
    fix st s2 assume "K U_fork (m2, s1) = Inr (0, (m2, s2)) \<and> K (U_exec (load64 m2 argv) argv) (m2, s2) = Inl st"
    then show "sh_turn K lit buf argv (m0, s0) = Some (Inl st)" unfolding t sh_run_def by (simp add: ucall_def)
  next
    fix pid st assume "K U_fork (m2, s1) = Inr (pid, st) \<and> 0 <s pid"
    then show "sh_turn K lit buf argv (m0, s0) = Some (case K U_wait st of Inl st \<Rightarrow> Inl st | Inr (_, st) \<Rightarrow> Inr ((), st))"
      unfolding t sh_run_def last using p [of pid] by (simp add: ucall_def ureturn_def split: sum.split)
  next
    fix pid st assume "K U_fork (m2, s1) = Inr (pid, st) \<and> pid <s 0"
    then show "sh_turn K lit buf argv (m0, s0) =
        Some (case K (U_write 1 (lit (''fork failed'' @ nl)) 12) st of Inl st \<Rightarrow> Inl st | Inr (_, st) \<Rightarrow> Inr ((), st))"
      unfolding t sh_run_def last by (simp add: ucall_def)
  qed
  with False show ?thesis by simp
qed

text \<open>
  A system in which the line above has been typed and the caller of \<open>fork\<close> is the child; a write to the console returns 0,
  as in the kernel.
\<close>

fun ex_sys :: "u8 list kern" where
  "ex_sys (U_write fd a n) (m, out) = Inr (0, (m, out @ bytes_at m a (unat n)))"
| "ex_sys (U_read fd buf n) (m, out) = Inr (of_nat 6, (put_bytes buf ex_line m, out))"
| "ex_sys U_fork st = Inr (0, st)"
| "ex_sys c st = Inl st"

lemma ex_sh_line: "takeWhile (\<lambda>c. c \<noteq> 0) (bytes_at (put_bytes 0x1000 ex_line m) 0x1000 (min 6 99)) = ex_line"
proof -
  have "length ex_line = 6" by (simp add: ex_line_def)
  then have "bytes_at (put_bytes 0x1000 ex_line m) 0x1000 (min 6 99) = ex_line"
    by (intro nth_equalityI) (simp_all add: put_bytes_at)
  then show ?thesis by (simp add: ex_line_def)
qed

theorem shell_runs_the_command_ex:
  "\<exists>m2. (\<forall>j < length [[108 :: u8, 115], [45, 108]]. cstr m2 (load64 m2 (0x2000 + of_nat (8 * j))) ([[108, 115], [45, 108]] ! j)) \<and>
    load64 m2 (0x2000 + of_nat (8 * length [[108 :: u8, 115], [45, 108]])) = 0 \<and>
    sh_turn ex_sys (\<lambda>_. 0x3000) 0x1000 0x2000 (\<lambda>_. 0, []) = Some (Inl (m2, bytes_at (\<lambda>_. 0) 0x3000 2))"
proof -
  let ?m1 = "put_bytes 0x1000 ex_line (\<lambda>_. 0)" and ?out = "bytes_at (\<lambda>_. 0) 0x3000 2"
  have w: "ex_sys (U_write 1 ((\<lambda>_. 0x3000) ''$ '') 2) (\<lambda>_. 0, []) = Inr (0, (\<lambda>_. 0, ?out))" by simp
  have r: "ex_sys (U_read 0 0x1000 100) (\<lambda>_. 0, ?out) = Inr (of_nat 6, (?m1, ?out))" by simp
  have l: "\<not> (words ex_line = [] \<or> hd (dropWhile (\<lambda>c. c = 32 \<or> c = 9) ex_line) = 10)"
    by (simp add: ex_words) (simp add: ex_line_def)
  from shell_runs_the_command [where K = ex_sys and lit = "\<lambda>_. 0x3000", OF w r _ _ ex_sh_line [symmetric] ex_apart refl]
  have "\<exists>m2. (\<forall>j < length [[108 :: u8, 115], [45, 108]]. cstr m2 (load64 m2 (0x2000 + of_nat (8 * j))) ([[108, 115], [45, 108]] ! j)) \<and>
      load64 m2 (0x2000 + of_nat (8 * length [[108 :: u8, 115], [45, 108]])) = 0 \<and>
      (\<forall>st s2. ex_sys U_fork (m2, ?out) = Inr (0, (m2, s2)) \<and> ex_sys (U_exec (load64 m2 0x2000) 0x2000) (m2, s2) = Inl st \<longrightarrow>
        sh_turn ex_sys (\<lambda>_. 0x3000) 0x1000 0x2000 (\<lambda>_. 0, []) = Some (Inl st))"
    unfolding if_not_P [OF l] unfolding ex_words by auto
  then show ?thesis by auto
qed

section \<open>echo\<close>

text \<open>
  C31: \<open>echo\<close> on this kernel. In a process whose descriptor 1 is the console, with arguments of less than 1024 bytes
  without a percent sign (which \<open>filewrite\<close> would take as a conversion) that lie in mapped memory with their
  terminators, it ends in its call of \<open>exit\<close>, and by then the UART has received exactly the arguments from the second on,
  one blank between two of them and a newline at the end. Its memory, the process table and the open files are as before.
\<close>

theorem echo_prints_its_arguments:
  assumes "console_process W i k" "m = user_view i k" "args_at m argv args" "args_mapped i k argv args"
    and "0 < length args" "length args < 2 ^ 31" "m (lit '' '') = 32" "m (lit nl) = 10"
    and "\<forall>w \<in> set (tl args). length w < 1024 \<and> 37 \<notin> set w"
  shows "\<exists>k'. echo_start (kernel_calls W i) lit (of_nat (length args)) argv (m, k) = Some (Inl (m, k')) \<and>
    uart_tx k' = uart_tx k @ joined (tl args) @ [10] \<and> user_view i k' = m \<and> procs k' = procs k \<and> files k' = files k"
proof -
  have "printing W i (procs k) (files k) m k" using assms(1,2) by (simp add: printing_def)
  from kernel_console.echo_prints [OF assms(3,5,6,7,8) this assms(9)] show ?thesis by (auto simp: printing_def)
qed

text \<open>The page of process 0 with the array of two arguments at 0, the string \<open>hi\<close> at 16, and the literals behind it.\<close>

definition ex_args :: "u8 list" where
  "ex_args = [0x10, 0, 0, 0, 0, 0, 0, 0, 0x10, 0, 0, 0, 0, 0, 0, 0, 104, 105, 0, 32, 10]"

lemma ex_text_fields [simp]:
  "hart (ex_text_kernel cs) = ex_hart" "uart_tx (ex_text_kernel cs) = []" "trapframe (procs (ex_text_kernel cs) ! 0) = exK"
  "pagetable (procs (ex_text_kernel cs) ! 0) = exR" "ofile (procs (ex_text_kernel cs) ! 0) ! 1 = Some 0"
  "writable (files (ex_text_kernel cs) ! 0) = 1" "ftype (files (ex_text_kernel cs) ! 0) = FD_CONSOLE"
  "ram (mem (ex_text_kernel cs)) = put_bytes exF cs ex_ram"
  by (simp_all add: ex_text_kernel_def) (simp_all add: ex_kernel_def ex_proc_def)

lemma ex_console_process:
  assumes "length cs \<le> 4096"
  shows "console_process ex_stdout_world 0 (ex_text_kernel cs)"
proof -
  note u = ex_text_space [OF assms refl]
  have "pageno a \<noteq> pageno exK \<and> 1024 \<le> unat (a - exC)" if a: "user_addr ex_ram exR va = Some a" for va a
  proof -
    obtain j where j: "j < 4096" "a = exF + of_nat j" using ex_user_page [OF a] by blast
    then have "pageno a = pageno exF" by (simp add: pageno_page_offset)
    moreover have "\<not> unat (exF + of_nat j - exC) < 1024" using j(1) by (intro ex_page_range) simp_all
    ultimately show ?thesis using j(2) by simp (simp add: ex_pages pageno_def)
  qed
  moreover have "pageno x \<noteq> pageno exK \<and> pageno x \<notin> pageno ` {exR, exT1, exT0}" if "unat (x - exC) < 1024" for x
  proof -
    have "unat (x - exC) < 4096" using that by simp
    from pageno_page_offset [OF _ this, of exC] have "pageno x = pageno exC" by simp
    then show ?thesis by simp (simp add: ex_pages pageno_def)
  qed
  moreover have "pageno exK \<notin> pageno ` {exR, exT1, exT0}" by simp (simp add: ex_pages pageno_def)
  ultimately show ?thesis
    unfolding console_process_def Let_def ex_stdout_buf ex_text_fields u(2,3) using u(1) by (auto intro!: exI [of _ 0])
qed

lemma ex_view:
  assumes "length cs \<le> 4096" "j < length cs"
  shows "user_view 0 (ex_text_kernel cs) (of_nat j) = cs ! j" "user_addr (ram (mem (ex_text_kernel cs))) exR (of_nat j) \<noteq> None"
proof -
  have "user_addr ex_ram exR (of_nat j) = Some (exF + of_nat j)" using ex_user_range(1) [of 0 "length cs" j] assms by simp
  then show "user_view 0 (ex_text_kernel cs) (of_nat j) = cs ! j" "user_addr (ram (mem (ex_text_kernel cs))) exR (of_nat j) \<noteq> None"
    using put_bytes_at(1) [of j cs exF ex_ram] assms by (simp_all add: user_view_def ex_text_space [OF assms(1) refl])
qed

theorem echo_prints_its_arguments_ex:
  "\<exists>k'. echo_start (kernel_calls ex_stdout_world 0) (\<lambda>s. if s = nl then 20 else 19) 2 0
      (user_view 0 (ex_text_kernel ex_args), ex_text_kernel ex_args) = Some (Inl (user_view 0 (ex_text_kernel ex_args), k')) \<and>
    uart_tx k' = [104, 105, 10]"
proof -
  let ?k = "ex_text_kernel ex_args" and ?m = "user_view 0 (ex_text_kernel ex_args)" and ?args = "[[104 :: u8, 105], [104, 105]]"
  have len: "length ex_args = 21" by (simp add: ex_args_def)
  have v: "?m (of_nat j) = put_bytes 0 ex_args (\<lambda>_. 0) (of_nat j)" "user_addr (ram (mem ?k)) exR (of_nat j) \<noteq> None" if "j < 21" for j
    using ex_view [of ex_args j] put_bytes_at(1) [of j ex_args 0] that len by simp_all
  have ld: "load64 ?m (of_nat a) = load64 (put_bytes 0 ex_args (\<lambda>_. 0)) (of_nat a)" if "a + 8 \<le> 21" for a
    using v(1) that by (intro load_le_cong) (simp only: of_nat_add [symmetric])
  have "load64 (put_bytes 0 ex_args (\<lambda>_. 0)) 0 = 0x10" "load64 (put_bytes 0 ex_args (\<lambda>_. 0)) 8 = 0x10" by code_simp+
  then have l: "load64 ?m 0 = 0x10" "load64 ?m 8 = 0x10" using ld [of 0] ld [of 8] by simp_all
  have b: "?m 16 = 104" "?m 17 = 105" "?m 18 = 0" "?m 19 = 32" "?m 20 = 10"
    using ex_view(1) [of ex_args 16] ex_view(1) [of ex_args 17] ex_view(1) [of ex_args 18] ex_view(1) [of ex_args 19]
      ex_view(1) [of ex_args 20] len by (simp_all add: ex_args_def)
  have "cstr ?m 0x10 [104, 105]" using b by simp
  then have at: "args_at ?m 0 ?args" using l by (auto simp: args_at_def less_Suc_eq)
  have "mapped (ram (mem ?k)) exR 0 16" "mapped (ram (mem ?k)) exR 0x10 3"
    using v(2) [of j for j] v(2) [of "16 + j" for j] by (auto simp: mapped_def)
  then have mp: "args_mapped 0 ?k 0 ?args" using l by (auto simp: args_mapped_def Let_def less_Suc_eq numeral_3_eq_3)
  have ne: "'' '' \<noteq> nl" by code_simp
  have "length ex_args \<le> 4096" using len by simp
  from echo_prints_its_arguments [where lit = "\<lambda>s. if s = nl then 20 else 19", OF ex_console_process [OF this] refl at mp] b ne
  show ?thesis by auto
qed

end
