(* ===== verification/Spec2Isabelle.thy ===== *)
theory Spec2Isabelle
  imports Memory_Props Device_Props Storage_Props Kernel_Props Process_Props Program_Table Boot User_Props
begin

text \<open>
  A verification library for the WHU teaching operating system, a small RISC-V kernel in the style of
  xv6: physical pages, Sv39 page tables, processes with a round-robin scheduler, system calls through a
  trampoline, a console on a UART, pipes, and the first layers of a file system.

  \<^bold>\<open>The program.\<close> \<open>kernel/boot/start.c\<close> prepares the machine and returns into \<open>start_main\<close>
  (\<open>main.c\<close>), which sets up console, allocator, kernel page table, traps and process table, makes the
  first process and enters the scheduler. A process enters the kernel through \<open>usertrap\<close> (\<open>trap.c\<close>),
  which dispatches system calls (\<open>syscall.c\<close>, \<open>sysproc.c\<close>, \<open>sysfile.c\<close>) and interrupts. The calls
  work on the process table (\<open>proc.c\<close>), on open files, the console and pipes (\<open>file.c\<close>, \<open>console.c\<close>,
  \<open>pipe.c\<close>), and move data across the user boundary by the copies of \<open>vm.c\<close>, which walk the page
  tables that \<open>kalloc.c\<close> and \<open>uvm.c\<close> provide for. \<open>bio.c\<close> and \<open>fs.c\<close>, which reads through \<open>bio.c\<close>, are not called
  by the rest. The programs under \<open>user/\<close> are linked into the kernel as the images of \<open>user_bin.c\<close>.

  \<^bold>\<open>The state.\<close> RAM is a function from 64-bit addresses to bytes, with the free list of \<open>kalloc.c\<close> threaded
  through it (the record \<^typ>\<open>phys\<close>). The global variables of the kernel, the hart and the two sides of
  the UART are the fields of the record \<open>kernel\<close> in \<open>Kernel_State\<close>; a pointer to an element of a global
  array is its index, a pointer into RAM is an address. Integers are words of their width in C, so \<open>+\<close>
  wraps where the machine does. A function that can stop returns a sum: the left side is a panic with
  its text, a null dereference, an access outside a local array, or a loop that does not end
  (\<open>Kernel_Prelude\<close>). What the C sources leave open is the record \<open>world\<close>: the addresses of assembly
  entry points, of local arrays and of the embedded programs, the context switch, and what the keyboard
  and other processes do while a loop waits. The disk driver is an argument of the block cache.

  \<^bold>\<open>The theories.\<close>
  \<^item> \<open>Kernel_Prelude\<close>, \<open>Memlayout\<close>, \<open>Kmem\<close>: outcomes and words; the constants and address arithmetic of
    \<open>memlayout.h\<close>, \<open>riscv.h\<close>, \<open>param.h\<close>; bytes and words in memory with the routines of \<open>string.c\<close>.
  \<^item> \<open>Kalloc\<close>: the page allocator. Its locale \<open>page_allocator\<close> states what a client may rely on and is
    interpreted on \<open>kalloc\<close> and \<open>kfree\<close>.
  \<^item> \<open>Vm\<close>, \<open>Page_Table\<close>, \<open>Map_Pages\<close>, \<open>Free_Walk\<close>: the routines of \<open>vm.c\<close>, the tree of tables as a partial
    function from virtual pages to PTEs, and what \<open>walk\<close>, \<open>mappages\<close> and \<open>freewalk\<close> do to it.
  \<^item> \<open>Copy_User\<close>: \<open>copyin\<close>, \<open>copyout\<close> and \<open>copyinstr\<close> against the view the user has of memory.
  \<^item> \<open>Uvm\<close>: \<open>uvmcreate\<close>, \<open>uvmunmap\<close> and \<open>uvmcopy\<close> of \<open>uvm.c\<close>.
  \<^item> \<open>Table_Steps\<close>, \<open>Kernel_Map\<close>: the single writes of \<open>mappages\<close> as a step relation and what they
    keep, how many tables a set of ranges needs; the table \<open>kvmininit\<close> builds, for which
    72 pages are enough.
  \<^item> \<open>Spinlock\<close>: \<open>push_off\<close>, \<open>pop_off\<close>, \<open>acquire\<close>, \<open>release\<close>; the locale \<open>critical_section\<close>, interpreted on
    the spinlock.
  \<^item> \<open>Kernel_State\<close>: the records of \<open>proc.h\<close>, \<open>file.h\<close> and the global state.
  \<^item> \<open>Ring_Buffer\<close>: the locale \<open>ring\<close> of rings indexed by free-running 32-bit counters, interpreted for
    the console (128 bytes) and for pipes (512).
  \<^item> \<open>Console\<close>, \<open>Console_Queue\<close>: \<open>console.c\<close> and \<open>uart.c\<close>; the input ring as a queue that
    \<open>console_intr\<close> fills and \<open>console_read\<close> empties, by refinement to \<open>queue_read\<close>.
  \<^item> \<open>File_Pipe\<close>, \<open>Pipe_Queue\<close>, \<open>Pipe_Calls\<close>: \<open>file.c\<close> and \<open>pipe.c\<close>; a pipe as a queue of bytes in its page,
    through every cut of a copy at the end of the ring or of a user page.
  \<^item> \<open>Machine\<close>: the register accessors of \<open>riscv.h\<close>, \<open>start.c\<close> and \<open>kvminithart\<close>.
  \<^item> \<open>Process\<close>, \<open>Process_Table\<close>: \<open>proc.c\<close>; the table at rest and under a lock, the turns of the scheduler,
    the states in which it and the processes hand over to each other, and reaping.
  \<^item> \<open>Process_Space\<close>: the pages a process owns, and that \<open>freeproc\<close> and \<open>wait\<close> give back all of them.
  \<^item> \<open>Process_Create\<close>, \<open>Process_Fork\<close>: \<open>allocproc\<close> and \<open>fork\<close> composed from the specifications of the memory
    routines: the slot taken, its stack, trap frame and page table, and the copy of the image.
  \<^item> \<open>Byte_Strings\<close>, \<open>Exec_Stack\<close>, \<open>Process_Exec\<close>: strings as bytes of memory; the arguments on the new stack,
    each aligned to 16 bytes below the one before with the array of pointers under them; \<open>exec\<close>, which
    unmaps the old image, maps the program and its stack and sets the registers.
  \<^item> \<open>Process_Memory\<close>: which process owns which page, as an invariant of the step relation \<open>life_step\<close> of
    forks, execs, reaping waits and changes of status. A fork with a free slot and one to eight free pages, or
    without two file slots, is not a step: there the code loses pages or goes through a null pointer.
  \<^item> \<open>Syscall\<close>, \<open>Trap\<close>, \<open>Trap_Frame\<close>: the system calls, \<open>trap.c\<close> and \<open>forkret\<close>; the saved registers as
    slots of the trap frame, the way back to user mode, and \<open>getpid\<close> from trap to return.
  \<^item> \<open>Console_Write\<close>: a \<open>write\<close> to the console from the dispatch through \<open>filewrite\<close>, \<open>copyin\<close> and \<open>printf\<close> to
    the UART.
  \<^item> \<open>Boot\<close>: the order of \<open>start_main\<close>. \<open>Program_Table\<close>: the table of \<open>user_bin.c\<close> and the search in it by name.
  \<^item> \<open>Shell\<close>, \<open>Shell_Words\<close>, \<open>User_Programs\<close>: the string routines of \<open>ulib.c\<close>, the parser of \<open>user/sh.c\<close> against
    a reference that cuts a line at blanks, and the loop of the shell and the other programs over a
    parameter that answers system calls; the locale \<open>console_system\<close> states what \<open>echo\<close> asks of it.
  \<^item> \<open>User_Console\<close>: the stubs of \<open>usys.S\<close> over \<open>syscall\<close>, on which \<open>console_system\<close> is interpreted: the memory of a program
    that only prints is the kernel's memory seen through its page table, and its writes reach the UART.
  \<^item> \<open>Buffer_Cache\<close>, \<open>Cache_Steps\<close>, \<open>File_System\<close>: \<open>bio.c\<close> as a list in order of release behind the links,
    the states its clients can reach and their coherence with the disk, and \<open>fs.c\<close>.
  \<^item> \<open>Inode_Read\<close>: \<open>bmap\<close>, \<open>readi\<close> and \<open>dirlookup\<close> as clients of the cache that give back every buffer they take.
  \<^item> \<open>Memory_Props\<close>, \<open>Device_Props\<close>, \<open>Storage_Props\<close>, \<open>Kernel_Props\<close>, \<open>Process_Props\<close>, \<open>User_Props\<close>: the
    properties, each with an instance on the states of \<open>Example_Space\<close>, \<open>Example_Kernel\<close>, \<open>Example_Fork\<close>,
    \<open>Example_Exec\<close> and \<open>Example_Write\<close>.

  \<^bold>\<open>Loops and bounds.\<close> Every loop that ends is a total function with its measure; the walk over a C string and
  over the links of the cache are partial functions whose missing value is the loop that does not end.
  Waiting loops (\<open>console_read\<close>, \<open>piperead\<close>, \<open>kwait\<close>) run over a list of what happens elsewhere between
  two turns; when the list is used up and the loop still waits, it hangs. \<open>scheduler\<close> and \<open>start_main\<close>
  cut the endless loop of the scheduler after a number of passes, which is arbitrary in the theorems.
  \<open>freewalk\<close> recurses over the three levels of a table.

  \<^bold>\<open>Assumptions.\<close> One hart runs, as \<open>NCPU\<close> says, so a lock found taken by another hart is a loop that does not
  end. The theorems on the scheduler assume of the context switch that the processes hand the
  processor back with their lock held and one level of interrupts off (\<open>processes_return\<close>); that
  \<open>yield\<close> and \<open>exit\<close> switch in such states is a theorem. Those on the cache assume that the driver moves
  one block (\<open>driver_ok\<close>); those on the inode layer also that one buffer is free and no reference count is at
  its end (\<open>cache_room\<close>). Those on \<open>exec\<close> assume that the arguments and the program lie outside the pages it
  writes (\<open>exec_ready\<close>). Copies assume that source and destination do not overlap page tables or each
  other (\<open>copyin_safe\<close>, \<open>copyout_safe\<close>). The negation of the least \<open>int\<close> in \<open>printint\<close> and the overflow
  of \<open>noff\<close>, undefined in C, wrap and do not occur, respectively.

  \<^bold>\<open>Not modelled.\<close> The assembly files (entry, context switch, trap vectors, trampoline), whose addresses and
  effects are parameters; \<open>uart_init\<close>, which only programs the device; the translation cache, so
  \<open>sfence.vma\<close> has no effect; the generated images of the user programs; the effect of a user program's own stores on the
  frames (the programs run on a memory of their own; only for those that do not store is it tied to the kernel's); functions that \<open>defs.h\<close> declares
  and no file defines, among them most of the inode layer. The context saved in \<open>struct cpu\<close> is part of what the context switch does.
\<close>

end
